(* ===== verification/Prelude.thy ===== *)
theory Prelude
  imports Main "HOL-Library.Word" "HOL-Library.AList"
begin

text \<open>
  The prelude of the picante development: names for the machine types of the Rust code,
  association tables that stand for its hash maps (\<open>im::HashMap\<close>, \<open>DashMap\<close>, \<open>std HashMap\<close>),
  list-based sets with the same reading, the byte-level codecs of the serialisation
  library as a record of functions, and the number printing of \<open>format!\<close>.

  A hash map iterates in an unspecified order. A table is an association list, so every
  model state carries one particular order; the theorems quantify over the state and
  so hold for every order.
\<close>

named_theorems table_simps \<open>lookup after table updates\<close>
named_theorems model_defs \<open>one-step definitions that every proof of a component may unfold\<close>

subsection \<open>Machine types\<close>

type_synonym u8 = "8 word"
type_synonym u32 = "32 word"
type_synonym u64 = "64 word"
type_synonym bytes = "u8 list"

lemma less_word_succ: "(x :: 'a::len word) \<noteq> - 1 \<Longrightarrow> y < x + 1 \<longleftrightarrow> y \<le> x"
  using inc_less_eq_iff [of x y] by (auto simp: not_le [symmetric])

lemma not_max_word_unat: "(x :: 'a::len word) \<noteq> - 1 \<longleftrightarrow> unat x + 1 < 2 ^ LENGTH('a)"
proof -
  have "unat (- 1 :: 'a word) = 2 ^ LENGTH('a) - 1" by (simp add: unsigned_minus_1_eq_mask mask_eq_exp_minus_1)
  then have "x = - 1 \<longleftrightarrow> unat x = 2 ^ LENGTH('a) - 1" by (metis word_unat_eq_iff)
  moreover have "unat x < 2 ^ LENGTH('a)" by simp
  ultimately show ?thesis by linarith
qed

subsection \<open>Tables: hash maps with an explicit iteration order\<close>

type_synonym ('k, 'v) table = "('k \<times> 'v) list"

abbreviation tget :: "('k, 'v) table \<Rightarrow> 'k \<Rightarrow> 'v option" where
  "tget \<equiv> map_of"

definition tinsert :: "'k \<Rightarrow> 'v \<Rightarrow> ('k, 'v) table \<Rightarrow> ('k, 'v) table" where
  "tinsert k v t = AList.update k v t"

definition tremove :: "'k \<Rightarrow> ('k, 'v) table \<Rightarrow> ('k, 'v) table" where
  "tremove k t = filter (\<lambda>e. fst e \<noteq> k) t"

abbreviation tkeys :: "('k, 'v) table \<Rightarrow> 'k list" where
  "tkeys t \<equiv> map fst t"

definition twf :: "('k, 'v) table \<Rightarrow> bool" where
  "twf t \<longleftrightarrow> distinct (tkeys t)"

lemma tget_tinsert [simp, table_simps]: "tget (tinsert k v t) = (tget t)(k \<mapsto> v)"
  by (simp add: tinsert_def update_conv')

lemma tget_tremove [simp, table_simps]: "tget (tremove k t) = (tget t)(k := None)"
  by (induction t) (auto simp: tremove_def fun_eq_iff)

lemma twf_Nil [simp]: "twf []"
  by (simp add: twf_def)

lemma twf_tinsert [simp, intro]: "twf t \<Longrightarrow> twf (tinsert k v t)"
  by (simp add: twf_def tinsert_def distinct_update)

lemma twf_tremove [simp, intro]: "twf t \<Longrightarrow> twf (tremove k t)"
  by (simp add: twf_def tremove_def distinct_map_filter)

lemma twf_tget_iff: "twf t \<Longrightarrow> tget t k = Some v \<longleftrightarrow> (k, v) \<in> set t"
  by (simp add: twf_def)

lemma map_eqI: "(\<And>k v. f k = Some v \<longleftrightarrow> g k = Some v) \<Longrightarrow> f = g"
  by (rule ext) (metis option.exhaust)

lemma twf_same_set:
  assumes "twf t" "twf u" "set u = set t"
  shows "tget u = tget t"
  by (rule map_eqI) (simp add: twf_tget_iff assms)

lemma tkeys_tinsert: "set (tkeys (tinsert k v t)) = insert k (set (tkeys t))"
  by (simp add: tinsert_def dom_update)

lemma tkeys_dom: "set (tkeys t) = dom (tget t)"
  by (simp add: dom_map_of_conv_image_fst)

lemma length_tinsert:
  "length (tinsert k v t) = (if k \<in> set (tkeys t) then length t else Suc (length t))"
  by (induction t) (auto simp: tinsert_def)

lemma length_tremove_present:
  "twf t \<Longrightarrow> k \<in> set (tkeys t) \<Longrightarrow> Suc (length (tremove k t)) = length t"
proof (induction t)
  case Nil
  then show ?case by simp
next
  case (Cons e t)
  show ?case
  proof (cases "fst e = k")
    case True
    with Cons.prems have "\<forall>x \<in> set t. fst x \<noteq> k"
      by (auto simp: twf_def rev_image_eqI)
    then have "tremove k t = t" by (auto simp: tremove_def filter_id_conv)
    with True show ?thesis by (simp add: tremove_def)
  next
    case False
    with Cons show ?thesis by (auto simp: tremove_def twf_def)
  qed
qed

lemma tinsert_fresh: "k \<notin> set (tkeys t) \<Longrightarrow> tinsert k v t = t @ [(k, v)]"
  by (induction t) (auto simp: tinsert_def)

lemma set_tinsert:
  "twf t \<Longrightarrow> set (tinsert k v t) = {e \<in> set t. fst e \<noteq> k} \<union> {(k, v)}"
proof (induction t)
  case Nil
  then show ?case by (simp add: tinsert_def)
next
  case (Cons e t)
  then show ?case by (cases e) (auto simp: tinsert_def twf_def image_iff)
qed

text \<open>
  The contract a hash map offers its clients, and what follows from it alone. Every store
  of the model (input entries, memo cells, intern tables, the dependency graph, the shared
  cache) is such a dictionary.
\<close>

locale dictionary =
  fixes look :: "'m \<Rightarrow> 'k \<Rightarrow> 'v option"
    and ins :: "'k \<Rightarrow> 'v \<Rightarrow> 'm \<Rightarrow> 'm"
    and del :: "'k \<Rightarrow> 'm \<Rightarrow> 'm"
  assumes look_ins: "look (ins k v m) k' = (if k' = k then Some v else look m k')"
    and look_del: "look (del k m) k' = (if k' = k then None else look m k')"
begin

lemma look_ins_same: "look (ins k v m) k = Some v"
  by (simp add: look_ins)

lemma look_ins_other: "k' \<noteq> k \<Longrightarrow> look (ins k v m) k' = look m k'"
  by (simp add: look_ins)

lemma last_write_wins: "look (ins k v2 (ins k v1 m)) = look (ins k v2 m)"
  by (rule ext) (simp add: look_ins)

lemma look_foldr_ins:
  "look (foldr (\<lambda>(k, v). ins k v) kvs m) k' =
     (case map_of kvs k' of Some v \<Rightarrow> Some v | None \<Rightarrow> look m k')"
  by (induction kvs) (auto simp: look_ins)

lemma look_fold_ins_notin:
  "k' \<notin> fst ` set kvs \<Longrightarrow> look (fold (\<lambda>(k, v). ins k v) kvs m) k' = look m k'"
  by (induction kvs arbitrary: m) (auto simp: look_ins)

lemma look_fold_ins:
  "distinct (map fst kvs) \<Longrightarrow>
   look (fold (\<lambda>(k, v). ins k v) kvs m) k' =
     (case map_of kvs k' of Some v \<Rightarrow> Some v | None \<Rightarrow> look m k')"
proof (induction kvs arbitrary: m)
  case Nil
  then show ?case by simp
next
  case (Cons e kvs)
  obtain k v where e: "e = (k, v)" by (cases e)
  show ?case
  proof (cases "k' = k")
    case True
    with Cons.prems e have "k' \<notin> fst ` set kvs" by simp
    then show ?thesis
      using True e by (simp add: look_fold_ins_notin look_ins)
  next
    case False
    with Cons e show ?thesis by (simp add: look_ins split: option.split)
  qed
qed

end

interpretation tab: dictionary "tget" "tinsert" "tremove"
  by unfold_locales auto

subsection \<open>Sets kept as duplicate-free lists\<close>

definition sinsert :: "'a \<Rightarrow> 'a list \<Rightarrow> 'a list" where
  "sinsert x xs = (if x \<in> set xs then xs else xs @ [x])"

lemma set_sinsert [simp]: "set (sinsert x xs) = insert x (set xs)"
  by (auto simp: sinsert_def)

lemma distinct_sinsert [simp, intro]: "distinct xs \<Longrightarrow> distinct (sinsert x xs)"
  by (auto simp: sinsert_def)

lemma sinsert_nonempty [simp]: "sinsert x xs \<noteq> []"
  by (auto simp: sinsert_def)

subsection \<open>Codecs: the serialisation library\<close>

text \<open>
  \<open>facet_postcard::to_vec\<close> and \<open>facet_postcard::from_slice\<close> at one type. The library is not
  part of the repository, so its two functions are parameters of the model; the error
  side carries the text the code formats into its own error. The only law the code relies on
  is that decoding an encoded value gives the value back.
\<close>

record 'a codec =
  enc :: "'a \<Rightarrow> string + bytes"
  dec :: "bytes \<Rightarrow> string + 'a"

definition lawful :: "'a codec \<Rightarrow> bool" where
  "lawful c \<longleftrightarrow> (\<forall>x b. enc c x = Inr b \<longrightarrow> dec c b = Inr x)"

lemma lawfulD: "lawful c \<Longrightarrow> enc c x = Inr b \<Longrightarrow> dec c b = Inr x"
  by (simp add: lawful_def)

lemma lawful_inj: "lawful c \<Longrightarrow> enc c x = Inr b \<Longrightarrow> enc c y = Inr b \<Longrightarrow> x = y"
  using lawfulD [of c x b] lawfulD [of c y b] by simp

subsection \<open>The question mark\<close>

text \<open>\<open>m?\<close> followed by the rest of the function: an error leaves the function.\<close>

definition rbind :: "'e + 'a \<Rightarrow> ('a \<Rightarrow> 'e + 'b) \<Rightarrow> 'e + 'b" where
  "rbind m k = (case m of Inl e \<Rightarrow> Inl e | Inr a \<Rightarrow> k a)"

lemma rbind_simps [simp]: "rbind (Inl e) k = Inl e" "rbind (Inr a) k = k a"
  by (simp_all add: rbind_def)

lemma rbind_Inr: "rbind m k = Inr b \<longleftrightarrow> (\<exists>a. m = Inr a \<and> k a = Inr b)"
  by (cases m) auto

subsection \<open>Monadic traversal of a list with early exit\<close>

text \<open>A \<open>for\<close> loop whose body uses \<open>?\<close>: the first error leaves the loop.\<close>

fun mapM :: "('a \<Rightarrow> 'e + 'b) \<Rightarrow> 'a list \<Rightarrow> 'e + 'b list" where
  "mapM f [] = Inr []"
| "mapM f (x # xs) =
     (case f x of Inl e \<Rightarrow> Inl e
      | Inr y \<Rightarrow> (case mapM f xs of Inl e \<Rightarrow> Inl e | Inr ys \<Rightarrow> Inr (y # ys)))"

lemma mapM_Inr_iff: "mapM f xs = Inr ys \<longleftrightarrow> list_all2 (\<lambda>x y. f x = Inr y) xs ys"
proof (induction xs arbitrary: ys)
  case Nil
  then show ?case by auto
next
  case (Cons x xs)
  show ?case
    by (cases "f x"; cases "mapM f xs")
       (simp_all add: list_all2_Cons1 flip: Cons.IH, auto)
qed

lemma mapM_Inr_total: "(\<And>x. x \<in> set xs \<Longrightarrow> \<exists>y. f x = Inr y) \<Longrightarrow> \<exists>ys. mapM f xs = Inr ys"
proof (induction xs)
  case Nil
  then show ?case by simp
next
  case (Cons x xs)
  then obtain y ys where "f x = Inr y" "mapM f xs = Inr ys" by fastforce
  then show ?case by simp
qed

subsection \<open>Number printing\<close>

definition digit_char :: "nat \<Rightarrow> char" where
  "digit_char d = (if d < 10 then char_of (48 + d) else char_of (87 + d))"

fun digits_in :: "nat \<Rightarrow> nat \<Rightarrow> string" where
  "digits_in b n = (if b < 2 \<or> n < b then [digit_char n]
                    else digits_in b (n div b) @ [digit_char (n mod b)])"

declare digits_in.simps [simp del]

text \<open>\<open>{}\<close> of an unsigned integer, \<open>{:x}\<close> and \<open>{:016x}\<close>.\<close>

definition show_nat :: "nat \<Rightarrow> string" where
  "show_nat n = digits_in 10 n"

definition show_hex :: "nat \<Rightarrow> string" where
  "show_hex n = digits_in 16 n"

definition show_hex16 :: "nat \<Rightarrow> string" where
  "show_hex16 n = (let s = show_hex n in replicate (16 - length s) CHR ''0'' @ s)"

lemma digits_in_nonempty: "digits_in b n \<noteq> []"
  by (subst digits_in.simps) simp

lemma length_digits_in: "1 < b \<Longrightarrow> n < b ^ Suc k \<Longrightarrow> length (digits_in b n) \<le> Suc k"
proof (induction k arbitrary: n)
  case 0
  then show ?case by (subst digits_in.simps) simp
next
  case (Suc k)
  show ?case
  proof (cases "n < b")
    case True
    then show ?thesis by (subst digits_in.simps) simp
  next
    case False
    have "n div b < b ^ Suc k"
      using Suc.prems by (simp add: less_mult_imp_div_less mult.commute)
    then have "length (digits_in b (n div b)) \<le> Suc k"
      using Suc by simp
    with False Suc.prems show ?thesis
      by (subst digits_in.simps) simp
  qed
qed

lemma length_show_hex16: "n < 2 ^ 64 \<Longrightarrow> length (show_hex16 n) = 16"
  using length_digits_in [of 16 n 15] by (simp add: show_hex16_def Let_def show_hex_def)

end
