(* ===== verification/Keys.thy ===== *)
theory Keys
  imports Prelude
begin

unbundle bit_operations_syntax

text \<open>
  Revisions (\<open>revision.rs\<close>) and query keys (\<open>key.rs\<close>): the newtypes \<open>Revision\<close>,
  \<open>QueryKindId\<close>, the FNV-1a hash behind macro-generated kind ids, the encoded \<open>Key\<close> with its
  cached hash, and the erased \<open>DynKey\<close> and \<open>Dep\<close>.

  The theorems: the hash loop is the fold of the published FNV-1a step and is injective in
  its seed, so a common suffix neither creates nor removes a collision; equality of
  keys by bytes agrees with structural equality on every key the module can build, which is
  why the rest of the development may use keys as map keys; equal keys hash alike.
\<close>

subsection \<open>Revisions\<close>

datatype Revision = Revision (rev_u64: u64)

instantiation Revision :: linorder
begin

definition less_eq_Revision :: "Revision \<Rightarrow> Revision \<Rightarrow> bool" where
  "less_eq_Revision a b \<longleftrightarrow> rev_u64 a \<le> rev_u64 b"

definition less_Revision :: "Revision \<Rightarrow> Revision \<Rightarrow> bool" where
  "less_Revision a b \<longleftrightarrow> rev_u64 a < rev_u64 b"

instance
  by intro_classes (auto simp: less_eq_Revision_def less_Revision_def Revision.expand)

end

lemma Revision_le [simp]: "Revision a \<le> Revision b \<longleftrightarrow> a \<le> b"
  by (simp add: less_eq_Revision_def)

lemma Revision_less [simp]: "Revision a < Revision b \<longleftrightarrow> a < b"
  by (simp add: less_Revision_def)

lemma Revision0_le [simp]: "Revision 0 \<le> r"
  by (cases r) simp

lemma Revision_less0 [simp]: "\<not> r < Revision 0"
  by (simp add: not_less)

subsection \<open>Kind identifiers and their hash\<close>

datatype QueryKindId = QueryKindId (as_u32: u32)

definition FNV_OFFSET :: u32 where
  "FNV_OFFSET = 0x811c9dc5"

definition FNV_PRIME :: u32 where
  "FNV_PRIME = 0x01000193"

text \<open>A Rust \<open>&str\<close> is its UTF-8 bytes; a HOL character is one byte.\<close>

definition as_bytes :: "string \<Rightarrow> bytes" where
  "as_bytes s = map of_char s"

function from_str_loop :: "bytes \<Rightarrow> nat \<Rightarrow> u32 \<Rightarrow> u32" where
  "from_str_loop bs i hash =
     (if i < length bs
      then from_str_loop bs (i + 1) ((hash XOR ucast (bs ! i)) * FNV_PRIME)
      else hash)"
  by pat_completeness auto
termination
  by (relation "measure (\<lambda>(bs, i, hash). length bs - i)") auto

declare from_str_loop.simps [simp del]

definition from_str :: "string \<Rightarrow> QueryKindId" where
  "from_str s = QueryKindId (from_str_loop (as_bytes s) 0 FNV_OFFSET)"

text \<open>The published algorithm, as a fold over the bytes.\<close>

definition fnv1a_step :: "u32 \<Rightarrow> u8 \<Rightarrow> u32" where
  "fnv1a_step hash b = (hash XOR ucast b) * FNV_PRIME"

definition fnv1a :: "u32 \<Rightarrow> bytes \<Rightarrow> u32" where
  "fnv1a h bs = foldl fnv1a_step h bs"

lemma from_str_loop_fold: "from_str_loop bs i h = fnv1a h (drop i bs)"
proof (induction bs i h rule: from_str_loop.induct)
  case (1 bs i h)
  show ?case
  proof (cases "i < length bs")
    case True
    then have "drop i bs = bs ! i # drop (Suc i) bs"
      by (simp add: Cons_nth_drop_Suc)
    with True "1.IH" show ?thesis
      by (subst from_str_loop.simps) (simp add: fnv1a_def fnv1a_step_def)
  next
    case False
    then show ?thesis
      by (subst from_str_loop.simps) (simp add: fnv1a_def)
  qed
qed

text \<open>The prime is odd, so multiplying by it can be undone modulo \<open>2 ^ 32\<close>.\<close>

lemma FNV_PRIME_inverse: "x * FNV_PRIME * 0x359c449b = x"
proof -
  have "FNV_PRIME * 0x359c449b = 1"
    by (simp add: FNV_PRIME_def)
  then show ?thesis
    by (metis mult.assoc mult.right_neutral)
qed

lemma fnv1a_step_inj: "fnv1a_step h b = fnv1a_step h' b \<longleftrightarrow> h = h'"
proof
  assume "fnv1a_step h b = fnv1a_step h' b"
  then have "h XOR ucast b = h' XOR ucast b"
    unfolding fnv1a_step_def by (metis FNV_PRIME_inverse)
  then have "(h XOR ucast b) XOR ucast b = (h' XOR ucast b) XOR ucast b"
    by simp
  then show "h = h'"
    by (simp add: xor.assoc)
qed simp

lemma fnv1a_inj: "fnv1a h bs = fnv1a h' bs \<longleftrightarrow> h = h'"
  by (induction bs arbitrary: h h') (auto simp: fnv1a_def fnv1a_step_inj)

lemma fnv1a_append: "fnv1a h (as @ bs) = fnv1a (fnv1a h as) bs"
  by (simp add: fnv1a_def)

text \<open>
  The kind id of a string is the 32-bit FNV-1a fold over its UTF-8 bytes.
\<close>
theorem from_str_is_fnv1a:
  "as_u32 (from_str s) = foldl (\<lambda>h b. (h XOR ucast b) * 0x01000193) 0x811c9dc5 (as_bytes s)"
  by (simp add: from_str_def from_str_loop_fold fnv1a_def fnv1a_step_def [abs_def]
      FNV_OFFSET_def FNV_PRIME_def)

text \<open>
  Two names that differ only before a common suffix collide exactly when the
  differing prefixes collide already: the kinds \<open>P::keys\<close> and \<open>Q::keys\<close> generated for two
  inputs share an id only if \<open>P\<close> and \<open>Q\<close> do.
\<close>
theorem from_str_suffix_collision:
  "from_str (p @ s) = from_str (q @ s) \<longleftrightarrow> from_str p = from_str q"
  by (simp add: from_str_def from_str_loop_fold as_bytes_def fnv1a_append fnv1a_inj)

subsection \<open>Encoded keys\<close>

text \<open>
  \<open>Key\<close> holds the encoded bytes and a hash computed once. \<open>stable_hash\<close> is the standard
  library's \<open>DefaultHasher\<close>, whose algorithm its documentation leaves open; it enters the
  model as a parameter \<open>sh\<close>, a function of the bytes.
\<close>

record Key =
  key_bytes :: bytes
  key_hash :: u64

type_synonym hasher = "bytes \<Rightarrow> u64"

definition from_bytes :: "hasher \<Rightarrow> bytes \<Rightarrow> Key" where
  "from_bytes sh bs = \<lparr>key_bytes = bs, key_hash = sh bs\<rparr>"

definition key_len :: "Key \<Rightarrow> nat" where
  "key_len k = length (key_bytes k)"

definition key_is_empty :: "Key \<Rightarrow> bool" where
  "key_is_empty k \<longleftrightarrow> key_bytes k = []"

text \<open>\<open>PartialEq for Key\<close> compares the bytes; \<open>Hash for Key\<close> feeds the cached hash.\<close>

definition key_eq :: "Key \<Rightarrow> Key \<Rightarrow> bool" where
  "key_eq a b \<longleftrightarrow> key_bytes a = key_bytes b"

definition key_hash_input :: "Key \<Rightarrow> u64" where
  "key_hash_input k = key_hash k"

text \<open>The fields are private: every key comes out of \<open>from_bytes\<close>.\<close>

definition wf_key :: "hasher \<Rightarrow> Key \<Rightarrow> bool" where
  "wf_key sh k \<longleftrightarrow> k = from_bytes sh (key_bytes k)"

lemma wf_key_from_bytes [simp, intro]: "wf_key sh (from_bytes sh bs)"
  by (simp add: wf_key_def from_bytes_def)

lemma key_bytes_from_bytes [simp]: "key_bytes (from_bytes sh bs) = bs"
  by (simp add: from_bytes_def)

lemma key_hash_from_bytes [simp]: "key_hash (from_bytes sh bs) = sh bs"
  by (simp add: from_bytes_def)

lemma from_bytes_inj [simp]: "from_bytes sh a = from_bytes sh b \<longleftrightarrow> a = b"
  by (auto simp: from_bytes_def)

record DynKey =
  dk_kind :: QueryKindId
  dk_key :: Key

record Dep =
  dep_kind :: QueryKindId
  dep_key :: Key

text \<open>The erased key a dependency points at (the \<open>DynKey\<close> literals built from a \<open>Dep\<close>).\<close>

definition dep_dyn :: "Dep \<Rightarrow> DynKey" where
  "dep_dyn d = \<lparr>dk_kind = dep_kind d, dk_key = dep_key d\<rparr>"

definition dyn_dep :: "DynKey \<Rightarrow> Dep" where
  "dyn_dep q = \<lparr>dep_kind = dk_kind q, dep_key = dk_key q\<rparr>"

text \<open>Concrete keys for the witnesses.\<close>

definition demo_key :: "u32 \<Rightarrow> u8 \<Rightarrow> DynKey" where
  "demo_key k b = \<lparr>dk_kind = QueryKindId k, dk_key = from_bytes (\<lambda>_. 0) [b]\<rparr>"

lemma demo_key_inj [simp]: "demo_key k b = demo_key k' b' \<longleftrightarrow> k = k' \<and> b = b'"
  by (auto simp: demo_key_def)

lemma dk_kind_demo_key [simp]: "dk_kind (demo_key k b) = QueryKindId k"
  by (simp add: demo_key_def)

lemma dep_dyn_dyn_dep [simp]: "dep_dyn (dyn_dep q) = q"
  by (simp add: dep_dyn_def dyn_dep_def)

lemma dyn_dep_dep_dyn [simp]: "dyn_dep (dep_dyn d) = d"
  by (simp add: dep_dyn_def dyn_dep_def)

lemma dep_dyn_inj [simp]: "dep_dyn a = dep_dyn b \<longleftrightarrow> a = b"
  by (metis dyn_dep_dep_dyn)

lemma dyn_dep_inj [simp]: "dyn_dep a = dyn_dep b \<longleftrightarrow> a = b"
  by (metis dep_dyn_dyn_dep)

lemma inj_dep_dyn: "inj dep_dyn"
  by (simp add: inj_def)

text \<open>
  On keys built by the module, \<open>==\<close> (byte equality) is structural equality, and equal
  keys feed equal hashes to a hash table (the \<open>Eq\<close>/\<open>Hash\<close> contract).
\<close>
theorem key_eq_structural:
  "key_eq (from_bytes sh a) (from_bytes sh b) = (from_bytes sh a = from_bytes sh b)
   \<and> (if key_eq (from_bytes sh a) (from_bytes sh b)
      then key_hash_input (from_bytes sh a) = key_hash_input (from_bytes sh b) else a \<noteq> b)"
  by (simp add: key_eq_def key_hash_input_def)

end
