(* ===== verification/Errors.thy ===== *)
theory Errors
  imports Keys
begin

text \<open>
  \<open>error.rs\<close>: the error type with the source's variants, its \<open>Display\<close> text, and the result
  type \<open>PicanteResult\<close> as a sum with the error on the left. \<open>key.rs\<close>'s fallible
  conversions \<open>encode_facet\<close> and \<open>decode_facet\<close> are here too, because they return these errors.
\<close>

datatype PicanteError =
    Cycle (cyc_requested: DynKey) (cyc_stack: "DynKey list")
  | Encode (err_what: string) (err_message: string)
  | Decode (err_what: string) (err_message: string)
  | Cache (err_message: string)
  | MissingInternedValue (mis_kind: QueryKindId) (mis_id: u32)
  | MissingInputValue (mis_kind: QueryKindId) (mis_key_hash: u64)
  | Panic (err_message: string)

type_synonym 'a PicanteResult = "PicanteError + 'a"

subsection \<open>Display\<close>

text \<open>The arrows of the cycle report, as the UTF-8 bytes of U+2192 and U+2190.\<close>

definition arrow_right :: string where
  "arrow_right = [char_of (0xE2::nat), char_of (0x86::nat), char_of (0x92::nat)]"

definition arrow_left :: string where
  "arrow_left = [char_of (0xE2::nat), char_of (0x86::nat), char_of (0x90::nat)]"

definition newline :: string where
  "newline = [char_of (10::nat)]"

definition fmt_dyn_key :: "DynKey \<Rightarrow> string" where
  "fmt_dyn_key q =
     ''  '' @ arrow_right @ '' kind_'' @ show_nat (unat (as_u32 (dk_kind q)))
     @ '', key_'' @ show_hex16 (unat (key_hash (dk_key q)))"

fun fmt_stack :: "nat \<Rightarrow> DynKey list \<Rightarrow> string" where
  "fmt_stack i [] = []"
| "fmt_stack i (q # qs) =
     fmt_dyn_key q @ (if i = 0 then ''  (initial)'' @ newline else newline) @ fmt_stack (i + 1) qs"

fun fmt_error :: "PicanteError \<Rightarrow> string" where
  "fmt_error (Cycle requested stack) =
     ''dependency cycle detected'' @ newline @ fmt_stack 0 stack
     @ fmt_dyn_key requested @ ''  '' @ arrow_left @ '' cycle (already in stack)''"
| "fmt_error (Encode what message) = ''encode '' @ what @ '' failed: '' @ message"
| "fmt_error (Decode what message) = ''decode '' @ what @ '' failed: '' @ message"
| "fmt_error (Cache message) = ''cache error: '' @ message"
| "fmt_error (MissingInternedValue kind i) =
     ''missing interned value (kind '' @ show_nat (unat (as_u32 kind)) @ '', id ''
     @ show_nat (unat i) @ '')''"
| "fmt_error (MissingInputValue kind h) =
     ''missing input value (kind '' @ show_nat (unat (as_u32 kind)) @ '', key ''
     @ show_hex16 (unat h) @ '')''"
| "fmt_error (Panic message) = ''query panicked: '' @ message"

definition newlines :: "string \<Rightarrow> nat" where
  "newlines s = length (filter (\<lambda>c. c = char_of (10::nat)) s)"

lemma newlines_append [simp]: "newlines (s @ t) = newlines s + newlines t"
  by (simp add: newlines_def)

lemma newlines_newline [simp]: "newlines newline = 1"
  by (simp add: newlines_def newline_def)

lemma digit_char_not_newline: "d < 16 \<Longrightarrow> digit_char d \<noteq> char_of (10::nat)"
proof -
  assume "d < 16"
  then have "d \<in> set [0..<16]" by simp
  moreover have "list_all (\<lambda>d. digit_char d \<noteq> char_of (10::nat)) [0..<16]"
    by code_simp
  ultimately show ?thesis by (simp add: list_all_iff)
qed

lemma newlines_digits_in: "b \<le> 16 \<Longrightarrow> 2 \<le> b \<Longrightarrow> newlines (digits_in b n) = 0"
proof (induction b n rule: digits_in.induct)
  case (1 b n)
  show ?case
  proof (cases "n < b")
    case True
    with 1 show ?thesis
      by (subst digits_in.simps) (simp add: newlines_def digit_char_not_newline)
  next
    case False
    have "n mod b < b" using 1 by simp
    then have "n mod b < 16" using 1 by linarith
    with 1 False show ?thesis
      by (subst digits_in.simps) (simp add: newlines_def digit_char_not_newline)
  qed
qed

lemma newlines_show_nat [simp]: "newlines (show_nat n) = 0"
  by (simp add: show_nat_def newlines_digits_in)

lemma newlines_replicate_0: "newlines (replicate n CHR ''0'') = 0"
  by (simp add: newlines_def char_of_def)

lemma newlines_show_hex16 [simp]: "newlines (show_hex16 n) = 0"
  by (simp add: show_hex16_def Let_def show_hex_def newlines_digits_in newlines_replicate_0)

lemma newlines_fmt_dyn_key [simp]: "newlines (fmt_dyn_key q) = 0"
proof -
  have "newlines arrow_right = 0" "newlines ''  '' = 0" "newlines '' kind_'' = 0"
    "newlines '', key_'' = 0"
    by code_simp+
  then show ?thesis
    unfolding fmt_dyn_key_def newlines_append by simp
qed

lemma newlines_fmt_stack: "newlines (fmt_stack i qs) = length qs"
proof (induction i qs rule: fmt_stack.induct)
  case (1 i)
  show ?case by (simp add: newlines_def)
next
  case (2 i q qs)
  have "newlines ''  (initial)'' = 0" by code_simp
  with 2 show ?case
    unfolding fmt_stack.simps newlines_append by (simp only: newlines_append split: if_split) simp
qed

text \<open>
  The report of a dependency cycle has one line for the header, one for every frame of the
  stack and a last, unterminated line for the query that closes the cycle.
\<close>
theorem fmt_cycle_lines:
  "newlines (fmt_error (Cycle requested stack)) = Suc (length stack)"
proof -
  have "newlines ''dependency cycle detected'' = 0" "newlines ''  '' = 0"
    "newlines arrow_left = 0" "newlines '' cycle (already in stack)'' = 0"
    by code_simp+
  then show ?thesis
    unfolding fmt_error.simps newlines_append by (simp add: newlines_fmt_stack)
qed

subsection \<open>Encoding and decoding keys\<close>

definition encode_facet :: "hasher \<Rightarrow> 'a codec \<Rightarrow> 'a \<Rightarrow> Key PicanteResult" where
  "encode_facet sh c v =
     (case enc c v of
        Inl m \<Rightarrow> Inl (Encode ''key'' m)
      | Inr bs \<Rightarrow> Inr (from_bytes sh bs))"

definition decode_facet :: "'a codec \<Rightarrow> Key \<Rightarrow> 'a PicanteResult" where
  "decode_facet c k =
     (case dec c (key_bytes k) of
        Inl m \<Rightarrow> Inl (Decode ''key'' m)
      | Inr v \<Rightarrow> Inr v)"

lemma encode_facet_Inr_iff:
  "encode_facet sh c v = Inr k \<longleftrightarrow> (\<exists>bs. enc c v = Inr bs \<and> k = from_bytes sh bs)"
  by (auto simp: encode_facet_def split: sum.splits)

definition total_codec :: "'a codec \<Rightarrow> bool" where
  "total_codec c \<longleftrightarrow> (\<forall>x. \<exists>b. enc c x = Inr b)"

lemma encode_facet_total:
  "total_codec c \<Longrightarrow> encode_facet sh c k = Inr (projr (encode_facet sh c k))"
  by (metis encode_facet_Inr_iff sum.sel(2) total_codec_def)

lemma encode_facet_wf: "encode_facet sh c v = Inr k \<Longrightarrow> wf_key sh k"
  by (auto simp: encode_facet_Inr_iff)

lemma decode_encode_facet:
  "lawful c \<Longrightarrow> encode_facet sh c v = Inr k \<Longrightarrow> decode_facet c k = Inr v"
  by (auto simp: encode_facet_Inr_iff decode_facet_def dest: lawfulD)

lemma encode_facet_inj:
  "lawful c \<Longrightarrow> encode_facet sh c v = Inr k \<Longrightarrow> encode_facet sh c v' = Inr k \<Longrightarrow> v = v'"
  using decode_encode_facet [of c sh v k] decode_encode_facet [of c sh v' k] by simp

text \<open>A codec for one-byte values, used by the witnesses: \<open>u8\<close> as a single byte.\<close>

definition byte_codec :: "u8 codec" where
  "byte_codec = \<lparr>enc = (\<lambda>b. Inr [b]),
                 dec = (\<lambda>bs. case bs of [b] \<Rightarrow> Inr b | _ \<Rightarrow> Inl ''bad length'')\<rparr>"

lemma lawful_byte_codec [simp]: "lawful byte_codec"
  by (simp add: lawful_def byte_codec_def)

text \<open>
  A key decodes to the value it was encoded from, and only that value encodes to it.
\<close>
theorem key_codec_roundtrip:
  assumes "lawful c" and "encode_facet sh c v = Inr k"
  shows "decode_facet c k = Inr v
         \<and> (\<forall>v'. encode_facet sh c v' = Inr k \<longrightarrow> v' = v)"
  using assms decode_encode_facet encode_facet_inj by metis

theorem key_codec_roundtrip_witness:
  "decode_facet byte_codec (from_bytes (\<lambda>_. 7) [42]) = Inr 42"
proof -
  have "encode_facet (\<lambda>_. 7) byte_codec 42 = Inr (from_bytes (\<lambda>_. 7) [42])"
    by (simp add: encode_facet_def byte_codec_def)
  then show ?thesis
    using key_codec_roundtrip [OF lawful_byte_codec] by blast
qed

end
