(* ===== verification/Frames.thy ===== *)
theory Frames
  imports Errors
begin

text \<open>
  \<open>frame.rs\<close>: the task-local stack of query frames. \<open>ActiveFrameHandle\<close> is an \<open>Arc\<close>, so a handle
  stays usable after its frame left the stack: frames live in a store and the stack holds
  handles. \<open>ACTIVE_STACK\<close> is \<open>None\<close> outside \<open>ACTIVE_STACK.scope\<close>; its last element is the
  currently running query.

  The theorems: a cycle is reported exactly when the requested key is on the stack, with the
  whole stack; a well-nested evaluation attributes every read to the query that made it and
  leaves the stack as it found it; two evaluations interleaved on one task (\<open>join!\<close>) do not.
\<close>

record ActiveFrame =
  fr_key :: DynKey
  fr_started :: Revision
  fr_deps :: "Dep list"

type_synonym handle = nat

record task =
  frames :: "ActiveFrame list"
  active_stack :: "handle list option"

definition task0 :: task where
  "task0 = \<lparr>frames = [], active_stack = None\<rparr>"

subsection \<open>Operations\<close>

definition frame_new :: "DynKey \<Rightarrow> Revision \<Rightarrow> task \<Rightarrow> handle \<times> task" where
  "frame_new q r t =
     (length (frames t),
      t\<lparr>frames := frames t @ [\<lparr>fr_key = q, fr_started = r, fr_deps = []\<rparr>]\<rparr>)"

definition take_deps :: "handle \<Rightarrow> task \<Rightarrow> Dep list \<times> task" where
  "take_deps h t =
     (if h < length (frames t)
      then (fr_deps (frames t ! h),
            t\<lparr>frames := (frames t)[h := (frames t ! h)\<lparr>fr_deps := []\<rparr>]\<rparr>)
      else ([], t))"

definition push_frame :: "handle \<Rightarrow> task \<Rightarrow> task" where
  "push_frame h t =
     (case active_stack t of
        None \<Rightarrow> t
      | Some s \<Rightarrow> t\<lparr>active_stack := Some (s @ [h])\<rparr>)"

text \<open>\<open>Drop for FrameGuard\<close>, with the guard's \<open>popped\<close> flag; the flag after the drop is \<open>True\<close>.\<close>

definition drop_guard :: "bool \<Rightarrow> task \<Rightarrow> bool \<times> task" where
  "drop_guard popped t =
     (if popped then (True, t)
      else (True,
            case active_stack t of
              None \<Rightarrow> t
            | Some s \<Rightarrow> t\<lparr>active_stack := Some (butlast s)\<rparr>))"

abbreviation pop_frame :: "task \<Rightarrow> task" where
  "pop_frame t \<equiv> snd (drop_guard False t)"

text \<open>\<open>scope_if_needed\<close> and \<open>scope_if_needed_boxed\<close>: run \<open>f\<close> with a stack.\<close>

definition scope_if_needed :: "(task \<Rightarrow> 'r \<times> task) \<Rightarrow> task \<Rightarrow> 'r \<times> task" where
  "scope_if_needed f t =
     (case active_stack t of
        Some _ \<Rightarrow> f t
      | None \<Rightarrow> (case f (t\<lparr>active_stack := Some []\<rparr>) of (r, t') \<Rightarrow> (r, t'\<lparr>active_stack := None\<rparr>)))"

definition has_active_frame :: "task \<Rightarrow> bool" where
  "has_active_frame t \<longleftrightarrow> (case active_stack t of None \<Rightarrow> False | Some s \<Rightarrow> s \<noteq> [])"

definition add_dep :: "Dep \<Rightarrow> handle \<Rightarrow> ActiveFrame list \<Rightarrow> ActiveFrame list" where
  "add_dep d h fs = fs[h := (fs ! h)\<lparr>fr_deps := fr_deps (fs ! h) @ [d]\<rparr>]"

definition record_dep :: "Dep \<Rightarrow> task \<Rightarrow> task" where
  "record_dep d t =
     (case active_stack t of
        None \<Rightarrow> t
      | Some s \<Rightarrow> (if s = [] then t else t\<lparr>frames := add_dep d (last s) (frames t)\<rparr>))"

definition find_cycle :: "DynKey \<Rightarrow> task \<Rightarrow> DynKey list option" where
  "find_cycle requested t =
     (case active_stack t of
        None \<Rightarrow> None
      | Some s \<Rightarrow>
          (let ks = map (\<lambda>h. fr_key (frames t ! h)) s
           in if requested \<in> set ks then Some ks else None))"

subsection \<open>Facts\<close>

definition stack_keys :: "task \<Rightarrow> DynKey list" where
  "stack_keys t =
     (case active_stack t of None \<Rightarrow> [] | Some s \<Rightarrow> map (\<lambda>h. fr_key (frames t ! h)) s)"

text \<open>Every handle on the stack is the index of a frame.\<close>

definition wf_task :: "task \<Rightarrow> bool" where
  "wf_task t \<longleftrightarrow>
     (case active_stack t of
        None \<Rightarrow> True
      | Some s \<Rightarrow> distinct s \<and> (\<forall>h \<in> set s. h < length (frames t)))"

lemma wf_task0 [simp]: "wf_task task0"
  by (simp add: wf_task_def task0_def)

lemma length_add_dep [simp]: "length (add_dep d h fs) = length fs"
  by (simp add: add_dep_def)

lemma fr_key_add_dep [simp]: "h < length fs \<Longrightarrow> fr_key (add_dep d h fs ! i) = fr_key (fs ! i)"
  by (cases "i = h") (simp_all add: add_dep_def)

lemma fr_deps_add_dep:
  "h < length fs \<Longrightarrow>
   fr_deps (add_dep d h fs ! i) = (if i = h then fr_deps (fs ! h) @ [d] else fr_deps (fs ! i))"
  by (simp add: add_dep_def)

lemma find_cycle_None: "find_cycle q t = None \<longleftrightarrow> q \<notin> set (stack_keys t)"
  by (auto simp: find_cycle_def stack_keys_def Let_def split: option.splits)

lemma find_cycle_Some: "find_cycle q t = Some ks \<longleftrightarrow> q \<in> set (stack_keys t) \<and> ks = stack_keys t"
  by (auto simp: find_cycle_def stack_keys_def Let_def split: option.splits)

lemma record_dep_stack [simp]: "active_stack (record_dep d t) = active_stack t"
  by (simp add: record_dep_def split: option.split)

lemma length_frames_record_dep [simp]: "length (frames (record_dep d t)) = length (frames t)"
  by (simp add: record_dep_def split: option.split)

lemma wf_task_record_dep [simp]: "wf_task t \<Longrightarrow> wf_task (record_dep d t)"
  by (simp add: wf_task_def split: option.splits)

lemma stack_keys_record_dep [simp]: "wf_task t \<Longrightarrow> stack_keys (record_dep d t) = stack_keys t"
  by (auto simp: stack_keys_def record_dep_def wf_task_def split: option.splits)

text \<open>
  A cycle is reported exactly when the requested key is already being computed on this task,
  and the report is the whole stack, outermost query first.
\<close>
theorem find_cycle_iff:
  "find_cycle q t =
     (if q \<in> set (stack_keys t) then Some (stack_keys t) else None)"
  by (simp add: find_cycle_Some find_cycle_None)

subsection \<open>Well-nested evaluations\<close>

text \<open>
  What one evaluation does to the stack: direct reads (\<open>record_dep\<close>), and nested queries, which
  record themselves in the caller's frame, then run under a frame of their own that is pushed and
  popped around them (\<open>access_scoped_erased\<close>).
\<close>

datatype activity = Read Dep | Call DynKey Revision "activity list"

fun run_activity :: "activity \<Rightarrow> task \<Rightarrow> task"
  and run_activities :: "activity list \<Rightarrow> task \<Rightarrow> task" where
  "run_activity (Read d) t = record_dep d t"
| "run_activity (Call q r as) t =
     (let (h, t1) = frame_new q r (record_dep (dyn_dep q) t);
          t2 = run_activities as (push_frame h t1)
      in pop_frame (snd (take_deps h t2)))"
| "run_activities [] t = t"
| "run_activities (a # as) t = run_activities as (run_activity a t)"

fun direct_reads :: "activity list \<Rightarrow> Dep list" where
  "direct_reads [] = []"
| "direct_reads (Read d # as) = d # direct_reads as"
| "direct_reads (Call q r bs # as) = dyn_dep q # direct_reads as"

definition same_below :: "handle list \<Rightarrow> handle \<Rightarrow> Dep list \<Rightarrow> task \<Rightarrow> task \<Rightarrow> bool" where
  "same_below s h ds t t' \<longleftrightarrow>
     active_stack t' = Some (s @ [h]) \<and> length (frames t) \<le> length (frames t')
     \<and> (\<forall>i < length (frames t). i \<noteq> h \<longrightarrow> frames t' ! i = frames t ! i)
     \<and> frames t' ! h = (frames t ! h)\<lparr>fr_deps := fr_deps (frames t ! h) @ ds\<rparr>"

lemma same_below_refl:
  "active_stack t = Some (s @ [h]) \<Longrightarrow> same_below s h [] t t"
  by (simp add: same_below_def)

lemma same_below_trans:
  assumes "same_below s h ds t u" "same_below s h es u v" "h < length (frames t)"
  shows "same_below s h (ds @ es) t v"
  using assms by (auto simp: same_below_def)

lemma same_below_record:
  assumes "active_stack t = Some (s @ [h])" "h < length (frames t)"
  shows "same_below s h [d] t (record_dep d t)"
  using assms by (simp add: same_below_def record_dep_def add_dep_def)

lemma same_below_call:
  assumes t: "active_stack t = Some (s @ [h])" "h < length (frames t)"
    and t1: "frame_new q r (record_dep (dyn_dep q) t) = (k, t1)"
    and body: "same_below (s @ [h]) k ds (push_frame k t1) t2"
  shows "same_below s h [dyn_dep q] t (pop_frame (snd (take_deps k t2)))"
proof -
  have k: "k = length (frames t)" and st1: "active_stack t1 = Some (s @ [h])"
    and f1: "frames t1 = add_dep (dyn_dep q) h (frames t) @ [\<lparr>fr_key = q, fr_started = r, fr_deps = []\<rparr>]"
    using t t1 by (auto simp: frame_new_def record_dep_def)
  have fp: "frames (push_frame k t1) = frames t1"
    using st1 by (simp add: push_frame_def)
  have st2: "active_stack t2 = Some (s @ [h, k])" and len2: "length (frames t1) \<le> length (frames t2)"
    and same: "\<And>i. i < length (frames t) \<Longrightarrow> frames t2 ! i = add_dep (dyn_dep q) h (frames t) ! i"
    using body f1 k fp by (auto simp: same_below_def nth_append)
  have take: "active_stack (snd (take_deps k t2)) = Some (s @ [h, k])"
    "length (frames (snd (take_deps k t2))) = length (frames t2)"
    "\<And>i. i < length (frames t) \<Longrightarrow> frames (snd (take_deps k t2)) ! i = frames t2 ! i"
    using st2 k by (auto simp: take_deps_def)
  show ?thesis
    unfolding same_below_def
    using take t same len2 f1 k
    by (auto simp: drop_guard_def add_dep_def butlast_append)
qed

lemma run_activity_same_below:
  "active_stack t = Some (s @ [h]) \<Longrightarrow> h < length (frames t) \<Longrightarrow>
   same_below s h (direct_reads [a]) t (run_activity a t)"
  "active_stack t = Some (s @ [h]) \<Longrightarrow> h < length (frames t) \<Longrightarrow>
   same_below s h (direct_reads as) t (run_activities as t)"
proof (induction a t and as t arbitrary: s h and s h rule: run_activity_run_activities.induct)
  case (1 d t)
  then show ?case by (simp add: same_below_record)
next
  case (2 q r as t)
  obtain k t1 where kt: "frame_new q r (record_dep (dyn_dep q) t) = (k, t1)"
    by (cases "frame_new q r (record_dep (dyn_dep q) t)")
  then have "active_stack t1 = Some (s @ [h])" "k < length (frames t1)"
    using 2 by (auto simp: frame_new_def)
  then have "active_stack (push_frame k t1) = Some ((s @ [h]) @ [k])"
    "k < length (frames (push_frame k t1))"
    by (simp_all add: push_frame_def)
  from 2(1) [OF kt [symmetric] refl this] kt 2 show ?case
    by (simp add: same_below_call)
next
  case (3 t)
  then show ?case by (simp add: same_below_refl)
next
  case (4 a as t)
  have step: "same_below s h (direct_reads [a]) t (run_activity a t)"
    using 4 by blast
  then have "active_stack (run_activity a t) = Some (s @ [h])"
    "h < length (frames (run_activity a t))"
    using 4 by (auto simp: same_below_def)
  then have "same_below s h (direct_reads as) (run_activity a t) (run_activities as (run_activity a t))"
    using 4 by blast
  with step have "same_below s h (direct_reads [a] @ direct_reads as) t (run_activities (a # as) t)"
    using 4 same_below_trans by auto
  then show ?case by (cases a) auto
qed

text \<open>
  A well-nested evaluation under a frame records exactly its own direct reads in that frame, in
  order (reads made by nested queries go to their frames), leaves every older frame alone, and
  gives the stack back as it was.
\<close>
theorem nested_evaluation_attributes_reads:
  assumes "active_stack t = Some s"
  shows "case frame_new q r t of (h, t1) \<Rightarrow>
           (let t2 = run_activities as (push_frame h t1)
            in fst (take_deps h t2) = direct_reads as
               \<and> active_stack (pop_frame (snd (take_deps h t2))) = Some s
               \<and> (\<forall>i < length (frames t). frames t2 ! i = frames t ! i))"
proof -
  obtain h t1 where ht: "frame_new q r t = (h, t1)" by (cases "frame_new q r t")
  let ?t2 = "run_activities as (push_frame h t1)"
  have h: "h = length (frames t)" "active_stack t1 = Some s"
    "frames t1 = frames t @ [\<lparr>fr_key = q, fr_started = r, fr_deps = []\<rparr>]"
    using ht assms by (auto simp: frame_new_def)
  then have p: "active_stack (push_frame h t1) = Some (s @ [h])" "frames (push_frame h t1) = frames t1"
    by (simp_all add: push_frame_def)
  then have "same_below s h (direct_reads as) (push_frame h t1) ?t2"
    using h by (intro run_activity_same_below) auto
  then show ?thesis
    using ht h p
    by (auto simp: same_below_def Let_def take_deps_def drop_guard_def nth_append)
qed

theorem nested_evaluation_attributes_reads_witness:
  "case frame_new (demo_key 1 1) (Revision 1) (task0\<lparr>active_stack := Some []\<rparr>) of (h, t1) \<Rightarrow>
     fst (take_deps h (run_activities
            [Read (dyn_dep (demo_key 2 1)), Call (demo_key 3 1) (Revision 1) [Read (dyn_dep (demo_key 2 2))]]
            (push_frame h t1)))
     = [dyn_dep (demo_key 2 1), dyn_dep (demo_key 3 1)]"
  using nested_evaluation_attributes_reads
    [where t = "task0\<lparr>active_stack := Some []\<rparr>" and s = "[]" and q = "demo_key 1 1"
      and r = "Revision 1" and as = "[Read (dyn_dep (demo_key 2 1)),
        Call (demo_key 3 1) (Revision 1) [Read (dyn_dep (demo_key 2 2))]]"]
  by (simp add: Let_def del: run_activities.simps split: prod.splits)

subsection \<open>Interleaved evaluations on one task\<close>

text \<open>
  The stack is per task, not per evaluation. When a query \<open>a\<close> suspends and a sibling \<open>b\<close>,
  polled by the same task (\<open>join!\<close>), starts before \<open>a\<close> resumes, a read of \<open>a\<close> lands in the
  frame of \<open>b\<close>: \<open>a\<close> ends with no recorded dependency. A second request for \<open>a\<close> from the same
  task is reported as a cycle although nothing depends on itself.
\<close>
theorem joined_evaluations_misattribute:
  assumes "active_stack t = Some s"
  shows "case frame_new a r t of (ha, t1) \<Rightarrow>
         case frame_new b r (push_frame ha t1) of (hb, t2) \<Rightarrow>
           (let suspended = push_frame hb t2; resumed = record_dep d suspended
            in fst (take_deps ha resumed) = []
               \<and> fst (take_deps hb resumed) = [d]
               \<and> find_cycle a (push_frame ha t1) \<noteq> None)"
  using assms
  by (auto simp: frame_new_def push_frame_def record_dep_def take_deps_def add_dep_def
      find_cycle_Some find_cycle_None stack_keys_def nth_append)

theorem joined_evaluations_misattribute_witness:
  "case frame_new (demo_key 1 1) (Revision 1) (task0\<lparr>active_stack := Some []\<rparr>) of (ha, t1) \<Rightarrow>
     find_cycle (demo_key 1 1) (push_frame ha t1) \<noteq> None"
  using joined_evaluations_misattribute
    [where t = "task0\<lparr>active_stack := Some []\<rparr>" and s = "[]" and a = "demo_key 1 1"
      and r = "Revision 1" and b = "demo_key 1 2" and d = "dyn_dep (demo_key 2 1)"]
  by (simp add: Let_def split: prod.splits)

end
