(* ===== verification/Runtimes.thy ===== *)
theory Runtimes
  imports Errors
begin

text \<open>
  \<open>runtime.rs\<close>: runtime identities and cache scopes, the revision counter, the event channel and
  the dependency graph with its reverse edges, and the breadth-first invalidation walk.

  An atomic integer is a field of the record (the concurrent part of \<open>mark_divergent\<close> is a step
  relation at the end). A \<open>watch\<close> channel is its last value, a \<open>broadcast\<close> channel the list of
  the events sent; sends never fail the caller. A \<open>DashSet\<close> is a duplicate-free list.
\<close>

subsection \<open>Identities, events, state\<close>

datatype RuntimeId = RuntimeId (rid_u64: u64)

definition new_unique :: "u64 \<Rightarrow> RuntimeId \<times> u64" where
  "new_unique counter = (RuntimeId counter, counter + 1)"

datatype RuntimeEvent =
    RevisionBumped Revision
  | RevisionSet Revision
  | InputSet Revision QueryKindId u64 Key
  | InputRemoved Revision QueryKindId u64 Key
  | QueryInvalidated Revision QueryKindId u64 Key QueryKindId u64 Key
  | QueryChanged Revision QueryKindId u64 Key

record Runtime =
  rt_id :: RuntimeId
  is_snapshot :: bool
  divergent_scope :: u64
  rt_revision :: u64
  revision_tx :: Revision
  events :: "RuntimeEvent list"
  deps_by_query :: "(DynKey, Dep list) table"
  reverse_deps :: "(DynKey, DynKey list) table"

definition runtime_new :: "u64 \<Rightarrow> Runtime \<times> u64" where
  "runtime_new counter =
     (let (i, counter') = new_unique counter
      in (\<lparr>rt_id = i, is_snapshot = False, divergent_scope = 0, rt_revision = 0,
           revision_tx = Revision 0, events = [], deps_by_query = [], reverse_deps = []\<rparr>, counter'))"

definition new_for_snapshot :: "RuntimeId \<Rightarrow> Runtime" where
  "new_for_snapshot parent_id =
     \<lparr>rt_id = parent_id, is_snapshot = True, divergent_scope = 0, rt_revision = 0,
      revision_tx = Revision 0, events = [], deps_by_query = [], reverse_deps = []\<rparr>"

definition cache_scope_id :: "Runtime \<Rightarrow> RuntimeId" where
  "cache_scope_id rt =
     (if divergent_scope rt \<noteq> 0 then RuntimeId (divergent_scope rt) else rt_id rt)"

text \<open>\<open>mark_divergent\<close> run without interference; the counter is the global id counter.\<close>

definition mark_divergent :: "Runtime \<Rightarrow> u64 \<Rightarrow> Runtime \<times> u64" where
  "mark_divergent rt counter =
     (if \<not> is_snapshot rt then (rt, counter)
      else if divergent_scope rt \<noteq> 0 then (rt, counter)
      else (rt\<lparr>divergent_scope := counter\<rparr>, counter + 1))"

definition current_revision :: "Runtime \<Rightarrow> Revision" where
  "current_revision rt = Revision (rt_revision rt)"

definition send_event :: "RuntimeEvent \<Rightarrow> Runtime \<Rightarrow> Runtime" where
  "send_event e rt = rt\<lparr>events := events rt @ [e]\<rparr>"

text \<open>\<open>fetch_add\<close> wraps around at 64 bits, and so does the addition after it in a release build.\<close>

definition bump_revision :: "Runtime \<Rightarrow> Revision \<times> Runtime" where
  "bump_revision rt =
     (let rv = Revision (rt_revision rt + 1)
      in (rv, send_event (RevisionBumped rv)
                 (rt\<lparr>rt_revision := rt_revision rt + 1, revision_tx := rv\<rparr>)))"

definition set_current_revision :: "Revision \<Rightarrow> Runtime \<Rightarrow> Runtime" where
  "set_current_revision rv rt =
     send_event (RevisionSet rv) (rt\<lparr>rt_revision := rev_u64 rv, revision_tx := rv\<rparr>)"

subsection \<open>The dependency graph\<close>

definition dependents_of :: "Runtime \<Rightarrow> DynKey \<Rightarrow> DynKey list" where
  "dependents_of rt d = (case tget (reverse_deps rt) d of None \<Rightarrow> [] | Some qs \<Rightarrow> qs)"

definition unlink_dep :: "DynKey \<Rightarrow> Dep \<Rightarrow> (DynKey, DynKey list) table \<Rightarrow> (DynKey, DynKey list) table" where
  "unlink_dep q d rv =
     (case tget rv (dep_dyn d) of
        None \<Rightarrow> rv
      | Some qs \<Rightarrow>
          (let qs' = filter (\<lambda>x. x \<noteq> q) qs
           in if qs' = [] then tremove (dep_dyn d) rv else tinsert (dep_dyn d) qs' rv))"

definition link_dep :: "DynKey \<Rightarrow> Dep \<Rightarrow> (DynKey, DynKey list) table \<Rightarrow> (DynKey, DynKey list) table" where
  "link_dep q d rv =
     tinsert (dep_dyn d)
       (sinsert q (case tget rv (dep_dyn d) of None \<Rightarrow> [] | Some qs \<Rightarrow> qs)) rv"

definition update_query_deps :: "DynKey \<Rightarrow> Dep list \<Rightarrow> Runtime \<Rightarrow> Runtime" where
  "update_query_deps q deps rt =
     (let old = tget (deps_by_query rt) q;
          new_set = remdups deps;
          old_set = (case old of None \<Rightarrow> [] | Some ds \<Rightarrow> remdups ds);
          gone = filter (\<lambda>d. d \<notin> set new_set) old_set
      in rt\<lparr>deps_by_query := tinsert q deps (deps_by_query rt),
            reverse_deps := fold (link_dep q) new_set (fold (unlink_dep q) gone (reverse_deps rt))\<rparr>)"

definition clear_dependency_graph :: "Runtime \<Rightarrow> Runtime" where
  "clear_dependency_graph rt = rt\<lparr>deps_by_query := [], reverse_deps := []\<rparr>"

definition deps_by_query_snapshot :: "Runtime \<Rightarrow> (DynKey, Dep list) table" where
  "deps_by_query_snapshot rt = deps_by_query rt"

definition reverse_deps_snapshot :: "Runtime \<Rightarrow> (DynKey, DynKey list) table" where
  "reverse_deps_snapshot rt = map (\<lambda>(k, qs). (k, qs)) (reverse_deps rt)"

subsection \<open>Invalidation\<close>

text \<open>The inner \<open>for\<close> loop: the dependents not seen before, in order, and the new \<open>seen\<close> set.\<close>

fun visit_dependents :: "DynKey list \<Rightarrow> DynKey list \<Rightarrow> DynKey list \<times> DynKey list" where
  "visit_dependents [] seen = ([], seen)"
| "visit_dependents (d # ds) seen =
     (if d \<in> set seen then visit_dependents ds seen
      else (let (fresh, seen') = visit_dependents ds (seen @ [d]) in (d # fresh, seen')))"

lemma visit_dependents_set:
  "visit_dependents ds seen = (fresh, seen') \<Longrightarrow>
   set fresh = set ds - set seen \<and> set seen' = set seen \<union> set ds \<and> distinct fresh"
proof (induction ds arbitrary: seen fresh seen')
  case Nil
  then show ?case by simp
next
  case (Cons d ds)
  show ?case
  proof (cases "d \<in> set seen")
    case True
    with Cons.prems have "visit_dependents ds seen = (fresh, seen')" by simp
    from Cons.IH [OF this] True show ?thesis by auto
  next
    case False
    obtain f s where fs: "visit_dependents ds (seen @ [d]) = (f, s)"
      by (cases "visit_dependents ds (seen @ [d])")
    with Cons.prems False have "fresh = d # f" "seen' = s" by auto
    with Cons.IH [OF fs] False show ?thesis by auto
  qed
qed

definition edge_targets :: "(DynKey, DynKey list) table \<Rightarrow> DynKey set" where
  "edge_targets rv = \<Union> (set ` snd ` set rv)"

lemma finite_edge_targets [simp]: "finite (edge_targets rv)"
  by (simp add: edge_targets_def)

lemma tget_edge_targets: "tget rv n = Some ds \<Longrightarrow> set ds \<subseteq> edge_targets rv"
  by (force simp: edge_targets_def dest: map_of_SomeD)

text \<open>The \<open>while let\<close> loop over the queue; the last argument collects the invalidated queries.\<close>

function invalidation_loop ::
  "(DynKey, DynKey list) table \<Rightarrow> DynKey list \<Rightarrow> DynKey list \<Rightarrow> DynKey list \<Rightarrow> DynKey list" where
  "invalidation_loop rv [] seen sent = sent"
| "invalidation_loop rv (node # queue) seen sent =
     (case tget rv node of
        None \<Rightarrow> invalidation_loop rv queue seen sent
      | Some dependents \<Rightarrow>
          (let (fresh, seen') = visit_dependents dependents seen
           in invalidation_loop rv (queue @ fresh) seen' (sent @ fresh)))"
  by pat_completeness auto
termination
proof (relation "measures [\<lambda>(rv, queue, seen, sent). card (edge_targets rv - set seen),
                           \<lambda>(rv, queue, seen, sent). length queue]", goal_cases)
  case 1
  then show ?case by simp
next
  case (2 rv node queue seen sent)
  then show ?case by simp
next
  case (3 rv node queue seen sent dependents x fresh seen')
  then have v: "set fresh = set dependents - set seen" "set seen' = set seen \<union> set dependents"
    using visit_dependents_set [of dependents seen fresh seen'] by auto
  have sub: "set dependents \<subseteq> edge_targets rv"
    using 3 tget_edge_targets by blast
  show ?case
  proof (cases "fresh = []")
    case True
    with v have "set seen' = set seen" by auto
    with True show ?thesis by simp
  next
    case False
    then obtain d where "d \<in> set fresh" by (cases fresh) auto
    with v sub have "edge_targets rv - set seen' \<subset> edge_targets rv - set seen" by auto
    then have "card (edge_targets rv - set seen') < card (edge_targets rv - set seen)"
      by (simp add: psubset_card_mono)
    then show ?thesis by simp
  qed
qed

definition invalidated_event :: "Revision \<Rightarrow> DynKey \<Rightarrow> DynKey \<Rightarrow> RuntimeEvent" where
  "invalidated_event revision source d =
     QueryInvalidated revision (dk_kind d) (key_hash (dk_key d)) (dk_key d)
       (dk_kind source) (key_hash (dk_key source)) (dk_key source)"

definition propagate_invalidation :: "Revision \<Rightarrow> DynKey \<Rightarrow> Runtime \<Rightarrow> Runtime" where
  "propagate_invalidation revision source rt =
     rt\<lparr>events := events rt @ map (invalidated_event revision source)
          (invalidation_loop (reverse_deps rt) [source] [source] [])\<rparr>"

definition notify_input_set :: "Revision \<Rightarrow> QueryKindId \<Rightarrow> Key \<Rightarrow> Runtime \<Rightarrow> Runtime" where
  "notify_input_set revision kind key rt =
     propagate_invalidation revision \<lparr>dk_kind = kind, dk_key = key\<rparr>
       (send_event (InputSet revision kind (key_hash key) key) rt)"

definition notify_input_removed :: "Revision \<Rightarrow> QueryKindId \<Rightarrow> Key \<Rightarrow> Runtime \<Rightarrow> Runtime" where
  "notify_input_removed revision kind key rt =
     propagate_invalidation revision \<lparr>dk_kind = kind, dk_key = key\<rparr>
       (send_event (InputRemoved revision kind (key_hash key) key) rt)"

definition notify_query_changed :: "Revision \<Rightarrow> DynKey \<Rightarrow> Runtime \<Rightarrow> Runtime" where
  "notify_query_changed revision q rt =
     send_event (QueryChanged revision (dk_kind q) (key_hash (dk_key q)) (dk_key q)) rt"

subsection \<open>The graph invariant\<close>

definition forward_of :: "Runtime \<Rightarrow> DynKey \<Rightarrow> DynKey set" where
  "forward_of rt q = (case tget (deps_by_query rt) q of None \<Rightarrow> {} | Some ds \<Rightarrow> dep_dyn ` set ds)"

definition graph_inv :: "Runtime \<Rightarrow> bool" where
  "graph_inv rt \<longleftrightarrow>
     (\<forall>q d. q \<in> set (dependents_of rt d) \<longleftrightarrow> d \<in> forward_of rt q)
     \<and> (\<forall>d qs. tget (reverse_deps rt) d = Some qs \<longrightarrow> qs \<noteq> [] \<and> distinct qs)
     \<and> twf (deps_by_query rt) \<and> twf (reverse_deps rt)"

definition rev_wf :: "(DynKey, DynKey list) table \<Rightarrow> bool" where
  "rev_wf rv \<longleftrightarrow> twf rv \<and> (\<forall>d qs. tget rv d = Some qs \<longrightarrow> qs \<noteq> [] \<and> distinct qs)"

definition rev_get :: "(DynKey, DynKey list) table \<Rightarrow> DynKey \<Rightarrow> DynKey set" where
  "rev_get rv d = (case tget rv d of None \<Rightarrow> {} | Some qs \<Rightarrow> set qs)"

lemma rev_get_unlink:
  "rev_get (unlink_dep q d rv) x = (if x = dep_dyn d then rev_get rv x - {q} else rev_get rv x)"
  by (cases "tget rv (dep_dyn d)") (auto simp: rev_get_def unlink_dep_def Let_def filter_empty_conv)

lemma rev_get_link:
  "rev_get (link_dep q d rv) x = (if x = dep_dyn d then insert q (rev_get rv x) else rev_get rv x)"
  by (cases "tget rv (dep_dyn d)") (auto simp: rev_get_def link_dep_def)

lemma rev_wfI: "twf rv \<Longrightarrow> (\<And>d qs. tget rv d = Some qs \<Longrightarrow> qs \<noteq> [] \<and> distinct qs) \<Longrightarrow> rev_wf rv"
  unfolding rev_wf_def by blast

lemma rev_wfD: "rev_wf rv \<Longrightarrow> tget rv d = Some qs \<Longrightarrow> distinct qs"
  unfolding rev_wf_def by blast

lemma rev_wf_insert: "rev_wf rv \<Longrightarrow> qs \<noteq> [] \<Longrightarrow> distinct qs \<Longrightarrow> rev_wf (tinsert d qs rv)"
  unfolding rev_wf_def tget_tinsert by (metis fun_upd_apply option.inject twf_tinsert)

lemma rev_wf_remove: "rev_wf rv \<Longrightarrow> rev_wf (tremove d rv)"
  unfolding rev_wf_def tget_tremove by (metis fun_upd_apply option.distinct(1) twf_tremove)

lemma rev_wf_unlink: "rev_wf rv \<Longrightarrow> rev_wf (unlink_dep q d rv)"
proof (cases "tget rv (dep_dyn d)")
  case (Some qs)
  assume "rev_wf rv"
  with Some have "distinct qs" by (blast dest: rev_wfD)
  with Some \<open>rev_wf rv\<close> show ?thesis
    by (simp add: unlink_dep_def Let_def rev_wf_insert rev_wf_remove)
qed (simp add: unlink_dep_def)

lemma rev_wf_link: "rev_wf rv \<Longrightarrow> rev_wf (link_dep q d rv)"
proof (cases "tget rv (dep_dyn d)")
  case None
  assume "rev_wf rv"
  with None show ?thesis by (simp add: link_dep_def rev_wf_insert)
next
  case (Some qs)
  assume "rev_wf rv"
  with Some have "distinct qs" by (blast dest: rev_wfD)
  with Some \<open>rev_wf rv\<close> show ?thesis by (simp add: link_dep_def rev_wf_insert)
qed

lemma fold_unlink:
  "rev_wf rv \<Longrightarrow>
   rev_wf (fold (unlink_dep q) ds rv)
   \<and> rev_get (fold (unlink_dep q) ds rv) x =
       (if x \<in> dep_dyn ` set ds then rev_get rv x - {q} else rev_get rv x)"
  by (induction ds arbitrary: rv) (auto simp: rev_wf_unlink rev_get_unlink)

lemma fold_link:
  "rev_wf rv \<Longrightarrow>
   rev_wf (fold (link_dep q) ds rv)
   \<and> rev_get (fold (link_dep q) ds rv) x =
       (if x \<in> dep_dyn ` set ds then insert q (rev_get rv x) else rev_get rv x)"
  by (induction ds arbitrary: rv) (auto simp: rev_wf_link rev_get_link)

lemma set_dependents_of: "set (dependents_of rt d) = rev_get (reverse_deps rt) d"
  by (simp add: dependents_of_def rev_get_def split: option.split)

lemma graph_inv_alt:
  "graph_inv rt \<longleftrightarrow>
     twf (deps_by_query rt) \<and> rev_wf (reverse_deps rt)
     \<and> (\<forall>q d. q \<in> rev_get (reverse_deps rt) d \<longleftrightarrow> d \<in> forward_of rt q)"
  unfolding graph_inv_def rev_wf_def set_dependents_of by blast

lemma forward_of_update:
  "forward_of (update_query_deps q deps rt) q' =
     (if q' = q then dep_dyn ` set deps else forward_of rt q')"
  by (simp add: forward_of_def update_query_deps_def Let_def)

lemma graph_inv_update:
  assumes "graph_inv rt"
  shows "graph_inv (update_query_deps q deps rt)"
proof -
  define gone where "gone = filter (\<lambda>d. d \<notin> set (remdups deps))
     (case tget (deps_by_query rt) q of None \<Rightarrow> [] | Some ds \<Rightarrow> remdups ds)"
  define r1 where "r1 = fold (unlink_dep q) gone (reverse_deps rt)"
  define r2 where "r2 = fold (link_dep q) (remdups deps) r1"
  have inv: "rev_wf (reverse_deps rt)" "twf (deps_by_query rt)"
    and conv: "\<And>q d. q \<in> rev_get (reverse_deps rt) d \<longleftrightarrow> d \<in> forward_of rt q"
    using assms by (auto simp: graph_inv_alt)
  have upd: "update_query_deps q deps rt =
      rt\<lparr>deps_by_query := tinsert q deps (deps_by_query rt), reverse_deps := r2\<rparr>"
    by (simp add: update_query_deps_def Let_def gone_def r1_def r2_def)
  have gone: "dep_dyn ` set gone = forward_of rt q - dep_dyn ` set deps"
    by (auto simp: gone_def forward_of_def split: option.splits)
  have wf1: "rev_wf r1" and get1: "rev_get r1 x =
     (if x \<in> forward_of rt q - dep_dyn ` set deps then rev_get (reverse_deps rt) x - {q}
      else rev_get (reverse_deps rt) x)" for x
    using fold_unlink [OF inv(1), of q gone] unfolding gone r1_def by blast+
  have wf2: "rev_wf r2" and get2: "rev_get r2 x =
     (if x \<in> dep_dyn ` set deps then insert q (rev_get r1 x) else rev_get r1 x)" for x
    using fold_link [OF wf1, of q "remdups deps"] unfolding r2_def set_remdups by blast+
  have "q' \<in> rev_get r2 d \<longleftrightarrow> d \<in> forward_of (update_query_deps q deps rt) q'" for q' d
    using conv [of q' d] by (simp add: get1 get2 forward_of_update) blast
  with wf2 inv(2) show ?thesis
    by (simp add: graph_inv_alt upd)
qed

lemma graph_inv_new [simp]: "graph_inv (fst (runtime_new c))"
  by (simp add: graph_inv_def runtime_new_def new_unique_def Let_def dependents_of_def forward_of_def)

lemma graph_inv_snapshot [simp]: "graph_inv (new_for_snapshot i)"
  by (simp add: graph_inv_def new_for_snapshot_def dependents_of_def forward_of_def)

lemma graph_inv_clear [simp]: "graph_inv (clear_dependency_graph rt)"
  by (simp add: graph_inv_def clear_dependency_graph_def dependents_of_def forward_of_def)

end
