(* ===== verification/Interfaces.thy ===== *)
theory Interfaces
  imports Prelude
begin

text \<open>
  The contracts between components, as locales: what a revision counter promises to the
  ingredients that stamp their changes with it, what the dependency graph promises to
  invalidation, and what an ingredient promises to the cache file. Each is interpreted on
  the model's own definitions in the theory of the component that provides it.
\<close>

subsection \<open>A revision counter\<close>

locale revision_clock =
  fixes now :: "'s \<Rightarrow> u64"
    and bump :: "'s \<Rightarrow> 's"
  assumes now_bump: "now (bump s) = now s + 1"
begin

lemma now_bumps: "now ((bump ^^ n) s) = now s + of_nat n"
  by (induction n) (simp_all add: now_bump algebra_simps)

lemma now_bumps_unat:
  "unat (now s) + n < 2 ^ 64 \<Longrightarrow> unat (now ((bump ^^ n) s)) = unat (now s) + n"
  by (simp add: now_bumps unat_word_ariths unat_of_nat)

lemma bumps_strictly_later:
  assumes "unat (now s) + n < 2 ^ 64" and "m < n"
  shows "now ((bump ^^ m) s) < now ((bump ^^ n) s)"
  using assms now_bumps_unat [of s n] now_bumps_unat [of s m]
  by (simp add: word_less_nat_alt)

end

subsection \<open>A graph kept in both directions\<close>

locale dep_graph =
  fixes inv :: "'s \<Rightarrow> bool"
    and fwd :: "'s \<Rightarrow> 'q \<Rightarrow> 'q set"
    and bwd :: "'s \<Rightarrow> 'q \<Rightarrow> 'q set"
    and upd :: "'q \<Rightarrow> 'd list \<Rightarrow> 's \<Rightarrow> 's"
    and target :: "'d \<Rightarrow> 'q"
  assumes fwd_upd: "fwd (upd q ds s) q' = (if q' = q then target ` set ds else fwd s q')"
    and inv_upd: "inv s \<Longrightarrow> inv (upd q ds s)"
    and bwd_fwd: "inv s \<Longrightarrow> q \<in> bwd s d \<longleftrightarrow> d \<in> fwd s q"
begin

lemma inv_upds: "inv s \<Longrightarrow> inv (fold (\<lambda>(q, ds). upd q ds) us s)"
  by (induction us arbitrary: s) (auto simp: inv_upd)

lemma bwd_upd:
  "inv s \<Longrightarrow> bwd (upd q ds s) d = (if d \<in> target ` set ds then insert q (bwd s d) else bwd s d - {q})"
  using bwd_fwd [OF inv_upd [of s q ds], of _ d] bwd_fwd [of s _ d]
  by (auto simp: fwd_upd split: if_splits)

lemma affected_iff_depends:
  assumes "inv s"
  shows "(d, q) \<in> {(x, y). y \<in> bwd s x}\<^sup>+ \<longleftrightarrow> (q, d) \<in> {(x, y). y \<in> fwd s x}\<^sup>+"
proof -
  have "{(x, y). y \<in> bwd s x} = {(x, y). y \<in> fwd s x}\<inverse>"
    using bwd_fwd [OF assms] by auto
  then show ?thesis by (simp add: trancl_converse)
qed

lemma last_update_wins: "fwd (upd q ds (upd q es s)) = fwd (upd q ds s)"
  by (rule ext) (simp add: fwd_upd)

lemma fwd_upds_last:
  "fwd (fold (\<lambda>(q, ds). upd q ds) us s) q =
     (case map_of (rev us) q of Some ds \<Rightarrow> target ` set ds | None \<Rightarrow> fwd s q)"
  by (induction us rule: rev_induct) (auto simp: fwd_upd split: option.split)

lemma fwd_upds:
  "distinct (map fst us) \<Longrightarrow>
   fwd (fold (\<lambda>(q, ds). upd q ds) us s) q =
     (case map_of us q of Some ds \<Rightarrow> target ` set ds | None \<Rightarrow> fwd s q)"
proof (induction us arbitrary: s)
  case Nil
  then show ?case by simp
next
  case (Cons u us)
  obtain a ds where u: "u = (a, ds)" by (cases u)
  have "map_of us a = None" if "q = a"
    using Cons.prems u by (auto simp: map_of_eq_None_iff)
  with Cons u show ?case
    by (auto simp: fwd_upd split: option.split)
qed

end

subsection \<open>An ingredient that can be saved and loaded\<close>

text \<open>
  What the cache file relies on (\<open>PersistableIngredient\<close>): loading the records of a save into any
  ingredient of the same kind succeeds and restores what the saved one answers. \<open>good\<close> is the
  invariant under which an ingredient promises this, \<open>obs\<close> what its readers can observe.
\<close>

locale persistable =
  fixes good :: "'s \<Rightarrow> bool"
    and obs :: "'s \<Rightarrow> 'o"
    and compat :: "'s \<Rightarrow> 's \<Rightarrow> bool"
    and save :: "'s \<Rightarrow> 'e + 'r list"
    and load :: "'r list \<Rightarrow> 's \<Rightarrow> ('e + unit) \<times> 's"
  assumes load_save: "good s \<Longrightarrow> compat s t \<Longrightarrow> save s = Inr rs \<Longrightarrow>
      fst (load rs t) = Inr () \<and> obs (snd (load rs t)) = obs s \<and> good (snd (load rs t))"
    and compat_load: "compat s t \<Longrightarrow> compat s (snd (load rs t))"
    and compat_sym: "compat s t \<Longrightarrow> compat t s"
begin

lemma load_forgets:
  assumes "good s" "compat s t" "compat s u" "save s = Inr rs"
  shows "obs (snd (load rs t)) = obs (snd (load rs u))"
  using load_save [OF assms(1,2,4)] load_save [OF assms(1,3,4)] by simp

lemma second_generation:
  assumes "good s" "compat s t" "save s = Inr rs" "save (snd (load rs t)) = Inr rs'" "compat (snd (load rs t)) u"
  shows "obs (snd (load rs' u)) = obs s"
  using load_save [OF assms(1-3)] load_save [of "snd (load rs t)" u rs'] assms(4,5) by simp

end

end
