(* ===== verification/RuntimeProps.thy ===== *)
theory RuntimeProps
  imports Runtimes Interfaces
begin

text \<open>
  Properties of the runtime: the revision counter, the two-way dependency graph, exactness of the
  invalidation walk, cache scopes of snapshots, and the lock-free assignment of a divergent scope as
  a step relation over any number of threads.
\<close>

subsection \<open>The runtime provides the interfaces\<close>

interpretation clock: revision_clock rt_revision "\<lambda>rt. snd (bump_revision rt)"
  by unfold_locales (simp add: bump_revision_def Let_def send_event_def)

interpretation graph: dep_graph graph_inv forward_of
  "\<lambda>rt d. set (dependents_of rt d)" update_query_deps dep_dyn
proof
  show "q \<in> set (dependents_of rt d) \<longleftrightarrow> d \<in> forward_of rt q" if "graph_inv rt" for rt q d
    using that by (simp add: graph_inv_alt set_dependents_of)
qed (simp_all add: forward_of_update graph_inv_update)

lemma fst_bump_revision: "fst (bump_revision rt) = current_revision (snd (bump_revision rt))"
  by (simp add: bump_revision_def Let_def send_event_def current_revision_def)

text \<open>
  Until the 64-bit counter is exhausted, every bump returns a revision later than all earlier
  ones, the returned revision is the current one and is announced on both channels.
\<close>
theorem bump_revision_advances:
  assumes "unat (rt_revision rt) + Suc n < 2 ^ 64" and "m \<le> n"
  shows "let rtn = ((\<lambda>rt. snd (bump_revision rt)) ^^ n) rt; (r, rt') = bump_revision rtn
         in current_revision (((\<lambda>rt. snd (bump_revision rt)) ^^ m) rt) < r
            \<and> current_revision rt' = r \<and> revision_tx rt' = r
            \<and> events rt' = events rtn @ [RevisionBumped r]"
proof -
  let ?b = "\<lambda>rt. snd (bump_revision rt)"
  have "rt_revision ((?b ^^ m) rt) < rt_revision ((?b ^^ Suc n) rt)"
    using assms by (intro clock.bumps_strictly_later) auto
  then show ?thesis
    by (simp add: clock.now_bump Let_def bump_revision_def current_revision_def send_event_def)
qed

theorem bump_revision_advances_witness:
  "\<exists>r. fst (bump_revision (new_for_snapshot (RuntimeId 1))) = r \<and> Revision 0 < r"
proof -
  let ?rt = "new_for_snapshot (RuntimeId 1)"
  have "unat (rt_revision ?rt) + Suc 0 < 2 ^ 64" by (simp add: new_for_snapshot_def)
  from bump_revision_advances [OF this, of 0]
  have "current_revision ?rt < fst (bump_revision ?rt)"
    by (simp add: Let_def case_prod_beta)
  then show ?thesis
    by (simp add: current_revision_def new_for_snapshot_def)
qed

text \<open>
  C23. On a runtime whose edges mirror each other, as those of a new one do, any sequence of dependency updates, of the
  same queries again and again, leaves the reverse edges the exact converse of the forward
  edges, and the forward edges of a query are those of its last update: no old edge stays.
\<close>
theorem reverse_deps_converse:
  assumes "graph_inv rt"
  shows "let rt' = fold (\<lambda>(q, ds). update_query_deps q ds) us rt
         in (\<forall>q d. q \<in> set (dependents_of rt' d) \<longleftrightarrow> d \<in> forward_of rt' q)
            \<and> (\<forall>q. forward_of rt' q =
                 (case map_of (rev us) q of Some ds \<Rightarrow> dep_dyn ` set ds | None \<Rightarrow> forward_of rt q))"
  using graph.bwd_fwd [OF graph.inv_upds [OF assms, of us]] graph.fwd_upds_last [of us rt]
  by (simp add: Let_def)

theorem reverse_deps_converse_witness:
  "let rt' = update_query_deps (demo_key 3 1) [dyn_dep (demo_key 2 1)]
       (update_query_deps (demo_key 3 1) [dyn_dep (demo_key 1 1), dyn_dep (demo_key 2 1)] (new_for_snapshot (RuntimeId 1)))
   in demo_key 3 1 \<in> set (dependents_of rt' (demo_key 2 1)) \<and> demo_key 3 1 \<notin> set (dependents_of rt' (demo_key 1 1))"
  using reverse_deps_converse [of "new_for_snapshot (RuntimeId 1)"
      "[(demo_key 3 1, [dyn_dep (demo_key 1 1), dyn_dep (demo_key 2 1)]), (demo_key 3 1, [dyn_dep (demo_key 2 1)])]"]
  by (simp add: Let_def demo_key_def split: if_splits)

subsection \<open>Exactness of invalidation\<close>

definition rev_edges :: "(DynKey, DynKey list) table \<Rightarrow> (DynKey \<times> DynKey) set" where
  "rev_edges rv = {(n, d). d \<in> rev_get rv n}"

text \<open>The invariant of the walk: what was sent, what was seen, what still waits in the queue.\<close>

definition walk_inv ::
  "(DynKey, DynKey list) table \<Rightarrow> DynKey \<Rightarrow> DynKey list \<Rightarrow> DynKey list \<Rightarrow> DynKey list \<Rightarrow> bool" where
  "walk_inv rv src queue seen sent \<longleftrightarrow>
     set queue \<subseteq> set seen \<and> set seen = insert src (set sent) \<and> src \<notin> set sent \<and> distinct sent
     \<and> set seen \<subseteq> (rev_edges rv)\<^sup>* `` {src}
     \<and> (\<forall>n \<in> set seen - set queue. rev_get rv n \<subseteq> set seen)"

lemma walk_inv_visit:
  assumes inv: "walk_inv rv src (node # queue) seen sent" and ds: "rev_get rv node = set ds"
    and v: "visit_dependents ds seen = (fresh, seen')"
  shows "walk_inv rv src (queue @ fresh) seen' (sent @ fresh)"
proof -
  have vs: "set fresh = set ds - set seen" "set seen' = set seen \<union> set ds" "distinct fresh"
    using visit_dependents_set [OF v] by blast+
  have I: "set (node # queue) \<subseteq> set seen" "set seen = insert src (set sent)" "src \<notin> set sent"
    "distinct sent" "set seen \<subseteq> (rev_edges rv)\<^sup>* `` {src}"
    and closed: "\<And>n. n \<in> set seen - set (node # queue) \<Longrightarrow> rev_get rv n \<subseteq> set seen"
    using inv unfolding walk_inv_def by blast+
  have "(src, node) \<in> (rev_edges rv)\<^sup>*" using I(1,5) by auto
  moreover have "(node, d) \<in> rev_edges rv" if "d \<in> set ds" for d
    using that ds by (simp add: rev_edges_def)
  ultimately have "set ds \<subseteq> (rev_edges rv)\<^sup>* `` {src}"
    by (auto intro: rtrancl_into_rtrancl)
  then have reach: "set seen' \<subseteq> (rev_edges rv)\<^sup>* `` {src}" using vs(2) I(5) by simp
  have "rev_get rv n \<subseteq> set seen'" if "n \<in> set seen' - set (queue @ fresh)" for n
  proof (cases "n = node")
    case True
    then show ?thesis using ds vs(2) by blast
  next
    case False
    then have "n \<in> set seen - set (node # queue)" using that vs by auto
    then show ?thesis using closed vs(2) by blast
  qed
  moreover have "set (queue @ fresh) \<subseteq> set seen'" "set seen' = insert src (set (sent @ fresh))"
    "src \<notin> set (sent @ fresh)" "distinct (sent @ fresh)"
    using I(1-4) vs by auto
  ultimately show ?thesis using reach unfolding walk_inv_def by blast
qed

lemma walk_inv_done:
  assumes "walk_inv rv src [] seen sent"
  shows "(rev_edges rv)\<^sup>* `` {src} = insert src (set sent)"
proof -
  have I: "set seen = insert src (set sent)" "set seen \<subseteq> (rev_edges rv)\<^sup>* `` {src}"
    and closed: "\<And>n. n \<in> set seen \<Longrightarrow> rev_get rv n \<subseteq> set seen"
    using assms unfolding walk_inv_def by auto
  have "y \<in> set seen" if "(src, y) \<in> (rev_edges rv)\<^sup>*" for y
    using that
  proof (induction rule: rtrancl_induct)
    case base
    then show ?case using I by simp
  next
    case (step y z)
    then show ?case using closed [of y] by (auto simp: rev_edges_def)
  qed
  then show ?thesis using I by blast
qed

lemma invalidation_loop_exact:
  "walk_inv rv src queue seen sent \<Longrightarrow>
   distinct (invalidation_loop rv queue seen sent)
   \<and> src \<notin> set (invalidation_loop rv queue seen sent)
   \<and> insert src (set (invalidation_loop rv queue seen sent)) = (rev_edges rv)\<^sup>* `` {src}"
proof (induction rv queue seen sent rule: invalidation_loop.induct)
  case (1 rv seen sent)
  then show ?case using walk_inv_done [OF 1] by (simp add: walk_inv_def)
next
  case (2 rv node queue seen sent)
  show ?case
  proof (cases "tget rv node")
    case None
    have "rev_get rv node = set []" using None by (simp add: rev_get_def)
    from walk_inv_visit [OF 2(3) this] have "walk_inv rv src queue seen sent" by simp
    from 2(1) [OF None this] None show ?thesis by simp
  next
    case (Some ds)
    obtain fresh seen' where v: "visit_dependents ds seen = (fresh, seen')"
      by (cases "visit_dependents ds seen")
    have "walk_inv rv src (queue @ fresh) seen' (sent @ fresh)"
      using 2(3) v Some by (intro walk_inv_visit [of rv src node queue seen sent ds]) (simp_all add: rev_get_def)
    from 2(2) [OF Some v [symmetric] refl this] Some v show ?thesis by simp
  qed
qed

lemma invalidated_queries:
  assumes "graph_inv rt"
  shows "distinct (invalidation_loop (reverse_deps rt) [source] [source] [])"
    and "set (invalidation_loop (reverse_deps rt) [source] [source] [])
         = {q. (q, source) \<in> {(x, y). y \<in> forward_of rt x}\<^sup>+} - {source}"
proof -
  let ?E = "rev_edges (reverse_deps rt)"
  define qs where "qs = invalidation_loop (reverse_deps rt) [source] [source] []"
  have "walk_inv (reverse_deps rt) source [source] [source] []"
    by (simp add: walk_inv_def)
  from invalidation_loop_exact [OF this]
  have d: "distinct qs" "source \<notin> set qs" "insert source (set qs) = ?E\<^sup>* `` {source}"
    unfolding qs_def by blast+
  have E: "?E = {(x, y). y \<in> set (dependents_of rt x)}"
    by (simp add: rev_edges_def set_dependents_of)
  have "set qs = ?E\<^sup>* `` {source} - {source}" using d(2,3) by blast
  also have "\<dots> = {q. (source, q) \<in> ?E\<^sup>+} - {source}"
    by (auto simp: rtrancl_eq_or_trancl)
  also have "\<dots> = {q. (q, source) \<in> {(x, y). y \<in> forward_of rt x}\<^sup>+} - {source}"
    unfolding E graph.affected_iff_depends [OF assms] ..
  finally show "set (invalidation_loop (reverse_deps rt) [source] [source] [])
      = {q. (q, source) \<in> {(x, y). y \<in> forward_of rt x}\<^sup>+} - {source}"
    unfolding qs_def .
  show "distinct (invalidation_loop (reverse_deps rt) [source] [source] [])"
    using d(1) unfolding qs_def .
qed

text \<open>
  C10. When an input changes, the runtime announces the invalidation of exactly the queries that
  depend on it, directly or through other queries, each of them once and the input itself never.
\<close>
theorem invalidation_exact:
  assumes "graph_inv rt"
  shows "\<exists>qs. events (propagate_invalidation r source rt) = events rt @ map (invalidated_event r source) qs
              \<and> distinct qs
              \<and> set qs = {q. (q, source) \<in> {(x, y). y \<in> forward_of rt x}\<^sup>+} - {source}"
  by (rule exI [of _ "invalidation_loop (reverse_deps rt) [source] [source] []"])
     (simp add: propagate_invalidation_def invalidated_queries [OF assms] del: invalidation_loop.simps)

theorem invalidation_exact_witness:
  "\<exists>qs. set qs = {q. (q, demo_key 1 1) \<in>
        {(x, y). y \<in> forward_of (update_query_deps (demo_key 3 1) [dyn_dep (demo_key 1 1)]
            (new_for_snapshot (RuntimeId 1))) x}\<^sup>+} - {demo_key 1 1}
      \<and> distinct qs \<and> demo_key 3 1 \<in> set qs"
proof -
  let ?rt = "update_query_deps (demo_key 3 1) [dyn_dep (demo_key 1 1)] (new_for_snapshot (RuntimeId 1))"
  have "graph_inv ?rt" by (simp add: graph_inv_update)
  from invalidation_exact [OF this, of "Revision 1" "demo_key 1 1"] obtain qs where
    qs: "distinct qs" "set qs = {q. (q, demo_key 1 1) \<in> {(x, y). y \<in> forward_of ?rt x}\<^sup>+} - {demo_key 1 1}"
    by blast
  have "(demo_key 3 1, demo_key 1 1) \<in> {(x, y). y \<in> forward_of ?rt x}"
    by (simp add: forward_of_update)
  then have "demo_key 3 1 \<in> set qs" using qs(2) by auto
  with qs show ?thesis by blast
qed

subsection \<open>Cache scopes\<close>

text \<open>
  A live database never leaves its family's scope; a snapshot shares its parent's scope until
  its first mutation and from then on has the fresh one, whatever is mutated later.
\<close>
theorem cache_scope_transitions:
  assumes "counter \<noteq> 0"
  shows "cache_scope_id (fst (mark_divergent (fst (runtime_new c)) counter)) = RuntimeId c
         \<and> cache_scope_id (new_for_snapshot p) = p
         \<and> cache_scope_id (fst (mark_divergent (new_for_snapshot p) counter)) = RuntimeId counter
         \<and> fst (mark_divergent (fst (mark_divergent (new_for_snapshot p) counter)) counter')
             = fst (mark_divergent (new_for_snapshot p) counter)"
  using assms
  by (simp_all add: mark_divergent_def cache_scope_id_def runtime_new_def new_unique_def
      new_for_snapshot_def Let_def)

text \<open>
  The concurrent \<open>mark_divergent\<close> on a snapshot: each thread loads the scope, fetches a fresh id
  from the global counter, then tries \<open>compare_exchange(0, fresh)\<close>. A thread that loads a non-zero
  scope returns at once. The counter is taken not to be exhausted (64 bits, one id per runtime).
\<close>

datatype md_pc = MdStart | MdLoaded | MdFetched u64 | MdDone

record md_state =
  md_scope :: u64
  md_counter :: u64
  md_pcs :: "nat \<Rightarrow> md_pc"

inductive md_step :: "md_state \<Rightarrow> md_state \<Rightarrow> bool" where
  md_return: "md_pcs s i = MdStart \<Longrightarrow> md_scope s \<noteq> 0 \<Longrightarrow>
     md_step s (s\<lparr>md_pcs := (md_pcs s)(i := MdDone)\<rparr>)"
| md_load: "md_pcs s i = MdStart \<Longrightarrow> md_scope s = 0 \<Longrightarrow>
     md_step s (s\<lparr>md_pcs := (md_pcs s)(i := MdLoaded)\<rparr>)"
| md_fetch: "md_pcs s i = MdLoaded \<Longrightarrow> md_counter s \<noteq> 0 \<Longrightarrow>
     md_step s (s\<lparr>md_counter := md_counter s + 1, md_pcs := (md_pcs s)(i := MdFetched (md_counter s))\<rparr>)"
| md_cas: "md_pcs s i = MdFetched fresh \<Longrightarrow>
     md_step s (s\<lparr>md_scope := (if md_scope s = 0 then fresh else md_scope s),
                  md_pcs := (md_pcs s)(i := MdDone)\<rparr>)"

inductive_cases md_stepE: "md_step s t"

definition md_inv :: "md_state \<Rightarrow> bool" where
  "md_inv s \<longleftrightarrow> (\<forall>i. md_pcs s i \<noteq> MdFetched 0) \<and> ((\<exists>i. md_pcs s i = MdDone) \<longrightarrow> md_scope s \<noteq> 0)"

lemma md_step_inv: "md_step s t \<Longrightarrow> md_inv s \<Longrightarrow> md_inv t"
  by (erule md_stepE) (auto simp: md_inv_def split: if_splits)

lemma md_step_write_once: "md_step s t \<Longrightarrow> md_scope s \<noteq> 0 \<Longrightarrow> md_scope t = md_scope s"
  by (erule md_stepE) auto

lemma md_steps_inv: "md_step\<^sup>*\<^sup>* s t \<Longrightarrow> md_inv s \<Longrightarrow> md_inv t"
  by (induction rule: rtranclp_induct) (auto intro: md_step_inv)

lemma md_steps_write_once: "md_step\<^sup>*\<^sup>* s t \<Longrightarrow> md_scope s \<noteq> 0 \<Longrightarrow> md_scope t = md_scope s"
  by (induction rule: rtranclp_induct) (auto dest: md_step_write_once)

definition md_init :: "u64 \<Rightarrow> md_state" where
  "md_init c = \<lparr>md_scope = 0, md_counter = c, md_pcs = (\<lambda>_. MdStart)\<rparr>"

text \<open>
  Under any interleaving of threads that mark a snapshot divergent, as soon as one of them has
  returned the scope is private, and no later step of any thread ever changes it.
\<close>
theorem mark_divergent_write_once:
  assumes "md_step\<^sup>*\<^sup>* (md_init c) s" and "md_pcs s i = MdDone" and "md_step\<^sup>*\<^sup>* s t"
  shows "md_scope s \<noteq> 0 \<and> md_scope t = md_scope s"
proof -
  have "md_inv (md_init c)" by (simp add: md_inv_def md_init_def)
  then have "md_inv s" by (rule md_steps_inv [OF assms(1)])
  then have "md_scope s \<noteq> 0" using assms(2) by (auto simp: md_inv_def)
  with assms(3) show ?thesis by (simp add: md_steps_write_once)
qed

text \<open>A thread that runs alone does what the sequential \<open>mark_divergent\<close> does.\<close>

lemma md_solo_run:
  assumes "is_snapshot rt" "counter \<noteq> 0"
  shows "md_step\<^sup>*\<^sup>* \<lparr>md_scope = divergent_scope rt, md_counter = counter, md_pcs = (\<lambda>_. MdStart)\<rparr>
    \<lparr>md_scope = divergent_scope (fst (mark_divergent rt counter)),
     md_counter = snd (mark_divergent rt counter), md_pcs = (\<lambda>_. MdStart)(0 := MdDone)\<rparr>"
proof (cases "divergent_scope rt = 0")
  case False
  then show ?thesis
    using assms md_return [of "\<lparr>md_scope = divergent_scope rt, md_counter = counter, md_pcs = (\<lambda>_. MdStart)\<rparr>" 0]
    by (simp add: mark_divergent_def)
next
  case True
  let ?s0 = "\<lparr>md_scope = 0, md_counter = counter, md_pcs = (\<lambda>_. MdStart)\<rparr>"
  let ?s1 = "\<lparr>md_scope = 0, md_counter = counter, md_pcs = (\<lambda>_. MdStart)(0 := MdLoaded)\<rparr>"
  let ?s2 = "\<lparr>md_scope = 0, md_counter = counter + 1, md_pcs = (\<lambda>_. MdStart)(0 := MdFetched counter)\<rparr>"
  let ?s3 = "\<lparr>md_scope = counter, md_counter = counter + 1, md_pcs = (\<lambda>_. MdStart)(0 := MdDone)\<rparr>"
  have "md_step ?s0 ?s1" using md_load [of ?s0 0] by simp
  moreover have "md_step ?s1 ?s2" using md_fetch [of ?s1 0] assms by simp
  moreover have "md_step ?s2 ?s3" using md_cas [of ?s2 0 counter] by simp
  ultimately have "md_step\<^sup>*\<^sup>* ?s0 ?s3" by (meson converse_rtranclp_into_rtranclp r_into_rtranclp)
  then show ?thesis using True assms by (simp add: mark_divergent_def)
qed

theorem mark_divergent_write_once_witness:
  "\<exists>s. md_step\<^sup>*\<^sup>* (md_init 7) s \<and> md_pcs s 0 = MdDone \<and> md_scope s \<noteq> 0"
proof -
  let ?s = "\<lparr>md_scope = 7, md_counter = 8, md_pcs = (\<lambda>_. MdStart)(0 := MdDone)\<rparr> :: md_state"
  have s: "md_step\<^sup>*\<^sup>* (md_init 7) ?s"
    using md_solo_run [of "new_for_snapshot (RuntimeId 1)" 7]
    by (simp add: md_init_def new_for_snapshot_def mark_divergent_def)
  moreover have "md_pcs ?s 0 = MdDone" by simp
  ultimately show ?thesis
    using mark_divergent_write_once [OF s, of 0 ?s] by blast
qed

theorem cache_scope_transitions_witness:
  "cache_scope_id (fst (mark_divergent (new_for_snapshot (RuntimeId 1)) 7)) = RuntimeId 7"
  using cache_scope_transitions [where counter = 7 and p = "RuntimeId 1"] by simp

end
