(* ===== verification/Inputs.thy ===== *)
theory Inputs
  imports Frames RuntimeProps
begin

text \<open>
  \<open>ingredient/input.rs\<close>: the key-value inputs. The stored values are type-erased in the code and
  downcast on the way out; one ingredient only ever stores its own value type, so the erased
  value is the type parameter \<open>'v\<close> and the downcasts (and their \<open>[BUG]\<close> errors) disappear. A removed
  input stays in the table with no value.

  \<open>set\<close> and \<open>remove\<close> work on the ingredient and on the database's runtime, and may draw a fresh
  scope id from the global counter: the three form the state of a database with this input.

  The theorems: a refinement to the history of the input (what it held at every revision),
  the exactness of \<open>changed_at\<close> under it, snapshots, and the round trips through records and
  incremental records.
\<close>

subsection \<open>State and codecs\<close>

record 'v InputEntry =
  ie_value :: "'v option"
  ie_changed_at :: Revision

record 'v Input =
  inp_kind :: QueryKindId
  inp_kind_name :: string
  inp_entries :: "(DynKey, 'v InputEntry) table"

record ('k, 'v) InputRecord =
  ipr_key :: 'k
  ipr_value :: "'v option"
  ipr_changed_at :: u64

text \<open>The serialisation of the key type, the value type and the record type of one ingredient.\<close>

record ('k, 'v) input_codecs =
  key_codec :: "'k codec"
  value_codec :: "'v codec"
  record_codec :: "('k, 'v) InputRecord codec"

definition lawful_input :: "('k, 'v) input_codecs \<Rightarrow> bool" where
  "lawful_input cs \<longleftrightarrow> lawful (key_codec cs) \<and> lawful (value_codec cs) \<and> lawful (record_codec cs)"

definition input_new :: "QueryKindId \<Rightarrow> string \<Rightarrow> 'v Input" where
  "input_new kind kind_name = \<lparr>inp_kind = kind, inp_kind_name = kind_name, inp_entries = []\<rparr>"

subsection \<open>Persistence callbacks\<close>

definition encode_input_record ::
  "('k, 'v) input_codecs \<Rightarrow> DynKey \<Rightarrow> 'v option \<Rightarrow> Revision \<Rightarrow> bytes PicanteResult" where
  "encode_input_record cs dyn_key value changed_at =
     (case decode_facet (key_codec cs) (dk_key dyn_key) of
        Inl e \<Rightarrow> Inl e
      | Inr key \<Rightarrow>
          (case enc (record_codec cs) \<lparr>ipr_key = key, ipr_value = value, ipr_changed_at = rev_u64 changed_at\<rparr> of
             Inl m \<Rightarrow> Inl (Encode ''input record'' m)
           | Inr bs \<Rightarrow> Inr bs))"

definition decode_input_record ::
  "hasher \<Rightarrow> ('k, 'v) input_codecs \<Rightarrow> QueryKindId \<Rightarrow> bytes \<Rightarrow> (DynKey \<times> 'v InputEntry) PicanteResult" where
  "decode_input_record sh cs kind bs =
     (case dec (record_codec cs) bs of
        Inl m \<Rightarrow> Inl (Decode ''input record'' m)
      | Inr rec \<Rightarrow>
          (case encode_facet sh (key_codec cs) (ipr_key rec) of
             Inl e \<Rightarrow> Inl e
           | Inr key \<Rightarrow> Inr (\<lparr>dk_kind = kind, dk_key = key\<rparr>,
                \<lparr>ie_value = ipr_value rec, ie_changed_at = Revision (ipr_changed_at rec)\<rparr>)))"

definition encode_input_incremental ::
  "('k, 'v) input_codecs \<Rightarrow> DynKey \<Rightarrow> 'v option \<Rightarrow> (bytes \<times> bytes option) PicanteResult" where
  "encode_input_incremental cs dyn_key value =
     (case decode_facet (key_codec cs) (dk_key dyn_key) of
        Inl e \<Rightarrow> Inl e
      | Inr key \<Rightarrow>
          (case enc (key_codec cs) key of
             Inl m \<Rightarrow> Inl (Encode ''input key'' m)
           | Inr kbytes \<Rightarrow>
               (case value of
                  None \<Rightarrow> Inr (kbytes, None)
                | Some v \<Rightarrow>
                    (case enc (value_codec cs) v of
                       Inl m \<Rightarrow> Inl (Encode ''input value'' m)
                     | Inr vbytes \<Rightarrow> Inr (kbytes, Some vbytes)))))"

definition apply_input_wal_entry ::
  "hasher \<Rightarrow> ('k, 'v) input_codecs \<Rightarrow> QueryKindId \<Rightarrow> bytes \<Rightarrow> bytes option
   \<Rightarrow> (DynKey \<times> 'v InputEntry) PicanteResult" where
  "apply_input_wal_entry sh cs kind kbytes vbytes =
     (case dec (key_codec cs) kbytes of
        Inl m \<Rightarrow> Inl (Decode ''input key from WAL'' m)
      | Inr key \<Rightarrow>
          (case (case vbytes of
                   None \<Rightarrow> Inr None
                 | Some bs \<Rightarrow> (case dec (value_codec cs) bs of
                                 Inl m \<Rightarrow> Inl (Decode ''input value from WAL'' m)
                               | Inr v \<Rightarrow> Inr (Some v))) of
             Inl e \<Rightarrow> Inl e
           | Inr value \<Rightarrow>
               (case encode_facet sh (key_codec cs) key of
                  Inl e \<Rightarrow> Inl e
                | Inr k \<Rightarrow> Inr (\<lparr>dk_kind = kind, dk_key = k\<rparr>,
                     \<lparr>ie_value = value, ie_changed_at = Revision 0\<rparr>))))"

subsection \<open>The core: saving and loading\<close>

definition input_clear :: "'v Input \<Rightarrow> 'v Input" where
  "input_clear s = s\<lparr>inp_entries := []\<rparr>"

definition input_save_records :: "('k, 'v) input_codecs \<Rightarrow> 'v Input \<Rightarrow> bytes list PicanteResult" where
  "input_save_records cs s =
     mapM (\<lambda>(dyn_key, entry). encode_input_record cs dyn_key (ie_value entry) (ie_changed_at entry))
       (inp_entries s)"

fun input_load_records ::
  "hasher \<Rightarrow> ('k, 'v) input_codecs \<Rightarrow> bytes list \<Rightarrow> 'v Input \<Rightarrow> unit PicanteResult \<times> 'v Input" where
  "input_load_records sh cs [] s = (Inr (), s)"
| "input_load_records sh cs (bs # rest) s =
     (case decode_input_record sh cs (inp_kind s) bs of
        Inl e \<Rightarrow> (Inl e, s)
      | Inr (dyn_key, entry) \<Rightarrow>
          input_load_records sh cs rest (s\<lparr>inp_entries := tinsert dyn_key entry (inp_entries s)\<rparr>))"

definition input_save_incremental_records ::
  "('k, 'v) input_codecs \<Rightarrow> u64 \<Rightarrow> 'v Input \<Rightarrow> (u64 \<times> bytes \<times> bytes option) list PicanteResult" where
  "input_save_incremental_records cs since_revision s =
     mapM (\<lambda>(dyn_key, entry).
             case encode_input_incremental cs dyn_key (ie_value entry) of
               Inl e \<Rightarrow> Inl e
             | Inr (kbytes, vbytes) \<Rightarrow> Inr (rev_u64 (ie_changed_at entry), kbytes, vbytes))
       (filter (\<lambda>(_, entry). since_revision < rev_u64 (ie_changed_at entry)) (inp_entries s))"

definition input_apply_wal_entry ::
  "hasher \<Rightarrow> ('k, 'v) input_codecs \<Rightarrow> u64 \<Rightarrow> bytes \<Rightarrow> bytes option \<Rightarrow> 'v Input
   \<Rightarrow> unit PicanteResult \<times> 'v Input" where
  "input_apply_wal_entry sh cs revision kbytes vbytes s =
     (case apply_input_wal_entry sh cs (inp_kind s) kbytes vbytes of
        Inl e \<Rightarrow> (Inl e, s)
      | Inr (dyn_key, entry) \<Rightarrow>
          (Inr (), s\<lparr>inp_entries := tinsert dyn_key (entry\<lparr>ie_changed_at := Revision revision\<rparr>) (inp_entries s)\<rparr>))"

subsection \<open>Reading and writing\<close>

text \<open>A database as an input sees it: the ingredient, the runtime, the global id counter.\<close>

record 'v input_db =
  db_input :: "'v Input"
  db_runtime :: Runtime
  db_counter :: u64

text \<open>
  The write of a changed entry, split where other threads can run: the revision is published
  (\<open>write_begin\<close>) before the entry is stored (\<open>write_finish\<close>).
\<close>

definition write_begin :: "'v input_db \<Rightarrow> Revision \<times> 'v input_db" where
  "write_begin d =
     (let (rv, rt1) = bump_revision (db_runtime d);
          (rt2, counter) = mark_divergent rt1 (db_counter d)
      in (rv, d\<lparr>db_runtime := rt2, db_counter := counter\<rparr>))"

definition write_finish :: "DynKey \<Rightarrow> 'v option \<Rightarrow> Revision \<Rightarrow> 'v input_db \<Rightarrow> 'v input_db" where
  "write_finish dyn_key value rv d =
     (let entry = \<lparr>ie_value = value, ie_changed_at = rv\<rparr>;
          kind = inp_kind (db_input d)
      in d\<lparr>db_input := (db_input d)\<lparr>inp_entries := tinsert dyn_key entry (inp_entries (db_input d))\<rparr>,
           db_runtime := (if value = None then notify_input_removed rv kind (dk_key dyn_key) (db_runtime d)
                          else notify_input_set rv kind (dk_key dyn_key) (db_runtime d))\<rparr>)"

text \<open>\<open>same\<close> is \<open>facet_eq_direct\<close> at the value type.\<close>

definition input_set ::
  "hasher \<Rightarrow> 'k codec \<Rightarrow> ('v \<Rightarrow> 'v \<Rightarrow> bool) \<Rightarrow> 'k \<Rightarrow> 'v \<Rightarrow> 'v input_db \<Rightarrow> Revision \<times> 'v input_db" where
  "input_set sh kc same key value d =
     (case encode_facet sh kc key of
        Inl _ \<Rightarrow> (Revision 0, d)
      | Inr encoded \<Rightarrow>
          (let dyn_key = \<lparr>dk_kind = inp_kind (db_input d), dk_key = encoded\<rparr>;
               write = (let (rv, d1) = write_begin d in (rv, write_finish dyn_key (Some value) rv d1))
           in case tget (inp_entries (db_input d)) dyn_key of
                None \<Rightarrow> write
              | Some existing \<Rightarrow>
                  (case ie_value existing of
                     None \<Rightarrow> write
                   | Some existing_value \<Rightarrow>
                       if same existing_value value then (ie_changed_at existing, d) else write)))"

definition input_remove :: "hasher \<Rightarrow> 'k codec \<Rightarrow> 'k \<Rightarrow> 'v input_db \<Rightarrow> Revision \<times> 'v input_db" where
  "input_remove sh kc key d =
     (case encode_facet sh kc key of
        Inl _ \<Rightarrow> (Revision 0, d)
      | Inr encoded \<Rightarrow>
          (let dyn_key = \<lparr>dk_kind = inp_kind (db_input d), dk_key = encoded\<rparr>
           in case tget (inp_entries (db_input d)) dyn_key of
                None \<Rightarrow> (Revision 0, d)
              | Some existing \<Rightarrow>
                  (if ie_value existing = None then (ie_changed_at existing, d)
                   else (let (rv, d1) = write_begin d in (rv, write_finish dyn_key None rv d1)))))"

definition input_get ::
  "hasher \<Rightarrow> 'k codec \<Rightarrow> 'k \<Rightarrow> 'v Input \<Rightarrow> task \<Rightarrow> 'v option PicanteResult \<times> task" where
  "input_get sh kc key s t =
     (case encode_facet sh kc key of
        Inl e \<Rightarrow> (Inl e, t)
      | Inr encoded \<Rightarrow>
          (let dyn_key = \<lparr>dk_kind = inp_kind s, dk_key = encoded\<rparr>;
               t1 = (if has_active_frame t
                     then record_dep \<lparr>dep_kind = inp_kind s, dep_key = encoded\<rparr> t else t)
           in (Inr (Option.bind (tget (inp_entries s) dyn_key) ie_value), t1)))"

definition input_changed_at :: "hasher \<Rightarrow> 'k codec \<Rightarrow> 'k \<Rightarrow> 'v Input \<Rightarrow> Revision option" where
  "input_changed_at sh kc key s =
     (case encode_facet sh kc key of
        Inl _ \<Rightarrow> None
      | Inr encoded \<Rightarrow>
          map_option ie_changed_at (tget (inp_entries s) \<lparr>dk_kind = inp_kind s, dk_key = encoded\<rparr>))"

definition input_touch :: "Key \<Rightarrow> 'v Input \<Rightarrow> Revision PicanteResult" where
  "input_touch key s =
     Inr (case tget (inp_entries s) \<lparr>dk_kind = inp_kind s, dk_key = key\<rparr> of
            None \<Rightarrow> Revision 0
          | Some e \<Rightarrow> ie_changed_at e)"

subsection \<open>Snapshots\<close>

definition input_snapshot :: "'k codec \<Rightarrow> 'v Input \<Rightarrow> ('k, 'v InputEntry) table" where
  "input_snapshot kc s =
     fold (\<lambda>(dyn_key, entry) acc.
             case decode_facet kc (dk_key dyn_key) of
               Inl _ \<Rightarrow> acc
             | Inr key \<Rightarrow> tinsert key \<lparr>ie_value = ie_value entry, ie_changed_at = ie_changed_at entry\<rparr> acc)
       (inp_entries s) []"

definition input_new_from_snapshot ::
  "hasher \<Rightarrow> 'k codec \<Rightarrow> QueryKindId \<Rightarrow> string \<Rightarrow> ('k, 'v InputEntry) table \<Rightarrow> 'v Input" where
  "input_new_from_snapshot sh kc kind kind_name entries =
     (input_new kind kind_name)\<lparr>inp_entries :=
        fold (\<lambda>(key, entry) acc.
                case encode_facet sh kc key of
                  Inl _ \<Rightarrow> acc
                | Inr encoded \<Rightarrow>
                    tinsert \<lparr>dk_kind = kind, dk_key = encoded\<rparr>
                      \<lparr>ie_value = ie_value entry, ie_changed_at = ie_changed_at entry\<rparr> acc)
          entries []\<rparr>"

subsection \<open>Well-formed inputs\<close>

text \<open>Every stored key has the ingredient's kind and is the encoding of some key.\<close>

definition input_wf :: "hasher \<Rightarrow> 'k codec \<Rightarrow> 'v Input \<Rightarrow> bool" where
  "input_wf sh kc s \<longleftrightarrow> twf (inp_entries s)
     \<and> (\<forall>q e. tget (inp_entries s) q = Some e \<longrightarrow>
          dk_kind q = inp_kind s \<and> (\<exists>k. encode_facet sh kc k = Inr (dk_key q)))"

lemma input_wf_new [simp]: "input_wf sh kc (input_new kind name)"
  by (simp add: input_wf_def input_new_def)

lemma input_wf_tinsert:
  "input_wf sh kc s \<Longrightarrow> encode_facet sh kc k = Inr key \<Longrightarrow>
   input_wf sh kc (s\<lparr>inp_entries := tinsert \<lparr>dk_kind = inp_kind s, dk_key = key\<rparr> e (inp_entries s)\<rparr>)"
  by (auto simp: input_wf_def split: if_splits)

text \<open>What a key currently holds, through its encoding.\<close>

definition input_key :: "hasher \<Rightarrow> 'k codec \<Rightarrow> 'v Input \<Rightarrow> 'k \<Rightarrow> DynKey" where
  "input_key sh kc s k = \<lparr>dk_kind = inp_kind s, dk_key = projr (encode_facet sh kc k)\<rparr>"

definition held :: "'v Input \<Rightarrow> DynKey \<Rightarrow> 'v option" where
  "held s q = Option.bind (tget (inp_entries s) q) ie_value"

definition stamp :: "'v Input \<Rightarrow> DynKey \<Rightarrow> Revision" where
  "stamp s q = (case tget (inp_entries s) q of None \<Rightarrow> Revision 0 | Some e \<Rightarrow> ie_changed_at e)"

lemma input_touch_stamp: "input_touch key s = Inr (stamp s \<lparr>dk_kind = inp_kind s, dk_key = key\<rparr>)"
  by (simp add: input_touch_def stamp_def)

subsection \<open>The history of an input\<close>

text \<open>
  The abstract specification: a history holds what every key held at every revision so far, the
  first state at revision 0. An operation that changes nothing adds no revision.
\<close>

datatype ('k, 'v) input_op = SetOp 'k 'v | RemoveOp 'k

fun abs_next :: "('k, 'v) input_op \<Rightarrow> ('k \<Rightarrow> 'v option) \<Rightarrow> ('k \<Rightarrow> 'v option)" where
  "abs_next (SetOp k v) m = m(k \<mapsto> v)"
| "abs_next (RemoveOp k) m = m(k := None)"

definition abs_step :: "('k, 'v) input_op \<Rightarrow> ('k \<Rightarrow> 'v option) list \<Rightarrow> ('k \<Rightarrow> 'v option) list" where
  "abs_step op h = (if abs_next op (last h) = last h then h else h @ [abs_next op (last h)])"

fun run_op :: "hasher \<Rightarrow> 'k codec \<Rightarrow> ('v \<Rightarrow> 'v \<Rightarrow> bool) \<Rightarrow> ('k, 'v) input_op \<Rightarrow> 'v input_db \<Rightarrow> 'v input_db" where
  "run_op sh kc same (SetOp k v) d = snd (input_set sh kc same k v d)"
| "run_op sh kc same (RemoveOp k) d = snd (input_remove sh kc k d)"

definition tracks :: "hasher \<Rightarrow> 'k codec \<Rightarrow> 'v input_db \<Rightarrow> ('k \<Rightarrow> 'v option) list \<Rightarrow> bool" where
  "tracks sh kc d h \<longleftrightarrow>
     h \<noteq> [] \<and> Suc (unat (rt_revision (db_runtime d))) = length h
     \<and> (\<forall>k. held (db_input d) (input_key sh kc (db_input d) k) = last h k)
     \<and> (\<forall>k. let c = unat (rev_u64 (stamp (db_input d) (input_key sh kc (db_input d) k)))
            in c < length h \<and> (\<forall>j. c \<le> j \<longrightarrow> j < length h \<longrightarrow> (h ! j) k = last h k)
               \<and> (0 < c \<longrightarrow> (h ! (c - 1)) k \<noteq> (h ! c) k))
     \<and> (\<forall>k. if tget (inp_entries (db_input d)) (input_key sh kc (db_input d) k) = None
            then \<forall>j < length h. (h ! j) k = None
            else 0 < unat (rev_u64 (stamp (db_input d) (input_key sh kc (db_input d) k))))"

lemma tracksD:
  fixes d :: "'v input_db"
  assumes "tracks sh kc d h"
  defines "q \<equiv> \<lambda>k. input_key sh kc (db_input d) k" and "c \<equiv> \<lambda>k. unat (rev_u64 (stamp (db_input d) (input_key sh kc (db_input d) k)))"
  shows "Suc (unat (rt_revision (db_runtime d))) = length h" "held (db_input d) (q k) = last h k" "c k < length h"
    and "c k \<le> j \<Longrightarrow> j < length h \<Longrightarrow> (h ! j) k = last h k" and "0 < c k \<Longrightarrow> (h ! (c k - 1)) k \<noteq> (h ! c k) k"
    and "tget (inp_entries (db_input d)) (q k) = None \<Longrightarrow> j < length h \<Longrightarrow> (h ! j) k = None"
    and "tget (inp_entries (db_input d)) (q k) \<noteq> None \<Longrightarrow> 0 < c k"
  using assms(1) unfolding tracks_def Let_def q_def c_def by (blast, blast, blast, blast, blast, metis, metis)

lemma input_key_inj:
  "lawful kc \<Longrightarrow> total_codec kc \<Longrightarrow> input_key sh kc s k = input_key sh kc s k' \<longleftrightarrow> k = k'"
  using encode_facet_inj [of kc sh k _ k'] encode_facet_total [of kc sh k] encode_facet_total [of kc sh k']
  by (auto simp: input_key_def)

lemma runtime_revision_write_begin:
  "write_begin d = (rv, d1) \<Longrightarrow>
   rv = Revision (rt_revision (db_runtime d) + 1) \<and> rt_revision (db_runtime d1) = rt_revision (db_runtime d) + 1
   \<and> db_input d1 = db_input d"
  by (auto simp: write_begin_def bump_revision_def mark_divergent_def send_event_def Let_def
      split: prod.splits if_splits)

lemma write_spec:
  assumes "write_begin d = (rv, d1)"
  shows "db_input (write_finish q x rv d1) =
           (db_input d)\<lparr>inp_entries := tinsert q \<lparr>ie_value = x, ie_changed_at = rv\<rparr> (inp_entries (db_input d))\<rparr>"
    and "rt_revision (db_runtime (write_finish q x rv d1)) = rt_revision (db_runtime d) + 1"
    and "rv = Revision (rt_revision (db_runtime d) + 1)"
  using runtime_revision_write_begin [OF assms]
  by (simp_all add: write_finish_def Let_def notify_input_set_def notify_input_removed_def
      propagate_invalidation_def send_event_def)

lemma tracks_write:
  assumes tr: "tracks sh kc d h" and law: "lawful kc" "total_codec kc"
    and room: "unat (rt_revision (db_runtime d)) + 1 < 2 ^ 64"
    and wb: "write_begin d = (rv, d1)" and neq: "last h k \<noteq> x"
  shows "tracks sh kc (write_finish (input_key sh kc (db_input d) k) x rv d1) (h @ [(last h)(k := x)])"
proof -
  let ?d = "write_finish (input_key sh kc (db_input d) k) x rv d1"
  note w = write_spec [OF wb]
  have key: "input_key sh kc (db_input ?d) k' = input_key sh kc (db_input d) k'" for k'
    unfolding w(1) by (simp add: input_key_def)
  have hd: "held (db_input ?d) (input_key sh kc (db_input d) k') =
      (if k' = k then x else held (db_input d) (input_key sh kc (db_input d) k'))" for k'
    unfolding w(1) by (simp add: held_def input_key_inj [OF law])
  have st: "stamp (db_input ?d) (input_key sh kc (db_input d) k') =
      (if k' = k then rv else stamp (db_input d) (input_key sh kc (db_input d) k'))" for k'
    unfolding w(1) by (simp add: stamp_def input_key_inj [OF law])
  have len: "Suc (unat (rt_revision (db_runtime d))) = length h" "h \<noteq> []"
    and T: "\<And>k. held (db_input d) (input_key sh kc (db_input d) k) = last h k"
    "\<And>k. unat (rev_u64 (stamp (db_input d) (input_key sh kc (db_input d) k))) < length h"
    "\<And>k j. unat (rev_u64 (stamp (db_input d) (input_key sh kc (db_input d) k))) \<le> j \<Longrightarrow> j < length h
        \<Longrightarrow> (h ! j) k = last h k"
    "\<And>k. 0 < unat (rev_u64 (stamp (db_input d) (input_key sh kc (db_input d) k))) \<Longrightarrow>
       (h ! (unat (rev_u64 (stamp (db_input d) (input_key sh kc (db_input d) k))) - 1)) k
       \<noteq> (h ! unat (rev_u64 (stamp (db_input d) (input_key sh kc (db_input d) k)))) k"
    "\<And>k. if tget (inp_entries (db_input d)) (input_key sh kc (db_input d) k) = None
        then \<forall>j < length h. (h ! j) k = None
        else 0 < unat (rev_u64 (stamp (db_input d) (input_key sh kc (db_input d) k)))"
    using tr unfolding tracks_def Let_def by blast+
  have entry: "tget (inp_entries (db_input ?d)) (input_key sh kc (db_input d) k') = None \<longleftrightarrow>
      k' \<noteq> k \<and> tget (inp_entries (db_input d)) (input_key sh kc (db_input d) k') = None" for k'
    unfolding w(1) by (simp add: input_key_inj [OF law])
  have rv: "unat (rev_u64 rv) = length h" using w(3) len(1) room by (simp add: unat_word_ariths)
  show ?thesis
    unfolding tracks_def Let_def key hd st entry
  proof (intro conjI allI impI, goal_cases)
    case 1
    show ?case by simp
  next
    case 2
    show ?case using w(2) len room by (simp add: unat_word_ariths)
  next
    case (3 k')
    show ?case using T(1) by simp
  next
    case (4 k')
    show ?case using T(2) [of k'] rv by (simp add: less_SucI)
  next
    case (5 k' j)
    then show ?case using T(3) [of k' j] rv by (auto simp: nth_append less_Suc_eq)
  next
    case (6 k')
    show ?case
    proof (cases "k' = k")
      case True
      then show ?thesis using rv len(2) neq by (simp add: nth_append last_conv_nth)
    next
      case False
      then show ?thesis using 6 T(2) [of k'] T(4) [of k'] by (simp add: nth_append less_imp_diff_less)
    qed
  next
    case (7 k')
    show ?case
    proof (cases "k' = k")
      case True
      then show ?thesis using rv len(2) by simp
    next
      case False
      then show ?thesis using T(5) [of k'] len(2) by (auto simp: nth_append less_Suc_eq last_conv_nth)
    qed
  qed
qed

lemma tracks_run_op:
  assumes tr: "tracks sh kc d h" and law: "lawful kc" "total_codec kc"
    and room: "unat (rt_revision (db_runtime d)) + 1 < 2 ^ 64"
  shows "tracks sh kc (run_op sh kc (=) op d) (abs_step op h)"
proof -
  obtain rv d1 where wb: "write_begin d = (rv, d1)" by fastforce
  have T: "\<And>k. held (db_input d) (input_key sh kc (db_input d) k) = last h k"
    using tr by (simp add: tracks_def Let_def)
  have ek: "encode_facet sh kc k = Inr (dk_key (input_key sh kc (db_input d) k))"
    and kd: "\<lparr>dk_kind = inp_kind (db_input d), dk_key = dk_key (input_key sh kc (db_input d) k)\<rparr>
       = input_key sh kc (db_input d) k" for k
    using encode_facet_total [OF law(2), of sh k] by (simp_all add: input_key_def)
  note W = tracks_write [OF tr law room wb]
  show ?thesis
  proof (cases op)
    case (SetOp k v)
    show ?thesis
    proof (cases "last h k = Some v")
      case True
      with T [of k] obtain e where "tget (inp_entries (db_input d)) (input_key sh kc (db_input d) k) = Some e"
        "ie_value e = Some v" by (auto simp: held_def bind_eq_Some_conv)
      moreover have "(last h)(k \<mapsto> v) = last h" using True by auto
      ultimately show ?thesis using tr SetOp
        by (simp add: input_set_def ek kd abs_step_def)
    next
      case False
      then have "(last h)(k \<mapsto> v) \<noteq> last h" by (metis fun_upd_same)
      moreover have "snd (input_set sh kc (=) k v d) = write_finish (input_key sh kc (db_input d) k) (Some v) rv d1"
        using T [of k] False wb
        by (auto simp: input_set_def ek kd held_def Let_def split: option.splits)
      ultimately show ?thesis using W [OF False] SetOp by (simp add: abs_step_def)
    qed
  next
    case (RemoveOp k)
    show ?thesis
    proof (cases "last h k")
      case None
      then have "(last h)(k := None) = last h" by auto
      moreover have "snd (input_remove sh kc k d) = d"
        using T [of k] None by (auto simp: input_remove_def ek kd held_def Let_def split: option.splits)
      ultimately show ?thesis using tr RemoveOp by (simp add: abs_step_def)
    next
      case (Some v)
      then have ne: "last h k \<noteq> None" by simp
      then have "(last h)(k := None) \<noteq> last h" by (metis fun_upd_same)
      moreover have "snd (input_remove sh kc k d) = write_finish (input_key sh kc (db_input d) k) None rv d1"
        using T [of k] Some wb by (auto simp: input_remove_def ek kd held_def Let_def split: option.splits)
      ultimately show ?thesis using W [OF ne] RemoveOp by (simp add: abs_step_def)
    qed
  qed
qed

lemma length_abs_step: "length (abs_step op h) \<le> Suc (length h)"
  by (simp add: abs_step_def)

lemma tracks_run_ops:
  assumes "lawful kc" "total_codec kc"
  shows "tracks sh kc d h \<Longrightarrow> length h + length ops \<le> 2 ^ 64 \<Longrightarrow>
    tracks sh kc (fold (run_op sh kc (=)) ops d) (fold abs_step ops h)"
proof (induction ops arbitrary: d h)
  case Nil
  then show ?case by simp
next
  case (Cons op ops)
  have "Suc (unat (rt_revision (db_runtime d))) = length h"
    using Cons.prems(1) by (simp add: tracks_def)
  then have "unat (rt_revision (db_runtime d)) + 1 < 2 ^ 64" using Cons.prems(2) by simp
  from tracks_run_op [OF Cons.prems(1) assms this, of op] Cons.IH Cons.prems(2) length_abs_step [of op h]
  show ?case by simp
qed

definition input_db0 :: "QueryKindId \<Rightarrow> string \<Rightarrow> u64 \<Rightarrow> 'v input_db" where
  "input_db0 kind name counter =
     (let (rt, counter') = runtime_new counter
      in \<lparr>db_input = input_new kind name, db_runtime = rt, db_counter = counter'\<rparr>)"

lemma tracks_db0: "tracks sh kc (input_db0 kind name counter) [\<lambda>_. None]"
  by (simp add: tracks_def input_db0_def runtime_new_def new_unique_def Let_def input_new_def held_def stamp_def)

text \<open>
  C13. On a new database with an input whose keys are encoded without loss, after any sequence of fewer than \<open>2 ^ 64\<close> sets
  and removals, the revision is the number of operations that changed something, \<open>get\<close> returns what the
  last of them left, and \<open>changed_at\<close> is exactly the revision of the last change: it answers nothing if the
  key never held a value, else, also after a removal, a revision from which on the key held the same and just
  before which it held something else.
\<close>
theorem input_history_refinement:
  assumes "lawful kc" and "total_codec kc" and "length ops < 2 ^ 64"
  shows "let d = fold (run_op sh kc (=)) ops (input_db0 kind name counter);
             h = fold abs_step ops [\<lambda>_. None]
         in Suc (unat (rev_u64 (current_revision (db_runtime d)))) = length h
            \<and> (\<forall>k. fst (input_get sh kc k (db_input d) t) = Inr (last h k))
            \<and> (\<forall>k. case input_changed_at sh kc k (db_input d) of
                  None \<Rightarrow> \<forall>j < length h. (h ! j) k = None
                | Some r \<Rightarrow>
                    (let c = unat (rev_u64 r)
                     in 0 < c \<and> c < length h \<and> (\<forall>j. c \<le> j \<and> j < length h \<longrightarrow> (h ! j) k = last h k)
                        \<and> (h ! (c - 1)) k \<noteq> (h ! c) k))"
proof -
  let ?d = "fold (run_op sh kc (=)) ops (input_db0 kind name counter)"
  let ?h = "fold abs_step ops [\<lambda>_. None]"
  have tr: "tracks sh kc ?d ?h"
    using tracks_run_ops [OF assms(1,2) tracks_db0, of ops sh kind name counter] assms(3) by simp
  have ek: "encode_facet sh kc k = Inr (dk_key (input_key sh kc (db_input ?d) k))"
    and kd: "\<lparr>dk_kind = inp_kind (db_input ?d), dk_key = dk_key (input_key sh kc (db_input ?d) k)\<rparr>
       = input_key sh kc (db_input ?d) k" for k
    using encode_facet_total [OF assms(2), of sh k] by (simp_all add: input_key_def)
  have get: "fst (input_get sh kc k (db_input ?d) t) = Inr (held (db_input ?d) (input_key sh kc (db_input ?d) k))" for k
    by (simp add: input_get_def ek kd held_def Let_def)
  have ca: "case input_changed_at sh kc k (db_input ?d) of
      None \<Rightarrow> tget (inp_entries (db_input ?d)) (input_key sh kc (db_input ?d) k) = None
    | Some r \<Rightarrow> tget (inp_entries (db_input ?d)) (input_key sh kc (db_input ?d) k) \<noteq> None
        \<and> r = stamp (db_input ?d) (input_key sh kc (db_input ?d) k)" for k
    by (auto simp: input_changed_at_def ek kd stamp_def split: option.split)
  note T = tracksD [OF tr]
  have "case input_changed_at sh kc k (db_input ?d) of
      None \<Rightarrow> \<forall>j < length ?h. (?h ! j) k = None
    | Some r \<Rightarrow> 0 < unat (rev_u64 r) \<and> unat (rev_u64 r) < length ?h
        \<and> (\<forall>j. unat (rev_u64 r) \<le> j \<and> j < length ?h \<longrightarrow> (?h ! j) k = last ?h k)
        \<and> (?h ! (unat (rev_u64 r) - 1)) k \<noteq> (?h ! unat (rev_u64 r)) k" for k
  proof (cases "input_changed_at sh kc k (db_input ?d)")
    case None
    then have "tget (inp_entries (db_input ?d)) (input_key sh kc (db_input ?d) k) = None" using ca [of k] by simp
    from T(6) [OF this] None show ?thesis by simp
  next
    case (Some r)
    then have r: "tget (inp_entries (db_input ?d)) (input_key sh kc (db_input ?d) k) \<noteq> None"
      "r = stamp (db_input ?d) (input_key sh kc (db_input ?d) k)" using ca [of k] by simp_all
    note c = T(7) [OF r(1)]
    show ?thesis unfolding Some option.case r(2) using c T(3) T(4) T(5) [OF c] by blast
  qed
  with T(1,2) show ?thesis unfolding Let_def get current_revision_def by simp
qed

lemma total_byte_codec [simp]: "total_codec byte_codec"
  by (simp add: total_codec_def byte_codec_def)

theorem input_history_refinement_witness:
  "fst (input_get (\<lambda>_. 0) byte_codec 1
     (db_input (fold (run_op (\<lambda>_. 0) byte_codec (=)) [SetOp 1 (5 :: u8), SetOp 1 5, RemoveOp 1, SetOp 1 6]
        (input_db0 (QueryKindId 1) ''Item'' 1))) task0) = Inr (Some 6)
   \<and> (\<exists>r. input_changed_at (\<lambda>_. 0) byte_codec 1
     (db_input (fold (run_op (\<lambda>_. 0) byte_codec (=)) [SetOp 1 (5 :: u8), SetOp 1 5, RemoveOp 1, SetOp 1 6]
        (input_db0 (QueryKindId 1) ''Item'' 1))) = Some r \<and> unat (rev_u64 r) = 3)
   \<and> length (fold abs_step [SetOp 1 5, SetOp 1 5, RemoveOp 1, SetOp 1 6] [\<lambda>_ :: u8. None :: u8 option]) = 4"
proof -
  let ?ops = "[SetOp 1 5, SetOp 1 5, RemoveOp 1, SetOp 1 6] :: (u8, u8) input_op list"
  have h: "fold abs_step ?ops [\<lambda>_. None] =
      [\<lambda>_. None, (\<lambda>_. None)(1 \<mapsto> 5), \<lambda>_. None, (\<lambda>_. None)(1 \<mapsto> 6)]"
    by (simp add: abs_step_def fun_eq_iff)
  have "length ?ops < 2 ^ 64" by simp
  note hist = input_history_refinement [OF lawful_byte_codec total_byte_codec this,
      of "\<lambda>_. 0" "QueryKindId 1" "''Item''" 1 task0, unfolded h Let_def]
  let ?h = "[\<lambda>_. None, (\<lambda>_. None)(1 \<mapsto> 5), \<lambda>_. None, (\<lambda>_. None)(1 \<mapsto> 6)] :: (u8 \<Rightarrow> u8 option) list"
  let ?d = "fold (run_op (\<lambda>_. 0) byte_codec (=)) ?ops (input_db0 (QueryKindId 1) ''Item'' 1)"
  have ca: "case input_changed_at (\<lambda>_. 0) byte_codec 1 (db_input ?d) of
      None \<Rightarrow> \<forall>j < length ?h. (?h ! j) 1 = None
    | Some r \<Rightarrow> 0 < unat (rev_u64 r) \<and> unat (rev_u64 r) < length ?h
        \<and> (\<forall>j. unat (rev_u64 r) \<le> j \<and> j < length ?h \<longrightarrow> (?h ! j) 1 = last ?h 1)
        \<and> (?h ! (unat (rev_u64 r) - 1)) 1 \<noteq> (?h ! unat (rev_u64 r)) 1"
    using hist by blast
  have "\<exists>r. input_changed_at (\<lambda>_. 0) byte_codec 1 (db_input ?d) = Some r \<and> unat (rev_u64 r) = 3"
  proof (cases "input_changed_at (\<lambda>_. 0) byte_codec 1 (db_input ?d)")
    case None
    with ca have "\<forall>j < length ?h. (?h ! j) 1 = None" by simp
    from this [rule_format, of 1] show ?thesis by simp
  next
    case (Some r)
    with ca have c: "unat (rev_u64 r) < length ?h" "\<And>j. unat (rev_u64 r) \<le> j \<Longrightarrow> j < length ?h \<Longrightarrow> (?h ! j) 1 = last ?h 1"
      unfolding Some option.case by blast+
    have "\<not> unat (rev_u64 r) \<le> 2" using c(2) [of 2] by (auto simp: numeral_2_eq_2)
    with c(1) Some show ?thesis by simp
  qed
  moreover have "fst (input_get (\<lambda>_. 0) byte_codec 1 (db_input ?d) task0) = Inr (last ?h 1)" using hist by blast
  ultimately show ?thesis unfolding h by simp
qed

subsection \<open>Snapshots\<close>

lemma fold_decode_lookup:
  assumes law: "lawful kc"
    and enc: "\<And>q e. (q, e) \<in> set es \<Longrightarrow> dk_kind q = kind \<and> (\<exists>k. encode_facet sh kc k = Inr (dk_key q))"
    and d: "distinct (map fst es)" and k: "encode_facet sh kc k = Inr key"
  shows "tget (fold (\<lambda>(q, e) acc. case decode_facet kc (dk_key q) of
             Inl _ \<Rightarrow> acc | Inr k \<Rightarrow> tinsert k \<lparr>ie_value = ie_value e, ie_changed_at = ie_changed_at e\<rparr> acc) es acc) k
         = (case tget es \<lparr>dk_kind = kind, dk_key = key\<rparr> of Some e \<Rightarrow> Some e | None \<Rightarrow> tget acc k)"
  using enc d
proof (induction es arbitrary: acc)
  case Nil
  then show ?case by simp
next
  case (Cons x es)
  obtain q e where x: "x = (q, e)" by (cases x)
  have "dk_kind q = kind \<and> (\<exists>k'. encode_facet sh kc k' = Inr (dk_key q))"
    by (rule Cons.prems(1) [of q e]) (simp add: x)
  then obtain k' where q: "dk_kind q = kind" "encode_facet sh kc k' = Inr (dk_key q)" by blast
  have dec: "decode_facet kc (dk_key q) = Inr k'" by (rule decode_encode_facet [OF law q(2)])
  have same: "q = \<lparr>dk_kind = kind, dk_key = key\<rparr> \<longleftrightarrow> k = k'"
    using encode_facet_inj [OF law k, of k'] q k by (cases q) auto
  have ih: "tget (fold (\<lambda>(q, e) acc. case decode_facet kc (dk_key q) of
             Inl _ \<Rightarrow> acc | Inr k \<Rightarrow> tinsert k \<lparr>ie_value = ie_value e, ie_changed_at = ie_changed_at e\<rparr> acc) es acc') k
         = (case tget es \<lparr>dk_kind = kind, dk_key = key\<rparr> of Some e \<Rightarrow> Some e | None \<Rightarrow> tget acc' k)" for acc'
    by (rule Cons.IH) (use Cons.prems in auto)
  have "tget es q = None" using Cons.prems(2) x by (auto simp: map_of_eq_None_iff)
  then show ?case
    using same by (auto simp: x dec ih split: option.split)
qed

lemma fold_encode_lookup:
  assumes law: "lawful kc" and k: "encode_facet sh kc k = Inr key" and d: "distinct (map fst es)"
  shows "tget (fold (\<lambda>(k', e) acc. case encode_facet sh kc k' of
             Inl _ \<Rightarrow> acc
           | Inr encoded \<Rightarrow> tinsert \<lparr>dk_kind = kind, dk_key = encoded\<rparr>
                \<lparr>ie_value = ie_value e, ie_changed_at = ie_changed_at e\<rparr> acc) es acc) \<lparr>dk_kind = kind, dk_key = key\<rparr>
         = (case tget es k of Some e \<Rightarrow> Some e | None \<Rightarrow> tget acc \<lparr>dk_kind = kind, dk_key = key\<rparr>)"
  using d
proof (induction es arbitrary: acc)
  case Nil
  then show ?case by simp
next
  case (Cons x es)
  obtain k' e where x: "x = (k', e)" by (cases x)
  have "tget es k' = None" using Cons.prems x by (auto simp: map_of_eq_None_iff)
  moreover have "encode_facet sh kc k' = Inr key \<longleftrightarrow> k' = k"
    using encode_facet_inj [OF law k, of k'] k by auto
  ultimately show ?case
    using Cons k by (auto simp: x split: option.split sum.split)
qed

lemma twf_input_snapshot: "twf (input_snapshot kc s)"
proof -
  have "twf acc \<Longrightarrow> twf (fold (\<lambda>(q, e) acc. case decode_facet kc (dk_key q) of
      Inl _ \<Rightarrow> acc | Inr k \<Rightarrow> tinsert k \<lparr>ie_value = ie_value e, ie_changed_at = ie_changed_at e\<rparr> acc) es acc)"
    for acc and es :: "(DynKey \<times> 'b InputEntry) list"
    by (induction es arbitrary: acc) (auto split: sum.split)
  then show ?thesis by (simp add: input_snapshot_def)
qed

lemma snapshot_lookup:
  assumes law: "lawful kc" and wf: "input_wf sh kc s" and k: "encode_facet sh kc k = Inr key"
  shows "tget (inp_entries (input_new_from_snapshot sh kc (inp_kind s) name (input_snapshot kc s)))
           \<lparr>dk_kind = inp_kind s, dk_key = key\<rparr>
         = tget (inp_entries s) \<lparr>dk_kind = inp_kind s, dk_key = key\<rparr>"
proof -
  have d: "distinct (map fst (inp_entries s))" and
    e: "\<And>q e. (q, e) \<in> set (inp_entries s) \<Longrightarrow> dk_kind q = inp_kind s \<and> (\<exists>k. encode_facet sh kc k = Inr (dk_key q))"
    using wf unfolding input_wf_def by (auto simp: twf_def)
  have "tget (input_snapshot kc s) k = tget (inp_entries s) \<lparr>dk_kind = inp_kind s, dk_key = key\<rparr>"
    unfolding input_snapshot_def
    by (subst fold_decode_lookup [OF law e d k]) (auto split: option.split)
  moreover have "distinct (map fst (input_snapshot kc s))"
    using twf_input_snapshot [of kc s] by (simp add: twf_def)
  ultimately show ?thesis
    unfolding input_new_from_snapshot_def
    by (simp add: fold_encode_lookup [OF law k] split: option.split)
qed

text \<open>
  A snapshot answers every read like the ingredient it was taken from, \<open>changed_at\<close>
  included.
\<close>
theorem input_snapshot_faithful:
  assumes "lawful kc" and "input_wf sh kc s"
  shows "let s' = input_new_from_snapshot sh kc (inp_kind s) name (input_snapshot kc s)
         in (\<forall>k t. input_get sh kc k s' t = input_get sh kc k s t)
            \<and> (\<forall>k. input_changed_at sh kc k s' = input_changed_at sh kc k s)"
proof -
  have kind: "inp_kind (input_new_from_snapshot sh kc (inp_kind s) name (input_snapshot kc s)) = inp_kind s"
    by (simp add: input_new_from_snapshot_def input_new_def)
  show ?thesis
    using snapshot_lookup [OF assms]
    by (auto simp: Let_def kind input_get_def input_changed_at_def split: sum.split)
qed

definition demo_input :: "u8 Input" where
  "demo_input = \<lparr>inp_kind = QueryKindId 1, inp_kind_name = ''Item'',
     inp_entries = [(demo_key 1 1, \<lparr>ie_value = Some 5, ie_changed_at = Revision 1\<rparr>),
                    (demo_key 1 2, \<lparr>ie_value = None, ie_changed_at = Revision 3\<rparr>)]\<rparr>"

lemma encode_byte: "encode_facet sh byte_codec b = Inr (from_bytes sh [b])"
  by (simp add: encode_facet_def byte_codec_def)

lemma input_wf_demo: "input_wf (\<lambda>_. 0) byte_codec demo_input"
  by (auto simp: input_wf_def demo_input_def twf_def demo_key_def encode_byte split: if_splits)

theorem input_snapshot_faithful_witness:
  "input_changed_at (\<lambda>_. 0) byte_codec 2
     (input_new_from_snapshot (\<lambda>_. 0) byte_codec (QueryKindId 1) ''Item'' (input_snapshot byte_codec demo_input))
   = Some (Revision 3)"
proof -
  have "inp_kind demo_input = QueryKindId 1" by (simp add: demo_input_def)
  with input_snapshot_faithful [OF lawful_byte_codec input_wf_demo, of "''Item''"]
  show ?thesis
    by (simp add: Let_def) (simp add: input_changed_at_def encode_byte demo_input_def demo_key_def)
qed

subsection \<open>Records\<close>

lemma input_wfD:
  assumes "input_wf sh kc s" "tget (inp_entries s) q = Some e"
  shows "dk_kind q = inp_kind s" and "\<exists>k. encode_facet sh kc k = Inr (dk_key q)"
  using assms by (auto simp: input_wf_def)

lemma input_record_roundtrip:
  assumes law: "lawful_input cs" and q: "dk_kind q = kind" "encode_facet sh (key_codec cs) k = Inr (dk_key q)"
    and enc: "encode_input_record cs q (ie_value e) (ie_changed_at e) = Inr bs"
  shows "decode_input_record sh cs kind bs = Inr (q, e)"
proof -
  have L: "lawful (key_codec cs)" "lawful (record_codec cs)" using law by (auto simp: lawful_input_def)
  have k: "decode_facet (key_codec cs) (dk_key q) = Inr k" by (rule decode_encode_facet [OF L(1) q(2)])
  then have "enc (record_codec cs) \<lparr>ipr_key = k, ipr_value = ie_value e, ipr_changed_at = rev_u64 (ie_changed_at e)\<rparr> = Inr bs"
    using enc by (auto simp: encode_input_record_def split: sum.splits)
  from lawfulD [OF L(2) this] show ?thesis
    using q by (simp add: decode_input_record_def)
qed

lemma input_load_loop_ok:
  "list_all2 (\<lambda>x bs. decode_input_record sh cs (inp_kind s) bs = Inr x) es bss \<Longrightarrow>
   distinct (map fst (inp_entries s @ es)) \<Longrightarrow>
   input_load_records sh cs bss s = (Inr (), s\<lparr>inp_entries := inp_entries s @ es\<rparr>)"
proof (induction es arbitrary: bss s)
  case Nil
  then show ?case by simp
next
  case (Cons x es)
  obtain q e where x: "x = (q, e)" by (cases x)
  obtain bs bss' where b: "bss = bs # bss'" "decode_input_record sh cs (inp_kind s) bs = Inr (q, e)"
    "list_all2 (\<lambda>x bs. decode_input_record sh cs (inp_kind s) bs = Inr x) es bss'"
    using Cons.prems(1) x by (auto simp: list_all2_Cons1)
  have f: "q \<notin> set (tkeys (inp_entries s))" using Cons.prems(2) x by auto
  have "input_load_records sh cs bss' (s\<lparr>inp_entries := inp_entries s @ [(q, e)]\<rparr>) =
      (Inr (), s\<lparr>inp_entries := (inp_entries s @ [(q, e)]) @ es\<rparr>)"
    using Cons.IH [of "s\<lparr>inp_entries := inp_entries s @ [(q, e)]\<rparr>" bss'] b(3) Cons.prems(2) x by simp
  with b f x show ?case by (simp add: tinsert_fresh)
qed

definition input_good :: "hasher \<Rightarrow> ('k, 'v) input_codecs \<Rightarrow> 'v Input \<Rightarrow> bool" where
  "input_good sh cs s \<longleftrightarrow> lawful_input cs \<and> input_wf sh (key_codec cs) s"

lemma input_load_save:
  assumes good: "input_good sh cs s" and kind: "inp_kind s = inp_kind t" and saved: "input_save_records cs s = Inr bss"
  shows "input_load_records sh cs bss (input_clear t) = (Inr (), t\<lparr>inp_entries := inp_entries s\<rparr>)"
proof -
  have law: "lawful_input cs" and wf: "input_wf sh (key_codec cs) s" using good by (auto simp: input_good_def)
  have twf: "twf (inp_entries s)" using wf by (simp add: input_wf_def)
  have "list_all2 (\<lambda>x bs. decode_input_record sh cs (inp_kind t) bs = Inr x) (inp_entries s) bss"
    using saved unfolding input_save_records_def mapM_Inr_iff
  proof (rule list.rel_mono_strong, clarify)
    fix q e bs assume "(q, e) \<in> set (inp_entries s)"
      and enc: "encode_input_record cs q (ie_value e) (ie_changed_at e) = Inr bs"
    then have "tget (inp_entries s) q = Some e" by (simp add: twf_tget_iff [OF twf])
    from input_wfD [OF wf this] kind obtain k where
      "dk_kind q = inp_kind t" "encode_facet sh (key_codec cs) k = Inr (dk_key q)" by auto
    from input_record_roundtrip [OF law this enc] show "decode_input_record sh cs (inp_kind t) bs = Inr (q, e)" .
  qed
  then show ?thesis
    using input_load_loop_ok [of sh cs "input_clear t" "inp_entries s" bss] twf
    by (simp add: input_clear_def twf_def)
qed

lemma input_load_keeps_kind [simp]: "inp_kind (snd (input_load_records sh cs bss s)) = inp_kind s"
  by (induction sh cs bss s rule: input_load_records.induct) (auto split: sum.split)

interpretation input_store:
  persistable "input_good sh cs" "\<lambda>s. tget (inp_entries s)" "\<lambda>s t. inp_kind s = inp_kind t"
    "input_save_records cs" "\<lambda>rs t. input_load_records sh cs rs (input_clear t)"
  for sh cs
proof (unfold_locales, goal_cases)
  case (1 s t rs)
  then show ?case
    using input_load_save [OF 1] by (auto simp: input_good_def input_wf_def)
next
  case (2 s t rs)
  then show ?case by (simp add: input_clear_def)
qed simp

text \<open>
  Clearing an ingredient and loading the records of a save restores every entry, removed ones
  and revisions included; so does a second generation of save and load.
\<close>
theorem input_save_load_roundtrip:
  assumes "lawful_input cs" and "input_wf sh (key_codec cs) s" and "inp_kind s = inp_kind t"
    and "input_save_records cs s = Inr records"
    and "input_save_records cs (snd (input_load_records sh cs records (input_clear t))) = Inr records'"
  shows "fst (input_load_records sh cs records (input_clear t)) = Inr ()
     \<and> tget (inp_entries (snd (input_load_records sh cs records (input_clear t)))) = tget (inp_entries s)
     \<and> tget (inp_entries (snd (input_load_records sh cs records' (input_clear t)))) = tget (inp_entries s)"
proof -
  have g: "input_good sh cs s" using assms(1,2) by (simp add: input_good_def)
  from input_store.load_save [OF g assms(3,4)] input_store.second_generation [OF g assms(3,4,5), of t] assms(3)
  show ?thesis by (simp add: input_clear_def)
qed

subsection \<open>Incremental records\<close>

fun input_replay ::
  "hasher \<Rightarrow> ('k, 'v) input_codecs \<Rightarrow> (u64 \<times> bytes \<times> bytes option) list \<Rightarrow> 'v Input \<Rightarrow> unit PicanteResult \<times> 'v Input" where
  "input_replay sh cs [] s = (Inr (), s)"
| "input_replay sh cs ((rv, kbytes, vbytes) # rest) s =
     (case input_apply_wal_entry sh cs rv kbytes vbytes s of
        (Inl e, s') \<Rightarrow> (Inl e, s')
      | (Inr _, s') \<Rightarrow> input_replay sh cs rest s')"

definition incremental_of :: "('k, 'v) input_codecs \<Rightarrow> DynKey \<times> 'v InputEntry \<Rightarrow> (u64 \<times> bytes \<times> bytes option) PicanteResult" where
  "incremental_of cs = (\<lambda>(dyn_key, entry).
     case encode_input_incremental cs dyn_key (ie_value entry) of
       Inl e \<Rightarrow> Inl e
     | Inr (kbytes, vbytes) \<Rightarrow> Inr (rev_u64 (ie_changed_at entry), kbytes, vbytes))"

lemma incremental_roundtrip:
  assumes law: "lawful_input cs" and q: "dk_kind q = inp_kind s" "encode_facet sh (key_codec cs) k = Inr (dk_key q)"
    and inc: "incremental_of cs (q, e) = Inr (rv, kbytes, vbytes)"
  shows "input_apply_wal_entry sh cs rv kbytes vbytes s = (Inr (), s\<lparr>inp_entries := tinsert q e (inp_entries s)\<rparr>)"
proof -
  have L: "lawful (key_codec cs)" "lawful (value_codec cs)" using law by (auto simp: lawful_input_def)
  have k: "decode_facet (key_codec cs) (dk_key q) = Inr k" by (rule decode_encode_facet [OF L(1) q(2)])
  have kb: "enc (key_codec cs) k = Inr kbytes" and rv: "Revision rv = ie_changed_at e"
    and vb: "vbytes = None \<and> ie_value e = None \<or>
       (\<exists>v b. ie_value e = Some v \<and> enc (value_codec cs) v = Inr b \<and> vbytes = Some b)"
    using inc k by (auto simp: incremental_of_def encode_input_incremental_def split: sum.splits option.splits)
  have "apply_input_wal_entry sh cs (inp_kind s) kbytes vbytes =
      Inr (q, \<lparr>ie_value = ie_value e, ie_changed_at = Revision 0\<rparr>)"
    using vb lawfulD [OF L(1) kb] lawfulD [OF L(2)] q by (auto simp: apply_input_wal_entry_def)
  then show ?thesis using rv by (cases e) (simp add: input_apply_wal_entry_def)
qed

lemma fold_tinsert_graph:
  assumes "\<forall>(q, e) \<in> set es. f q = Some e"
  shows "tget (fold (\<lambda>(q, e). tinsert q e) es acc) q = (if q \<in> fst ` set es then f q else tget acc q)"
  using assms by (induction es arbitrary: acc) auto

lemma input_replay_entries:
  assumes law: "lawful_input cs"
  shows "list_all2 (\<lambda>(q, e) c. incremental_of cs (q, e) = Inr c \<and> dk_kind q = inp_kind t
             \<and> (\<exists>k. encode_facet sh (key_codec cs) k = Inr (dk_key q))) es changes \<Longrightarrow>
    input_replay sh cs changes t = (Inr (), t\<lparr>inp_entries := fold (\<lambda>(q, e). tinsert q e) es (inp_entries t)\<rparr>)"
proof (induction es arbitrary: changes t)
  case Nil
  then show ?case by simp
next
  case (Cons x es)
  obtain q e where x: "x = (q, e)" by (cases x)
  obtain rv kbytes vbytes rest k where c: "changes = (rv, kbytes, vbytes) # rest"
    "incremental_of cs (q, e) = Inr (rv, kbytes, vbytes)" "dk_kind q = inp_kind t"
    "encode_facet sh (key_codec cs) k = Inr (dk_key q)"
    "list_all2 (\<lambda>(q, e) c. incremental_of cs (q, e) = Inr c \<and> dk_kind q = inp_kind t
             \<and> (\<exists>k. encode_facet sh (key_codec cs) k = Inr (dk_key q))) es rest"
    using Cons.prems x by (auto simp: list_all2_Cons1)
  from incremental_roundtrip [OF law c(3,4,2)] c(1)
    Cons.IH [of "t\<lparr>inp_entries := tinsert q e (inp_entries t)\<rparr>" rest] c(5)
  show ?case by (simp add: x)
qed

text \<open>
  Replaying the incremental records of a state onto any older state that already has its
  unchanged entries gives the newer state back: values, removals and revisions.
\<close>
theorem input_incremental_replay:
  assumes "lawful_input cs" and "input_wf sh (key_codec cs) s" and "inp_kind s = inp_kind t"
    and "\<forall>q e. tget (inp_entries s) q = Some e \<and> rev_u64 (ie_changed_at e) \<le> since
            \<longrightarrow> tget (inp_entries t) q = Some e"
    and "\<forall>q. tget (inp_entries s) q = None \<longrightarrow> tget (inp_entries t) q = None"
    and "input_save_incremental_records cs since s = Inr changes"
  shows "case input_replay sh cs changes t of
           (res, t') \<Rightarrow> res = Inr () \<and> tget (inp_entries t') = tget (inp_entries s)"
proof -
  let ?es = "filter (\<lambda>(_, entry). since < rev_u64 (ie_changed_at entry)) (inp_entries s)"
  have twf: "twf (inp_entries s)" using assms(2) by (simp add: input_wf_def)
  have "mapM (incremental_of cs) ?es = Inr changes"
    using assms(6) by (simp add: input_save_incremental_records_def incremental_of_def case_prod_unfold)
  then have "list_all2 (\<lambda>(q, e) c. incremental_of cs (q, e) = Inr c \<and> dk_kind q = inp_kind t
       \<and> (\<exists>k. encode_facet sh (key_codec cs) k = Inr (dk_key q))) ?es changes"
    unfolding mapM_Inr_iff
  proof (rule list.rel_mono_strong)
    fix x c assume x: "x \<in> set ?es" and i: "incremental_of cs x = Inr c"
    obtain q e where qe: "x = (q, e)" by (cases x)
    have "tget (inp_entries s) q = Some e" using x qe by (simp add: twf_tget_iff [OF twf])
    from input_wfD [OF assms(2) this] i assms(3) qe
    show "(case x of (q, e) \<Rightarrow> \<lambda>c. incremental_of cs (q, e) = Inr c \<and> dk_kind q = inp_kind t
        \<and> (\<exists>k. encode_facet sh (key_codec cs) k = Inr (dk_key q))) c" by simp
  qed
  from input_replay_entries [OF assms(1) this]
  have run: "input_replay sh cs changes t =
      (Inr (), t\<lparr>inp_entries := fold (\<lambda>(q, e). tinsert q e) ?es (inp_entries t)\<rparr>)" .
  have graph: "\<forall>(q, e) \<in> set ?es. tget (inp_entries s) q = Some e"
    by (auto simp: twf_tget_iff [OF twf])
  have "tget (fold (\<lambda>(q, e). tinsert q e) ?es (inp_entries t)) q = tget (inp_entries s) q" for q
  proof (cases "q \<in> fst ` set ?es")
    case True
    then show ?thesis by (simp add: fold_tinsert_graph [OF graph])
  next
    case False
    have "tget (inp_entries t) q = tget (inp_entries s) q"
    proof (cases "tget (inp_entries s) q")
      case None
      then show ?thesis using assms(5) by simp
    next
      case (Some e)
      then have "(q, e) \<in> set (inp_entries s)" by (simp add: twf_tget_iff [OF twf])
      with False have "\<not> since < rev_u64 (ie_changed_at e)" by force
      then show ?thesis using assms(4) Some by (simp add: not_less)
    qed
    with False show ?thesis by (simp add: fold_tinsert_graph [OF graph])
  qed
  then show ?thesis by (simp add: run fun_eq_iff)
qed

text \<open>Codecs for the witnesses.\<close>

definition unary_record_codec :: "(u8, u8) InputRecord codec" where
  "unary_record_codec =
     \<lparr>enc = (\<lambda>r. Inr (ipr_key r # (case ipr_value r of None \<Rightarrow> [0, 0] | Some v \<Rightarrow> [1, v])
                      @ replicate (unat (ipr_changed_at r)) 0)),
      dec = (\<lambda>bs. case bs of
                 k # tag # v # zs \<Rightarrow> Inr \<lparr>ipr_key = k, ipr_value = (if tag = 0 then None else Some v),
                                        ipr_changed_at = word_of_nat (length zs)\<rparr>
               | _ \<Rightarrow> Inl ''short'')\<rparr>"

definition byte_codecs :: "(u8, u8) input_codecs" where
  "byte_codecs = \<lparr>key_codec = byte_codec, value_codec = byte_codec, record_codec = unary_record_codec\<rparr>"

lemma lawful_byte_codecs: "lawful_input byte_codecs"
  by (auto simp: lawful_input_def byte_codecs_def lawful_def unary_record_codec_def byte_codec_def
      split: option.splits)

lemma input_wf_demo_codecs: "input_wf (\<lambda>_. 0) (key_codec byte_codecs) demo_input"
  using input_wf_demo by (simp add: byte_codecs_def)

theorem input_save_load_roundtrip_witness:
  "\<exists>records. input_save_records byte_codecs demo_input = Inr records
     \<and> tget (inp_entries (snd (input_load_records (\<lambda>_. 0) byte_codecs records
             (input_clear (input_new (QueryKindId 1) ''Item''))))) = tget (inp_entries demo_input)"
proof -
  let ?t = "input_new (QueryKindId 1) ''Item'' :: u8 Input"
  have three: "replicate 3 (0 :: u8) = [0, 0, 0]" by (simp add: numeral_3_eq_3)
  have save: "input_save_records byte_codecs demo_input = Inr [[1, 1, 5, 0], [2, 0, 0, 0, 0, 0]]"
    by (simp add: input_save_records_def demo_input_def encode_input_record_def byte_codecs_def
        unary_record_codec_def demo_key_def decode_facet_def byte_codec_def three)
  have kind: "inp_kind demo_input = inp_kind ?t" by (simp add: demo_input_def input_new_def)
  have again: "input_save_records byte_codecs (snd (input_load_records (\<lambda>_. 0) byte_codecs
      [[1, 1, 5, 0], [2, 0, 0, 0, 0, 0]] (input_clear ?t))) = Inr [[1, 1, 5, 0], [2, 0, 0, 0, 0, 0]]"
    using save input_load_save [of "\<lambda>_. 0" byte_codecs demo_input ?t] lawful_byte_codecs input_wf_demo_codecs kind
    by (simp add: input_good_def input_save_records_def)
  from input_save_load_roundtrip [OF lawful_byte_codecs input_wf_demo_codecs kind save again] save
  show ?thesis by blast
qed

theorem input_incremental_replay_witness:
  "\<exists>changes. input_save_incremental_records byte_codecs 1 demo_input = Inr changes \<and> length changes = 1
     \<and> fst (input_replay (\<lambda>_. 0) byte_codecs changes
         (demo_input\<lparr>inp_entries := [(demo_key 1 1, \<lparr>ie_value = Some 5, ie_changed_at = Revision 1\<rparr>)]\<rparr>)) = Inr ()"
proof -
  let ?t = "demo_input\<lparr>inp_entries := [(demo_key 1 1, \<lparr>ie_value = Some 5, ie_changed_at = Revision 1\<rparr>)]\<rparr>"
  have save: "input_save_incremental_records byte_codecs 1 demo_input = Inr [(3, [2], None)]"
    by (simp add: input_save_incremental_records_def demo_input_def encode_input_incremental_def byte_codecs_def
        demo_key_def decode_facet_def byte_codec_def)
  have old: "\<forall>q e. tget (inp_entries demo_input) q = Some e \<and> rev_u64 (ie_changed_at e) \<le> 1
      \<longrightarrow> tget (inp_entries ?t) q = Some e"
    "\<forall>q. tget (inp_entries demo_input) q = None \<longrightarrow> tget (inp_entries ?t) q = None"
    "inp_kind demo_input = inp_kind ?t"
    by (auto simp: demo_input_def word_le_nat_alt split: if_splits)
  from input_incremental_replay [OF lawful_byte_codecs input_wf_demo_codecs old(3) old(1,2) save] save
  show ?thesis by (simp add: case_prod_beta)
qed

end
