(* ===== verification/Derived.thy ===== *)
theory Derived
  imports Inputs
begin

text \<open>
  \<open>ingredient/derived.rs\<close>, the parts that do not run queries: the memo cells and their states,
  the records a cell is persisted as, saving, loading, incremental records, snapshots of cells and
  the transfer of single records. The state machine that computes is in \<open>Access\<close>.

  A cell is an \<open>Arc<ErasedCell>\<close> with a mutex around its state; every operation here holds the
  mutex for one read or one write, so the table maps keys to states. Values are type-erased in
  the code and of the parameter type \<open>'v\<close> here; the downcasts of one ingredient's own values cannot fail.
\<close>

subsection \<open>Cells\<close>

datatype 'v ErasedState =
    Vacant
  | Running Revision
  | Ready 'v Revision Revision "Dep list"
  | Poisoned PicanteError Revision

record 'v Derived =
  de_kind :: QueryKindId
  de_kind_name :: string
  de_cells :: "(DynKey, 'v ErasedState) table"

definition derived_new :: "QueryKindId \<Rightarrow> string \<Rightarrow> 'v Derived" where
  "derived_new kind kind_name = \<lparr>de_kind = kind, de_kind_name = kind_name, de_cells = []\<rparr>"

text \<open>\<open>ErasedReadyRecord\<close>, also the data that decoding a record yields.\<close>

record 'v ReadyRecord =
  rr_value :: 'v
  rr_verified_at :: Revision
  rr_changed_at :: Revision
  rr_deps :: "Dep list"

definition new_ready :: "'v ReadyRecord \<Rightarrow> 'v ErasedState" where
  "new_ready r = Ready (rr_value r) (rr_verified_at r) (rr_changed_at r) (rr_deps r)"

fun ready_record :: "'v ErasedState \<Rightarrow> 'v ReadyRecord option" where
  "ready_record (Ready v va ca ds) =
     Some \<lparr>rr_value = v, rr_verified_at = va, rr_changed_at = ca, rr_deps = ds\<rparr>"
| "ready_record _ = None"

lemma ready_record_new_ready [simp]: "ready_record (new_ready r) = Some r"
  by (cases r) (simp add: new_ready_def)

lemma ready_record_Some: "ready_record st = Some r \<longleftrightarrow> st = new_ready r"
  by (cases st; cases r) (auto simp: new_ready_def)

subsection \<open>Records\<close>

record DepRecord =
  dr_kind_id :: u32
  dr_key_bytes :: bytes

record ('k, 'v) DerivedRecord =
  der_key :: 'k
  der_value :: 'v
  der_verified_at :: u64
  der_changed_at :: u64
  der_deps :: "DepRecord list"

record ('k, 'v) derived_codecs =
  dkey_codec :: "'k codec"
  drecord_codec :: "('k, 'v) DerivedRecord codec"

definition lawful_derived :: "('k, 'v) derived_codecs \<Rightarrow> bool" where
  "lawful_derived cs \<longleftrightarrow> lawful (dkey_codec cs) \<and> lawful (drecord_codec cs)"

definition dep_record :: "Dep \<Rightarrow> DepRecord" where
  "dep_record d = \<lparr>dr_kind_id = as_u32 (dep_kind d), dr_key_bytes = key_bytes (dep_key d)\<rparr>"

definition record_dep_of :: "hasher \<Rightarrow> DepRecord \<Rightarrow> Dep" where
  "record_dep_of sh d = \<lparr>dep_kind = QueryKindId (dr_kind_id d), dep_key = from_bytes sh (dr_key_bytes d)\<rparr>"

text \<open>
  The text after the fixed part of a \<open>[BUG]\<close> message is the \<open>Debug\<close> output of the inner error,
  which the derive macro generates; it is a parameter \<open>dbg\<close>.
\<close>

definition key_bug_message :: "(PicanteError \<Rightarrow> string) \<Rightarrow> string \<Rightarrow> string \<Rightarrow> PicanteError \<Rightarrow> string" where
  "key_bug_message dbg kind_name phase e =
     ''[BUG] failed to decode key for ingredient '' @ kind_name @ '' during '' @ phase @ '': '' @ dbg e"

definition to_derived_record :: "'k \<Rightarrow> 'v ReadyRecord \<Rightarrow> ('k, 'v) DerivedRecord" where
  "to_derived_record key r =
     \<lparr>der_key = key, der_value = rr_value r, der_verified_at = rev_u64 (rr_verified_at r),
      der_changed_at = rev_u64 (rr_changed_at r), der_deps = map dep_record (rr_deps r)\<rparr>"

definition of_derived_record :: "hasher \<Rightarrow> ('k, 'v) DerivedRecord \<Rightarrow> 'v ReadyRecord" where
  "of_derived_record sh rec =
     \<lparr>rr_value = der_value rec, rr_verified_at = Revision (der_verified_at rec),
      rr_changed_at = Revision (der_changed_at rec), rr_deps = map (record_dep_of sh) (der_deps rec)\<rparr>"

definition encode_derived_record ::
  "(PicanteError \<Rightarrow> string) \<Rightarrow> ('k, 'v) derived_codecs \<Rightarrow> string \<Rightarrow> DynKey \<Rightarrow> 'v ReadyRecord \<Rightarrow> bytes PicanteResult" where
  "encode_derived_record dbg cs kind_name dyn_key r =
     (case decode_facet (dkey_codec cs) (dk_key dyn_key) of
        Inl e \<Rightarrow> Inl (Panic (key_bug_message dbg kind_name ''save'' e))
      | Inr key \<Rightarrow>
          (case enc (drecord_codec cs) (to_derived_record key r) of
             Inl m \<Rightarrow> Inl (Encode ''derived record'' m)
           | Inr bs \<Rightarrow> Inr bs))"

text \<open>
  Allocation, decoding and building of the heap value, and \<open>materialize\<close>, are one library decode
  here: their failures are all reported as \<open>Decode\<close> errors.
\<close>

definition decode_derived_record ::
  "hasher \<Rightarrow> ('k, 'v) derived_codecs \<Rightarrow> QueryKindId \<Rightarrow> bytes \<Rightarrow> (DynKey \<times> 'v ReadyRecord) PicanteResult" where
  "decode_derived_record sh cs kind bs =
     (case dec (drecord_codec cs) bs of
        Inl m \<Rightarrow> Inl (Decode ''derived record'' m)
      | Inr rec \<Rightarrow>
          (case encode_facet sh (dkey_codec cs) (der_key rec) of
             Inl e \<Rightarrow> Inl e
           | Inr key \<Rightarrow> Inr (\<lparr>dk_kind = kind, dk_key = key\<rparr>, of_derived_record sh rec)))"

definition encode_derived_incremental ::
  "(PicanteError \<Rightarrow> string) \<Rightarrow> ('k, 'v) derived_codecs \<Rightarrow> string \<Rightarrow> DynKey \<Rightarrow> 'v ReadyRecord
   \<Rightarrow> (bytes \<times> bytes) PicanteResult" where
  "encode_derived_incremental dbg cs kind_name dyn_key r =
     (case decode_facet (dkey_codec cs) (dk_key dyn_key) of
        Inl e \<Rightarrow> Inl (Panic (key_bug_message dbg kind_name ''incremental save'' e))
      | Inr key \<Rightarrow>
          (case enc (dkey_codec cs) key of
             Inl m \<Rightarrow> Inl (Encode ''derived key'' m)
           | Inr kbytes \<Rightarrow>
               (case enc (drecord_codec cs) (to_derived_record key r) of
                  Inl m \<Rightarrow> Inl (Encode ''derived record'' m)
                | Inr vbytes \<Rightarrow> Inr (kbytes, vbytes))))"

text \<open>The cell to insert, or \<open>None\<close> for a deletion.\<close>

definition decode_derived_wal_entry ::
  "hasher \<Rightarrow> ('k, 'v) derived_codecs \<Rightarrow> QueryKindId \<Rightarrow> bytes \<Rightarrow> bytes option
   \<Rightarrow> (DynKey \<times> 'v ErasedState option) PicanteResult" where
  "decode_derived_wal_entry sh cs kind kbytes vbytes =
     (case dec (dkey_codec cs) kbytes of
        Inl m \<Rightarrow> Inl (Decode ''derived key from WAL'' m)
      | Inr key \<Rightarrow>
          (case encode_facet sh (dkey_codec cs) key of
             Inl e \<Rightarrow> Inl e
           | Inr k \<Rightarrow>
               (case vbytes of
                  None \<Rightarrow> Inr (\<lparr>dk_kind = kind, dk_key = k\<rparr>, None)
                | Some bs \<Rightarrow>
                    (case dec (drecord_codec cs) bs of
                       Inl m \<Rightarrow> Inl (Decode ''derived record from WAL'' m)
                     | Inr rec \<Rightarrow>
                         Inr (\<lparr>dk_kind = kind, dk_key = k\<rparr>, Some (new_ready (of_derived_record sh rec)))))))"

subsection \<open>The core's persistence methods\<close>

definition derived_clear :: "'v Derived \<Rightarrow> 'v Derived" where
  "derived_clear s = s\<lparr>de_cells := []\<rparr>"

text \<open>The ready cells, in table order, as the loops with \<open>let ... else continue\<close> visit them.\<close>

fun ready_list :: "(DynKey \<times> 'v ErasedState) list \<Rightarrow> (DynKey \<times> 'v ReadyRecord) list" where
  "ready_list [] = []"
| "ready_list ((q, st) # es) =
     (case ready_record st of None \<Rightarrow> ready_list es | Some r \<Rightarrow> (q, r) # ready_list es)"

definition ready_cells :: "'v Derived \<Rightarrow> (DynKey \<times> 'v ReadyRecord) list" where
  "ready_cells s = ready_list (de_cells s)"

definition derived_save_records ::
  "(PicanteError \<Rightarrow> string) \<Rightarrow> ('k, 'v) derived_codecs \<Rightarrow> 'v Derived \<Rightarrow> bytes list PicanteResult" where
  "derived_save_records dbg cs s =
     mapM (\<lambda>(q, r). encode_derived_record dbg cs (de_kind_name s) q r) (ready_cells s)"

fun derived_load_records ::
  "hasher \<Rightarrow> ('k, 'v) derived_codecs \<Rightarrow> bytes list \<Rightarrow> 'v Derived \<Rightarrow> unit PicanteResult \<times> 'v Derived" where
  "derived_load_records sh cs [] s = (Inr (), s)"
| "derived_load_records sh cs (bs # rest) s =
     (case decode_derived_record sh cs (de_kind s) bs of
        Inl e \<Rightarrow> (Inl e, s)
      | Inr (q, r) \<Rightarrow> derived_load_records sh cs rest (s\<lparr>de_cells := tinsert q (new_ready r) (de_cells s)\<rparr>))"

definition derived_save_incremental_records ::
  "(PicanteError \<Rightarrow> string) \<Rightarrow> ('k, 'v) derived_codecs \<Rightarrow> u64 \<Rightarrow> 'v Derived
   \<Rightarrow> (u64 \<times> bytes \<times> bytes option) list PicanteResult" where
  "derived_save_incremental_records dbg cs since_revision s =
     mapM (\<lambda>(q, r). case encode_derived_incremental dbg cs (de_kind_name s) q r of
                      Inl e \<Rightarrow> Inl e
                    | Inr (kbytes, vbytes) \<Rightarrow> Inr (rev_u64 (rr_changed_at r), kbytes, Some vbytes))
       (filter (\<lambda>(_, r). \<not> rev_u64 (rr_changed_at r) \<le> since_revision) (ready_cells s))"

definition derived_apply_wal_entry ::
  "hasher \<Rightarrow> ('k, 'v) derived_codecs \<Rightarrow> u64 \<Rightarrow> bytes \<Rightarrow> bytes option \<Rightarrow> 'v Derived
   \<Rightarrow> unit PicanteResult \<times> 'v Derived" where
  "derived_apply_wal_entry sh cs revision kbytes vbytes s =
     (case decode_derived_wal_entry sh cs (de_kind s) kbytes vbytes of
        Inl e \<Rightarrow> (Inl e, s)
      | Inr (q, Some cell) \<Rightarrow> (Inr (), s\<lparr>de_cells := tinsert q cell (de_cells s)\<rparr>)
      | Inr (q, None) \<Rightarrow> (Inr (), s\<lparr>de_cells := tremove q (de_cells s)\<rparr>))"

definition restore_runtime_state :: "'v Derived \<Rightarrow> Runtime \<Rightarrow> Runtime" where
  "restore_runtime_state s rt = fold (\<lambda>(q, r). update_query_deps q (rr_deps r)) (ready_cells s) rt"

subsection \<open>Snapshots and single records\<close>

definition load_cells :: "(DynKey, 'v ErasedState) table \<Rightarrow> 'v Derived \<Rightarrow> 'v Derived" where
  "load_cells cells s = s\<lparr>de_cells := cells\<rparr>"

definition snapshot_cells_deep :: "'v Derived \<Rightarrow> (DynKey, 'v ErasedState) table" where
  "snapshot_cells_deep s = fold (\<lambda>(q, r). tinsert q (new_ready r)) (ready_cells s) []"

definition cell_for_key :: "hasher \<Rightarrow> 'k codec \<Rightarrow> 'k \<Rightarrow> 'v Derived \<Rightarrow> 'v ErasedState option PicanteResult" where
  "cell_for_key sh kc key s =
     (case encode_facet sh kc key of
        Inl e \<Rightarrow> Inl e
      | Inr k \<Rightarrow> Inr (tget (de_cells s) \<lparr>dk_kind = de_kind s, dk_key = k\<rparr>))"

definition insert_ready_record ::
  "hasher \<Rightarrow> 'k codec \<Rightarrow> 'k \<Rightarrow> 'v ReadyRecord \<Rightarrow> 'v Derived \<Rightarrow> unit PicanteResult \<times> 'v Derived" where
  "insert_ready_record sh kc key r s =
     (case encode_facet sh kc key of
        Inl e \<Rightarrow> (Inl e, s)
      | Inr k \<Rightarrow>
          (Inr (), s\<lparr>de_cells := tinsert \<lparr>dk_kind = de_kind s, dk_key = k\<rparr> (new_ready r) (de_cells s)\<rparr>))"

subsection \<open>Well-formed cells\<close>

definition derived_wf :: "hasher \<Rightarrow> 'k codec \<Rightarrow> 'v Derived \<Rightarrow> bool" where
  "derived_wf sh kc s \<longleftrightarrow> twf (de_cells s)
     \<and> (\<forall>q st. tget (de_cells s) q = Some st \<longrightarrow>
          dk_kind q = de_kind s \<and> (\<exists>k. encode_facet sh kc k = Inr (dk_key q))
          \<and> (\<forall>r. ready_record st = Some r \<longrightarrow> (\<forall>d \<in> set (rr_deps r). wf_key sh (dep_key d))))"

text \<open>What survives persistence: the ready records.\<close>

definition ready_at :: "'v Derived \<Rightarrow> DynKey \<Rightarrow> 'v ReadyRecord option" where
  "ready_at s q = Option.bind (tget (de_cells s) q) ready_record"

lemma set_ready_list: "(q, r) \<in> set (ready_list es) \<longleftrightarrow> (\<exists>st. (q, st) \<in> set es \<and> ready_record st = Some r)"
  by (induction es rule: ready_list.induct) (auto split: option.splits)

lemma keys_ready_list: "fst ` set (ready_list es) \<subseteq> fst ` set es"
  by (force simp: set_ready_list)

lemma distinct_ready_list: "distinct (map fst es) \<Longrightarrow> distinct (map fst (ready_list es))"
proof (induction es rule: ready_list.induct)
  case (2 q st es)
  then show ?case using keys_ready_list [of es] by (auto split: option.splits)
qed simp

lemma set_ready_cells:
  "twf (de_cells s) \<Longrightarrow> (q, r) \<in> set (ready_cells s) \<longleftrightarrow> ready_at s q = Some r"
  by (simp add: ready_cells_def set_ready_list ready_at_def bind_eq_Some_conv twf_tget_iff)

lemma distinct_ready_cells: "twf (de_cells s) \<Longrightarrow> distinct (map fst (ready_cells s))"
  by (simp add: ready_cells_def twf_def distinct_ready_list)

lemma tget_ready_cells: "twf (de_cells s) \<Longrightarrow> tget (ready_cells s) = ready_at s"
  by (rule map_eqI) (simp add: distinct_ready_cells set_ready_cells)

lemma dep_record_roundtrip: "wf_key sh (dep_key d) \<Longrightarrow> record_dep_of sh (dep_record d) = d"
  by (cases d; cases "dep_kind d") (simp add: record_dep_of_def dep_record_def wf_key_def)

lemma of_to_derived_record:
  assumes "\<forall>d \<in> set (rr_deps r). wf_key sh (dep_key d)"
  shows "of_derived_record sh (to_derived_record key r) = r"
proof -
  have "map (record_dep_of sh \<circ> dep_record) (rr_deps r) = rr_deps r"
    using assms dep_record_roundtrip by (intro map_idI) auto
  then show ?thesis
    by (cases r) (simp add: of_derived_record_def to_derived_record_def)
qed

lemma derived_record_roundtrip:
  assumes law: "lawful_derived cs" and q: "dk_kind q = kind" "encode_facet sh (dkey_codec cs) k = Inr (dk_key q)"
    and deps: "\<forall>d \<in> set (rr_deps r). wf_key sh (dep_key d)"
    and enc: "encode_derived_record dbg cs name q r = Inr bs"
  shows "decode_derived_record sh cs kind bs = Inr (q, r)"
proof -
  have L: "lawful (dkey_codec cs)" "lawful (drecord_codec cs)" using law by (auto simp: lawful_derived_def)
  have k: "decode_facet (dkey_codec cs) (dk_key q) = Inr k" by (rule decode_encode_facet [OF L(1) q(2)])
  then have "enc (drecord_codec cs) (to_derived_record k r) = Inr bs"
    using enc by (auto simp: encode_derived_record_def split: sum.splits)
  from lawfulD [OF L(2) this] show ?thesis
    using q of_to_derived_record [OF deps, of k] by (simp add: decode_derived_record_def to_derived_record_def)
qed

lemma derived_wfD:
  assumes "derived_wf sh kc s" "ready_at s q = Some r"
  shows "dk_kind q = de_kind s" and "\<exists>k. encode_facet sh kc k = Inr (dk_key q)"
    and "\<forall>d \<in> set (rr_deps r). wf_key sh (dep_key d)"
  using assms unfolding derived_wf_def ready_at_def by (auto simp: bind_eq_Some_conv)

lemma derived_load_loop_ok:
  "list_all2 (\<lambda>x bs. decode_derived_record sh cs (de_kind s) bs = Inr x) es bss \<Longrightarrow>
   distinct (map fst (de_cells s) @ map fst es) \<Longrightarrow>
   derived_load_records sh cs bss s =
     (Inr (), s\<lparr>de_cells := de_cells s @ map (\<lambda>(q, r). (q, new_ready r)) es\<rparr>)"
proof (induction es arbitrary: bss s)
  case Nil
  then show ?case by simp
next
  case (Cons x es)
  obtain q r where x: "x = (q, r)" by (cases x)
  obtain bs bss' where b: "bss = bs # bss'" "decode_derived_record sh cs (de_kind s) bs = Inr (q, r)"
    "list_all2 (\<lambda>x bs. decode_derived_record sh cs (de_kind s) bs = Inr x) es bss'"
    using Cons.prems(1) x by (auto simp: list_all2_Cons1)
  have f: "q \<notin> set (tkeys (de_cells s))" using Cons.prems(2) x by auto
  have "derived_load_records sh cs bss' (s\<lparr>de_cells := de_cells s @ [(q, new_ready r)]\<rparr>) =
      (Inr (), s\<lparr>de_cells := (de_cells s @ [(q, new_ready r)]) @ map (\<lambda>(q, r). (q, new_ready r)) es\<rparr>)"
    using Cons.IH [of "s\<lparr>de_cells := de_cells s @ [(q, new_ready r)]\<rparr>" bss'] b(3) Cons.prems(2) x by simp
  with b f x show ?case by (simp add: tinsert_fresh)
qed

definition derived_good :: "hasher \<Rightarrow> ('k, 'v) derived_codecs \<Rightarrow> 'v Derived \<Rightarrow> bool" where
  "derived_good sh cs s \<longleftrightarrow> lawful_derived cs \<and> derived_wf sh (dkey_codec cs) s"

lemma derived_load_save:
  assumes good: "derived_good sh cs s" and kind: "de_kind s = de_kind t"
    and saved: "derived_save_records dbg cs s = Inr bss"
  shows "derived_load_records sh cs bss (derived_clear t) =
    (Inr (), t\<lparr>de_cells := map (\<lambda>(q, r). (q, new_ready r)) (ready_cells s)\<rparr>)"
proof -
  have law: "lawful_derived cs" and wf: "derived_wf sh (dkey_codec cs) s" using good by (auto simp: derived_good_def)
  have twf: "twf (de_cells s)" using wf by (simp add: derived_wf_def)
  have "list_all2 (\<lambda>x bs. decode_derived_record sh cs (de_kind t) bs = Inr x) (ready_cells s) bss"
    using saved unfolding derived_save_records_def mapM_Inr_iff
  proof (rule list.rel_mono_strong)
    fix x bs assume x: "x \<in> set (ready_cells s)"
      and enc: "(case x of (q, r) \<Rightarrow> encode_derived_record dbg cs (de_kind_name s) q r) = Inr bs"
    obtain q r where qr: "x = (q, r)" by (cases x)
    have r: "ready_at s q = Some r" using x qr set_ready_cells [OF twf] by simp
    obtain k where k: "dk_kind q = de_kind t" "encode_facet sh (dkey_codec cs) k = Inr (dk_key q)"
      using derived_wfD(1,2) [OF wf r] kind by auto
    have "encode_derived_record dbg cs (de_kind_name s) q r = Inr bs" using enc qr by simp
    from derived_record_roundtrip [OF law k derived_wfD(3) [OF wf r] this]
    show "decode_derived_record sh cs (de_kind t) bs = Inr x" by (simp add: qr)
  qed
  then show ?thesis
    using derived_load_loop_ok [of sh cs "derived_clear t" "ready_cells s" bss] distinct_ready_cells [OF twf]
    by (simp add: derived_clear_def)
qed

lemma loaded_derived:
  assumes wf: "derived_wf sh kc s" and kind: "de_kind t = de_kind s"
    and t: "de_cells t = map (\<lambda>(q, r). (q, new_ready r)) (ready_cells s)"
  shows "ready_at t = ready_at s \<and> derived_wf sh kc t"
proof -
  have twf: "twf (de_cells s)" using wf by (simp add: derived_wf_def)
  have twft: "twf (de_cells t)" unfolding t twf_def
    using distinct_ready_cells [OF twf] by (simp add: comp_def case_prod_unfold)
  have cell: "tget (de_cells t) q = map_option new_ready (ready_at s q)" for q
    unfolding t tget_ready_cells [OF twf, symmetric] by (simp add: map_of_map)
  then have "ready_at t = ready_at s"
    by (intro ext) (case_tac "ready_at s x", simp_all add: ready_at_def [of t])
  moreover have "derived_wf sh kc t"
    unfolding derived_wf_def cell kind using twft derived_wfD [OF wf] by auto
  ultimately show ?thesis by blast
qed

lemma derived_load_keeps_kind [simp]: "de_kind (snd (derived_load_records sh cs bss s)) = de_kind s"
  by (induction sh cs bss s rule: derived_load_records.induct) (auto split: sum.split)

interpretation derived_store:
  persistable "derived_good sh cs" ready_at "\<lambda>s t. de_kind s = de_kind t"
    "derived_save_records dbg cs" "\<lambda>rs t. derived_load_records sh cs rs (derived_clear t)"
  for sh cs dbg
proof (unfold_locales, goal_cases)
  case (1 s t rs)
  then show ?case
    using derived_load_save [OF 1]
      loaded_derived [of sh "dkey_codec cs" s "t\<lparr>de_cells := map (\<lambda>(q, r). (q, new_ready r)) (ready_cells s)\<rparr>"]
    by (auto simp: derived_good_def)
next
  case (2 s t rs)
  then show ?case by (simp add: derived_clear_def)
qed simp

subsection \<open>The dependency graph after loading\<close>

lemma restore_edges:
  assumes "graph_inv rt" "distinct (map fst es)"
  shows "graph_inv (fold (\<lambda>(q, r). update_query_deps q (rr_deps r)) es rt)
    \<and> (\<forall>q. forward_of (fold (\<lambda>(q, r). update_query_deps q (rr_deps r)) es rt) q =
         (case tget es q of Some r \<Rightarrow> dep_dyn ` set (rr_deps r) | None \<Rightarrow> forward_of rt q))"
proof -
  let ?us = "map (\<lambda>(q, r). (q, rr_deps r)) es"
  have f: "fold (\<lambda>(q, r). update_query_deps q (rr_deps r)) es = fold (\<lambda>(q, ds). update_query_deps q ds) ?us"
    by (simp add: fold_map comp_def case_prod_unfold)
  have "distinct (map fst ?us)" using assms(2) by (simp add: comp_def case_prod_unfold)
  from graph.fwd_upds [OF this, of rt] graph.inv_upds [OF assms(1), of ?us]
  show ?thesis unfolding f by (simp add: map_of_map split: option.splits)
qed

text \<open>
  Saving an ingredient's memo cells and loading them into a cleared one restores every ready
  record (value, both revisions, dependencies), and restoring the runtime state from it rebuilds
  exactly the dependency edges of those records, in both directions.
\<close>
theorem derived_save_load_restore:
  assumes "lawful_derived cs" and "derived_wf sh (dkey_codec cs) s" and "de_kind s = de_kind t"
    and "derived_save_records dbg cs s = Inr records"
  shows "case derived_load_records sh cs records (derived_clear t) of
           (res, t') \<Rightarrow>
             (let rt' = restore_runtime_state t' (clear_dependency_graph rt)
              in res = Inr () \<and> ready_at t' = ready_at s
                 \<and> (\<forall>q d. q \<in> set (dependents_of rt' d) \<longleftrightarrow>
                      (\<exists>r. ready_at s q = Some r \<and> d \<in> dep_dyn ` set (rr_deps r))))"
proof -
  obtain res t' where lt: "derived_load_records sh cs records (derived_clear t) = (res, t')" by fastforce
  have "derived_good sh cs s" using assms(1,2) by (simp add: derived_good_def)
  from derived_store.load_save [OF this assms(3,4)] lt
  have r: "res = Inr ()" "ready_at t' = ready_at s" "derived_good sh cs t'" by simp_all
  have twf: "twf (de_cells t')" using r(3) by (simp add: derived_good_def derived_wf_def)
  let ?rt = "restore_runtime_state t' (clear_dependency_graph rt)"
  have g: "graph_inv ?rt" and fwd: "\<And>q. forward_of ?rt q =
      (case ready_at t' q of Some r \<Rightarrow> dep_dyn ` set (rr_deps r) | None \<Rightarrow> {})"
    using restore_edges [OF graph_inv_clear distinct_ready_cells [OF twf], of rt]
    unfolding restore_runtime_state_def tget_ready_cells [OF twf]
    by (auto simp: forward_of_def clear_dependency_graph_def split: option.splits)
  have "q \<in> set (dependents_of ?rt d) \<longleftrightarrow> d \<in> forward_of ?rt q" for q d
    using g unfolding graph_inv_def by blast
  then show ?thesis using r fwd lt by (auto simp: Let_def split: option.splits)
qed

text \<open>A table with one ready cell, one that is still running, and a codec for its one record.\<close>

definition demo_ready :: "u8 ReadyRecord" where
  "demo_ready = \<lparr>rr_value = 9, rr_verified_at = Revision 2, rr_changed_at = Revision 1,
                 rr_deps = [dyn_dep (demo_key 1 1)]\<rparr>"

definition demo_derived :: "u8 Derived" where
  "demo_derived = \<lparr>de_kind = QueryKindId 3, de_kind_name = ''sum'',
     de_cells = [(demo_key 3 1, new_ready demo_ready), (demo_key 3 2, Running (Revision 2))]\<rparr>"

definition demo_derived_codecs :: "(u8, u8) derived_codecs" where
  "demo_derived_codecs = \<lparr>dkey_codec = byte_codec,
     drecord_codec = \<lparr>enc = (\<lambda>r. if r = to_derived_record 1 demo_ready then Inr [1] else Inl ''unknown''),
                      dec = (\<lambda>bs. if bs = [1] then Inr (to_derived_record 1 demo_ready) else Inl ''unknown'')\<rparr>\<rparr>"

theorem derived_save_load_restore_witness:
  "\<exists>records. derived_save_records (\<lambda>_. []) demo_derived_codecs demo_derived = Inr records
     \<and> ready_at (snd (derived_load_records (\<lambda>_. 0) demo_derived_codecs records
           (derived_clear (derived_new (QueryKindId 3) ''sum'')))) (demo_key 3 1) = Some demo_ready"
proof -
  let ?t = "derived_new (QueryKindId 3) ''sum'' :: u8 Derived"
  have law: "lawful_derived demo_derived_codecs"
    by (simp add: lawful_derived_def demo_derived_codecs_def lawful_def byte_codec_def)
  have wf: "derived_wf (\<lambda>_. 0) (dkey_codec demo_derived_codecs) demo_derived"
    by (auto simp: derived_wf_def demo_derived_def demo_derived_codecs_def twf_def encode_byte demo_key_def
        demo_ready_def dyn_dep_def split: if_splits)
  have kind: "de_kind demo_derived = de_kind ?t" by (simp add: demo_derived_def derived_new_def)
  have save: "derived_save_records (\<lambda>_. []) demo_derived_codecs demo_derived = Inr [[1]]"
    by (simp add: derived_save_records_def ready_cells_def demo_derived_def encode_derived_record_def
        demo_derived_codecs_def demo_key_def decode_facet_def byte_codec_def)
  from derived_save_load_restore [OF law wf kind save]
  have "ready_at (snd (derived_load_records (\<lambda>_. 0) demo_derived_codecs [[1]] (derived_clear ?t)))
      = ready_at demo_derived"
    by (simp add: case_prod_beta Let_def)
  moreover have "ready_at demo_derived (demo_key 3 1) = Some demo_ready"
    by (simp add: ready_at_def demo_derived_def)
  ultimately show ?thesis using save by (intro exI [of _ "[[1]]"]) simp
qed

text \<open>A deep snapshot of the cells keeps the ready ones and nothing else.\<close>

lemma snapshot_cells_deep_lookup:
  assumes "twf (de_cells s)"
  shows "tget (snapshot_cells_deep s) q = map_option new_ready (ready_at s q)"
proof -
  have f: "fold (\<lambda>(q, r). tinsert q (new_ready r)) es acc =
      fold (\<lambda>(q, st). tinsert q st) (map (\<lambda>(q, r). (q, new_ready r)) es) acc"
    for es :: "(DynKey \<times> 'a ReadyRecord) list" and acc
    by (induction es arbitrary: acc) auto
  have d: "distinct (map fst (map (\<lambda>(q, r). (q, new_ready r)) (ready_cells s)))"
    using distinct_ready_cells [OF assms] by (simp add: comp_def case_prod_unfold)
  show ?thesis
    unfolding snapshot_cells_deep_def f using tab.look_fold_ins [OF d, of "[]" q]
    by (simp add: map_of_map tget_ready_cells [OF assms] split: option.splits)
qed

end
