(* ===== verification/Inflight.thy ===== *)
theory Inflight
  imports Runtimes
begin

text \<open>
  \<open>inflight.rs\<close>: the process-wide cache of completed results with its insertion-order eviction,
  and the registry that lets concurrent requests for one query share a computation.

  The cache is modelled first as the sequential function \<open>shared_cache_put\<close>, then split at the
  release of the order lock, which is where two threads can interleave. The registry is modelled
  by its atomic operations and a step relation over any number of threads. Results are
  type-erased in the code (\<open>ArcAny\<close>); here they are of the type parameter \<open>'v\<close>.
\<close>

subsection \<open>The shared cache\<close>

record 'v SharedCacheRecord =
  sr_value :: 'v
  sr_deps :: "Dep list"
  sr_changed_at :: Revision
  sr_verified_at :: Revision
  sr_insert_id :: u64

record SharedCacheKey =
  sk_runtime_id :: RuntimeId
  sk_kind :: QueryKindId
  sk_key :: Key

text \<open>
  The statics of the module. \<open>sc_env\<close> is the value of \<open>PICANTE_SHARED_CACHE_MAX_ENTRIES\<close>, when the
  variable is set to valid Unicode.
\<close>

record 'v shared_cache =
  sc_map :: "(SharedCacheKey, 'v SharedCacheRecord) table"
  sc_order :: "(SharedCacheKey \<times> u64) list"
  sc_max_entries :: nat
  sc_overridden :: bool
  sc_insert_id :: u64
  sc_env :: "string option"

definition shared_cache_init :: "string option \<Rightarrow> 'v shared_cache" where
  "shared_cache_init env =
     \<lparr>sc_map = [], sc_order = [], sc_max_entries = 20000, sc_overridden = False,
      sc_insert_id = 1, sc_env = env\<rparr>"

text \<open>\<open>str::parse::<usize>\<close>: an optional plus sign, then decimal digits, below \<open>2 ^ 64\<close>.\<close>

fun parse_digits :: "nat \<Rightarrow> string \<Rightarrow> nat option" where
  "parse_digits acc [] = Some acc"
| "parse_digits acc (c # cs) =
     (let d = of_char c :: nat
      in if 48 \<le> d \<and> d \<le> 57 \<and> acc * 10 + (d - 48) < 2 ^ 64
         then parse_digits (acc * 10 + (d - 48)) cs else None)"

definition parse_usize :: "string \<Rightarrow> nat option" where
  "parse_usize s =
     (let body = (case s of c # cs \<Rightarrow> if c = CHR ''+'' then cs else s | [] \<Rightarrow> [])
      in if body = [] then None else parse_digits 0 body)"

definition shared_cache_max_entries :: "'v shared_cache \<Rightarrow> nat" where
  "shared_cache_max_entries s =
     (if sc_overridden s then sc_max_entries s
      else (case Option.bind (sc_env s) parse_usize of
              Some n \<Rightarrow> n
            | None \<Rightarrow> sc_max_entries s))"

definition shared_cache_get ::
  "RuntimeId \<Rightarrow> QueryKindId \<Rightarrow> Key \<Rightarrow> 'v shared_cache \<Rightarrow> 'v SharedCacheRecord option" where
  "shared_cache_get runtime_id kind key s =
     tget (sc_map s) \<lparr>sk_runtime_id = runtime_id, sk_kind = kind, sk_key = key\<rparr>"

text \<open>The \<open>while\<close> loop that pops insertion tokens until the map fits.\<close>

fun evict ::
  "nat \<Rightarrow> (SharedCacheKey \<times> u64) list \<Rightarrow> (SharedCacheKey, 'v SharedCacheRecord) table
   \<Rightarrow> (SharedCacheKey \<times> u64) list \<times> (SharedCacheKey, 'v SharedCacheRecord) table" where
  "evict mx [] m = ([], m)"
| "evict mx ((old_key, old_id) # order) m =
     (if mx < length m
      then (let should_remove = (case tget m old_key of
                                   Some v \<Rightarrow> sr_insert_id v = old_id
                                 | None \<Rightarrow> False)
            in evict mx order (if should_remove then tremove old_key m else m))
      else ((old_key, old_id) # order, m))"

text \<open>Up to the release of the order lock; the stamped record is what \<open>insert\<close> then stores.\<close>

definition put_begin ::
  "SharedCacheKey \<Rightarrow> 'v SharedCacheRecord \<Rightarrow> 'v shared_cache \<Rightarrow> 'v SharedCacheRecord \<times> 'v shared_cache" where
  "put_begin k record s =
     (let mx = shared_cache_max_entries s;
          insert_id = sc_insert_id s;
          (order, m) = evict mx (sc_order s @ [(k, insert_id)]) (sc_map s)
      in (record\<lparr>sr_insert_id := insert_id\<rparr>,
          s\<lparr>sc_insert_id := insert_id + 1, sc_order := order, sc_map := m\<rparr>))"

definition put_finish ::
  "SharedCacheKey \<Rightarrow> 'v SharedCacheRecord \<Rightarrow> 'v shared_cache \<Rightarrow> 'v shared_cache" where
  "put_finish k record s = s\<lparr>sc_map := tinsert k record (sc_map s)\<rparr>"

definition shared_cache_put ::
  "RuntimeId \<Rightarrow> QueryKindId \<Rightarrow> Key \<Rightarrow> 'v SharedCacheRecord \<Rightarrow> 'v shared_cache \<Rightarrow> 'v shared_cache" where
  "shared_cache_put runtime_id kind key record s =
     (let k = \<lparr>sk_runtime_id = runtime_id, sk_kind = kind, sk_key = key\<rparr>;
          (record', s') = put_begin k record s
      in put_finish k record' s')"

definition test_shared_cache_clear :: "'v shared_cache \<Rightarrow> 'v shared_cache" where
  "test_shared_cache_clear s = s\<lparr>sc_map := [], sc_order := []\<rparr>"

definition test_shared_cache_set_max_entries :: "nat \<Rightarrow> 'v shared_cache \<Rightarrow> 'v shared_cache" where
  "test_shared_cache_set_max_entries max_entries s =
     s\<lparr>sc_max_entries := max max_entries 1, sc_overridden := True\<rparr>"

subsection \<open>Eviction\<close>

text \<open>Every cached record still has its own token in the queue.\<close>

definition tokened ::
  "(SharedCacheKey \<times> u64) list \<Rightarrow> (SharedCacheKey, 'v SharedCacheRecord) table \<Rightarrow> bool" where
  "tokened order m \<longleftrightarrow> (\<forall>(k, r) \<in> set m. (k, sr_insert_id r) \<in> set order)"

definition cache_inv :: "'v shared_cache \<Rightarrow> bool" where
  "cache_inv s \<longleftrightarrow>
     twf (sc_map s) \<and> tokened (sc_order s) (sc_map s)
     \<and> sorted_wrt (<) (map snd (sc_order s))
     \<and> (\<forall>(k, i) \<in> set (sc_order s). i < sc_insert_id s)"

lemma tokened_Nil [simp]: "tokened [] m \<longleftrightarrow> m = []"
  by (cases m) (auto simp: tokened_def)

lemma tremove_subset: "set (tremove k m) \<subseteq> set m"
  by (auto simp: tremove_def)

lemma evict_twf: "evict mx order m = (order', m') \<Longrightarrow> twf m \<Longrightarrow> twf m' \<and> set m' \<subseteq> set m"
proof (induction mx order m rule: evict.induct)
  case (1 mx m)
  then show ?case by simp
next
  case (2 mx k i order m)
  then show ?case
    using tremove_subset [of k m]
    by (auto simp: Let_def split: if_splits option.splits)
qed

lemma tokened_pop:
  assumes "twf m" "tokened ((k, i) # order) m"
  shows "tokened order (if case tget m k of Some v \<Rightarrow> sr_insert_id v = i | None \<Rightarrow> False
                        then tremove k m else m)"
  using assms
  by (auto simp: tokened_def tremove_def twf_tget_iff [symmetric] split: option.splits)

lemma evict_fits:
  "evict mx order m = (order', m') \<Longrightarrow> twf m \<Longrightarrow> tokened order m
   \<Longrightarrow> tokened order' m' \<and> length m' \<le> mx"
proof (induction mx order m rule: evict.induct)
  case (1 mx m)
  then show ?case by simp
next
  case (2 mx k i order m)
  let ?m = "if case tget m k of Some v \<Rightarrow> sr_insert_id v = i | None \<Rightarrow> False then tremove k m else m"
  have "twf ?m" using 2 by simp
  moreover have "tokened order ?m" using 2 tokened_pop by blast
  ultimately show ?case
    using 2 by (cases "mx < length m") (auto simp: Let_def)
qed

lemma evict_keeps_later:
  "evict mx (xs @ [(k, i)]) m = (order', m') \<Longrightarrow> twf m \<Longrightarrow> tokened (xs @ [(k, i)]) m
   \<Longrightarrow> (\<forall>(k', r) \<in> set m. sr_insert_id r \<noteq> i) \<Longrightarrow> (k, i) \<in> set order'"
proof (induction xs arbitrary: m)
  case Nil
  then have "m = []"
    by (cases m) (auto simp: tokened_def)
  with Nil show ?case by auto
next
  case (Cons x xs)
  obtain k1 i1 where x: "x = (k1, i1)" by (cases x)
  let ?m = "if case tget m k1 of Some v \<Rightarrow> sr_insert_id v = i1 | None \<Rightarrow> False then tremove k1 m else m"
  have "twf ?m" "tokened (xs @ [(k, i)]) ?m" "set ?m \<subseteq> set m"
    using Cons.prems x tokened_pop [of m k1 i1 "xs @ [(k, i)]"] tremove_subset [of k1 m] by auto
  with Cons x show ?case
    by (cases "mx < length m") (fastforce simp: Let_def)+
qed

lemma tokened_mono: "tokened order m \<Longrightarrow> set order \<subseteq> set order' \<Longrightarrow> tokened order' m"
  unfolding tokened_def by blast

text \<open>The loop drops a prefix of the queue, and removes exactly records whose token it dropped.\<close>

lemma evict_prefix:
  "evict mx order m = (order', m') \<Longrightarrow> twf m \<Longrightarrow>
   \<exists>dropped. order = dropped @ order'
     \<and> (\<forall>(k, r) \<in> set m. (k, r) \<notin> set m' \<longrightarrow> (k, sr_insert_id r) \<in> set dropped)"
proof (induction mx order m rule: evict.induct)
  case (1 mx m)
  then show ?case by auto
next
  case (2 mx k i order m)
  let ?m = "if case tget m k of Some v \<Rightarrow> sr_insert_id v = i | None \<Rightarrow> False then tremove k m else m"
  show ?case
  proof (cases "mx < length m")
    case False
    with 2 show ?thesis by (intro exI [of _ "[]"]) auto
  next
    case True
    with 2 have ev: "evict mx order ?m = (order', m')" by (simp add: Let_def)
    have "twf ?m" using 2 by simp
    from 2(1) [OF True refl ev this] obtain dropped where
      d: "order = dropped @ order'"
      "\<And>k r. (k, r) \<in> set ?m \<Longrightarrow> (k, r) \<notin> set m' \<Longrightarrow> (k, sr_insert_id r) \<in> set dropped"
      by blast
    have "k' = k \<and> sr_insert_id r = i" if "(k', r) \<in> set m" "(k', r) \<notin> set ?m" for k' r
      using that 2(3) twf_tget_iff [OF 2(3), of k' r]
      by (auto simp: tremove_def split: if_splits option.splits)
    then have "(k', sr_insert_id r) \<in> set ((k, i) # dropped)"
      if "(k', r) \<in> set m" "(k', r) \<notin> set m'" for k' r
      using that d(2) by (cases "(k', r) \<in> set ?m") auto
    with d(1) show ?thesis by (intro exI [of _ "(k, i) # dropped"]) auto
  qed
qed

abbreviation put_at :: "SharedCacheKey \<Rightarrow> 'v SharedCacheRecord \<Rightarrow> 'v shared_cache \<Rightarrow> 'v shared_cache" where
  "put_at k r s \<equiv> (case put_begin k r s of (r', s') \<Rightarrow> put_finish k r' s')"

lemma shared_cache_put_at:
  "shared_cache_put i kd ky r s = put_at \<lparr>sk_runtime_id = i, sk_kind = kd, sk_key = ky\<rparr> r s"
  by (simp add: shared_cache_put_def Let_def)

lemma sorted_snd_append_less:
  fixes i j :: "'b::linorder"
  assumes "sorted_wrt (<) (map snd (xs @ ys))" "(k, i) \<in> set xs" "(k', j) \<in> set ys"
  shows "i < j"
  using assms by (fastforce simp: sorted_wrt_append image_iff)

lemma next_id_less: "unat (i :: u64) + 1 < 2 ^ 64 \<Longrightarrow> i < i + 1"
  by (simp add: word_less_nat_alt unat_word_ariths)

lemma put_at_spec:
  assumes inv: "cache_inv s" and fresh: "unat (sc_insert_id s) + 1 < 2 ^ 64"
    and ev: "evict (shared_cache_max_entries s) (sc_order s @ [(k, sc_insert_id s)]) (sc_map s) = (order', m')"
  shows "put_at k r s = s\<lparr>sc_insert_id := sc_insert_id s + 1, sc_order := order',
             sc_map := tinsert k (r\<lparr>sr_insert_id := sc_insert_id s\<rparr>) m'\<rparr>"
    and "cache_inv (put_at k r s)" and "length m' \<le> shared_cache_max_entries s"
    and "twf m'" and "set m' \<subseteq> set (sc_map s)" and "tokened order' m'"
proof -
  let ?i = "sc_insert_id s" let ?q = "sc_order s @ [(k, ?i)]"
  have I: "twf (sc_map s)" "tokened (sc_order s) (sc_map s)" "sorted_wrt (<) (map snd (sc_order s))"
    "\<And>k i. (k, i) \<in> set (sc_order s) \<Longrightarrow> i < ?i"
    using inv by (auto simp: cache_inv_def)
  have tok: "tokened ?q (sc_map s)" by (rule tokened_mono [OF I(2)]) auto
  have new: "\<forall>(k', r) \<in> set (sc_map s). sr_insert_id r \<noteq> ?i"
    using I(2,4) by (fastforce simp: tokened_def)
  have tw: "twf m'" "set m' \<subseteq> set (sc_map s)" using evict_twf [OF ev I(1)] by auto
  have tl: "tokened order' m'" "length m' \<le> shared_cache_max_entries s"
    using evict_fits [OF ev I(1) tok] by auto
  have own: "(k, ?i) \<in> set order'" by (rule evict_keeps_later [OF ev I(1) tok new])
  obtain dropped where pre: "?q = dropped @ order'" using evict_prefix [OF ev I(1)] by blast
  have "sorted_wrt (<) (map snd ?q)"
    using I(3,4) by (auto simp: sorted_wrt_append)
  then have srt: "sorted_wrt (<) (map snd order')" unfolding pre by (simp add: sorted_wrt_append)
  have "set order' \<subseteq> set ?q" unfolding pre by simp
  then have lt: "\<forall>(k', i') \<in> set order'. i' < ?i + 1"
    using I(4) next_id_less [OF fresh] by fastforce
  show eq: "put_at k r s = s\<lparr>sc_insert_id := ?i + 1, sc_order := order',
             sc_map := tinsert k (r\<lparr>sr_insert_id := ?i\<rparr>) m'\<rparr>"
    by (simp add: put_begin_def put_finish_def Let_def ev)
  have "tokened order' (tinsert k (r\<lparr>sr_insert_id := ?i\<rparr>) m')"
    using tl(1) own by (auto simp: tokened_def set_tinsert [OF tw(1)])
  then show "cache_inv (put_at k r s)"
    unfolding eq cache_inv_def using tw srt lt by simp
  show "length m' \<le> shared_cache_max_entries s" "twf m'" "set m' \<subseteq> set (sc_map s)" "tokened order' m'"
    by (fact tl tw)+
qed

lemma put_bounded:
  assumes "cache_inv s" and "unat (sc_insert_id s) + 1 < 2 ^ 64"
  shows "let s' = shared_cache_put i kd ky r s
         in cache_inv s' \<and> length (sc_map s') \<le> Suc (shared_cache_max_entries s)
            \<and> shared_cache_get i kd ky s' = Some (r\<lparr>sr_insert_id := sc_insert_id s\<rparr>)
            \<and> (\<forall>k. k \<noteq> \<lparr>sk_runtime_id = i, sk_kind = kd, sk_key = ky\<rparr> \<longrightarrow>
                  tget (sc_map s') k = None \<or> tget (sc_map s') k = tget (sc_map s) k)"
proof -
  let ?k = "\<lparr>sk_runtime_id = i, sk_kind = kd, sk_key = ky\<rparr>"
  obtain order' m' where
    ev: "evict (shared_cache_max_entries s) (sc_order s @ [(?k, sc_insert_id s)]) (sc_map s) = (order', m')"
    by fastforce
  note p = put_at_spec [OF assms ev]
  have "tget m' k = None \<or> tget m' k = tget (sc_map s) k" for k
  proof (cases "tget m' k")
    case (Some v)
    then have "(k, v) \<in> set (sc_map s)" using p(5) by (auto dest: map_of_SomeD)
    then have "tget (sc_map s) k = Some v"
      using assms(1) by (simp add: cache_inv_def twf_tget_iff)
    with Some show ?thesis by simp
  qed simp
  then show ?thesis
    using p(2,3) unfolding Let_def shared_cache_put_at p(1) shared_cache_get_def
    by (auto simp: length_tinsert)
qed

lemma cache_inv_init [simp]: "cache_inv (shared_cache_init env)"
  by (simp add: cache_inv_def shared_cache_init_def tokened_def)

text \<open>A sequence of puts, each of them finished before the next begins.\<close>

definition run_puts ::
  "(RuntimeId \<times> QueryKindId \<times> Key \<times> 'v SharedCacheRecord) list \<Rightarrow> 'v shared_cache \<Rightarrow> 'v shared_cache" where
  "run_puts = fold (\<lambda>(i, kd, ky, r). shared_cache_put i kd ky r)"

lemma put_frame:
  "sc_insert_id (shared_cache_put i kd ky r s) = sc_insert_id s + 1"
  "shared_cache_max_entries (shared_cache_put i kd ky r s) = shared_cache_max_entries s"
  by (simp_all add: shared_cache_put_at put_begin_def put_finish_def shared_cache_max_entries_def Let_def
      split: prod.split option.split)

lemma run_puts_frame: "shared_cache_max_entries (run_puts ps s) = shared_cache_max_entries s"
  by (induction ps arbitrary: s) (auto simp: run_puts_def put_frame)

lemma run_puts_inv:
  "cache_inv s \<Longrightarrow> unat (sc_insert_id s) + length ps < 2 ^ 64 \<Longrightarrow>
   cache_inv (run_puts ps s) \<and> unat (sc_insert_id (run_puts ps s)) = unat (sc_insert_id s) + length ps"
proof (induction ps arbitrary: s)
  case (Cons p ps)
  obtain i kd ky r where p: "p = (i, kd, ky, r)" by (cases p)
  have inv: "cache_inv (shared_cache_put i kd ky r s)"
    using put_bounded [OF Cons.prems(1), of i kd ky r] Cons.prems(2) by (simp add: Let_def)
  have id: "unat (sc_insert_id (shared_cache_put i kd ky r s)) = Suc (unat (sc_insert_id s))"
    using Cons.prems(2) by (simp add: put_frame unat_word_ariths)
  from Cons.IH [OF inv] Cons.prems(2) show ?case by (simp add: p id) (simp add: run_puts_def)
qed (simp add: run_puts_def)

text \<open>
  C39. A bound on the cache when puts do not overlap: after any sequence of puts from the empty cache of a new process, each
  finished before the next begins and fewer than \<open>2 ^ 64 - 2\<close> of them, one more put leaves at most one record beyond the
  configured maximum (the eviction runs before the insertion), the record just put is the one found under its key,
  and no other key changes except by disappearing. (Puts that overlap can leave any number of records over the maximum:
  \<open>shared_cache_race_unbounded\<close>.)
\<close>
theorem shared_cache_bounded:
  fixes r :: "'v SharedCacheRecord"
  assumes "length ps + 2 < 2 ^ 64"
  shows "let s = run_puts ps (shared_cache_init env); s' = shared_cache_put i kd ky r s
         in length (sc_map s') \<le> Suc (shared_cache_max_entries s')
            \<and> shared_cache_get i kd ky s' = Some (r\<lparr>sr_insert_id := sc_insert_id s\<rparr>)
            \<and> (\<forall>k. k \<noteq> \<lparr>sk_runtime_id = i, sk_kind = kd, sk_key = ky\<rparr> \<longrightarrow>
                  tget (sc_map s') k = None \<or> tget (sc_map s') k = tget (sc_map s) k)"
proof -
  let ?s = "run_puts ps (shared_cache_init env)"
  have one: "unat (sc_insert_id (shared_cache_init env :: 'v shared_cache)) = 1" by (simp add: shared_cache_init_def)
  have "cache_inv ?s" "unat (sc_insert_id ?s) + 1 < 2 ^ 64"
    using run_puts_inv [OF cache_inv_init, of env ps] one assms by simp_all
  from put_bounded [OF this, of i kd ky r] show ?thesis by (simp add: Let_def put_frame)
qed

definition demo_record :: "u8 \<Rightarrow> u8 SharedCacheRecord" where
  "demo_record v = \<lparr>sr_value = v, sr_deps = [], sr_changed_at = Revision 1,
                    sr_verified_at = Revision 1, sr_insert_id = 0\<rparr>"

theorem shared_cache_bounded_witness:
  "length (sc_map (shared_cache_put (RuntimeId 1) (QueryKindId 1) (dk_key (demo_key 1 3)) (demo_record 7)
      (run_puts [(RuntimeId 1, QueryKindId 1, dk_key (demo_key 1 1), demo_record 5),
                 (RuntimeId 1, QueryKindId 1, dk_key (demo_key 1 2), demo_record 6)] (shared_cache_init (Some ''1''))))) \<le> 2"
proof -
  let ?ps = "[(RuntimeId 1, QueryKindId 1, dk_key (demo_key 1 1), demo_record 5),
      (RuntimeId 1, QueryKindId 1, dk_key (demo_key 1 2), demo_record 6)]"
  have "length ?ps + 2 < 2 ^ 64" by simp
  moreover have "shared_cache_max_entries (shared_cache_put i kd ky r (run_puts ?ps (shared_cache_init (Some ''1'')))) = 1" for i kd ky r
    by (simp add: put_frame run_puts_frame) (simp add: shared_cache_init_def shared_cache_max_entries_def parse_usize_def Let_def)
  ultimately show ?thesis
    using shared_cache_bounded [of ?ps "Some ''1''" "RuntimeId 1" "QueryKindId 1" "dk_key (demo_key 1 3)" "demo_record 7"]
    by (simp add: Let_def)
qed

text \<open>
  Eviction is by age of the last insertion: a record that a put evicts was inserted, or
  re-inserted, before every record that survives, so a stale queue token never evicts
  a refreshed record.
\<close>
theorem shared_cache_evicts_oldest:
  assumes "cache_inv s" and "unat (sc_insert_id s) + 1 < 2 ^ 64"
    and "tget (sc_map s) k1 = Some r1" and "tget (sc_map (shared_cache_put i kd ky r s)) k1 = None"
    and "tget (sc_map (shared_cache_put i kd ky r s)) k2 = Some r2"
  shows "sr_insert_id r1 < sr_insert_id r2"
proof -
  let ?k = "\<lparr>sk_runtime_id = i, sk_kind = kd, sk_key = ky\<rparr>"
  let ?q = "sc_order s @ [(?k, sc_insert_id s)]"
  obtain order' m' where ev: "evict (shared_cache_max_entries s) ?q (sc_map s) = (order', m')"
    by fastforce
  note p = put_at_spec [OF assms(1,2) ev]
  have I: "twf (sc_map s)" "tokened (sc_order s) (sc_map s)" "sorted_wrt (<) (map snd (sc_order s))"
    "\<And>k i. (k, i) \<in> set (sc_order s) \<Longrightarrow> i < sc_insert_id s"
    using assms(1) by (auto simp: cache_inv_def)
  have m1: "(k1, r1) \<in> set (sc_map s)" using assms(3) by (rule map_of_SomeD)
  have gone: "(k1, r1) \<notin> set m'"
    using assms(4) twf_tget_iff [OF p(4), of k1 r1]
    unfolding shared_cache_put_at p(1) by (auto split: if_splits)
  show ?thesis
  proof (cases "k2 = ?k")
    case True
    then have "sr_insert_id r2 = sc_insert_id s"
      using assms(5) unfolding shared_cache_put_at p(1) by auto
    then show ?thesis using m1 I(2,4) by (auto simp: tokened_def)
  next
    case False
    then have "(k2, r2) \<in> set m'"
      using assms(5) unfolding shared_cache_put_at p(1) by (auto dest: map_of_SomeD)
    then have s2: "(k2, sr_insert_id r2) \<in> set order'" using p(6) by (auto simp: tokened_def)
    obtain dropped where d: "?q = dropped @ order'" "(k1, sr_insert_id r1) \<in> set dropped"
      using evict_prefix [OF ev I(1)] m1 gone by blast
    have "sorted_wrt (<) (map snd ?q)" using I(3,4) by (auto simp: sorted_wrt_append)
    then have "sorted_wrt (<) (map snd (dropped @ order'))" using d(1) by simp
    from sorted_snd_append_less [OF this d(2) s2] show ?thesis .
  qed
qed

definition demo_put :: "u8 \<Rightarrow> u8 shared_cache \<Rightarrow> u8 shared_cache" where
  "demo_put b s = shared_cache_put (RuntimeId 1) (QueryKindId 1) (dk_key (demo_key 1 b)) (demo_record b) s"

definition demo_slot :: "u8 \<Rightarrow> SharedCacheKey" where
  "demo_slot b = \<lparr>sk_runtime_id = RuntimeId 1, sk_kind = QueryKindId 1, sk_key = dk_key (demo_key 1 b)\<rparr>"

definition demo_cache :: "u8 shared_cache" where
  "demo_cache = demo_put 2 (demo_put 1 (test_shared_cache_set_max_entries 1 (shared_cache_init None)))"

theorem shared_cache_evicts_oldest_witness:
  "case (tget (sc_map demo_cache) (demo_slot 1), tget (sc_map (demo_put 3 demo_cache)) (demo_slot 2)) of
     (Some r1, Some r2) \<Rightarrow> sr_insert_id r1 < sr_insert_id r2 | _ \<Rightarrow> False"
proof -
  have h: "cache_inv demo_cache" "unat (sc_insert_id demo_cache) + 1 < 2 ^ 64"
    "tget (sc_map demo_cache) (demo_slot 1) = Some ((demo_record 1)\<lparr>sr_insert_id := 1\<rparr>)"
    "tget (sc_map (demo_put 3 demo_cache)) (demo_slot 1) = None"
    "tget (sc_map (demo_put 3 demo_cache)) (demo_slot 2) = Some ((demo_record 2)\<lparr>sr_insert_id := 2\<rparr>)"
    by (simp_all add: demo_cache_def demo_put_def demo_slot_def shared_cache_put_at put_begin_def
        put_finish_def Let_def test_shared_cache_set_max_entries_def shared_cache_init_def tinsert_def
        tremove_def shared_cache_max_entries_def demo_record_def cache_inv_def tokened_def demo_key_def twf_def)
  from shared_cache_evicts_oldest [OF h(1,2,3) h(4,5) [unfolded demo_put_def]] h(3,5)
  show ?thesis by simp
qed

subsection \<open>The insertion queue is not bounded\<close>

text \<open>
  Tokens leave the queue only while the map is over its bound. A key that is put again
  and again (every adoption re-inserts its record) leaves one token behind each time.
\<close>

lemma put_below_bound:
  assumes "length (sc_map s) \<le> shared_cache_max_entries s"
  shows "put_at k r s = s\<lparr>sc_insert_id := sc_insert_id s + 1, sc_order := sc_order s @ [(k, sc_insert_id s)],
           sc_map := tinsert k (r\<lparr>sr_insert_id := sc_insert_id s\<rparr>) (sc_map s)\<rparr>"
proof -
  have "evict (shared_cache_max_entries s) (sc_order s @ [(k, sc_insert_id s)]) (sc_map s)
          = (sc_order s @ [(k, sc_insert_id s)], sc_map s)"
    using assms by (cases "sc_order s") auto
  then show ?thesis by (simp add: put_begin_def put_finish_def Let_def)
qed

lemma max_entries_frame [simp]:
  "shared_cache_max_entries (s\<lparr>sc_map := m\<rparr>) = shared_cache_max_entries s"
  "shared_cache_max_entries (s\<lparr>sc_order := q\<rparr>) = shared_cache_max_entries s"
  "shared_cache_max_entries (s\<lparr>sc_insert_id := i\<rparr>) = shared_cache_max_entries s"
  by (simp_all add: shared_cache_max_entries_def cong: option.case_cong)

lemma repeated_put:
  assumes "sc_map s = []" "sc_order s = []" "1 \<le> shared_cache_max_entries s"
  shows "length (sc_order ((put_at k r ^^ n) s)) = n
     \<and> (\<exists>m. sc_map ((put_at k r ^^ n) s) = (if n = 0 then [] else [(k, m)]))
     \<and> shared_cache_max_entries ((put_at k r ^^ n) s) = shared_cache_max_entries s"
proof (induction n)
  case 0
  then show ?case using assms by simp
next
  case (Suc n)
  let ?t = "(put_at k r ^^ n) s"
  have "length (sc_map ?t) \<le> shared_cache_max_entries ?t"
    using Suc assms(3) by (auto split: if_splits)
  note put = put_below_bound [OF this, of k r]
  obtain m where "sc_map ?t = (if n = 0 then [] else [(k, m)])" using Suc by blast
  then have "tinsert k v (sc_map ?t) = [(k, v)]" for v
    by (simp add: tinsert_def split: if_split)
  with Suc show ?case
    unfolding funpow.simps comp_apply put by simp
qed

text \<open>
  Putting one key \<open>n\<close> times leaves one record in the cache and \<open>n\<close> tokens in the queue: the
  bound on entries does not bound the memory the module keeps.
\<close>
theorem shared_cache_queue_grows:
  assumes "sc_map s = []" and "sc_order s = []" and "1 \<le> shared_cache_max_entries s"
  shows "let s' = (shared_cache_put i kd ky r ^^ n) s
         in length (sc_order s') = n \<and> length (sc_map s') = min n 1"
proof -
  let ?k = "\<lparr>sk_runtime_id = i, sk_kind = kd, sk_key = ky\<rparr>"
  have put: "shared_cache_put i kd ky r = put_at ?k r"
    by (rule ext) (rule shared_cache_put_at)
  show ?thesis
    unfolding put Let_def using repeated_put [OF assms, of n ?k r] by auto
qed

theorem shared_cache_queue_grows_witness:
  "length (sc_order ((demo_put 1 ^^ 100000) (shared_cache_init None))) = 100000"
proof -
  have "1 \<le> shared_cache_max_entries (shared_cache_init None :: u8 shared_cache)"
    "demo_put 1 = shared_cache_put (RuntimeId 1) (QueryKindId 1) (dk_key (demo_key 1 1)) (demo_record 1)"
    by (auto simp: shared_cache_init_def shared_cache_max_entries_def demo_put_def)
  with shared_cache_queue_grows [of "shared_cache_init None" 100000 "RuntimeId 1" "QueryKindId 1"
      "dk_key (demo_key 1 1)" "demo_record 1"]
  show ?thesis by (simp add: Let_def shared_cache_init_def)
qed

subsection \<open>Interleaved puts\<close>

text \<open>
  The order lock is released before \<open>SHARED_CACHE.insert\<close>: a put is two atomic steps, and other
  puts run between them. The state is the cache and the puts whose record is not inserted yet.
\<close>

type_synonym 'v racing = "'v shared_cache \<times> (SharedCacheKey \<times> 'v SharedCacheRecord) list"

inductive put_step :: "'v racing \<Rightarrow> 'v racing \<Rightarrow> bool" where
  begin_put: "put_begin k r s = (r', s') \<Longrightarrow> put_step (s, ps) (s', ps @ [(k, r')])"
| finish_put: "i < length ps \<Longrightarrow> ps ! i = (k, r) \<Longrightarrow>
     put_step (s, ps) (put_finish k r s, take i ps @ drop (Suc i) ps)"

lemma put_sequential: "put_step\<^sup>*\<^sup>* (s, ps) (put_at k r s, ps)"
proof -
  obtain r' s' where b: "put_begin k r s = (r', s')" by fastforce
  have "put_step (s, ps) (s', ps @ [(k, r')])" by (rule begin_put [OF b])
  moreover have "put_step (s', ps @ [(k, r')]) (put_finish k r' s', ps)"
    using finish_put [of "length ps" "ps @ [(k, r')]"] by simp
  ultimately show ?thesis
    by (simp add: b converse_rtranclp_into_rtranclp)
qed

text \<open>With no tokens left and the map over its bound, a put loses its own token.\<close>

lemma put_leaks:
  assumes "sc_order s = []" "shared_cache_max_entries s < length (sc_map s)"
    "k \<notin> set (tkeys (sc_map s))"
  shows "put_at k r s = s\<lparr>sc_insert_id := sc_insert_id s + 1,
           sc_map := sc_map s @ [(k, r\<lparr>sr_insert_id := sc_insert_id s\<rparr>)]\<rparr>"
proof -
  have "tget (sc_map s) k = None" using assms(3) by (simp add: map_of_eq_None_iff)
  then have "evict (shared_cache_max_entries s) (sc_order s @ [(k, sc_insert_id s)]) (sc_map s) = ([], sc_map s)"
    using assms by simp
  then show ?thesis
    using assms by (simp add: put_begin_def put_finish_def Let_def tinsert_fresh)
qed

definition slot_key :: "nat \<Rightarrow> SharedCacheKey" where
  "slot_key n = \<lparr>sk_runtime_id = RuntimeId 1, sk_kind = QueryKindId 1,
                 sk_key = from_bytes (\<lambda>_. 0) (replicate n 0)\<rparr>"

lemma slot_key_inj [simp]: "slot_key m = slot_key n \<longleftrightarrow> m = n"
  by (auto simp: slot_key_def dest: arg_cong [where f = length])

lemma fresh_slot: "\<exists>n. slot_key n \<notin> set (tkeys (m :: (SharedCacheKey, 'v) table))"
proof (rule ccontr)
  assume "\<nexists>n. slot_key n \<notin> set (tkeys m)"
  then have "range slot_key \<subseteq> set (tkeys m)" by auto
  then have "finite (range slot_key)" using finite_subset by blast
  then show False by (simp add: finite_image_iff inj_def)
qed

lemma leaking_forever:
  assumes "sc_order s = []" "shared_cache_max_entries s < length (sc_map s)"
  shows "\<exists>t. put_step\<^sup>*\<^sup>* (s, []) (t, []) \<and> sc_order t = []
     \<and> shared_cache_max_entries t = shared_cache_max_entries s \<and> length (sc_map t) = length (sc_map s) + n"
proof (induction n)
  case 0
  then show ?case using assms by (intro exI [of _ s]) simp
next
  case (Suc n)
  then obtain t where t: "put_step\<^sup>*\<^sup>* (s, []) (t, [])" "sc_order t = []"
    "shared_cache_max_entries t = shared_cache_max_entries s" "length (sc_map t) = length (sc_map s) + n"
    by blast
  obtain j where j: "slot_key j \<notin> set (tkeys (sc_map t))" using fresh_slot by blast
  have "shared_cache_max_entries t < length (sc_map t)" using t assms by simp
  note leak = put_leaks [OF t(2) this j, of undefined]
  show ?case
    using t rtranclp_trans [OF t(1) put_sequential [of t "[]" "slot_key j" undefined]]
    by (intro exI [of _ "put_at (slot_key j) undefined t"]) (auto simp: leak)
qed

text \<open>The schedule that starts the leak: two puts stall between their two steps.\<close>

definition race_state :: "'v SharedCacheRecord \<Rightarrow> 'v shared_cache" where
  "race_state r =
     (test_shared_cache_set_max_entries 1 (shared_cache_init None))
       \<lparr>sc_insert_id := 7,
        sc_map := [(slot_key 1, r\<lparr>sr_insert_id := 1\<rparr>), (slot_key 2, r\<lparr>sr_insert_id := 2\<rparr>),
                   (slot_key 6, r\<lparr>sr_insert_id := 6\<rparr>)]\<rparr>"

lemmas race_simps = test_shared_cache_set_max_entries_def shared_cache_init_def put_begin_def
  put_finish_def shared_cache_max_entries_def tinsert_def tremove_def Let_def race_state_def

lemma race_reachable:
  "put_step\<^sup>*\<^sup>* (test_shared_cache_set_max_entries 1 (shared_cache_init None), []) (race_state r, [])"
proof -
  let ?r = "\<lambda>i. r\<lparr>sr_insert_id := i\<rparr>"
  let ?p = "\<lambda>k. put_at (slot_key k) r"
  let ?f = "\<lambda>k. put_finish (slot_key k) (r\<lparr>sr_insert_id := of_nat k\<rparr>)"
  define s0 :: "'a shared_cache" where "s0 = test_shared_cache_set_max_entries 1 (shared_cache_init None)"
  define s2 where "s2 = s0\<lparr>sc_insert_id := 3, sc_order := [(slot_key 1, 1), (slot_key 2, 2)]\<rparr>"
  define s5 where "s5 = ?p 5 (?p 4 (?p 3 s2))"
  have 1: "put_step (s0, []) (s0\<lparr>sc_insert_id := 2, sc_order := [(slot_key 1, 1)]\<rparr>, [] @ [(slot_key 1, ?r 1)])"
    by (rule begin_put [where r = r]) (simp add: race_simps s0_def)
  have 2: "put_step (s0\<lparr>sc_insert_id := 2, sc_order := [(slot_key 1, 1)]\<rparr>, [(slot_key 1, ?r 1)])
      (s2, [(slot_key 1, ?r 1)] @ [(slot_key 2, ?r 2)])"
    by (rule begin_put [where r = r]) (simp add: race_simps s0_def s2_def)
  have 3: "put_step\<^sup>*\<^sup>* (s2, ps) (s5, ps)" for ps
    unfolding s5_def by (meson put_sequential rtranclp_trans)
  have 4: "put_step (s5, [(slot_key 1, ?r 1), (slot_key 2, ?r 2)]) (?f 1 s5, [(slot_key 2, ?r 2)])"
    using finish_put [of 0 "[(slot_key 1, ?r 1), (slot_key 2, ?r 2)]"] by simp
  have 5: "put_step (?f 1 s5, [(slot_key 2, ?r 2)]) (?f 2 (?f 1 s5), [])"
    using finish_put [of 0 "[(slot_key 2, ?r 2)]"] by simp
  have 6: "put_step\<^sup>*\<^sup>* (?f 2 (?f 1 s5), []) (?p 6 (?f 2 (?f 1 s5)), [])"
    by (rule put_sequential)
  have s5: "s5 = s0\<lparr>sc_insert_id := 6, sc_order := [(slot_key 4, 4), (slot_key 5, 5)],
      sc_map := [(slot_key 4, ?r 4), (slot_key 5, ?r 5)]\<rparr>"
    by (simp add: race_simps s0_def s2_def s5_def)
  have fin: "?p 6 (?f 2 (?f 1 s5)) = race_state r"
    unfolding s5 by (simp add: race_simps s0_def)
  have "put_step\<^sup>*\<^sup>* (s0, []) (s2, [(slot_key 1, ?r 1), (slot_key 2, ?r 2)])"
    using 1 2 by (simp add: converse_rtranclp_into_rtranclp)
  also have "put_step\<^sup>*\<^sup>* \<dots> (?f 2 (?f 1 s5), [])"
    using rtranclp_trans [OF 3] 4 5 by (meson converse_rtranclp_into_rtranclp r_into_rtranclp)
  also have "put_step\<^sup>*\<^sup>* \<dots> (race_state r, [])" using 6 unfolding fin .
  finally show ?thesis unfolding s0_def .
qed

text \<open>
  Under concurrent puts the bound does not hold: with a configured maximum of one record, a
  schedule of finitely many puts leads to a quiescent cache of any size, none of whose records has
  a token, so that no later put will ever evict them.
\<close>
theorem shared_cache_race_unbounded:
  "\<exists>s. put_step\<^sup>*\<^sup>* (test_shared_cache_set_max_entries 1 (shared_cache_init None :: 'v shared_cache), []) (s, [])
       \<and> shared_cache_max_entries s = 1 \<and> n \<le> length (sc_map s) \<and> sc_order s = []"
proof -
  let ?r = "undefined :: 'v SharedCacheRecord"
  have "sc_order (race_state ?r) = []" "shared_cache_max_entries (race_state ?r) < length (sc_map (race_state ?r))"
    by (simp_all add: race_simps)
  from leaking_forever [OF this, of n] obtain t where
    "put_step\<^sup>*\<^sup>* (race_state ?r, []) (t, [])" "sc_order t = []"
    "shared_cache_max_entries t = shared_cache_max_entries (race_state ?r)"
    "length (sc_map t) = length (sc_map (race_state ?r)) + n"
    by blast
  with race_reachable [of ?r] show ?thesis
    by (intro exI [of _ t]) (auto simp: race_simps)
qed

subsection \<open>The in-flight registry\<close>

datatype 'v InFlightState =
    IfRunning
  | IfDone 'v "Dep list" Revision
  | IfFailed PicanteError
  | IfCancelled

record InFlightKey =
  if_runtime_id :: RuntimeId
  if_revision :: Revision
  if_kind :: QueryKindId
  if_key :: Key

text \<open>
  An entry is shared (\<open>Arc\<close>): entries live in a store and outlive their registration. A \<open>Notify\<close> is
  the number of \<open>notify_waiters\<close> calls so far: a future created by \<open>notified\<close> completes once that
  number has grown since its creation.
\<close>

record 'v InFlightEntry =
  ife_state :: "'v InFlightState"
  ife_epoch :: nat

record 'v registry =
  reg_entries :: "'v InFlightEntry list"
  reg_map :: "(InFlightKey, nat) table"

record guard =
  g_key :: InFlightKey
  g_entry :: nat
  g_completed :: bool

datatype TryLeadResult = Leader guard | Follower nat

definition registry0 :: "'v registry" where
  "registry0 = \<lparr>reg_entries = [], reg_map = []\<rparr>"

definition entry_new :: "'v InFlightEntry" where
  "entry_new = \<lparr>ife_state = IfRunning, ife_epoch = 0\<rparr>"

definition set_state :: "nat \<Rightarrow> 'v InFlightState \<Rightarrow> 'v registry \<Rightarrow> 'v registry" where
  "set_state e st r = r\<lparr>reg_entries := (reg_entries r)[e := (reg_entries r ! e)\<lparr>ife_state := st\<rparr>]\<rparr>"

definition notify_entry :: "nat \<Rightarrow> 'v registry \<Rightarrow> 'v registry" where
  "notify_entry e r =
     r\<lparr>reg_entries := (reg_entries r)[e := (reg_entries r ! e)\<lparr>ife_epoch := ife_epoch (reg_entries r ! e) + 1\<rparr>]\<rparr>"

definition unregister :: "InFlightKey \<Rightarrow> 'v registry \<Rightarrow> 'v registry" where
  "unregister k r = r\<lparr>reg_map := tremove k (reg_map r)\<rparr>"

definition entry_complete :: "nat \<Rightarrow> 'v \<Rightarrow> Dep list \<Rightarrow> Revision \<Rightarrow> 'v registry \<Rightarrow> 'v registry" where
  "entry_complete e value deps changed_at r = notify_entry e (set_state e (IfDone value deps changed_at) r)"

definition entry_fail :: "nat \<Rightarrow> PicanteError \<Rightarrow> 'v registry \<Rightarrow> 'v registry" where
  "entry_fail e error r = notify_entry e (set_state e (IfFailed error) r)"

definition entry_cancel :: "nat \<Rightarrow> 'v registry \<Rightarrow> 'v registry" where
  "entry_cancel e r = notify_entry e (set_state e IfCancelled r)"

text \<open>Dropping the guard; \<open>complete\<close> and \<open>fail\<close> consume it, so their drop finds the flag set.\<close>

definition guard_drop :: "guard \<Rightarrow> 'v registry \<Rightarrow> 'v registry" where
  "guard_drop g r = (if g_completed g then r else unregister (g_key g) (entry_cancel (g_entry g) r))"

definition guard_complete :: "guard \<Rightarrow> 'v \<Rightarrow> Dep list \<Rightarrow> Revision \<Rightarrow> 'v registry \<Rightarrow> 'v registry" where
  "guard_complete g value deps changed_at r =
     guard_drop (g\<lparr>g_completed := True\<rparr>)
       (unregister (g_key g) (entry_complete (g_entry g) value deps changed_at r))"

definition guard_fail :: "guard \<Rightarrow> PicanteError \<Rightarrow> 'v registry \<Rightarrow> 'v registry" where
  "guard_fail g error r =
     guard_drop (g\<lparr>g_completed := True\<rparr>) (unregister (g_key g) (entry_fail (g_entry g) error r))"

definition try_lead :: "InFlightKey \<Rightarrow> 'v registry \<Rightarrow> TryLeadResult \<times> 'v registry" where
  "try_lead key r =
     (case tget (reg_map r) key of
        Some e \<Rightarrow> (Follower e, r)
      | None \<Rightarrow>
          (let e = length (reg_entries r)
           in (Leader \<lparr>g_key = key, g_entry = e, g_completed = False\<rparr>,
               r\<lparr>reg_entries := reg_entries r @ [entry_new], reg_map := tinsert key e (reg_map r)\<rparr>)))"

subsection \<open>Leaders and followers, interleaved\<close>

text \<open>
  Any number of tasks. A leader settles its entry in three atomic steps (state, notify, removal),
  with an outcome of its choice, cancellation included. A follower creates the \<open>notified\<close> future,
  then reads the state, and sleeps only if it read \<open>Running\<close>; it may also be dropped.
\<close>

datatype phase = Computing | StateSet | Notified

datatype reg_pc = RIdle | Held phase guard | Waiting nat | Armed nat nat | Sleeping nat nat

type_synonym 'v reg_state = "'v registry \<times> (nat \<Rightarrow> reg_pc)"

inductive reg_step :: "'v reg_state \<Rightarrow> 'v reg_state \<Rightarrow> bool" where
  lead: "p i = RIdle \<Longrightarrow> try_lead k r = (Leader g, r') \<Longrightarrow> reg_step (r, p) (r', p(i := Held Computing g))"
| follow: "p i = RIdle \<Longrightarrow> try_lead k r = (Follower e, r') \<Longrightarrow> reg_step (r, p) (r', p(i := Waiting e))"
| settle: "p i = Held Computing g \<Longrightarrow> st \<noteq> IfRunning \<Longrightarrow>
     reg_step (r, p) (set_state (g_entry g) st r, p(i := Held StateSet g))"
| notify: "p i = Held StateSet g \<Longrightarrow>
     reg_step (r, p) (notify_entry (g_entry g) r, p(i := Held Notified g))"
| remove: "p i = Held Notified g \<Longrightarrow> reg_step (r, p) (unregister (g_key g) r, p(i := RIdle))"
| arm: "p i = Waiting e \<Longrightarrow> reg_step (r, p) (r, p(i := Armed e (ife_epoch (reg_entries r ! e))))"
| sleep: "p i = Armed e ep \<Longrightarrow> ife_state (reg_entries r ! e) = IfRunning \<Longrightarrow>
     reg_step (r, p) (r, p(i := Sleeping e ep))"
| adopt: "p i = Armed e ep \<Longrightarrow> ife_state (reg_entries r ! e) \<noteq> IfRunning \<Longrightarrow>
     reg_step (r, p) (r, p(i := RIdle))"
| wake: "p i = Sleeping e ep \<Longrightarrow> ep < ife_epoch (reg_entries r ! e) \<Longrightarrow>
     reg_step (r, p) (r, p(i := Waiting e))"
| give_up: "p i = Waiting e \<or> p i = Armed e ep \<or> p i = Sleeping e ep \<Longrightarrow> reg_step (r, p) (r, p(i := RIdle))"

inductive_cases reg_stepE: "reg_step (r, p) (r', p')"

text \<open>What an entry looks like in each phase of its leader, and after the leader is gone.\<close>

fun phase_ok :: "phase option \<Rightarrow> 'v InFlightEntry \<Rightarrow> bool" where
  "phase_ok (Some Computing) e \<longleftrightarrow> ife_state e = IfRunning \<and> ife_epoch e = 0"
| "phase_ok (Some StateSet) e \<longleftrightarrow> ife_state e \<noteq> IfRunning \<and> ife_epoch e = 0"
| "phase_ok (Some Notified) e \<longleftrightarrow> ife_state e \<noteq> IfRunning \<and> ife_epoch e = 1"
| "phase_ok None e \<longleftrightarrow> ife_state e \<noteq> IfRunning \<and> ife_epoch e = 1"

fun follower_ok :: "'v InFlightEntry list \<Rightarrow> reg_pc \<Rightarrow> bool" where
  "follower_ok es (Waiting e) \<longleftrightarrow> e < length es"
| "follower_ok es (Armed e ep) \<longleftrightarrow> e < length es \<and> ep \<le> ife_epoch (es ! e) \<and> ep \<le> 1"
| "follower_ok es (Sleeping e ep) \<longleftrightarrow> e < length es \<and> ep = 0"
| "follower_ok es _ \<longleftrightarrow> True"

definition held_by :: "(nat \<Rightarrow> reg_pc) \<Rightarrow> nat \<Rightarrow> nat \<Rightarrow> phase \<Rightarrow> bool" where
  "held_by p i e ph \<longleftrightarrow> (\<exists>g. p i = Held ph g \<and> g_entry g = e)"

definition reg_inv :: "'v reg_state \<Rightarrow> bool" where
  "reg_inv s \<longleftrightarrow> (case s of (r, p) \<Rightarrow>
     (\<forall>i ph g. p i = Held ph g \<longrightarrow>
        tget (reg_map r) (g_key g) = Some (g_entry g) \<and> g_entry g < length (reg_entries r)
        \<and> phase_ok (Some ph) (reg_entries r ! g_entry g))
     \<and> (\<forall>i j ph ph' g h. p i = Held ph g \<longrightarrow> p j = Held ph' h \<longrightarrow>
          g_key g = g_key h \<or> g_entry g = g_entry h \<longrightarrow> i = j)
     \<and> (\<forall>k e. tget (reg_map r) k = Some e \<longrightarrow> (\<exists>i ph g. p i = Held ph g \<and> g_key g = k \<and> g_entry g = e))
     \<and> (\<forall>e < length (reg_entries r). (\<forall>i ph. \<not> held_by p i e ph) \<longrightarrow> phase_ok None (reg_entries r ! e))
     \<and> (\<forall>i. follower_ok (reg_entries r) (p i)))"

lemma reg_invI:
  assumes "\<And>i ph g. p i = Held ph g \<Longrightarrow>
      tget (reg_map r) (g_key g) = Some (g_entry g) \<and> g_entry g < length (reg_entries r)
      \<and> phase_ok (Some ph) (reg_entries r ! g_entry g)"
    and "\<And>i j ph ph' g h. p i = Held ph g \<Longrightarrow> p j = Held ph' h \<Longrightarrow>
          g_key g = g_key h \<or> g_entry g = g_entry h \<Longrightarrow> i = j"
    and "\<And>k e. tget (reg_map r) k = Some e \<Longrightarrow> \<exists>i ph g. p i = Held ph g \<and> g_key g = k \<and> g_entry g = e"
    and "\<And>e. e < length (reg_entries r) \<Longrightarrow> (\<And>i ph. \<not> held_by p i e ph) \<Longrightarrow> phase_ok None (reg_entries r ! e)"
    and "\<And>i. follower_ok (reg_entries r) (p i)"
  shows "reg_inv (r, p)"
  using assms unfolding reg_inv_def by simp

lemma reg_invD:
  assumes "reg_inv (r, p)"
  shows "p i = Held ph g \<Longrightarrow> tget (reg_map r) (g_key g) = Some (g_entry g)"
    and "p i = Held ph g \<Longrightarrow> g_entry g < length (reg_entries r)"
    and "p i = Held ph g \<Longrightarrow> phase_ok (Some ph) (reg_entries r ! g_entry g)"
    and "p i = Held ph g \<Longrightarrow> p j = Held ph' h \<Longrightarrow> g_key g = g_key h \<or> g_entry g = g_entry h \<Longrightarrow> i = j"
    and "tget (reg_map r) k = Some e \<Longrightarrow> \<exists>i ph g. p i = Held ph g \<and> g_key g = k \<and> g_entry g = e"
    and "e < length (reg_entries r) \<Longrightarrow> \<forall>i ph. \<not> held_by p i e ph \<Longrightarrow> phase_ok None (reg_entries r ! e)"
    and "follower_ok (reg_entries r) (p i)"
proof -
  note I = assms [unfolded reg_inv_def prod.case]
  show "p i = Held ph g \<Longrightarrow> tget (reg_map r) (g_key g) = Some (g_entry g)"
    and "p i = Held ph g \<Longrightarrow> g_entry g < length (reg_entries r)"
    and "p i = Held ph g \<Longrightarrow> phase_ok (Some ph) (reg_entries r ! g_entry g)"
    using I by blast+
  show "p i = Held ph g \<Longrightarrow> p j = Held ph' h \<Longrightarrow> g_key g = g_key h \<or> g_entry g = g_entry h \<Longrightarrow> i = j"
    using I by blast
  show "tget (reg_map r) k = Some e \<Longrightarrow> \<exists>i ph g. p i = Held ph g \<and> g_key g = k \<and> g_entry g = e"
    using I by blast
  show "e < length (reg_entries r) \<Longrightarrow> \<forall>i ph. \<not> held_by p i e ph \<Longrightarrow> phase_ok None (reg_entries r ! e)"
    using I by blast
  show "follower_ok (reg_entries r) (p i)"
    using I by blast
qed

text \<open>A step of a task that holds no guard before or after, and changes no entry.\<close>

lemma reg_inv_follower:
  assumes inv: "reg_inv (r, p)" and old: "\<And>ph g. p i \<noteq> Held ph g" and new: "\<And>ph g. x \<noteq> Held ph g"
    and ok: "follower_ok (reg_entries r) x"
  shows "reg_inv (r, p(i := x))"
proof (rule reg_invI)
  fix e assume e: "e < length (reg_entries r)" and free: "\<And>j ph. \<not> held_by (p(i := x)) j e ph"
  have "\<forall>j ph. \<not> held_by p j e ph"
  proof (intro allI)
    fix j ph show "\<not> held_by p j e ph"
      using free [of j ph] old by (cases "j = i") (auto simp: held_by_def)
  qed
  then show "phase_ok None (reg_entries r ! e)" using reg_invD(6) [OF inv e] by blast
next
  fix k e assume "tget (reg_map r) k = Some e"
  from reg_invD(5) [OF inv this] obtain j ph g where "p j = Held ph g \<and> g_key g = k \<and> g_entry g = e"
    by blast
  moreover from this have "j \<noteq> i" using old by auto
  ultimately show "\<exists>j ph g. (p(i := x)) j = Held ph g \<and> g_key g = k \<and> g_entry g = e"
    by (intro exI [of _ j]) auto
next
  have H: "j \<noteq> i \<and> p j = Held ph g" if "(p(i := x)) j = Held ph g" for j ph g
    using that new by (cases "j = i") simp_all
  fix j ph g assume g: "(p(i := x)) j = Held ph g"
  note pj = H [OF g, THEN conjunct2]
  show "tget (reg_map r) (g_key g) = Some (g_entry g) \<and> g_entry g < length (reg_entries r)
      \<and> phase_ok (Some ph) (reg_entries r ! g_entry g)"
    using reg_invD(1,2,3) [OF inv pj] by simp
  fix j' ph' h assume h: "(p(i := x)) j' = Held ph' h" and eq: "g_key g = g_key h \<or> g_entry g = g_entry h"
  show "j = j'" using reg_invD(4) [OF inv pj H [OF h, THEN conjunct2] eq] .
next
  fix j show "follower_ok (reg_entries r) ((p(i := x)) j)"
    using reg_invD(7) [OF inv, of j] ok by simp
qed

text \<open>A step of the leader of an entry that moves it to its next phase.\<close>

lemma reg_inv_phase:
  assumes inv: "reg_inv (r, p)" and old: "p i = Held ph g"
    and r': "reg_entries r' = (reg_entries r)[g_entry g := x]" "reg_map r' = reg_map r"
    and ok: "phase_ok (Some ph') x" and mono: "ife_epoch (reg_entries r ! g_entry g) \<le> ife_epoch x"
  shows "reg_inv (r', p(i := Held ph' g))"
proof (rule reg_invI)
  fix e assume e: "e < length (reg_entries r')" and free: "\<And>j ph. \<not> held_by (p(i := Held ph' g)) j e ph"
  have ne: "e \<noteq> g_entry g" using free [of i ph'] by (auto simp: held_by_def)
  have "\<forall>j ph. \<not> held_by p j e ph"
  proof (intro allI)
    fix j ph show "\<not> held_by p j e ph"
      using free [of j ph] ne old by (cases "j = i") (auto simp: held_by_def)
  qed
  then show "phase_ok None (reg_entries r' ! e)"
    using reg_invD(6) [OF inv, of e] e ne by (simp add: r')
next
  fix k e assume "tget (reg_map r') k = Some e"
  then have "tget (reg_map r) k = Some e" by (simp add: r')
  from reg_invD(5) [OF inv this] obtain j ph1 h where h: "p j = Held ph1 h" "g_key h = k" "g_entry h = e"
    by blast
  then show "\<exists>j ph h. (p(i := Held ph' g)) j = Held ph h \<and> g_key h = k \<and> g_entry h = e"
    using old by (cases "j = i") auto
next
  fix j ph1 h assume h: "(p(i := Held ph' g)) j = Held ph1 h"
  show "tget (reg_map r') (g_key h) = Some (g_entry h) \<and> g_entry h < length (reg_entries r')
      \<and> phase_ok (Some ph1) (reg_entries r' ! g_entry h)"
  proof (cases "j = i")
    case True
    then show ?thesis using h ok reg_invD(1,2) [OF inv old] by (auto simp: r')
  next
    case False
    with h have pj: "p j = Held ph1 h" by simp
    have "g_entry g \<noteq> g_entry h" using reg_invD(4) [OF inv old pj] False by auto
    then show ?thesis using reg_invD(1,2,3) [OF inv pj] by (simp add: r')
  qed
next
  fix j show "follower_ok (reg_entries r') ((p(i := Held ph' g)) j)"
  proof (cases "j = i")
    case False
    then show ?thesis
      using reg_invD(7) [OF inv, of j] reg_invD(2) [OF inv old] mono
      by (cases "p j") (auto simp: r' nth_list_update split: if_splits)
  qed simp
qed (use reg_invD(4) [OF inv] old in \<open>auto split: if_splits\<close>)

lemma try_lead_Leader:
  "try_lead k r = (Leader g, r') \<longleftrightarrow>
     tget (reg_map r) k = None
     \<and> g = \<lparr>g_key = k, g_entry = length (reg_entries r), g_completed = False\<rparr>
     \<and> r' = r\<lparr>reg_entries := reg_entries r @ [entry_new],
              reg_map := tinsert k (length (reg_entries r)) (reg_map r)\<rparr>"
  by (auto simp: try_lead_def Let_def split: option.splits)

lemma try_lead_Follower:
  "try_lead k r = (Follower e, r') \<longleftrightarrow> tget (reg_map r) k = Some e \<and> r' = r"
  by (auto simp: try_lead_def Let_def split: option.splits)

lemma reg_inv_lead:
  assumes inv: "reg_inv (r, p)" and old: "p i = RIdle" and lead: "try_lead k r = (Leader g, r')"
  shows "reg_inv (r', p(i := Held Computing g))"
proof (rule reg_invI)
  have L: "tget (reg_map r) k = None" "g_key g = k" "g_entry g = length (reg_entries r)"
    "reg_entries r' = reg_entries r @ [entry_new]" "tget (reg_map r') = (tget (reg_map r))(k \<mapsto> length (reg_entries r))"
    using lead by (auto simp: try_lead_Leader)
  have other: "j \<noteq> i \<Longrightarrow> p j = Held ph h \<Longrightarrow> g_key h \<noteq> k \<and> g_entry h < length (reg_entries r)" for j ph h
    using reg_invD(1,2) [OF inv, of j ph h] L(1) by auto
  {
    fix j ph h assume h: "(p(i := Held Computing g)) j = Held ph h"
    show "tget (reg_map r') (g_key h) = Some (g_entry h) \<and> g_entry h < length (reg_entries r')
      \<and> phase_ok (Some ph) (reg_entries r' ! g_entry h)"
      using h L other [of j ph h] reg_invD(1,3) [OF inv, of j ph h]
      by (cases "j = i") (auto simp: nth_append entry_new_def)
  next
    fix j j' ph ph' h h'
    assume "(p(i := Held Computing g)) j = Held ph h" "(p(i := Held Computing g)) j' = Held ph' h'"
      "g_key h = g_key h' \<or> g_entry h = g_entry h'"
    then show "j = j'"
      using other [of j ph h] other [of j' ph' h'] reg_invD(4) [OF inv, of j ph h j' ph' h'] L(2,3)
      by (cases "j = i"; cases "j' = i") auto
  next
    fix k' e assume e: "tget (reg_map r') k' = Some e"
    show "\<exists>j ph h. (p(i := Held Computing g)) j = Held ph h \<and> g_key h = k' \<and> g_entry h = e"
    proof (cases "k' = k")
      case True
      then show ?thesis using e L by (intro exI [of _ i]) auto
    next
      case False
      then obtain j ph h where "p j = Held ph h" "g_key h = k'" "g_entry h = e"
        using reg_invD(5) [OF inv, of k' e] e L(5) by auto
      then show ?thesis using old by (cases "j = i") auto
    qed
  next
    fix e assume e: "e < length (reg_entries r')" and free: "\<And>j ph. \<not> held_by (p(i := Held Computing g)) j e ph"
    have ne: "e \<noteq> length (reg_entries r)" using free [of i Computing] L(3) by (auto simp: held_by_def)
    have "\<not> held_by p j e ph" for j ph
      using free [of j ph] old by (cases "j = i") (auto simp: held_by_def)
    then show "phase_ok None (reg_entries r' ! e)"
      using reg_invD(6) [OF inv, of e] e ne L(4) by (simp add: nth_append)
  next
    fix j show "follower_ok (reg_entries r') ((p(i := Held Computing g)) j)"
      using reg_invD(7) [OF inv, of j] L(4) by (cases "p j"; cases "j = i") (auto simp: nth_append)
  }
qed

lemma reg_inv_remove:
  assumes inv: "reg_inv (r, p)" and old: "p i = Held Notified g"
  shows "reg_inv (unregister (g_key g) r, p(i := RIdle))"
proof (rule reg_invI)
  have E: "reg_entries (unregister (g_key g) r) = reg_entries r"
    "tget (reg_map (unregister (g_key g) r)) = (tget (reg_map r))(g_key g := None)"
    by (simp_all add: unregister_def)
  have H: "j \<noteq> i \<and> p j = Held ph h" if "(p(i := RIdle)) j = Held ph h" for j ph h
    using that by (cases "j = i") simp_all
  {
    fix j ph h assume h: "(p(i := RIdle)) j = Held ph h"
    have "g_key h \<noteq> g_key g" using reg_invD(4) [OF inv old, of j ph h] H [OF h] by metis
    then show "tget (reg_map (unregister (g_key g) r)) (g_key h) = Some (g_entry h)
      \<and> g_entry h < length (reg_entries (unregister (g_key g) r))
      \<and> phase_ok (Some ph) (reg_entries (unregister (g_key g) r) ! g_entry h)"
      using H [OF h] reg_invD(1,2,3) [OF inv, of j ph h] by (simp add: E)
  next
    fix j j' ph ph' h h'
    assume "(p(i := RIdle)) j = Held ph h" "(p(i := RIdle)) j' = Held ph' h'"
      "g_key h = g_key h' \<or> g_entry h = g_entry h'"
    then show "j = j'" using reg_invD(4) [OF inv, of j ph h j' ph' h'] H by metis
  next
    fix k e assume "tget (reg_map (unregister (g_key g) r)) k = Some e"
    then have k: "k \<noteq> g_key g" "tget (reg_map r) k = Some e" unfolding E by (auto split: if_splits)
    then obtain j ph h where "p j = Held ph h" "g_key h = k" "g_entry h = e"
      using reg_invD(5) [OF inv, of k e] by blast
    then show "\<exists>j ph h. (p(i := RIdle)) j = Held ph h \<and> g_key h = k \<and> g_entry h = e"
      using old k by (cases "j = i") auto
  next
    fix e assume e: "e < length (reg_entries (unregister (g_key g) r))"
      and free: "\<And>j ph. \<not> held_by (p(i := RIdle)) j e ph"
    show "phase_ok None (reg_entries (unregister (g_key g) r) ! e)"
    proof (cases "e = g_entry g")
      case True
      then show ?thesis using reg_invD(3) [OF inv old] by (simp add: E)
    next
      case False
      have "\<not> held_by p j e ph" for j ph
        using free [of j ph] old False by (cases "j = i") (auto simp: held_by_def)
      then show ?thesis using reg_invD(6) [OF inv, of e] e by (simp add: E)
    qed
  next
    fix j show "follower_ok (reg_entries (unregister (g_key g) r)) ((p(i := RIdle)) j)"
      using reg_invD(7) [OF inv, of j] by (simp add: E)
  }
qed

lemma reg_step_inv: "reg_step s t \<Longrightarrow> reg_inv s \<Longrightarrow> reg_inv t"
proof (induction rule: reg_step.induct)
  case (lead p i k r g r')
  then show ?case by (simp add: reg_inv_lead)
next
  case (follow p i k r e r')
  then have "tget (reg_map r) k = Some e" "r' = r" by (auto simp: try_lead_Follower)
  moreover from this obtain j ph g where "p j = Held ph g" "g_entry g = e"
    using reg_invD(5) [OF follow(3)] by blast
  ultimately show ?case
    using follow reg_invD(2) [OF follow(3)] by (auto intro!: reg_inv_follower)
next
  case (settle p i g st r)
  then show ?case
    using reg_invD(3) [OF settle(3,1)]
    by (intro reg_inv_phase [where r = r and ph = Computing]) (auto simp: set_state_def)
next
  case (notify p i g r)
  then show ?case
    using reg_invD(3) [OF notify(2,1)]
    by (intro reg_inv_phase [where r = r and ph = StateSet]) (auto simp: notify_entry_def)
next
  case (remove p i g r)
  then show ?case by (simp add: reg_inv_remove)
next
  case (arm p i e r)
  have "e < length (reg_entries r)" using reg_invD(7) [OF arm(2), of i] arm(1) by simp
  moreover have "ife_epoch (reg_entries r ! e) \<le> 1"
  proof (cases "\<exists>j ph. held_by p j e ph")
    case True
    then obtain j ph g where "p j = Held ph g" "g_entry g = e" by (auto simp: held_by_def)
    then show ?thesis using reg_invD(3) [OF arm(2)] by (cases ph) force+
  next
    case False
    then show ?thesis using reg_invD(6) [OF arm(2) calculation] by simp
  qed
  ultimately show ?case using arm by (auto intro!: reg_inv_follower)
next
  case (sleep p i e ep r)
  have f: "e < length (reg_entries r)" "ep \<le> ife_epoch (reg_entries r ! e)"
    using reg_invD(7) [OF sleep(3), of i] sleep(1) by simp_all
  have "ife_epoch (reg_entries r ! e) = 0"
  proof (cases "\<exists>j ph. held_by p j e ph")
    case True
    then obtain j ph g where "p j = Held ph g" "g_entry g = e" by (auto simp: held_by_def)
    then show ?thesis using reg_invD(3) [OF sleep(3)] sleep(2) by (cases ph) force+
  next
    case False
    then show ?thesis using reg_invD(6) [OF sleep(3) f(1)] sleep(2) by simp
  qed
  with f sleep show ?case by (auto intro!: reg_inv_follower)
next
  case (adopt p i e ep r)
  then show ?case by (auto intro!: reg_inv_follower)
next
  case (wake p i e ep r)
  then show ?case using reg_invD(7) [OF wake(3), of i] by (auto intro!: reg_inv_follower)
next
  case (give_up p i e ep r)
  then show ?case by (auto intro!: reg_inv_follower)
qed

definition reg_init :: "'v reg_state" where
  "reg_init = (registry0, \<lambda>_. RIdle)"

lemma reg_inv_reachable: "reg_step\<^sup>*\<^sup>* reg_init s \<Longrightarrow> reg_inv s"
proof (induction rule: rtranclp_induct)
  case base
  show ?case by (simp add: reg_init_def registry0_def reg_inv_def held_by_def)
next
  case (step s t)
  then show ?case by (blast intro: reg_step_inv)
qed

text \<open>
  C15. However tasks interleave: two tasks never lead the same query at once, and a follower that sleeps
  on an entry is either already notified, or the entry has a leader that has yet to notify
  it. So no wake-up is lost, the cancellation of a leader included.
\<close>
theorem registry_single_leader_no_lost_wakeup:
  assumes "reg_step\<^sup>*\<^sup>* reg_init (r, p)"
  shows "(\<forall>i j ph ph' g h. p i = Held ph g \<and> p j = Held ph' h \<and> g_key g = g_key h \<longrightarrow> i = j)
     \<and> (\<forall>i e ep. p i = Sleeping e ep \<longrightarrow>
          ep < ife_epoch (reg_entries r ! e) \<or> (\<exists>j ph. held_by p j e ph \<and> ph \<noteq> Notified))"
proof (intro conjI allI impI)
  note inv = reg_inv_reachable [OF assms]
  fix i j ph ph' g h assume "p i = Held ph g \<and> p j = Held ph' h \<and> g_key g = g_key h"
  then show "i = j" using reg_invD(4) [OF inv] by blast
next
  note inv = reg_inv_reachable [OF assms]
  fix i e ep assume "p i = Sleeping e ep"
  then have e: "e < length (reg_entries r)" "ep = 0" using reg_invD(7) [OF inv, of i] by simp_all
  show "ep < ife_epoch (reg_entries r ! e) \<or> (\<exists>j ph. held_by p j e ph \<and> ph \<noteq> Notified)"
  proof (cases "\<exists>j ph. held_by p j e ph")
    case True
    then obtain j ph g where "p j = Held ph g" "g_entry g = e" by (auto simp: held_by_def)
    then show ?thesis using reg_invD(3) [OF inv, of j ph g] e by (cases ph) (auto simp: held_by_def)
  next
    case False
    then show ?thesis using reg_invD(6) [OF inv e(1)] e by simp
  qed
qed

lemma reg_step_outcome_kept:
  assumes "reg_step s t" "reg_inv s" "ife_state (reg_entries (fst s) ! e) \<noteq> IfRunning"
    "e < length (reg_entries (fst s))"
  shows "ife_state (reg_entries (fst t) ! e) = ife_state (reg_entries (fst s) ! e)
     \<and> e < length (reg_entries (fst t))"
  using assms
proof (induction rule: reg_step.induct)
  case (settle p i g st r)
  then show ?case
    using reg_invD(3) [OF settle(3,1)] by (cases "e = g_entry g") (auto simp: set_state_def)
next
  case (notify p i g r)
  then show ?case by (cases "e = g_entry g") (auto simp: notify_entry_def)
qed (auto simp: try_lead_Leader try_lead_Follower unregister_def nth_append)

text \<open>
  The outcome a leader has published is final: whatever happens later, every task that still
  holds the entry reads the same outcome.
\<close>
theorem registry_outcome_final:
  assumes "reg_step\<^sup>*\<^sup>* reg_init s" and "reg_step\<^sup>*\<^sup>* s t"
    and "e < length (reg_entries (fst s))" and "ife_state (reg_entries (fst s) ! e) \<noteq> IfRunning"
  shows "ife_state (reg_entries (fst t) ! e) = ife_state (reg_entries (fst s) ! e)"
proof -
  from assms(2) have "reg_inv t \<and> e < length (reg_entries (fst t))
      \<and> ife_state (reg_entries (fst t) ! e) = ife_state (reg_entries (fst s) ! e)"
  proof (induction rule: rtranclp_induct)
    case base
    then show ?case using assms reg_inv_reachable by blast
  next
    case (step t u)
    then show ?case using assms(4) reg_step_outcome_kept [of t u e] reg_step_inv [of t u] by metis
  qed
  then show ?thesis by blast
qed

text \<open>The guard's methods are the three steps of a leader run back to back.\<close>

lemma leader_steps:
  assumes "p i = Held Computing g" "st \<noteq> IfRunning"
  shows "reg_step\<^sup>*\<^sup>* (r, p)
     (unregister (g_key g) (notify_entry (g_entry g) (set_state (g_entry g) st r)), p(i := RIdle))"
proof -
  let ?r1 = "set_state (g_entry g) st r" let ?r2 = "notify_entry (g_entry g) ?r1"
  have "reg_step (r, p) (?r1, p(i := Held StateSet g))" using assms by (rule settle)
  moreover have "reg_step (?r1, p(i := Held StateSet g)) (?r2, p(i := Held Notified g))"
    using notify [of "p(i := Held StateSet g)" i g ?r1] by simp
  moreover have "reg_step (?r2, p(i := Held Notified g)) (unregister (g_key g) ?r2, p(i := RIdle))"
    using remove [of "p(i := Held Notified g)" i g ?r2] by simp
  ultimately show ?thesis
    by (meson converse_rtranclp_into_rtranclp r_into_rtranclp)
qed

lemma guard_complete_steps:
  assumes "p i = Held Computing g"
  shows "reg_step\<^sup>*\<^sup>* (r, p) (guard_complete g v ds ca r, p(i := RIdle))"
  using leader_steps [of p i g "IfDone v ds ca" r, OF assms]
  by (simp add: guard_complete_def guard_drop_def entry_complete_def)

lemma guard_fail_steps:
  assumes "p i = Held Computing g"
  shows "reg_step\<^sup>*\<^sup>* (r, p) (guard_fail g err r, p(i := RIdle))"
  using leader_steps [of p i g "IfFailed err" r, OF assms]
  by (simp add: guard_fail_def guard_drop_def entry_fail_def)

lemma guard_drop_steps:
  assumes "p i = Held Computing g" "\<not> g_completed g"
  shows "reg_step\<^sup>*\<^sup>* (r, p) (guard_drop g r, p(i := RIdle))"
  using leader_steps [of p i g IfCancelled r, OF assms(1)] assms(2)
  by (simp add: guard_drop_def entry_cancel_def)

subsection \<open>A run with a sleeping follower\<close>

definition demo_inflight :: InFlightKey where
  "demo_inflight = \<lparr>if_runtime_id = RuntimeId 1, if_revision = Revision 1, if_kind = QueryKindId 1,
                    if_key = dk_key (demo_key 1 1)\<rparr>"

definition demo_guard :: guard where
  "demo_guard = \<lparr>g_key = demo_inflight, g_entry = 0, g_completed = False\<rparr>"

definition demo_sleeping :: "u8 reg_state" where
  "demo_sleeping = (\<lparr>reg_entries = [entry_new], reg_map = [(demo_inflight, 0)]\<rparr>,
     (\<lambda>_. RIdle)(0 := Held Computing demo_guard, 1 := Sleeping 0 0))"

lemma demo_sleeping_reachable: "reg_step\<^sup>*\<^sup>* reg_init demo_sleeping"
proof -
  let ?r = "\<lparr>reg_entries = [entry_new], reg_map = [(demo_inflight, 0)]\<rparr> :: u8 registry"
  let ?p = "(\<lambda>_. RIdle)(0 := Held Computing demo_guard)"
  have "reg_step (reg_init :: u8 reg_state) (?r, ?p)"
    unfolding reg_init_def
    by (rule lead [of _ _ demo_inflight]) (auto simp: try_lead_Leader registry0_def demo_guard_def tinsert_def)
  moreover have "reg_step (?r, ?p) (?r, ?p(1 := Waiting 0))"
    by (rule follow [of _ _ demo_inflight]) (auto simp: try_lead_Follower)
  moreover have "reg_step (?r, ?p(1 := Waiting 0)) (?r, ?p(1 := Armed 0 0))"
    using arm [of "?p(1 := Waiting 0)" 1 0 ?r] by (simp add: entry_new_def)
  moreover have "reg_step (?r, ?p(1 := Armed 0 0)) (?r, ?p(1 := Sleeping 0 0))"
    using sleep [of "?p(1 := Armed 0 0)" 1 0 0 ?r] by (simp add: entry_new_def)
  ultimately show ?thesis
    unfolding demo_sleeping_def by (meson converse_rtranclp_into_rtranclp r_into_rtranclp)
qed

theorem registry_single_leader_no_lost_wakeup_witness:
  "snd demo_sleeping 1 = Sleeping 0 0 \<and> (\<exists>j ph. held_by (snd demo_sleeping) j 0 ph \<and> ph \<noteq> Notified)"
proof -
  have s: "snd demo_sleeping 1 = Sleeping 0 0" "ife_epoch (reg_entries (fst demo_sleeping) ! 0) = 0"
    by (simp_all add: demo_sleeping_def entry_new_def)
  have "reg_step\<^sup>*\<^sup>* reg_init (fst demo_sleeping, snd demo_sleeping)"
    using demo_sleeping_reachable by simp
  from registry_single_leader_no_lost_wakeup [OF this, THEN conjunct2, rule_format, OF s(1)] s
  show ?thesis by simp
qed

theorem registry_outcome_final_witness:
  "\<exists>s. reg_step\<^sup>*\<^sup>* reg_init s \<and> ife_state (reg_entries (fst s) ! 0) = IfDone (42 :: u8) [] (Revision 1)
     \<and> (\<forall>t. reg_step\<^sup>*\<^sup>* s t \<longrightarrow> ife_state (reg_entries (fst t) ! 0) = IfDone 42 [] (Revision 1))"
proof -
  let ?r = "fst demo_sleeping" let ?p = "snd demo_sleeping"
  let ?s = "(guard_complete demo_guard 42 [] (Revision 1) ?r, ?p(0 := RIdle))"
  have "?p 0 = Held Computing demo_guard" and r: "reg_entries ?r = [entry_new]"
    by (simp_all add: demo_sleeping_def)
  from this(1) have "reg_step\<^sup>*\<^sup>* (?r, ?p) ?s"
    by (rule guard_complete_steps [of ?p 0 demo_guard ?r 42 "[]" "Revision 1"])
  with demo_sleeping_reachable have s: "reg_step\<^sup>*\<^sup>* reg_init ?s"
    by simp
  have st: "ife_state (reg_entries (fst ?s) ! 0) = IfDone 42 [] (Revision 1)" "0 < length (reg_entries (fst ?s))"
    using r by (simp_all add: guard_complete_def guard_drop_def entry_complete_def notify_entry_def
        set_state_def unregister_def demo_guard_def)
  then have "ife_state (reg_entries (fst ?s) ! 0) \<noteq> IfRunning" by simp
  note final = registry_outcome_final [OF s _ st(2) this, unfolded st(1)]
  show ?thesis
    by (rule exI [of _ ?s]) (intro conjI allI impI s st(1) final)
qed

end
