(* ===== verification/Access.thy ===== *)
theory Access
  imports Derived Inflight
begin

text \<open>
  The state machine of \<open>ingredient/derived.rs\<close>: \<open>access_scoped_erased\<close>, \<open>try_revalidate\<close>, \<open>touch\<close> and
  \<open>get\<close>, run over a database (\<open>db.rs\<close>'s registry of ingredients), the process-wide cache and
  registry of \<open>inflight.rs\<close>, and the frame stack of the running task.

  A query function is client code. It enters the model as a strategy tree (\<open>prog\<close>): return,
  fail, panic, or read something and continue with what was read.

  The model runs one task. A future that waits for a notification nobody in this task will send
  is the outcome \<open>Blocked\<close>. The main \<open>loop\<close> recurses on fuel: a \<open>continue\<close> and a nested access each
  cost one unit. \<open>AccessCorrect\<close> proves that the rank of the query plus one is enough, \<open>Termination\<close>
  that one unit for each reachable query is enough whatever the queries do.
\<close>

subsection \<open>Query functions\<close>

text \<open>What a query panics with: a string literal, an owned string, or any other value.\<close>

datatype panic_payload = StrPayload string | StringPayload string | OtherPayload

fun panic_message :: "panic_payload \<Rightarrow> string" where
  "panic_message (StrPayload s) = s"
| "panic_message (StringPayload s) = s"
| "panic_message OtherPayload = ''non-string panic payload''"

datatype 'v prog =
    Ret 'v
  | Throw PicanteError
  | PanicP panic_payload
  | ReadInput DynKey "'v option \<Rightarrow> 'v prog"
  | Query DynKey "'v PicanteResult \<Rightarrow> 'v prog"

text \<open>\<open>TypedCompute::compute\<close>: decode the key, then run the typed function.\<close>

definition typed_compute :: "'k codec \<Rightarrow> ('k \<Rightarrow> 'v prog) \<Rightarrow> Key \<Rightarrow> 'v prog" where
  "typed_compute kc f key = (case decode_facet kc key of Inl e \<Rightarrow> Throw e | Inr k \<Rightarrow> f k)"

text \<open>
  The query functions and equality functions (\<open>eq_erased\<close>) by kind.
\<close>

record 'v system =
  sys_compute :: "QueryKindId \<Rightarrow> Key \<Rightarrow> 'v prog"
  sys_eq :: "QueryKindId \<Rightarrow> 'v \<Rightarrow> 'v \<Rightarrow> bool"

definition compute_of :: "'v system \<Rightarrow> DynKey \<Rightarrow> 'v prog" where
  "compute_of sys q = sys_compute sys (dk_kind q) (dk_key q)"

subsection \<open>The database and the world around it\<close>

datatype 'v ingredient = InputI "'v Input" | DerivedI "'v Derived"

type_synonym 'v ingredients = "(QueryKindId, 'v ingredient) table"

definition ingredient_kind :: "'v ingredient \<Rightarrow> QueryKindId" where
  "ingredient_kind i = (case i of InputI s \<Rightarrow> inp_kind s | DerivedI d \<Rightarrow> de_kind d)"

text \<open>\<open>IngredientRegistry\<close>.\<close>

definition register :: "'v ingredient \<Rightarrow> 'v ingredients \<Rightarrow> 'v ingredients" where
  "register i reg = tinsert (ingredient_kind i) i reg"

definition ingredient :: "'v ingredients \<Rightarrow> QueryKindId \<Rightarrow> 'v ingredient option" where
  "ingredient reg kind = tget reg kind"

definition persistable_ingredients :: "'v ingredients \<Rightarrow> 'v ingredient list" where
  "persistable_ingredients reg = map snd reg"

record 'v world =
  w_rt :: Runtime
  w_ingredients :: "'v ingredients"
  w_cache :: "'v shared_cache"
  w_inflight :: "'v registry"
  w_task :: task
  w_counter :: u64

text \<open>The cells of the ingredient that owns a key.\<close>

definition get_cell :: "DynKey \<Rightarrow> 'v world \<Rightarrow> 'v ErasedState option" where
  "get_cell q w =
     (case ingredient (w_ingredients w) (dk_kind q) of
        Some (DerivedI d) \<Rightarrow> tget (de_cells d) q
      | _ \<Rightarrow> None)"

definition set_cell :: "DynKey \<Rightarrow> 'v ErasedState \<Rightarrow> 'v world \<Rightarrow> 'v world" where
  "set_cell q st w =
     (case ingredient (w_ingredients w) (dk_kind q) of
        Some (DerivedI d) \<Rightarrow>
          w\<lparr>w_ingredients := tinsert (dk_kind q) (DerivedI (d\<lparr>de_cells := tinsert q st (de_cells d)\<rparr>)) (w_ingredients w)\<rparr>
      | _ \<Rightarrow> w)"

text \<open>The state of the cell an access holds: it was created vacant if it was missing.\<close>

definition cell_state :: "DynKey \<Rightarrow> 'v world \<Rightarrow> 'v ErasedState" where
  "cell_state q w = (case get_cell q w of None \<Rightarrow> Vacant | Some st \<Rightarrow> st)"

definition world_rev :: "'v world \<Rightarrow> Revision" where
  "world_rev w = current_revision (w_rt w)"

definition on_rt :: "(Runtime \<Rightarrow> Runtime) \<Rightarrow> 'v world \<Rightarrow> 'v world" where
  "on_rt f w = w\<lparr>w_rt := f (w_rt w)\<rparr>"

definition on_task :: "(task \<Rightarrow> task) \<Rightarrow> 'v world \<Rightarrow> 'v world" where
  "on_task f w = w\<lparr>w_task := f (w_task w)\<rparr>"

definition put_record :: "DynKey \<Rightarrow> 'v ReadyRecord \<Rightarrow> 'v world \<Rightarrow> 'v world" where
  "put_record q r w =
     w\<lparr>w_cache := shared_cache_put (cache_scope_id (w_rt w)) (dk_kind q) (dk_key q)
        \<lparr>sr_value = rr_value r, sr_deps = rr_deps r, sr_changed_at = rr_changed_at r,
         sr_verified_at = rr_verified_at r, sr_insert_id = 0\<rparr> (w_cache w)\<rparr>"

subsection \<open>Outcomes\<close>

datatype 'a outcome = Finished 'a | Blocked | OutOfFuel

type_synonym ('a, 'v) run = "'a outcome \<times> 'v world"

record 'v AccessResult =
  ar_value :: "'v option"
  ar_changed_at :: Revision

text \<open>\<open>catch_unwind\<close>: the future returned, or it panicked with a message (\<open>panic_message\<close>).\<close>

datatype 'v caught = Returned "'v PicanteResult" | Panicked string

definition then_run :: "('a, 'v) run \<Rightarrow> ('a \<Rightarrow> 'v world \<Rightarrow> ('b, 'v) run) \<Rightarrow> ('b, 'v) run" where
  "then_run m k =
     (case m of
        (Finished a, w) \<Rightarrow> k a w
      | (Blocked, w) \<Rightarrow> (Blocked, w)
      | (OutOfFuel, w) \<Rightarrow> (OutOfFuel, w))"

lemma then_run_simps [simp]:
  "then_run (Finished a, w) k = k a w"
  "then_run (Blocked, w) k = (Blocked, w)"
  "then_run (OutOfFuel, w) k = (OutOfFuel, w)"
  by (simp_all add: then_run_def)

type_synonym 'v accessor = "DynKey \<Rightarrow> bool \<Rightarrow> 'v world \<Rightarrow> ('v AccessResult PicanteResult, 'v) run"

subsection \<open>Reads\<close>

text \<open>\<open>scope_if_needed_boxed\<close> around an access.\<close>

definition scoped :: "'v accessor \<Rightarrow> 'v accessor" where
  "scoped acc q want w =
     (case active_stack (w_task w) of
        Some _ \<Rightarrow> acc q want w
      | None \<Rightarrow>
          (let (out, w') = acc q want (on_task (\<lambda>t. t\<lparr>active_stack := Some []\<rparr>) w)
           in (out, on_task (\<lambda>t. t\<lparr>active_stack := None\<rparr>) w')))"

definition get_bug_message :: string where
  "get_bug_message = ''[BUG] expected value but got None for key ''"

definition get_erased :: "'v accessor \<Rightarrow> DynKey \<Rightarrow> 'v world \<Rightarrow> ('v PicanteResult, 'v) run" where
  "get_erased acc q w =
     then_run (scoped acc q True w) (\<lambda>res w1.
       (Finished (case res of
          Inl e \<Rightarrow> Inl e
        | Inr r \<Rightarrow> (case ar_value r of Some v \<Rightarrow> Inr v | None \<Rightarrow> Inl (Panic get_bug_message))), w1))"

definition touch_erased :: "'v accessor \<Rightarrow> DynKey \<Rightarrow> 'v world \<Rightarrow> (Revision PicanteResult, 'v) run" where
  "touch_erased acc q w =
     then_run (scoped acc q False w) (\<lambda>res w1.
       (Finished (case res of Inl e \<Rightarrow> Inl e | Inr r \<Rightarrow> Inr (ar_changed_at r)), w1))"

text \<open>\<open>InputIngredient::get\<close> after the key is encoded.\<close>

definition read_input :: "DynKey \<Rightarrow> 'v world \<Rightarrow> 'v option \<times> 'v world" where
  "read_input q w =
     (let w1 = (if has_active_frame (w_task w) then on_task (record_dep (dyn_dep q)) w else w)
      in (case ingredient (w_ingredients w) (dk_kind q) of
            Some (InputI s) \<Rightarrow> held s q
          | _ \<Rightarrow> None, w1))"

primrec run_prog :: "'v accessor \<Rightarrow> 'v prog \<Rightarrow> 'v world \<Rightarrow> ('v caught, 'v) run" where
  "run_prog acc (Ret v) w = (Finished (Returned (Inr v)), w)"
| "run_prog acc (Throw e) w = (Finished (Returned (Inl e)), w)"
| "run_prog acc (PanicP payload) w = (Finished (Panicked (panic_message payload)), w)"
| "run_prog acc (ReadInput q k) w = (let (x, w1) = read_input q w in run_prog acc (k x) w1)"
| "run_prog acc (Query q k) w = then_run (get_erased acc q w) (\<lambda>res w1. run_prog acc (k res) w1)"

subsection \<open>Revalidation\<close>

text \<open>\<open>DynIngredient::touch\<close> by the kind of ingredient.\<close>

definition touch :: "'v accessor \<Rightarrow> 'v ingredient \<Rightarrow> Key \<Rightarrow> 'v world \<Rightarrow> (Revision PicanteResult, 'v) run" where
  "touch acc i key w =
     (case i of
        InputI s \<Rightarrow> (Finished (input_touch key s), w)
      | DerivedI d \<Rightarrow> touch_erased acc \<lparr>dk_kind = de_kind d, dk_key = key\<rparr> w)"

text \<open>The \<open>for\<close> loop over the dependencies; \<open>record_is_valid_on\<close> is this loop without a frame.\<close>

primrec revalidate_deps ::
  "'v accessor \<Rightarrow> Dep list \<Rightarrow> Revision \<Rightarrow> 'v world \<Rightarrow> (bool PicanteResult, 'v) run" where
  "revalidate_deps acc [] self_changed_at w = (Finished (Inr True), w)"
| "revalidate_deps acc (d # ds) self_changed_at w =
     (case ingredient (w_ingredients w) (dep_kind d) of
        None \<Rightarrow> (Finished (Inr False), w)
      | Some i \<Rightarrow>
          then_run (touch acc i (dep_key d) w) (\<lambda>res w1.
            case res of
              Inl e \<Rightarrow> (Finished (Inl e), w1)
            | Inr changed_at \<Rightarrow>
                if self_changed_at < changed_at then (Finished (Inr False), w1)
                else revalidate_deps acc ds self_changed_at w1))"

definition record_is_valid_on ::
  "'v accessor \<Rightarrow> 'v ReadyRecord \<Rightarrow> 'v world \<Rightarrow> (bool PicanteResult, 'v) run" where
  "record_is_valid_on acc r w = revalidate_deps acc (rr_deps r) (rr_changed_at r) w"

definition try_revalidate ::
  "'v accessor \<Rightarrow> DynKey \<Rightarrow> Revision \<Rightarrow> Dep list \<Rightarrow> Revision \<Rightarrow> 'v world \<Rightarrow> (bool PicanteResult, 'v) run" where
  "try_revalidate acc requested rv deps self_changed_at w =
     (let (h, t) = frame_new requested rv (w_task w)
      in then_run (revalidate_deps acc deps self_changed_at (on_task (\<lambda>_. push_frame h t) w))
           (\<lambda>res w1. (Finished res, on_task pop_frame w1)))"

subsection \<open>One round of the loop\<close>

text \<open>What an access does before the loop: cycle check, dependency, cell.\<close>

definition record_access :: "DynKey \<Rightarrow> bool \<Rightarrow> 'v world \<Rightarrow> 'v world" where
  "record_access q want w =
     (if want \<and> has_active_frame (w_task w) then on_task (record_dep (dyn_dep q)) w else w)"

definition ensure_cell :: "DynKey \<Rightarrow> 'v world \<Rightarrow> 'v world" where
  "ensure_cell q w = (case get_cell q w of Some _ \<Rightarrow> w | None \<Rightarrow> set_cell q Vacant w)"

definition access_enter :: "'v accessor \<Rightarrow> 'v accessor" where
  "access_enter loop q want w =
     (case find_cycle q (w_task w) of
        Some stack \<Rightarrow> (Finished (Inl (Cycle q stack)), w)
      | None \<Rightarrow> loop q want (ensure_cell q (record_access q want w)))"

datatype 'v ErasedObserved =
    ObsReady "'v option" Revision
  | ObsError PicanteError
  | ObsRunning Revision
  | ObsStaleReady "Dep list" Revision
  | ObsStaleOther

definition observe :: "bool \<Rightarrow> Revision \<Rightarrow> 'v ErasedState \<Rightarrow> 'v ErasedObserved" where
  "observe want rv st =
     (case st of
        Ready v verified_at changed_at deps \<Rightarrow>
          if verified_at = rv then ObsReady (if want then Some v else None) changed_at
          else ObsStaleReady deps changed_at
      | Poisoned e verified_at \<Rightarrow> if verified_at = rv then ObsError e else ObsStaleOther
      | Running started_at \<Rightarrow> ObsRunning started_at
      | Vacant \<Rightarrow> ObsStaleOther)"

text \<open>\<open>if current_revision() == rev \{ return ... \} continue\<close>.\<close>

definition return_if_current ::
  "('v world \<Rightarrow> ('a, 'v) run) \<Rightarrow> Revision \<Rightarrow> 'a \<Rightarrow> 'v world \<Rightarrow> ('a, 'v) run" where
  "return_if_current again rv res w = (if world_rev w = rv then (Finished res, w) else again w)"

text \<open>The attempt to start a computation: \<open>None\<close> if raced, else the previous value.\<close>

definition start_running :: "Revision \<Rightarrow> 'v ErasedState \<Rightarrow> ('v \<times> Revision) option option" where
  "start_running rv st =
     (case st of
        Ready v verified_at changed_at _ \<Rightarrow> if verified_at = rv then None else Some (Some (v, changed_at))
      | Poisoned _ verified_at \<Rightarrow> if verified_at = rv then None else Some None
      | Running _ \<Rightarrow> None
      | Vacant \<Rightarrow> Some None)"

definition adopt_record :: "DynKey \<Rightarrow> Revision \<Rightarrow> 'v SharedCacheRecord \<Rightarrow> 'v world \<Rightarrow> 'v world" where
  "adopt_record q rv rec w =
     (let r = \<lparr>rr_value = sr_value rec, rr_verified_at = rv, rr_changed_at = sr_changed_at rec,
               rr_deps = sr_deps rec\<rparr>
      in put_record q r (set_cell q (new_ready r) (on_rt (update_query_deps q (sr_deps rec)) w)))"

definition finalize_changed_at :: "('v \<Rightarrow> 'v \<Rightarrow> bool) \<Rightarrow> ('v \<times> Revision) option \<Rightarrow> Revision \<Rightarrow> 'v \<Rightarrow> Revision" where
  "finalize_changed_at eq prev rv out =
     (case prev of
        Some (prev_value, prev_changed_at) \<Rightarrow> if eq prev_value out then prev_changed_at else rv
      | None \<Rightarrow> rv)"

text \<open>The success arm of the finalisation, up to the stale check.\<close>

definition finalize_ok ::
  "('v \<Rightarrow> 'v \<Rightarrow> bool) \<Rightarrow> DynKey \<Rightarrow> Revision \<Rightarrow> ('v \<times> Revision) option \<Rightarrow> guard \<Rightarrow> Dep list \<Rightarrow> 'v \<Rightarrow> 'v world \<Rightarrow> 'v world" where
  "finalize_ok eq q rv prev g deps out w =
     (let changed_at = finalize_changed_at eq prev rv out;
          r = \<lparr>rr_value = out, rr_verified_at = rv, rr_changed_at = changed_at, rr_deps = deps\<rparr>;
          w1 = on_rt (update_query_deps q deps) w;
          w2 = (if changed_at = rv then on_rt (notify_query_changed rv q) w1 else w1);
          w3 = put_record q r (set_cell q (new_ready r) w2)
      in w3\<lparr>w_inflight := guard_complete g out deps changed_at (w_inflight w3)\<rparr>)"

definition finalize_err :: "DynKey \<Rightarrow> Revision \<Rightarrow> guard \<Rightarrow> PicanteError \<Rightarrow> 'v world \<Rightarrow> 'v world" where
  "finalize_err q rv g e w =
     (let w1 = set_cell q (Poisoned e rv) w
      in w1\<lparr>w_inflight := guard_fail g e (w_inflight w1)\<rparr>)"

text \<open>The leader: run the query under a frame, then publish the outcome.\<close>

definition lead_phase ::
  "'v system \<Rightarrow> 'v accessor \<Rightarrow> ('v world \<Rightarrow> ('v AccessResult PicanteResult, 'v) run) \<Rightarrow> DynKey \<Rightarrow> bool
   \<Rightarrow> Revision \<Rightarrow> ('v \<times> Revision) option \<Rightarrow> guard \<Rightarrow> 'v world \<Rightarrow> ('v AccessResult PicanteResult, 'v) run" where
  "lead_phase sys acc again q want rv prev g w =
     (let (h, t) = frame_new q rv (w_task w)
      in then_run (run_prog acc (compute_of sys q) (on_task (\<lambda>_. push_frame h t) w)) (\<lambda>result w1.
           let (deps, t1) = take_deps h (w_task w1);
               w2 = on_task (\<lambda>_. t1) w1
           in case result of
                Returned (Inr out) \<Rightarrow>
                  return_if_current again rv
                    (Inr \<lparr>ar_value = (if want then Some out else None),
                          ar_changed_at = finalize_changed_at (sys_eq sys (dk_kind q)) prev rv out\<rparr>)
                    (on_task pop_frame (finalize_ok (sys_eq sys (dk_kind q)) q rv prev g deps out w2))
              | Returned (Inl e) \<Rightarrow>
                  return_if_current again rv (Inl e) (on_task pop_frame (finalize_err q rv g e w2))
              | Panicked m \<Rightarrow>
                  return_if_current again rv (Inl (Panic m))
                    (on_task pop_frame (finalize_err q rv g (Panic m) w2))))"

text \<open>The follower: wait for the leader of another task and take its outcome.\<close>

definition follow_phase ::
  "('v world \<Rightarrow> ('v AccessResult PicanteResult, 'v) run) \<Rightarrow> DynKey \<Rightarrow> bool \<Rightarrow> Revision \<Rightarrow> nat
   \<Rightarrow> 'v world \<Rightarrow> ('v AccessResult PicanteResult, 'v) run" where
  "follow_phase again q want rv e w =
     (let w1 = set_cell q Vacant w
      in case ife_state (reg_entries (w_inflight w1) ! e) of
           IfRunning \<Rightarrow> (Blocked, w1)
         | IfDone value deps changed_at \<Rightarrow>
             (let r = \<lparr>rr_value = value, rr_verified_at = rv, rr_changed_at = changed_at, rr_deps = deps\<rparr>;
                  w2 = on_rt (update_query_deps q deps) (set_cell q (new_ready r) w1);
                  w3 = (if changed_at = rv then on_rt (notify_query_changed rv q) w2 else w2)
              in return_if_current again rv
                   (Inr \<lparr>ar_value = (if want then Some value else None), ar_changed_at = changed_at\<rparr>)
                   (put_record q r w3))
         | IfFailed err \<Rightarrow> return_if_current again rv (Inl err) (set_cell q (Poisoned err rv) w1)
         | IfCancelled \<Rightarrow> again w1)"

definition inflight_phase ::
  "'v system \<Rightarrow> 'v accessor \<Rightarrow> ('v world \<Rightarrow> ('v AccessResult PicanteResult, 'v) run) \<Rightarrow> DynKey \<Rightarrow> bool
   \<Rightarrow> Revision \<Rightarrow> ('v \<times> Revision) option \<Rightarrow> 'v world \<Rightarrow> ('v AccessResult PicanteResult, 'v) run" where
  "inflight_phase sys acc again q want rv prev w =
     (let key = \<lparr>if_runtime_id = cache_scope_id (w_rt w), if_revision = rv, if_kind = dk_kind q, if_key = dk_key q\<rparr>;
          (lead, reg) = try_lead key (w_inflight w);
          w1 = w\<lparr>w_inflight := reg\<rparr>
      in case lead of
           Follower e \<Rightarrow> follow_phase again q want rv e w1
         | Leader g \<Rightarrow> lead_phase sys acc again q want rv prev g w1)"

text \<open>From the moment the cell is marked running: the shared cache first, then the registry.\<close>

definition compute_phase ::
  "'v system \<Rightarrow> 'v accessor \<Rightarrow> ('v world \<Rightarrow> ('v AccessResult PicanteResult, 'v) run) \<Rightarrow> DynKey \<Rightarrow> bool
   \<Rightarrow> Revision \<Rightarrow> 'v world \<Rightarrow> ('v AccessResult PicanteResult, 'v) run" where
  "compute_phase sys acc again q want rv w =
     (case start_running rv (cell_state q w) of
        None \<Rightarrow> again w
      | Some prev \<Rightarrow>
          (let w1 = set_cell q (Running rv) w
           in case shared_cache_get (cache_scope_id (w_rt w1)) (dk_kind q) (dk_key q) (w_cache w1) of
                None \<Rightarrow> inflight_phase sys acc again q want rv prev w1
              | Some rec \<Rightarrow>
                  then_run (if sr_verified_at rec = rv then (Finished (Inr True), w1)
                            else try_revalidate acc q rv (sr_deps rec) (sr_changed_at rec) w1)
                    (\<lambda>res w2. case res of
                       Inl e \<Rightarrow> (Finished (Inl e), w2)
                     | Inr False \<Rightarrow> inflight_phase sys acc again q want rv prev w2
                     | Inr True \<Rightarrow>
                         return_if_current again rv
                           (Inr \<lparr>ar_value = (if want then Some (sr_value rec) else None),
                                 ar_changed_at = sr_changed_at rec\<rparr>)
                           (adopt_record q rv rec w2))))"

definition revalidated ::
  "('v world \<Rightarrow> ('v AccessResult PicanteResult, 'v) run) \<Rightarrow> DynKey \<Rightarrow> bool \<Rightarrow> Revision
   \<Rightarrow> 'v world \<Rightarrow> ('v AccessResult PicanteResult, 'v) run" where
  "revalidated again q want rv w =
     (case cell_state q w of
        Ready v verified_at changed_at deps \<Rightarrow>
          return_if_current again rv
            (Inr \<lparr>ar_value = (if want then Some v else None), ar_changed_at = changed_at\<rparr>)
            (set_cell q (Ready v rv changed_at deps) w)
      | _ \<Rightarrow> again w)"

definition access_round ::
  "'v system \<Rightarrow> 'v accessor \<Rightarrow> ('v world \<Rightarrow> ('v AccessResult PicanteResult, 'v) run) \<Rightarrow> 'v accessor" where
  "access_round sys acc again q want w =
     (let rv = world_rev w
      in case observe want rv (cell_state q w) of
           ObsReady value changed_at \<Rightarrow>
             return_if_current again rv (Inr \<lparr>ar_value = value, ar_changed_at = changed_at\<rparr>) w
         | ObsError e \<Rightarrow> return_if_current again rv (Inl e) w
         | ObsRunning _ \<Rightarrow> (Blocked, w)
         | ObsStaleReady deps changed_at \<Rightarrow>
             then_run (try_revalidate acc q rv deps changed_at w) (\<lambda>res w1.
               case res of
                 Inl e \<Rightarrow> (Finished (Inl e), w1)
               | Inr True \<Rightarrow> revalidated again q want rv w1
               | Inr False \<Rightarrow> compute_phase sys acc again q want rv w1)
         | ObsStaleOther \<Rightarrow> compute_phase sys acc again q want rv w)"

primrec access_loop :: "nat \<Rightarrow> 'v system \<Rightarrow> 'v accessor" where
  "access_loop 0 sys = (\<lambda>q want w. (OutOfFuel, w))"
| "access_loop (Suc n) sys =
     (\<lambda>q want w. access_round sys (access_enter (access_loop n sys)) (access_loop n sys q want) q want w)"

definition access :: "nat \<Rightarrow> 'v system \<Rightarrow> 'v accessor" where
  "access n sys = access_enter (access_loop n sys)"

text \<open>\<open>DerivedIngredient::get\<close> and \<open>touch\<close> for an encoded key.\<close>

definition db_get :: "nat \<Rightarrow> 'v system \<Rightarrow> DynKey \<Rightarrow> 'v world \<Rightarrow> ('v PicanteResult, 'v) run" where
  "db_get n sys q w = get_erased (access n sys) q w"

definition db_touch :: "nat \<Rightarrow> 'v system \<Rightarrow> DynKey \<Rightarrow> 'v world \<Rightarrow> (Revision PicanteResult, 'v) run" where
  "db_touch n sys q w = touch_erased (access n sys) q w"

subsection \<open>Writing an input of the database\<close>

definition on_input :: "QueryKindId \<Rightarrow> ('v input_db \<Rightarrow> Revision \<times> 'v input_db) \<Rightarrow> 'v world \<Rightarrow> Revision \<times> 'v world" where
  "on_input kind f w =
     (case ingredient (w_ingredients w) kind of
        Some (InputI s) \<Rightarrow>
          (let (rv, d) = f \<lparr>db_input = s, db_runtime = w_rt w, db_counter = w_counter w\<rparr>
           in (rv, w\<lparr>w_ingredients := tinsert kind (InputI (db_input d)) (w_ingredients w),
                     w_rt := db_runtime d, w_counter := db_counter d\<rparr>))
      | _ \<Rightarrow> (Revision 0, w))"

text \<open>Keys are given by their encoding: the key codec is the identity on bytes.\<close>

definition raw_codec :: "bytes codec" where
  "raw_codec = \<lparr>enc = Inr, dec = Inr\<rparr>"

definition db_set :: "hasher \<Rightarrow> 'v system \<Rightarrow> QueryKindId \<Rightarrow> bytes \<Rightarrow> 'v \<Rightarrow> 'v world \<Rightarrow> 'v world" where
  "db_set sh sys kind key v w = snd (on_input kind (input_set sh raw_codec (sys_eq sys kind) key v) w)"

definition db_remove :: "hasher \<Rightarrow> QueryKindId \<Rightarrow> bytes \<Rightarrow> 'v world \<Rightarrow> 'v world" where
  "db_remove sh kind key w = snd (on_input kind (input_remove sh raw_codec key) w)"

lemma lawful_raw_codec [simp]: "lawful raw_codec"
  by (simp add: lawful_def raw_codec_def)

lemma total_raw_codec [simp]: "total_codec raw_codec"
  by (simp add: total_codec_def raw_codec_def)

end
