(* ===== verification/AccessCorrect.thy ===== *)
theory AccessCorrect
  imports Access
begin

text \<open>
  The central property of the system: what \<open>get\<close> returns is what evaluating the query from scratch
  over the current inputs returns, whatever has been memoised, revalidated, adopted or cut off
  before, and it takes a known amount of fuel, so that every access of the model terminates.

  The specification is a big-step evaluation of query functions over a state of the inputs, with
  the trace of keys read. The invariant relates memo records to the history of the inputs: \<open>hist t\<close>
  is the state of the inputs at revision \<open>t\<close>, and \<open>obs q\<close>, a ghost of the proof, the set of
  revisions at which \<open>q\<close> was brought up to date. A record is right when its value is the value of
  its query at every observed revision from its \<open>changed_at\<close> on (not at every revision: with the
  early cutoff a value may change and change back unobserved).
\<close>

subsection \<open>Evaluation from scratch\<close>

type_synonym 'v inputs = "DynKey \<Rightarrow> 'v option"

inductive ev :: "'v system \<Rightarrow> 'v inputs \<Rightarrow> 'v prog \<Rightarrow> DynKey list \<Rightarrow> 'v PicanteResult \<Rightarrow> bool"
  for sys :: "'v system" and I :: "'v inputs" where
  ev_ret: "ev sys I (Ret v) [] (Inr v)"
| ev_throw: "ev sys I (Throw e) [] (Inl e)"
| ev_panic: "ev sys I (PanicP m) [] (Inl (Panic (panic_message m)))"
| ev_read: "ev sys I (k (I q)) tr r \<Longrightarrow> ev sys I (ReadInput q k) (q # tr) r"
| ev_query: "ev sys I (compute_of sys q) tr' r' \<Longrightarrow> ev sys I (k r') tr r \<Longrightarrow> ev sys I (Query q k) (q # tr) r"

inductive_cases ev_RetE: "ev sys I (Ret v) tr r"
inductive_cases ev_ThrowE: "ev sys I (Throw e) tr r"
inductive_cases ev_PanicE: "ev sys I (PanicP m) tr r"
inductive_cases ev_ReadE: "ev sys I (ReadInput q k) tr r"
inductive_cases ev_QueryE: "ev sys I (Query q k) tr r"

lemmas ev_elims = ev_RetE ev_ThrowE ev_PanicE ev_ReadE ev_QueryE

definition evq :: "'v system \<Rightarrow> 'v inputs \<Rightarrow> DynKey \<Rightarrow> 'v PicanteResult \<Rightarrow> bool" where
  "evq sys I q r \<longleftrightarrow> (\<exists>tr. ev sys I (compute_of sys q) tr r)"

lemma ev_det: "ev sys I p tr r \<Longrightarrow> ev sys I p tr2 r2 \<Longrightarrow> tr2 = tr \<and> r2 = r"
proof (induction arbitrary: tr2 r2 rule: ev.induct)
  case (ev_read k q tr r)
  from ev_read.prems ev_read.IH show ?case by (elim ev_ReadE) blast
next
  case (ev_query q tr' r' k tr r)
  from ev_query.prems obtain tra ra trb where "tr2 = q # trb" "ev sys I (compute_of sys q) tra ra" "ev sys I (k ra) trb r2"
    by (elim ev_QueryE) blast
  with ev_query.IH show ?case by blast
qed (auto elim: ev_elims)

lemma evq_det: "evq sys I q r \<Longrightarrow> evq sys I q r' \<Longrightarrow> r' = r"
  unfolding evq_def using ev_det by blast

text \<open>Every key a program can read has a registered kind, and queries are of lower rank.\<close>

primrec prog_ok :: "(QueryKindId \<Rightarrow> bool) \<Rightarrow> (QueryKindId \<Rightarrow> bool) \<Rightarrow> (DynKey \<Rightarrow> nat) \<Rightarrow> nat \<Rightarrow> 'v prog \<Rightarrow> bool" where
  "prog_ok isin isder rank b (Ret v) \<longleftrightarrow> True"
| "prog_ok isin isder rank b (Throw e) \<longleftrightarrow> True"
| "prog_ok isin isder rank b (PanicP m) \<longleftrightarrow> True"
| "prog_ok isin isder rank b (ReadInput q k) \<longleftrightarrow> isin (dk_kind q) \<and> (\<forall>x. prog_ok isin isder rank b (k x))"
| "prog_ok isin isder rank b (Query q k) \<longleftrightarrow>
     isder (dk_kind q) \<and> rank q < b \<and> (\<forall>x. prog_ok isin isder rank b (k x))"

lemma ev_trace_ok:
  "ev sys I p tr r \<Longrightarrow> prog_ok isin isder rank b p \<Longrightarrow>
   \<forall>d \<in> set tr. isin (dk_kind d) \<or> isder (dk_kind d) \<and> rank d < b"
  by (induction rule: ev.induct) auto

text \<open>A program that gets the same answers to what it read takes the same path.\<close>

lemma ev_cong:
  "ev sys I p tr r \<Longrightarrow> prog_ok isin isder rank b p \<Longrightarrow> (\<And>k. \<not> (isin k \<and> isder k)) \<Longrightarrow>
   \<forall>d \<in> set tr. (isin (dk_kind d) \<longrightarrow> J d = I d) \<and> (isder (dk_kind d) \<longrightarrow> (\<forall>x. evq sys I d x \<longrightarrow> evq sys J d x)) \<Longrightarrow>
   ev sys J p tr r"
proof (induction rule: ev.induct)
  case (ev_read k q tr r)
  then have "J q = I q" "ev sys J (k (I q)) tr r" by auto
  then show ?case using ev.ev_read [of sys J k q tr r] by simp
next
  case (ev_query q tr' r' k tr r)
  then have "evq sys J q r'" by (auto simp: evq_def)
  then obtain tra where "ev sys J (compute_of sys q) tra r'" by (auto simp: evq_def)
  moreover have "ev sys J (k r') tr r" using ev_query by auto
  ultimately show ?case by (rule ev.ev_query)
qed (auto intro: ev.intros)

subsection \<open>Views of the world\<close>

definition derived_reg :: "'v world \<Rightarrow> QueryKindId \<Rightarrow> bool" where
  "derived_reg w k \<longleftrightarrow> (\<exists>d. ingredient (w_ingredients w) k = Some (DerivedI d) \<and> de_kind d = k)"

definition input_at :: "'v world \<Rightarrow> QueryKindId \<Rightarrow> 'v Input option" where
  "input_at w k =
     (case ingredient (w_ingredients w) k of Some (InputI s) \<Rightarrow> Some s | _ \<Rightarrow> None)"

definition input_value :: "'v world \<Rightarrow> 'v inputs" where
  "input_value w q = (case input_at w (dk_kind q) of Some s \<Rightarrow> held s q | None \<Rightarrow> None)"

definition slot :: "Runtime \<Rightarrow> DynKey \<Rightarrow> SharedCacheKey" where
  "slot rt q = \<lparr>sk_runtime_id = cache_scope_id rt, sk_kind = dk_kind q, sk_key = dk_key q\<rparr>"

lemma slot_inj [simp]: "slot rt q = slot rt q' \<longleftrightarrow> q = q'"
  by (cases q; cases q') (auto simp: slot_def)

lemma get_set_cell:
  "derived_reg w (dk_kind q) \<Longrightarrow>
   get_cell q' (set_cell q st w) = (if q' = q then Some st else get_cell q' w)"
  by (auto simp: derived_reg_def get_cell_def set_cell_def ingredient_def)

lemma derived_reg_set_cell [simp]: "derived_reg (set_cell q st w) k \<longleftrightarrow> derived_reg w k"
  by (auto simp: derived_reg_def set_cell_def ingredient_def split: option.splits ingredient.splits)

lemma input_at_set_cell [simp]: "input_at (set_cell q st w) k = input_at w k"
  by (auto simp: input_at_def set_cell_def ingredient_def split: option.splits ingredient.splits)

lemma set_cell_fields [simp]:
  "w_rt (set_cell q st w) = w_rt w" "w_cache (set_cell q st w) = w_cache w"
  "w_inflight (set_cell q st w) = w_inflight w" "w_task (set_cell q st w) = w_task w"
  by (simp_all add: set_cell_def split: option.split ingredient.split)

text \<open>Updates of the other fields do not touch the ingredients.\<close>

lemma views_frame [simp]:
  "get_cell q (w\<lparr>w_rt := a\<rparr>) = get_cell q w" "get_cell q (w\<lparr>w_cache := b\<rparr>) = get_cell q w"
  "get_cell q (w\<lparr>w_inflight := c\<rparr>) = get_cell q w" "get_cell q (w\<lparr>w_task := d\<rparr>) = get_cell q w"
  "derived_reg (w\<lparr>w_rt := a\<rparr>) k = derived_reg w k" "derived_reg (w\<lparr>w_cache := b\<rparr>) k = derived_reg w k"
  "derived_reg (w\<lparr>w_inflight := c\<rparr>) k = derived_reg w k" "derived_reg (w\<lparr>w_task := d\<rparr>) k = derived_reg w k"
  "input_at (w\<lparr>w_rt := a\<rparr>) k = input_at w k" "input_at (w\<lparr>w_cache := b\<rparr>) k = input_at w k"
  "input_at (w\<lparr>w_inflight := c\<rparr>) k = input_at w k" "input_at (w\<lparr>w_task := d\<rparr>) k = input_at w k"
  by (simp_all add: get_cell_def derived_reg_def input_at_def)

lemma update_query_deps_frame [simp]:
  "rt_revision (update_query_deps q ds rt) = rt_revision rt"
  "cache_scope_id (update_query_deps q ds rt) = cache_scope_id rt"
  "is_snapshot (update_query_deps q ds rt) = is_snapshot rt"
  by (simp_all add: update_query_deps_def Let_def cache_scope_id_def)

lemma notify_query_changed_frame [simp]:
  "rt_revision (notify_query_changed rv q rt) = rt_revision rt"
  "cache_scope_id (notify_query_changed rv q rt) = cache_scope_id rt"
  "is_snapshot (notify_query_changed rv q rt) = is_snapshot rt"
  by (simp_all add: notify_query_changed_def send_event_def cache_scope_id_def)

text \<open>What a put does to lookups, whatever the queue holds.\<close>

lemma evict_lookup: "evict mx o1 m = (o2, m2) \<Longrightarrow> tget m2 k = None \<or> tget m2 k = tget m k"
proof (induction mx o1 m rule: evict.induct)
  case (2 mx k1 i1 order m)
  then show ?case by (fastforce simp: Let_def split: if_splits option.splits)
qed simp

lemma put_record_lookup:
  "tget (sc_map (w_cache (put_record q r w))) (slot (w_rt w) q) =
     Some \<lparr>sr_value = rr_value r, sr_deps = rr_deps r, sr_changed_at = rr_changed_at r,
           sr_verified_at = rr_verified_at r, sr_insert_id = sc_insert_id (w_cache w)\<rparr>"
  "k \<noteq> slot (w_rt w) q \<Longrightarrow> tget (sc_map (w_cache (put_record q r w))) k = None
     \<or> tget (sc_map (w_cache (put_record q r w))) k = tget (sc_map (w_cache w)) k"
proof -
  obtain o2 m2 where e: "evict (shared_cache_max_entries (w_cache w))
      (sc_order (w_cache w) @ [(slot (w_rt w) q, sc_insert_id (w_cache w))]) (sc_map (w_cache w)) = (o2, m2)"
    by fastforce
  note simps = put_record_def shared_cache_put_at put_begin_def put_finish_def Let_def slot_def [symmetric] e
  show "tget (sc_map (w_cache (put_record q r w))) (slot (w_rt w) q) =
     Some \<lparr>sr_value = rr_value r, sr_deps = rr_deps r, sr_changed_at = rr_changed_at r,
           sr_verified_at = rr_verified_at r, sr_insert_id = sc_insert_id (w_cache w)\<rparr>"
    by (simp add: simps)
  show "tget (sc_map (w_cache (put_record q r w))) k = None
     \<or> tget (sc_map (w_cache (put_record q r w))) k = tget (sc_map (w_cache w)) k"
    if "k \<noteq> slot (w_rt w) q"
    using evict_lookup [OF e, of k] that by (simp add: simps)
qed

lemma put_record_fields [simp]:
  "w_rt (put_record q r w) = w_rt w" "w_inflight (put_record q r w) = w_inflight w"
  "w_task (put_record q r w) = w_task w" "get_cell q' (put_record q r w) = get_cell q' w"
  "derived_reg (put_record q r w) k = derived_reg w k" "input_at (put_record q r w) k = input_at w k"
  by (simp_all add: put_record_def)

lemma on_rt_fields [simp]:
  "w_rt (on_rt f w) = f (w_rt w)" "w_cache (on_rt f w) = w_cache w" "w_inflight (on_rt f w) = w_inflight w"
  "w_task (on_rt f w) = w_task w" "get_cell q (on_rt f w) = get_cell q w"
  "derived_reg (on_rt f w) k = derived_reg w k" "input_at (on_rt f w) k = input_at w k"
  by (simp_all add: on_rt_def)

lemma on_task_fields [simp]:
  "w_rt (on_task f w) = w_rt w" "w_cache (on_task f w) = w_cache w" "w_inflight (on_task f w) = w_inflight w"
  "w_task (on_task f w) = f (w_task w)" "get_cell q (on_task f w) = get_cell q w"
  "derived_reg (on_task f w) k = derived_reg w k" "input_at (on_task f w) k = input_at w k"
  by (simp_all add: on_task_def)

subsection \<open>The invariant\<close>

abbreviation nat_of :: "Revision \<Rightarrow> nat" where
  "nat_of r \<equiv> unat (rev_u64 r)"

lemma nat_of_le: "a \<le> b \<longleftrightarrow> nat_of a \<le> nat_of b"
  by (cases a; cases b) (simp add: word_le_nat_alt)

lemma nat_of_less: "a < b \<longleftrightarrow> nat_of a < nat_of b"
  by (cases a; cases b) (simp add: word_less_nat_alt)

lemma nat_of_inj: "nat_of a = nat_of b \<longleftrightarrow> a = b"
  by (cases a; cases b) (simp add: word_unat_eq_iff)

text \<open>What the proofs assume of the queries: kinds, ranks, a sound equality, and no failures.\<close>

record 'v setting =
  st_sys :: "'v system"
  st_isin :: "QueryKindId \<Rightarrow> bool"
  st_isder :: "QueryKindId \<Rightarrow> bool"
  st_rank :: "DynKey \<Rightarrow> nat"

definition well_set :: "'v setting \<Rightarrow> bool" where
  "well_set S \<longleftrightarrow>
     (\<forall>k. \<not> (st_isin S k \<and> st_isder S k))
     \<and> (\<forall>q. st_isder S (dk_kind q) \<longrightarrow>
          prog_ok (st_isin S) (st_isder S) (st_rank S) (st_rank S q) (compute_of (st_sys S) q))
     \<and> (\<forall>k a b. sys_eq (st_sys S) k a b \<longrightarrow> a = b)
     \<and> (\<forall>I q. st_isder S (dk_kind q) \<longrightarrow> (\<exists>v. evq (st_sys S) I q (Inr v)))"

type_synonym observed = "DynKey \<Rightarrow> nat set"

definition memo_ok ::
  "'v setting \<Rightarrow> (nat \<Rightarrow> 'v inputs) \<Rightarrow> observed \<Rightarrow> nat \<Rightarrow> DynKey \<Rightarrow> 'v ReadyRecord \<Rightarrow> bool" where
  "memo_ok S hist obs now q r \<longleftrightarrow>
     nat_of (rr_changed_at r) \<le> nat_of (rr_verified_at r) \<and> nat_of (rr_verified_at r) \<le> now
     \<and> nat_of (rr_verified_at r) \<in> obs q
     \<and> ev (st_sys S) (hist (nat_of (rr_verified_at r))) (compute_of (st_sys S) q) (map dep_dyn (rr_deps r)) (Inr (rr_value r))
     \<and> (\<forall>d \<in> set (rr_deps r). st_isder S (dep_kind d) \<longrightarrow> nat_of (rr_verified_at r) \<in> obs (dep_dyn d))
     \<and> (\<forall>t \<in> obs q. nat_of (rr_changed_at r) \<le> t \<longrightarrow> evq (st_sys S) (hist t) q (Inr (rr_value r)))"

definition of_shared :: "'v SharedCacheRecord \<Rightarrow> 'v ReadyRecord" where
  "of_shared rec = \<lparr>rr_value = sr_value rec, rr_verified_at = sr_verified_at rec,
                   rr_changed_at = sr_changed_at rec, rr_deps = sr_deps rec\<rparr>"

text \<open>The ingredients and inputs of a world, against the history.\<close>

definition env_ok :: "'v setting \<Rightarrow> (nat \<Rightarrow> 'v inputs) \<Rightarrow> nat \<Rightarrow> 'v world \<Rightarrow> bool" where
  "env_ok S hist now w \<longleftrightarrow>
     unat (rt_revision (w_rt w)) = now
     \<and> (\<forall>k. st_isder S k \<longrightarrow> derived_reg w k)
     \<and> (\<forall>k. st_isin S k \<longrightarrow> (\<exists>s. input_at w k = Some s \<and> inp_kind s = k))
     \<and> (\<forall>q s. st_isin S (dk_kind q) \<longrightarrow> input_at w (dk_kind q) = Some s \<longrightarrow>
          nat_of (stamp s q) \<le> now
          \<and> (\<forall>t. nat_of (stamp s q) \<le> t \<longrightarrow> t \<le> now \<longrightarrow> hist t q = held s q))"

text \<open>
  \<open>busy\<close> are the keys whose cell is marked running by an access that is still on the call stack,
  \<open>leads\<close> those of them that lead an in-flight entry.
\<close>

definition memos_ok ::
  "'v setting \<Rightarrow> (nat \<Rightarrow> 'v inputs) \<Rightarrow> nat \<Rightarrow> observed \<Rightarrow> DynKey set \<Rightarrow> DynKey set \<Rightarrow> 'v world \<Rightarrow> bool" where
  "memos_ok S hist now obs busy leads w \<longleftrightarrow>
     (\<forall>q r. st_isder S (dk_kind q) \<longrightarrow> get_cell q w = Some (new_ready r) \<longrightarrow> memo_ok S hist obs now q r)
     \<and> (\<forall>q s. st_isder S (dk_kind q) \<longrightarrow> get_cell q w = Some (Running s) \<longrightarrow> q \<in> busy)
     \<and> (\<forall>q e va. st_isder S (dk_kind q) \<longrightarrow> get_cell q w \<noteq> Some (Poisoned e va))
     \<and> (\<forall>q rec. st_isder S (dk_kind q) \<longrightarrow> tget (sc_map (w_cache w)) (slot (w_rt w) q) = Some rec \<longrightarrow>
          memo_ok S hist obs now q (of_shared rec)
          \<and> (q \<in> busy \<or> (\<exists>r. get_cell q w = Some (new_ready r)
                \<and> rr_value r = sr_value rec \<and> rr_changed_at r = sr_changed_at rec)))
     \<and> (\<forall>k e. tget (reg_map (w_inflight w)) k = Some e \<longrightarrow> if_runtime_id k = cache_scope_id (w_rt w) \<longrightarrow>
          \<lparr>dk_kind = if_kind k, dk_key = if_key k\<rparr> \<in> leads \<and> if_revision k = Revision (rt_revision (w_rt w)))"

definition world_ok ::
  "'v setting \<Rightarrow> (nat \<Rightarrow> 'v inputs) \<Rightarrow> nat \<Rightarrow> observed \<Rightarrow> DynKey set \<Rightarrow> DynKey set \<Rightarrow> 'v world \<Rightarrow> bool" where
  "world_ok S hist now obs busy leads w \<longleftrightarrow>
     env_ok S hist now w \<and> memos_ok S hist now obs busy leads w \<and> (\<forall>q. obs q \<subseteq> {..now})"

lemma memos_okD:
  assumes "memos_ok S hist now obs busy leads w"
  shows "st_isder S (dk_kind q) \<Longrightarrow> get_cell q w = Some (new_ready r) \<Longrightarrow> memo_ok S hist obs now q r"
    and "st_isder S (dk_kind q) \<Longrightarrow> get_cell q w = Some (Running s) \<Longrightarrow> q \<in> busy"
    and "st_isder S (dk_kind q) \<Longrightarrow> get_cell q w \<noteq> Some (Poisoned e va)"
    and "st_isder S (dk_kind q) \<Longrightarrow> tget (sc_map (w_cache w)) (slot (w_rt w) q) = Some rec \<Longrightarrow>
       memo_ok S hist obs now q (of_shared rec)"
    and "st_isder S (dk_kind q) \<Longrightarrow> tget (sc_map (w_cache w)) (slot (w_rt w) q) = Some rec \<Longrightarrow>
       q \<in> busy \<or> (\<exists>r. get_cell q w = Some (new_ready r)
                \<and> rr_value r = sr_value rec \<and> rr_changed_at r = sr_changed_at rec)"
    and "tget (reg_map (w_inflight w)) k = Some i \<Longrightarrow> if_runtime_id k = cache_scope_id (w_rt w) \<Longrightarrow>
       \<lparr>dk_kind = if_kind k, dk_key = if_key k\<rparr> \<in> leads \<and> if_revision k = Revision (rt_revision (w_rt w))"
  using assms unfolding memos_ok_def by blast+

text \<open>\<open>memos_ok\<close> only looks at the cells, the cache slots of the scope and the registry.\<close>

lemma memos_ok_cong:
  assumes "memos_ok S hist now obs busy leads w"
    and "\<And>q. get_cell q w' = get_cell q w" and "sc_map (w_cache w') = sc_map (w_cache w)"
    and "reg_map (w_inflight w') = reg_map (w_inflight w)" and "cache_scope_id (w_rt w') = cache_scope_id (w_rt w)"
    and "rt_revision (w_rt w') = rt_revision (w_rt w)"
  shows "memos_ok S hist now obs busy leads w'"
proof -
  have "slot (w_rt w') q = slot (w_rt w) q" for q using assms(5) by (simp add: slot_def)
  then show ?thesis using assms(1) unfolding memos_ok_def assms(2-6) by simp
qed

lemma env_ok_cong:
  assumes "env_ok S hist now w" "rt_revision (w_rt w') = rt_revision (w_rt w)"
    and "\<And>k. derived_reg w' k = derived_reg w k" "\<And>k. input_at w' k = input_at w k"
  shows "env_ok S hist now w'"
  using assms(1) unfolding env_ok_def assms(2-4) .

lemma memo_mono:
  assumes "memo_ok S hist obs now q r" "\<And>q'. obs q' \<subseteq> obs' q'" "obs' q = obs q"
  shows "memo_ok S hist obs' now q r"
  using assms(1) unfolding memo_ok_def assms(3) using assms(2) by blast

text \<open>How an access below rank \<open>b\<close> may change the world and the observations.\<close>

definition evolves :: "'v setting \<Rightarrow> nat \<Rightarrow> 'v world \<Rightarrow> observed \<Rightarrow> 'v world \<Rightarrow> observed \<Rightarrow> bool" where
  "evolves S b w obs w' obs' \<longleftrightarrow>
     rt_revision (w_rt w') = rt_revision (w_rt w) \<and> cache_scope_id (w_rt w') = cache_scope_id (w_rt w)
     \<and> is_snapshot (w_rt w') = is_snapshot (w_rt w)
     \<and> (\<forall>k. derived_reg w' k = derived_reg w k) \<and> (\<forall>k. input_at w' k = input_at w k)
     \<and> (\<forall>q. obs q \<subseteq> obs' q)
     \<and> (\<forall>q. b \<le> st_rank S q \<longrightarrow> get_cell q w' = get_cell q w \<and> obs' q = obs q)"

lemma evolves_refl [simp]: "evolves S b w obs w obs"
  by (simp add: evolves_def)

lemma evolves_obs: "evolves S b w obs w' obs' \<Longrightarrow> t \<in> obs q \<Longrightarrow> t \<in> obs' q"
  unfolding evolves_def by blast

lemma evolves_trans: "evolves S b w obs w1 obs1 \<Longrightarrow> evolves S b w1 obs1 w2 obs2 \<Longrightarrow> evolves S b w obs w2 obs2"
  unfolding evolves_def by (elim conjE, intro conjI allI impI) (simp_all, blast+)

lemma evolves_mono: "evolves S b w obs w1 obs1 \<Longrightarrow> b \<le> c \<Longrightarrow> evolves S c w obs w1 obs1"
  unfolding evolves_def by auto

lemma evolves_on_task: "evolves S b w obs w1 obs1 \<Longrightarrow> evolves S b (on_task f w) obs (on_task g w1) obs1"
  by (simp add: evolves_def)

lemma evolves_env: "evolves S b w obs w' obs' \<Longrightarrow> env_ok S hist now w \<Longrightarrow> env_ok S hist now w'"
  by (rule env_ok_cong) (auto simp: evolves_def)

lemma world_ok_on_task [simp]: "world_ok S hist now obs busy leads (on_task f w) \<longleftrightarrow> world_ok S hist now obs busy leads w"
proof -
  have "memos_ok S hist now obs busy leads (on_task f w) \<longleftrightarrow> memos_ok S hist now obs busy leads w"
    by (auto elim!: memos_ok_cong)
  moreover have "env_ok S hist now (on_task f w) \<longleftrightarrow> env_ok S hist now w" by (simp add: env_ok_def)
  ultimately show ?thesis by (simp add: world_ok_def)
qed

subsection \<open>Publishing a result\<close>

text \<open>
  The one place where cells and cache change: a key that was marked running becomes ready at the
  current revision and the record is put.
\<close>

lemma publish:
  assumes ok: "memos_ok S hist now obs (insert q busy) leads w" and q: "st_isder S (dk_kind q)" "q \<notin> busy"
    and reg: "derived_reg w (dk_kind q)"
    and memo: "memo_ok S hist (obs(q := insert now (obs q))) now q r"
  shows "memos_ok S hist now (obs(q := insert now (obs q))) busy leads (put_record q r (set_cell q (new_ready r) w))"
proof -
  let ?w = "put_record q r (set_cell q (new_ready r) w)" let ?obs = "obs(q := insert now (obs q))"
  note I = memos_okD [OF ok]
  have cell: "get_cell q' ?w = (if q' = q then Some (new_ready r) else get_cell q' w)" for q'
    using get_set_cell [OF reg] by simp
  have mono: "memo_ok S hist ?obs now q' r'" if "memo_ok S hist obs now q' r'" "q' \<noteq> q" for q' r'
    by (rule memo_mono [OF that(1)]) (use that(2) in auto)
  have slots: "slot (w_rt ?w) q' = slot (w_rt w) q'" for q' by simp
  have rec: "tget (sc_map (w_cache ?w)) (slot (w_rt w) q') = Some rec \<Longrightarrow>
      if q' = q then of_shared rec = r \<and> sr_value rec = rr_value r \<and> sr_changed_at rec = rr_changed_at r
      else tget (sc_map (w_cache w)) (slot (w_rt w) q') = Some rec" for q' rec
    using put_record_lookup(1) [of q r "set_cell q (new_ready r) w"]
      put_record_lookup(2) [of "slot (w_rt w) q'" "set_cell q (new_ready r) w" q r]
    by (cases r) (auto simp: of_shared_def)
  show ?thesis
    unfolding memos_ok_def cell slots
  proof (intro conjI allI impI, goal_cases)
    case (1 q' r')
    then show ?case using memo I(1) [of q' r'] mono
      by (cases "q' = q") (auto simp: ready_record_Some [symmetric] dest: arg_cong [where f = ready_record])
  next
    case (2 q' s)
    then show ?case using I(2) [of q' s] by (auto simp: new_ready_def split: if_splits)
  next
    case (3 q' e va)
    then show ?case using I(3) [of q' e va] by (auto simp: new_ready_def split: if_splits)
  next
    case (4 q' rec)
    then show ?case using rec [OF 4(2)] memo I(4) [of q' rec] mono by (auto split: if_splits)
  next
    case (5 q' rec)
    then show ?case using rec [OF 5(2)] I(5) [of q' rec] by (auto split: if_splits)
  next
    case (6 k e)
    then show ?case using I(6) [of k e] by simp
  next
    case (7 k e)
    then show ?case using I(6) [of k e] by simp
  qed
qed

subsection \<open>The frame stack\<close>

definition top_frame :: "task \<Rightarrow> handle option" where
  "top_frame t = (case active_stack t of Some s \<Rightarrow> if s = [] then None else Some (last s) | None \<Rightarrow> None)"

text \<open>From \<open>t\<close> to \<open>t'\<close> the running frame gained the reads \<open>ds\<close>; all other frames are as they were.\<close>

definition task_ext :: "Dep list \<Rightarrow> task \<Rightarrow> task \<Rightarrow> bool" where
  "task_ext ds t t' \<longleftrightarrow>
     active_stack t' = active_stack t \<and> length (frames t) \<le> length (frames t')
     \<and> (\<forall>i < length (frames t). frames t' ! i =
          (if top_frame t = Some i then (frames t ! i)\<lparr>fr_deps := fr_deps (frames t ! i) @ ds\<rparr> else frames t ! i))"

lemma top_frame_less: "wf_task t \<Longrightarrow> top_frame t = Some i \<Longrightarrow> i < length (frames t)"
  by (auto simp: top_frame_def wf_task_def split: option.splits if_splits)

lemma task_ext_refl [simp]: "task_ext [] t t"
  by (simp add: task_ext_def)

lemma task_ext_top: "task_ext ds t t' \<Longrightarrow> top_frame t' = top_frame t"
  by (simp add: task_ext_def top_frame_def)

lemma task_ext_trans:
  assumes "task_ext ds t u" "task_ext es u v"
  shows "task_ext (ds @ es) t v"
  using assms task_ext_top [OF assms(1)] unfolding task_ext_def
  by (elim conjE, intro conjI allI impI) (simp_all add: less_le_trans)

lemma task_ext_frames:
  assumes "task_ext ds t t'" "wf_task t"
  shows "wf_task t'" and "stack_keys t' = stack_keys t" and "active_stack t' = active_stack t"
proof -
  have s: "active_stack t' = active_stack t" and len: "length (frames t) \<le> length (frames t')"
    and f: "\<And>i. i < length (frames t) \<Longrightarrow> fr_key (frames t' ! i) = fr_key (frames t ! i)"
    using assms(1) by (auto simp: task_ext_def)
  show "active_stack t' = active_stack t" by (rule s)
  show "wf_task t'" using assms(2) s len by (auto simp: wf_task_def split: option.splits)
  show "stack_keys t' = stack_keys t"
    using assms(2) s f by (auto simp: stack_keys_def wf_task_def split: option.splits)
qed

lemma task_ext_record:
  assumes "wf_task t"
  shows "task_ext (if want then [d] else []) t (if want \<and> has_active_frame t then record_dep d t else t)"
proof (cases "want \<and> has_active_frame t")
  case True
  then obtain s where s: "active_stack t = Some s" "s \<noteq> []"
    by (auto simp: has_active_frame_def split: option.splits)
  then have "last s < length (frames t)" using assms by (simp add: wf_task_def)
  with True s show ?thesis
    by (auto simp: task_ext_def record_dep_def top_frame_def add_dep_def)
next
  case False
  then show ?thesis
    by (auto simp: task_ext_def top_frame_def has_active_frame_def split: option.splits)
qed

lemma pushed_frame:
  assumes fn: "frame_new q rv t = (h, t1)" and wf: "wf_task t" and st: "active_stack t = Some s"
  shows "wf_task (push_frame h t1)" and "active_stack (push_frame h t1) = Some (s @ [h])"
    and "stack_keys (push_frame h t1) = stack_keys t @ [q]"
    and "task_ext ds (push_frame h t1) t3 \<Longrightarrow> fst (take_deps h t3) = ds"
    and "task_ext ds (push_frame h t1) t3 \<Longrightarrow> task_ext [] t (pop_frame (snd (take_deps h t3)))"
    and "task_ext ds (push_frame h t1) t3 \<Longrightarrow> task_ext [] t (pop_frame t3)"
proof -
  have h: "h = length (frames t)" "active_stack t1 = Some s"
    "frames t1 = frames t @ [\<lparr>fr_key = q, fr_started = rv, fr_deps = []\<rparr>]"
    using fn st by (auto simp: frame_new_def)
  then have p: "active_stack (push_frame h t1) = Some (s @ [h])" "frames (push_frame h t1) = frames t1"
    by (simp_all add: push_frame_def)
  then have top: "top_frame (push_frame h t1) = Some h" by (simp add: top_frame_def)
  show "active_stack (push_frame h t1) = Some (s @ [h])" by (rule p)
  show "wf_task (push_frame h t1)" using wf st p h by (auto simp: wf_task_def)
  show "stack_keys (push_frame h t1) = stack_keys t @ [q]"
    using wf st p h by (auto simp: stack_keys_def wf_task_def nth_append)
  assume e: "task_ext ds (push_frame h t1) t3"
  have e3: "active_stack t3 = Some (s @ [h])" "Suc (length (frames t)) \<le> length (frames t3)"
    "frames t3 ! h = \<lparr>fr_key = q, fr_started = rv, fr_deps = ds\<rparr>"
    "\<And>i. i < length (frames t) \<Longrightarrow> frames t3 ! i = frames t ! i"
    using e h p top by (auto simp: task_ext_def nth_append)
  show "fst (take_deps h t3) = ds" using e3 h(1) by (simp add: take_deps_def)
  show "task_ext [] t (pop_frame (snd (take_deps h t3)))" "task_ext [] t (pop_frame t3)"
    using e3 h(1) st by (auto simp: task_ext_def take_deps_def drop_guard_def)
qed

subsection \<open>What an access promises\<close>

definition fresh_result ::
  "'v setting \<Rightarrow> (nat \<Rightarrow> 'v inputs) \<Rightarrow> nat \<Rightarrow> observed \<Rightarrow> DynKey \<Rightarrow> bool \<Rightarrow> 'v AccessResult \<Rightarrow> bool" where
  "fresh_result S hist now obs q want res \<longleftrightarrow>
     nat_of (ar_changed_at res) \<le> now
     \<and> (\<exists>v. ar_value res = (if want then Some v else None) \<and> evq (st_sys S) (hist now) q (Inr v)
          \<and> (\<forall>t \<in> obs q. nat_of (ar_changed_at res) \<le> t \<longrightarrow> evq (st_sys S) (hist t) q (Inr v)))"

definition access_post ::
  "'v setting \<Rightarrow> (nat \<Rightarrow> 'v inputs) \<Rightarrow> nat \<Rightarrow> DynKey \<Rightarrow> bool \<Rightarrow> DynKey set \<Rightarrow> DynKey set \<Rightarrow> 'v world \<Rightarrow> observed
   \<Rightarrow> ('v AccessResult PicanteResult, 'v) run \<Rightarrow> bool" where
  "access_post S hist now q want busy leads w obs out \<longleftrightarrow>
     (\<exists>res w' obs'. out = (Finished (Inr res), w') \<and> world_ok S hist now obs' busy leads w'
        \<and> evolves S (Suc (st_rank S q)) w obs w' obs'
        \<and> task_ext (if want then [dyn_dep q] else []) (w_task w) (w_task w')
        \<and> now \<in> obs' q \<and> fresh_result S hist now obs' q want res)"

text \<open>\<open>ready_for b\<close>: everything in progress has rank at least \<open>b\<close>.\<close>

definition ready_for :: "'v setting \<Rightarrow> nat \<Rightarrow> DynKey set \<Rightarrow> DynKey set \<Rightarrow> task \<Rightarrow> bool" where
  "ready_for S b busy leads t \<longleftrightarrow>
     (\<forall>k \<in> busy \<union> leads \<union> set (stack_keys t). b \<le> st_rank S k) \<and> wf_task t \<and> active_stack t \<noteq> None"

lemma ready_for_mono: "ready_for S c busy leads t \<Longrightarrow> b \<le> c \<Longrightarrow> ready_for S b busy leads t"
  unfolding ready_for_def by (meson order_trans)

lemma ready_for_ext: "ready_for S b busy leads t \<Longrightarrow> task_ext ds t t' \<Longrightarrow> ready_for S b busy leads t'"
  using task_ext_frames unfolding ready_for_def by metis

definition acc_spec :: "'v setting \<Rightarrow> (nat \<Rightarrow> 'v inputs) \<Rightarrow> nat \<Rightarrow> 'v accessor \<Rightarrow> nat \<Rightarrow> bool" where
  "acc_spec S hist now acc b \<longleftrightarrow>
     (\<forall>q want busy leads w obs. st_isder S (dk_kind q) \<longrightarrow> st_rank S q < b \<longrightarrow>
        world_ok S hist now obs busy leads w \<longrightarrow> ready_for S (Suc (st_rank S q)) busy leads (w_task w) \<longrightarrow>
        access_post S hist now q want busy leads w obs (acc q want w))"

lemma acc_specD:
  assumes "acc_spec S hist now acc b" "st_isder S (dk_kind q)" "st_rank S q < b"
    "world_ok S hist now obs busy leads w" "ready_for S b busy leads (w_task w)"
  shows "access_post S hist now q want busy leads w obs (acc q want w)"
  using assms ready_for_mono [OF assms(5), of "Suc (st_rank S q)"] unfolding acc_spec_def by simp

lemma scoped_active: "active_stack (w_task w) \<noteq> None \<Longrightarrow> scoped acc q want w = acc q want w"
  by (auto simp: scoped_def)

subsection \<open>Revalidation\<close>

text \<open>What a dependency answers has not changed between two revisions.\<close>

definition same_answer :: "'v setting \<Rightarrow> (nat \<Rightarrow> 'v inputs) \<Rightarrow> nat \<Rightarrow> nat \<Rightarrow> DynKey \<Rightarrow> bool" where
  "same_answer S hist t u d \<longleftrightarrow>
     (st_isin S (dk_kind d) \<longrightarrow> hist u d = hist t d)
     \<and> (st_isder S (dk_kind d) \<longrightarrow> (\<forall>x. evq (st_sys S) (hist t) d x \<longrightarrow> evq (st_sys S) (hist u) d x))"

lemma revalidate_deps_spec:
  assumes S: "well_set S" and acc: "acc_spec S hist now acc b"
    and ca: "nat_of ca \<le> va" "va \<le> now"
  shows "\<forall>d \<in> set ds. st_isin S (dep_kind d) \<or> st_isder S (dep_kind d) \<and> st_rank S (dep_dyn d) < b \<and> va \<in> obs (dep_dyn d)
    \<Longrightarrow> world_ok S hist now obs busy leads w \<Longrightarrow> ready_for S b busy leads (w_task w)
    \<Longrightarrow> \<exists>r w' obs'. revalidate_deps acc ds ca w = (Finished (Inr r), w')
          \<and> world_ok S hist now obs' busy leads w' \<and> evolves S b w obs w' obs'
          \<and> task_ext [] (w_task w) (w_task w')
          \<and> (r \<longrightarrow> (\<forall>d \<in> set ds. same_answer S hist va now (dep_dyn d)
                \<and> (st_isder S (dep_kind d) \<longrightarrow> now \<in> obs' (dep_dyn d))))"
proof (induction ds arbitrary: w obs)
  case Nil
  then show ?case by (intro exI [of _ True] exI [of _ w] exI [of _ obs]) simp
next
  case (Cons d ds)
  have kinds: "\<not> (st_isin S k \<and> st_isder S k)" for k using S by (simp add: well_set_def)
  have env: "env_ok S hist now w" using Cons.prems(2) by (simp add: world_ok_def)
  show ?case
  proof (cases "st_isin S (dep_kind d)")
    case True
    obtain s where s: "input_at w (dep_kind d) = Some s" "inp_kind s = dep_kind d"
      using env True unfolding env_ok_def by blast
    have ing: "ingredient (w_ingredients w) (dep_kind d) = Some (InputI s)"
      using s(1) by (auto simp: input_at_def split: option.splits ingredient.splits)
    have kd: "dk_kind (dep_dyn d) = dep_kind d" "\<lparr>dk_kind = dep_kind d, dk_key = dep_key d\<rparr> = dep_dyn d"
      by (simp_all add: dep_dyn_def)
    have st: "nat_of (stamp s (dep_dyn d)) \<le> now"
      "\<And>t. nat_of (stamp s (dep_dyn d)) \<le> t \<Longrightarrow> t \<le> now \<Longrightarrow> hist t (dep_dyn d) = held s (dep_dyn d)"
      using env True s(1) unfolding env_ok_def kd(1) [symmetric] by blast+
    have run: "revalidate_deps acc (d # ds) ca w =
        (if ca < stamp s (dep_dyn d) then (Finished (Inr False), w) else revalidate_deps acc ds ca w)"
      by (simp add: ing touch_def input_touch_stamp s(2) kd(2))
    show ?thesis
    proof (cases "ca < stamp s (dep_dyn d)")
      case True
      then show ?thesis using Cons.prems
        by (intro exI [of _ False] exI [of _ w] exI [of _ obs]) (simp add: run del: revalidate_deps.simps)
    next
      case False
      then have "nat_of (stamp s (dep_dyn d)) \<le> va" using ca by (simp add: nat_of_less)
      then have "same_answer S hist va now (dep_dyn d)"
        using st ca(2) True kinds [of "dep_kind d"] by (auto simp: same_answer_def kd(1))
      moreover obtain r w' obs' where "revalidate_deps acc ds ca w = (Finished (Inr r), w')"
        "world_ok S hist now obs' busy leads w'" "evolves S b w obs w' obs'" "task_ext [] (w_task w) (w_task w')"
        "r \<longrightarrow> (\<forall>d \<in> set ds. same_answer S hist va now (dep_dyn d) \<and> (st_isder S (dep_kind d) \<longrightarrow> now \<in> obs' (dep_dyn d)))"
        using Cons.IH [of obs w] Cons.prems by auto
      ultimately show ?thesis using False True kinds [of "dep_kind d"]
        by (intro exI [of _ r] exI [of _ w'] exI [of _ obs']) (auto simp: run simp del: revalidate_deps.simps)
    qed
  next
    case False
    then have d: "st_isder S (dep_kind d)" "st_rank S (dep_dyn d) < b" "va \<in> obs (dep_dyn d)"
      using Cons.prems(1) by auto
    have kd: "dk_kind (dep_dyn d) = dep_kind d" "\<lparr>dk_kind = dep_kind d, dk_key = dep_key d\<rparr> = dep_dyn d"
      by (simp_all add: dep_dyn_def)
    obtain di where ing: "ingredient (w_ingredients w) (dep_kind d) = Some (DerivedI di)" "de_kind di = dep_kind d"
      using env d(1) unfolding env_ok_def derived_reg_def by blast
    have act: "active_stack (w_task w) \<noteq> None" using Cons.prems(3) by (simp add: ready_for_def)
    obtain res w1 obs1 where a: "acc (dep_dyn d) False w = (Finished (Inr res), w1)"
      "world_ok S hist now obs1 busy leads w1" "evolves S (Suc (st_rank S (dep_dyn d))) w obs w1 obs1"
      "task_ext [] (w_task w) (w_task w1)" "now \<in> obs1 (dep_dyn d)" "fresh_result S hist now obs1 (dep_dyn d) False res"
      using acc_specD [OF acc _ d(2) Cons.prems(2,3), of False] d(1) unfolding access_post_def kd(1) by auto
    have ev1: "evolves S b w obs w1 obs1" using evolves_mono [OF a(3)] d(2) by simp
    have run: "revalidate_deps acc (d # ds) ca w =
        (if ca < ar_changed_at res then (Finished (Inr False), w1) else revalidate_deps acc ds ca w1)"
      by (simp add: ing touch_def touch_erased_def scoped_active [OF act] kd(2) a(1))
    show ?thesis
    proof (cases "ca < ar_changed_at res")
      case True
      then show ?thesis using a ev1
        by (intro exI [of _ False] exI [of _ w1] exI [of _ obs1]) (simp add: run del: revalidate_deps.simps)
    next
      case c: False
      obtain v where v: "evq (st_sys S) (hist now) (dep_dyn d) (Inr v)"
        "\<And>t. t \<in> obs1 (dep_dyn d) \<Longrightarrow> nat_of (ar_changed_at res) \<le> t \<Longrightarrow> evq (st_sys S) (hist t) (dep_dyn d) (Inr v)"
        using a(6) by (auto simp: fresh_result_def)
      have "va \<in> obs1 (dep_dyn d)" using d(3) ev1 by (auto simp: evolves_def)
      moreover have "nat_of (ar_changed_at res) \<le> va" using c ca by (simp add: nat_of_less)
      ultimately have "evq (st_sys S) (hist va) (dep_dyn d) (Inr v)" by (rule v(2))
      from evq_det [OF this] have same: "same_answer S hist va now (dep_dyn d)"
        using v(1) False by (auto simp: same_answer_def kd(1))
      have "\<forall>d \<in> set ds. st_isin S (dep_kind d) \<or>
          st_isder S (dep_kind d) \<and> st_rank S (dep_dyn d) < b \<and> va \<in> obs1 (dep_dyn d)"
        using Cons.prems(1) evolves_obs [OF ev1] by auto
      from Cons.IH [OF this a(2) ready_for_ext [OF Cons.prems(3) a(4)]] obtain r w' obs' where
        ih: "revalidate_deps acc ds ca w1 = (Finished (Inr r), w')" "world_ok S hist now obs' busy leads w'"
        "evolves S b w1 obs1 w' obs'" "task_ext [] (w_task w1) (w_task w')"
        "r \<longrightarrow> (\<forall>d \<in> set ds. same_answer S hist va now (dep_dyn d) \<and> (st_isder S (dep_kind d) \<longrightarrow> now \<in> obs' (dep_dyn d)))"
        by blast
      have "now \<in> obs' (dep_dyn d)" using a(5) ih(3) by (auto simp: evolves_def)
      then show ?thesis
        using c same ih evolves_trans [OF ev1 ih(3)] task_ext_trans [OF a(4) ih(4)]
        by (intro exI [of _ r] exI [of _ w'] exI [of _ obs']) (auto simp: run simp del: revalidate_deps.simps)
    qed
  qed
qed

lemma try_revalidate_spec:
  assumes S: "well_set S" and acc: "acc_spec S hist now acc (st_rank S q)" and q: "st_isder S (dk_kind q)"
    and memo: "memo_ok S hist obs now q r"
    and ok: "world_ok S hist now obs busy leads w" and rdy: "ready_for S (st_rank S q) busy leads (w_task w)"
  shows "\<exists>b w' obs'. try_revalidate acc q rv (rr_deps r) (rr_changed_at r) w = (Finished (Inr b), w')
     \<and> world_ok S hist now obs' busy leads w' \<and> evolves S (st_rank S q) w obs w' obs'
     \<and> task_ext [] (w_task w) (w_task w')
     \<and> (b \<longrightarrow> ev (st_sys S) (hist now) (compute_of (st_sys S) q) (map dep_dyn (rr_deps r)) (Inr (rr_value r))
            \<and> (\<forall>d \<in> set (rr_deps r). st_isder S (dep_kind d) \<longrightarrow> now \<in> obs' (dep_dyn d)))"
proof -
  have M: "nat_of (rr_changed_at r) \<le> nat_of (rr_verified_at r)" "nat_of (rr_verified_at r) \<le> now"
    "ev (st_sys S) (hist (nat_of (rr_verified_at r))) (compute_of (st_sys S) q) (map dep_dyn (rr_deps r)) (Inr (rr_value r))"
    "\<And>d. d \<in> set (rr_deps r) \<Longrightarrow> st_isder S (dep_kind d) \<Longrightarrow> nat_of (rr_verified_at r) \<in> obs (dep_dyn d)"
    using memo unfolding memo_ok_def by blast+
  have pok: "prog_ok (st_isin S) (st_isder S) (st_rank S) (st_rank S q) (compute_of (st_sys S) q)"
    using S q by (simp add: well_set_def)
  have kd: "dk_kind (dep_dyn d) = dep_kind d" for d by (simp add: dep_dyn_def)
  have deps: "\<forall>d \<in> set (rr_deps r). st_isin S (dep_kind d) \<or>
      st_isder S (dep_kind d) \<and> st_rank S (dep_dyn d) < st_rank S q \<and> nat_of (rr_verified_at r) \<in> obs (dep_dyn d)"
    using ev_trace_ok [OF M(3) pok] M(4) by (auto simp: kd)
  obtain h t1 where fn: "frame_new q rv (w_task w) = (h, t1)" by fastforce
  have wf: "wf_task (w_task w)" and "active_stack (w_task w) \<noteq> None" using rdy by (auto simp: ready_for_def)
  then obtain s where st: "active_stack (w_task w) = Some s" by blast
  note P = pushed_frame [OF fn wf st]
  let ?w = "on_task (\<lambda>_. push_frame h t1) w"
  have "ready_for S (st_rank S q) busy leads (w_task ?w)"
    using rdy P(1-3) by (auto simp: ready_for_def)
  moreover have "world_ok S hist now obs busy leads ?w" using ok by simp
  ultimately obtain b w1 obs' where run: "revalidate_deps acc (rr_deps r) (rr_changed_at r) ?w = (Finished (Inr b), w1)"
    "world_ok S hist now obs' busy leads w1" "evolves S (st_rank S q) ?w obs w1 obs'"
    "task_ext [] (w_task ?w) (w_task w1)"
    "b \<longrightarrow> (\<forall>d \<in> set (rr_deps r). same_answer S hist (nat_of (rr_verified_at r)) now (dep_dyn d)
         \<and> (st_isder S (dep_kind d) \<longrightarrow> now \<in> obs' (dep_dyn d)))"
    using revalidate_deps_spec [OF S acc M(1,2) deps] by blast
  have ev: "b \<longrightarrow> ev (st_sys S) (hist now) (compute_of (st_sys S) q) (map dep_dyn (rr_deps r)) (Inr (rr_value r))"
  proof
    assume b
    then have "\<forall>d \<in> set (map dep_dyn (rr_deps r)). (st_isin S (dk_kind d) \<longrightarrow> hist now d = hist (nat_of (rr_verified_at r)) d)
        \<and> (st_isder S (dk_kind d) \<longrightarrow> (\<forall>x. evq (st_sys S) (hist (nat_of (rr_verified_at r))) d x \<longrightarrow> evq (st_sys S) (hist now) d x))"
      using run(5) by (simp add: same_answer_def)
    from ev_cong [OF M(3) pok _ this]
    show "ev (st_sys S) (hist now) (compute_of (st_sys S) q) (map dep_dyn (rr_deps r)) (Inr (rr_value r))"
      using S by (simp add: well_set_def)
  qed
  have "task_ext [] (w_task w) (w_task (on_task pop_frame w1))"
    using P(6) [of "[]" "w_task w1"] run(4) by simp
  moreover have "evolves S (st_rank S q) w obs (on_task pop_frame w1) obs'"
    using run(3) by (simp add: evolves_def)
  moreover have "try_revalidate acc q rv (rr_deps r) (rr_changed_at r) w = (Finished (Inr b), on_task pop_frame w1)"
    by (simp add: try_revalidate_def fn run(1))
  ultimately show ?thesis using run(2,5) ev by (intro exI [of _ b] exI [of _ "on_task pop_frame w1"] exI [of _ obs']) simp
qed

subsection \<open>Running a query\<close>

lemma run_prog_spec:
  assumes S: "well_set S" and acc: "acc_spec S hist now acc b"
  shows "ev (st_sys S) (hist now) p tr res \<Longrightarrow> res = Inr v \<Longrightarrow> prog_ok (st_isin S) (st_isder S) (st_rank S) b p
    \<Longrightarrow> world_ok S hist now obs busy leads w \<Longrightarrow> ready_for S b busy leads (w_task w)
    \<Longrightarrow> \<exists>w' obs'. run_prog acc p w = (Finished (Returned (Inr v)), w')
          \<and> world_ok S hist now obs' busy leads w' \<and> evolves S b w obs w' obs'
          \<and> task_ext (map dyn_dep tr) (w_task w) (w_task w')
          \<and> (\<forall>d \<in> set tr. st_isder S (dk_kind d) \<longrightarrow> now \<in> obs' d)"
proof (induction arbitrary: w obs rule: ev.induct)
  case (ev_ret v')
  then show ?case by (intro exI [of _ w] exI [of _ obs]) simp
next
  case (ev_read k q tr r)
  have env: "env_ok S hist now w" and wf: "wf_task (w_task w)"
    using ev_read.prems(3,4) by (auto simp: world_ok_def ready_for_def)
  have k: "st_isin S (dk_kind q)" "prog_ok (st_isin S) (st_isder S) (st_rank S) b (k (hist now q))"
    using ev_read.prems(2) by auto
  obtain s where s: "input_at w (dk_kind q) = Some s"
    using env k(1) unfolding env_ok_def by blast
  then have held: "hist now q = held s q" using env k(1) unfolding env_ok_def by blast
  let ?w = "on_task (\<lambda>t. if has_active_frame t then record_dep (dyn_dep q) t else t) w"
  have ri: "read_input q w = (hist now q, ?w)"
    using s held by (auto simp: read_input_def input_at_def on_task_def split: option.splits ingredient.splits)
  have ext: "task_ext [dyn_dep q] (w_task w) (w_task ?w)"
    using task_ext_record [OF wf, of True "dyn_dep q"] by simp
  have "world_ok S hist now obs busy leads ?w" using ev_read.prems(3) by simp
  from ev_read.IH [OF ev_read.prems(1) k(2) this ready_for_ext [OF ev_read.prems(4) ext]]
  obtain w' obs' where ih: "run_prog acc (k (hist now q)) ?w = (Finished (Returned (Inr v)), w')"
    "world_ok S hist now obs' busy leads w'" "evolves S b ?w obs w' obs'"
    "task_ext (map dyn_dep tr) (w_task ?w) (w_task w')"
    "\<forall>d \<in> set tr. st_isder S (dk_kind d) \<longrightarrow> now \<in> obs' d"
    by blast
  have "\<not> st_isder S (dk_kind q)" using S k(1) by (auto simp: well_set_def)
  moreover have "evolves S b w obs w' obs'" using ih(3) by (simp add: evolves_def)
  ultimately show ?case
    using ih task_ext_trans [OF ext ih(4)] by (intro exI [of _ w'] exI [of _ obs']) (simp add: ri)
next
  case (ev_query q tr' r' k tr r)
  have k: "st_isder S (dk_kind q)" "st_rank S q < b" "prog_ok (st_isin S) (st_isder S) (st_rank S) b (k r')"
    using ev_query.prems(2) by auto
  have act: "active_stack (w_task w) \<noteq> None" using ev_query.prems(4) by (simp add: ready_for_def)
  obtain res w1 obs1 where a: "acc q True w = (Finished (Inr res), w1)"
    "world_ok S hist now obs1 busy leads w1" "evolves S (Suc (st_rank S q)) w obs w1 obs1"
    "task_ext [dyn_dep q] (w_task w) (w_task w1)" "now \<in> obs1 q" "fresh_result S hist now obs1 q True res"
    using acc_specD [OF acc k(1,2) ev_query.prems(3,4), of True] unfolding access_post_def by auto
  obtain u where u: "ar_value res = Some u" "evq (st_sys S) (hist now) q (Inr u)"
    using a(6) by (auto simp: fresh_result_def)
  have "evq (st_sys S) (hist now) q r'" using ev_query.hyps(1) by (auto simp: evq_def)
  then have r': "r' = Inr u" using evq_det [OF u(2)] by simp
  have ge: "get_erased acc q w = (Finished (Inr u), w1)"
    by (simp add: get_erased_def scoped_active [OF act] a(1) u(1))
  from ev_query.IH(2) [OF ev_query.prems(1) k(3) a(2) ready_for_ext [OF ev_query.prems(4) a(4)]]
  obtain w' obs' where ih: "run_prog acc (k r') w1 = (Finished (Returned (Inr v)), w')"
    "world_ok S hist now obs' busy leads w'" "evolves S b w1 obs1 w' obs'"
    "task_ext (map dyn_dep tr) (w_task w1) (w_task w')"
    "\<forall>d \<in> set tr. st_isder S (dk_kind d) \<longrightarrow> now \<in> obs' d"
    by blast
  have ev1: "evolves S b w obs w1 obs1" using evolves_mono [OF a(3)] k(2) by simp
  have "now \<in> obs' q" using a(5) ih(3) by (auto simp: evolves_def)
  then show ?case
    using ih evolves_trans [OF ev1 ih(3)] task_ext_trans [OF a(4) ih(4)] r'
    by (intro exI [of _ w'] exI [of _ obs']) (simp add: ge)
qed auto

subsection \<open>The phases of a computation\<close>

lemma dep_kind_dyn_dep [simp]: "dep_kind (dyn_dep q) = dk_kind q"
  by (simp add: dyn_dep_def)

lemma DynKey_eta [simp]: "\<lparr>dk_kind = dk_kind q, dk_key = dk_key q\<rparr> = q"
  by (cases q) simp

text \<open>Marking a cell running, and taking and releasing the lead of its in-flight entry.\<close>

lemma start_cell:
  assumes ok: "memos_ok S hist now obs busy leads w" and reg: "derived_reg w (dk_kind q)"
  shows "memos_ok S hist now obs (insert q busy) leads (set_cell q (Running rv) w)"
proof -
  note I = memos_okD [OF ok]
  have cell: "get_cell q' (set_cell q (Running rv) w) = (if q' = q then Some (Running rv) else get_cell q' w)" for q'
    by (rule get_set_cell [OF reg])
  show ?thesis
    unfolding memos_ok_def cell set_cell_fields
  proof (intro conjI allI impI, goal_cases)
    case (1 q' r)
    then show ?case using I(1) by (auto simp: new_ready_def split: if_splits)
  next
    case (5 q' rec)
    then show ?case using I(5) [of q' rec] by auto
  qed (use I in \<open>auto split: if_splits\<close>)
qed

lemma take_lead:
  assumes ok: "memos_ok S hist now obs busy leads w" and q: "q \<notin> leads"
    and key: "key = \<lparr>if_runtime_id = cache_scope_id (w_rt w), if_revision = world_rev w, if_kind = dk_kind q, if_key = dk_key q\<rparr>"
  shows "\<exists>g reg. try_lead key (w_inflight w) = (Leader g, reg) \<and> g_key g = key
     \<and> memos_ok S hist now obs busy (insert q leads) (w\<lparr>w_inflight := reg\<rparr>)"
proof -
  note I = memos_okD [OF ok]
  have none: "tget (reg_map (w_inflight w)) key = None"
  proof (cases "tget (reg_map (w_inflight w)) key")
    case (Some e)
    from I(6) [OF Some] q show ?thesis by (simp add: key)
  qed simp
  obtain g reg where tl: "try_lead key (w_inflight w) = (Leader g, reg)" "g_key g = key"
    "tget (reg_map reg) = (tget (reg_map (w_inflight w)))(key \<mapsto> g_entry g)"
    using none by (auto simp: try_lead_def Let_def)
  have "memos_ok S hist now obs busy (insert q leads) (w\<lparr>w_inflight := reg\<rparr>)"
    unfolding memos_ok_def views_frame
  proof (intro conjI allI impI, goal_cases)
    case (6 k e)
    then show ?case using I(6) [of k e] tl(3) key by (auto split: if_splits)
  next
    case (7 k e)
    then show ?case using I(6) [of k e] tl(3) key by (auto simp: world_rev_def current_revision_def split: if_splits)
  qed (use I in \<open>simp_all add: slot_def\<close>)
  with tl show ?thesis by blast
qed

lemma release_lead:
  assumes ok: "memos_ok S hist now obs busy (insert q leads) w"
    and key: "g_key g = \<lparr>if_runtime_id = cache_scope_id (w_rt w), if_revision = world_rev w, if_kind = dk_kind q, if_key = dk_key q\<rparr>"
  shows "memos_ok S hist now obs busy leads (w\<lparr>w_inflight := guard_complete g v ds ca (w_inflight w)\<rparr>)"
proof -
  note I = memos_okD [OF ok]
  have map: "tget (reg_map (guard_complete g v ds ca (w_inflight w))) = (tget (reg_map (w_inflight w)))(g_key g := None)"
    by (simp add: guard_complete_def guard_drop_def unregister_def entry_complete_def notify_entry_def set_state_def)
  have k: "k = g_key g" if "if_runtime_id k = cache_scope_id (w_rt w)"
    "\<lparr>dk_kind = if_kind k, dk_key = if_key k\<rparr> = q" "if_revision k = Revision (rt_revision (w_rt w))" for k
    using that by (cases k) (auto simp: key world_rev_def current_revision_def)
  show ?thesis
    unfolding memos_ok_def views_frame
  proof (intro conjI allI impI, goal_cases)
    case (6 key e)
    then have "tget (reg_map (w_inflight w)) key = Some e" "key \<noteq> g_key g"
      by (auto simp: map split: if_splits)
    then show ?case using I(6) [of key e] 6(2) k [of key] by auto
  next
    case (7 key e)
    then have "tget (reg_map (w_inflight w)) key = Some e"
      by (auto simp: map split: if_splits)
    then show ?case using I(6) [of key e] 7(2) by simp
  qed (use I in \<open>simp_all add: slot_def\<close>)
qed

text \<open>What is known of the value a computation replaces.\<close>

definition prev_ok :: "'v setting \<Rightarrow> (nat \<Rightarrow> 'v inputs) \<Rightarrow> observed \<Rightarrow> nat \<Rightarrow> DynKey \<Rightarrow> ('v \<times> Revision) option \<Rightarrow> bool" where
  "prev_ok S hist obs now q prev \<longleftrightarrow>
     (\<forall>v ca. prev = Some (v, ca) \<longrightarrow> nat_of ca \<le> now
        \<and> (\<forall>t \<in> obs q. nat_of ca \<le> t \<longrightarrow> evq (st_sys S) (hist t) q (Inr v)))"

definition phase_post ::
  "'v setting \<Rightarrow> (nat \<Rightarrow> 'v inputs) \<Rightarrow> nat \<Rightarrow> DynKey \<Rightarrow> bool \<Rightarrow> DynKey set \<Rightarrow> DynKey set \<Rightarrow> 'v world \<Rightarrow> observed
   \<Rightarrow> ('v AccessResult PicanteResult, 'v) run \<Rightarrow> bool" where
  "phase_post S hist now q want busy leads w obs out \<longleftrightarrow>
     (\<exists>res w' obs'. out = (Finished (Inr res), w') \<and> world_ok S hist now obs' busy leads w'
        \<and> evolves S (Suc (st_rank S q)) w obs w' obs' \<and> task_ext [] (w_task w) (w_task w')
        \<and> now \<in> obs' q \<and> fresh_result S hist now obs' q want res)"

lemma inflight_phase_spec:
  assumes S: "well_set S" and acc: "acc_spec S hist now acc (st_rank S q)" and q: "st_isder S (dk_kind q)"
    and nb: "q \<notin> busy" "q \<notin> leads"
    and ok: "world_ok S hist now obs (insert q busy) leads w"
    and rdy: "ready_for S (st_rank S q) busy leads (w_task w)"
    and prev: "prev_ok S hist obs now q prev" and rv: "rv = world_rev w"
  shows "phase_post S hist now q want busy leads w obs (inflight_phase (st_sys S) acc again q want rv prev w)"
proof -
  let ?sys = "st_sys S" let ?rk = "st_rank S q"
  have env: "env_ok S hist now w" and mem: "memos_ok S hist now obs (insert q busy) leads w"
    and bnd: "\<And>q. obs q \<subseteq> {..now}" using ok by (auto simp: world_ok_def)
  have now: "nat_of rv = now" using env by (simp add: env_ok_def rv world_rev_def current_revision_def)
  have reg: "derived_reg w (dk_kind q)" using env q by (simp add: env_ok_def)
  define key where "key = \<lparr>if_runtime_id = cache_scope_id (w_rt w), if_revision = rv, if_kind = dk_kind q, if_key = dk_key q\<rparr>"
  obtain g rg where tl: "try_lead key (w_inflight w) = (Leader g, rg)" "g_key g = key"
    and mem1: "memos_ok S hist now obs (insert q busy) (insert q leads) (w\<lparr>w_inflight := rg\<rparr>)"
    using take_lead [OF mem nb(2), of key] key_def rv by blast
  let ?w1 = "w\<lparr>w_inflight := rg\<rparr>"
  obtain h t1 where fn: "frame_new q rv (w_task ?w1) = (h, t1)" by fastforce
  have wf: "wf_task (w_task ?w1)" and "active_stack (w_task ?w1) \<noteq> None" using rdy by (auto simp: ready_for_def)
  then obtain st where st: "active_stack (w_task ?w1) = Some st" by blast
  note P = pushed_frame [OF fn wf st]
  let ?w2 = "on_task (\<lambda>_. push_frame h t1) ?w1"
  have "world_ok S hist now obs (insert q busy) (insert q leads) ?w1"
    using mem1 env bnd by (simp add: world_ok_def env_ok_def)
  then have ok2: "world_ok S hist now obs (insert q busy) (insert q leads) ?w2" by simp
  have rdy2: "ready_for S ?rk (insert q busy) (insert q leads) (w_task ?w2)"
    using rdy P(1-3) by (auto simp: ready_for_def)
  obtain v tr where ev: "ev ?sys (hist now) (compute_of ?sys q) tr (Inr v)"
    using S q unfolding well_set_def evq_def by blast
  have pok: "prog_ok (st_isin S) (st_isder S) (st_rank S) ?rk (compute_of ?sys q)"
    using S q by (simp add: well_set_def)
  obtain w3 obs' where run: "run_prog acc (compute_of ?sys q) ?w2 = (Finished (Returned (Inr v)), w3)"
    "world_ok S hist now obs' (insert q busy) (insert q leads) w3" "evolves S ?rk ?w2 obs w3 obs'"
    "task_ext (map dyn_dep tr) (w_task ?w2) (w_task w3)"
    "\<And>d. d \<in> set tr \<Longrightarrow> st_isder S (dk_kind d) \<Longrightarrow> now \<in> obs' d"
    using run_prog_spec [OF S acc ev refl pok ok2 rdy2] by blast
  have obsq: "obs' q = obs q" and rt3: "rt_revision (w_rt w3) = rt_revision (w_rt w)"
    "cache_scope_id (w_rt w3) = cache_scope_id (w_rt w)"
    using run(3) by (auto simp: evolves_def)
  define ca where "ca = finalize_changed_at (sys_eq ?sys (dk_kind q)) prev rv v"
  define r where "r = \<lparr>rr_value = v, rr_verified_at = rv, rr_changed_at = ca, rr_deps = map dyn_dep tr\<rparr>"
  let ?obs = "obs'(q := insert now (obs' q))"
  have evq: "evq ?sys (hist now) q (Inr v)" using ev by (auto simp: evq_def)
  have ca: "nat_of ca \<le> now" "\<forall>t \<in> insert now (obs q). nat_of ca \<le> t \<longrightarrow> evq ?sys (hist t) q (Inr v)"
  proof -
    have same: "sys_eq ?sys (dk_kind q) a v \<Longrightarrow> a = v" for a using S by (simp add: well_set_def)
    show "nat_of ca \<le> now"
      using prev now by (auto simp: ca_def finalize_changed_at_def prev_ok_def split: option.split)
    show "\<forall>t \<in> insert now (obs q). nat_of ca \<le> t \<longrightarrow> evq ?sys (hist t) q (Inr v)"
    proof (intro ballI impI)
      fix t assume t: "t \<in> insert now (obs q)" "nat_of ca \<le> t"
      show "evq ?sys (hist t) q (Inr v)"
      proof (cases "\<exists>a c. prev = Some (a, c) \<and> sys_eq ?sys (dk_kind q) a v")
        case True
        then obtain a c where a: "prev = Some (a, c)" "sys_eq ?sys (dk_kind q) a v" by blast
        then have "ca = c" "a = v" using same by (auto simp: ca_def finalize_changed_at_def)
        then show ?thesis using t a prev evq by (auto simp: prev_ok_def)
      next
        case False
        then have "ca = rv" by (auto simp: ca_def finalize_changed_at_def split: option.split)
        then have "t = now" using t now bnd [of q] by auto
        then show ?thesis using evq by simp
      qed
    qed
  qed
  have memo: "memo_ok S hist ?obs now q r"
    unfolding memo_ok_def
    using ca now ev run(5) obsq by (auto simp: r_def comp_def)
  let ?w4 = "on_task (\<lambda>_. snd (take_deps h (w_task w3))) w3"
  let ?f = "\<lambda>rt. if ca = rv then notify_query_changed rv q (update_query_deps q (map dyn_dep tr) rt)
                 else update_query_deps q (map dyn_dep tr) rt"
  let ?w5 = "on_rt ?f ?w4"
  let ?w6 = "put_record q r (set_cell q (new_ready r) ?w5)"
  have fin: "finalize_ok (sys_eq ?sys (dk_kind q)) q rv prev g (map dyn_dep tr) v ?w4
      = ?w6\<lparr>w_inflight := guard_complete g v (map dyn_dep tr) ca (w_inflight ?w6)\<rparr>"
    by (simp add: finalize_ok_def Let_def ca_def [symmetric] r_def [symmetric] on_rt_def)
  let ?w7 = "on_task pop_frame (finalize_ok (sys_eq ?sys (dk_kind q)) q rv prev g (map dyn_dep tr) v ?w4)"
  have mem3: "memos_ok S hist now obs' (insert q busy) (insert q leads) w3" and env3: "env_ok S hist now w3"
    and bnd3: "\<And>q. obs' q \<subseteq> {..now}" using run(2) by (auto simp: world_ok_def)
  have mem5: "memos_ok S hist now obs' (insert q busy) (insert q leads) ?w5"
    by (rule memos_ok_cong [OF mem3]) auto
  have reg3: "derived_reg ?w5 (dk_kind q)" using env3 q by (simp add: env_ok_def)
  have mem6: "memos_ok S hist now ?obs busy (insert q leads) ?w6"
    by (rule publish [OF mem5 q nb(1) reg3 memo])
  have key6: "g_key g = \<lparr>if_runtime_id = cache_scope_id (w_rt ?w6), if_revision = world_rev ?w6, if_kind = dk_kind q, if_key = dk_key q\<rparr>"
    using tl(2) rt3 by (simp add: key_def rv world_rev_def current_revision_def)
  have rev7: "rt_revision (w_rt ?w7) = rt_revision (w_rt w)" "cache_scope_id (w_rt ?w7) = cache_scope_id (w_rt w)"
    unfolding fin using rt3 by simp_all
  have mem7: "memos_ok S hist now ?obs busy leads ?w7"
    using release_lead [OF mem6 key6, of v "map dyn_dep tr" ca] unfolding fin
    by (rule memos_ok_cong) auto
  have env7: "env_ok S hist now ?w7"
    by (rule env_ok_cong [OF env3]) (simp_all add: fin)
  have task7: "task_ext [] (w_task w) (w_task ?w7)"
    using P(5) [OF run(4) [unfolded on_task_fields]] by (simp add: fin)
  have ev7: "evolves S (Suc ?rk) w obs ?w7 ?obs"
    using run(3) get_set_cell [OF reg3] unfolding evolves_def by (auto simp: fin)
  have ok7: "world_ok S hist now ?obs busy leads ?w7"
    using mem7 env7 bnd3 by (auto simp: world_ok_def)
  let ?res = "\<lparr>ar_value = (if want then Some v else None), ar_changed_at = ca\<rparr>"
  have fresh: "fresh_result S hist now ?obs q want ?res"
    using ca evq obsq by (auto simp: fresh_result_def)
  have td: "fst (take_deps h (w_task w3)) = map dyn_dep tr"
    using P(4) [OF run(4) [unfolded on_task_fields]] .
  have "world_rev ?w7 = rv" using rev7 by (simp add: rv world_rev_def current_revision_def)
  then have "inflight_phase ?sys acc again q want rv prev w = (Finished (Inr ?res), ?w7)"
    using tl(1) fn run(1) td
    by (simp add: inflight_phase_def lead_phase_def key_def [symmetric] Let_def case_prod_beta return_if_current_def ca_def)
  then show ?thesis
    using ok7 ev7 task7 fresh unfolding phase_post_def by (intro exI [of _ ?res] exI [of _ ?w7] exI [of _ ?obs]) simp
qed

lemma set_cell_evolves: "evolves S (Suc (st_rank S q)) w obs (set_cell q st w) obs" if "derived_reg w (dk_kind q)"
  using get_set_cell [OF that] by (auto simp: evolves_def)

lemma set_cell_env: "env_ok S hist now w \<Longrightarrow> env_ok S hist now (set_cell q st w)"
  by (rule env_ok_cong) simp_all

lemma phase_post_after:
  assumes "phase_post S hist now q want busy leads w1 obs1 out"
    and "evolves S (Suc (st_rank S q)) w obs w1 obs1" and "task_ext [] (w_task w) (w_task w1)"
  shows "phase_post S hist now q want busy leads w obs out"
  using assms evolves_trans task_ext_trans [OF assms(3)] unfolding phase_post_def by fastforce

lemma of_shared_simps [simp]:
  "rr_value (of_shared rec) = sr_value rec" "rr_deps (of_shared rec) = sr_deps rec"
  "rr_changed_at (of_shared rec) = sr_changed_at rec" "rr_verified_at (of_shared rec) = sr_verified_at rec"
  by (simp_all add: of_shared_def)

text \<open>A record that was verified again is right at the current revision.\<close>

lemma memo_verified:
  assumes memo: "memo_ok S hist obs now q r" and mono: "\<And>q. obs q \<subseteq> obs' q" and same: "obs' q = obs q"
    and ev: "ev (st_sys S) (hist now) (compute_of (st_sys S) q) (map dep_dyn (rr_deps r)) (Inr (rr_value r))"
    and deps: "\<forall>d \<in> set (rr_deps r). st_isder S (dep_kind d) \<longrightarrow> now \<in> obs' (dep_dyn d)"
    and rv: "nat_of rv = now"
  shows "memo_ok S hist (obs'(q := insert now (obs' q))) now q (r\<lparr>rr_verified_at := rv\<rparr>)"
proof -
  have "evq (st_sys S) (hist now) q (Inr (rr_value r))" using ev by (auto simp: evq_def)
  then show ?thesis
    using memo ev deps rv same unfolding memo_ok_def by auto
qed

lemma adopt_record_spec:
  assumes ok: "world_ok S hist now obs (insert q busy) leads w" and q: "st_isder S (dk_kind q)" "q \<notin> busy"
    and memo: "memo_ok S hist (obs(q := insert now (obs q))) now q ((of_shared rec)\<lparr>rr_verified_at := rv\<rparr>)"
    and rv: "rv = world_rev w"
  shows "phase_post S hist now q want busy leads w obs
    (return_if_current again rv (Inr \<lparr>ar_value = (if want then Some (sr_value rec) else None), ar_changed_at = sr_changed_at rec\<rparr>)
       (adopt_record q rv rec w))"
proof -
  have env: "env_ok S hist now w" and mem: "memos_ok S hist now obs (insert q busy) leads w"
    and bnd: "\<And>q. obs q \<subseteq> {..now}" using ok by (auto simp: world_ok_def)
  let ?r = "(of_shared rec)\<lparr>rr_verified_at := rv\<rparr>"
  let ?w1 = "on_rt (update_query_deps q (sr_deps rec)) w"
  let ?w2 = "put_record q ?r (set_cell q (new_ready ?r) ?w1)"
  let ?obs = "obs(q := insert now (obs q))"
  have mem1: "memos_ok S hist now obs (insert q busy) leads ?w1" by (rule memos_ok_cong [OF mem]) auto
  have reg: "derived_reg ?w1 (dk_kind q)" using env q by (simp add: env_ok_def)
  have mem2: "memos_ok S hist now ?obs busy leads ?w2"
    by (rule publish [OF mem1 q reg memo])
  have env2: "env_ok S hist now ?w2" by (rule env_ok_cong [OF env]) simp_all
  have eq: "adopt_record q rv rec w = ?w2" by (simp add: adopt_record_def Let_def of_shared_def)
  have now: "nat_of rv = now" using env by (simp add: env_ok_def rv world_rev_def current_revision_def)
  have "world_ok S hist now ?obs busy leads ?w2" using mem2 env2 bnd by (auto simp: world_ok_def)
  moreover have "evolves S (Suc (st_rank S q)) w obs ?w2 ?obs"
    using get_set_cell [OF reg] by (auto simp: evolves_def)
  moreover have "fresh_result S hist now ?obs q want
      \<lparr>ar_value = (if want then Some (sr_value rec) else None), ar_changed_at = sr_changed_at rec\<rparr>"
    using memo now by (auto simp: fresh_result_def memo_ok_def)
  moreover have "world_rev ?w2 = rv" by (simp add: rv world_rev_def current_revision_def)
  ultimately show ?thesis
    unfolding phase_post_def return_if_current_def eq by (intro exI [of _ "\<lparr>ar_value = (if want then Some (sr_value rec) else None), ar_changed_at = sr_changed_at rec\<rparr>"] exI [of _ ?w2] exI [of _ ?obs]) simp
qed

lemma compute_phase_spec:
  assumes S: "well_set S" and acc: "acc_spec S hist now acc (st_rank S q)" and q: "st_isder S (dk_kind q)"
    and nb: "q \<notin> busy" "q \<notin> leads"
    and ok: "world_ok S hist now obs busy leads w"
    and rdy: "ready_for S (st_rank S q) busy leads (w_task w)" and rv: "rv = world_rev w"
    and stale: "\<And>v va ca ds. cell_state q w = Ready v va ca ds \<Longrightarrow> va \<noteq> rv"
  shows "phase_post S hist now q want busy leads w obs (compute_phase (st_sys S) acc again q want rv w)"
proof -
  have env: "env_ok S hist now w" and mem: "memos_ok S hist now obs busy leads w"
    and bnd: "\<And>q. obs q \<subseteq> {..now}" using ok by (auto simp: world_ok_def)
  note I = memos_okD [OF mem]
  have now: "nat_of rv = now" using env by (simp add: env_ok_def rv world_rev_def current_revision_def)
  have reg: "derived_reg w (dk_kind q)" using env q by (simp add: env_ok_def)
  obtain prev where prev: "start_running rv (cell_state q w) = Some prev" "prev_ok S hist obs now q prev"
  proof (cases "cell_state q w")
    case Vacant
    then show ?thesis using that [of None] by (simp add: start_running_def prev_ok_def)
  next
    case (Running s)
    then have "get_cell q w = Some (Running s)" by (auto simp: cell_state_def split: option.splits)
    then show ?thesis using I(2) q nb by blast
  next
    case (Poisoned e va)
    then have "get_cell q w = Some (Poisoned e va)" by (auto simp: cell_state_def split: option.splits)
    then show ?thesis using I(3) q by blast
  next
    case (Ready v va ca ds)
    let ?r = "\<lparr>rr_value = v, rr_verified_at = va, rr_changed_at = ca, rr_deps = ds\<rparr>"
    have "get_cell q w = Some (new_ready ?r)"
      using Ready by (auto simp: cell_state_def new_ready_def split: option.splits)
    then have "memo_ok S hist obs now q ?r" using I(1) q by blast
    then show ?thesis using that [of "Some (v, ca)"] Ready stale [OF Ready]
      by (auto simp: start_running_def prev_ok_def memo_ok_def)
  qed
  let ?w1 = "set_cell q (Running rv) w"
  have ev1: "evolves S (Suc (st_rank S q)) w obs ?w1 obs" by (rule set_cell_evolves [OF reg])
  have mem1: "memos_ok S hist now obs (insert q busy) leads ?w1" by (rule start_cell [OF mem reg])
  have ok1: "world_ok S hist now obs (insert q busy) leads ?w1"
    using mem1 set_cell_env [OF env] bnd by (simp add: world_ok_def)
  have rdy1: "ready_for S (st_rank S q) (insert q busy) leads (w_task ?w1)"
    using rdy by (auto simp: ready_for_def)
  have rv1: "rv = world_rev ?w1" by (simp add: rv world_rev_def)
  have get: "shared_cache_get (cache_scope_id (w_rt ?w1)) (dk_kind q) (dk_key q) (w_cache ?w1)
      = tget (sc_map (w_cache w)) (slot (w_rt w) q)"
    by (simp add: shared_cache_get_def slot_def)
  show ?thesis
  proof (cases "tget (sc_map (w_cache w)) (slot (w_rt w) q)")
    case None
    have "phase_post S hist now q want busy leads ?w1 obs (inflight_phase (st_sys S) acc again q want rv prev ?w1)"
      by (rule inflight_phase_spec [OF S acc q nb ok1 _ prev(2) rv1]) (use rdy in simp)
    from phase_post_after [OF this ev1] show ?thesis
      using None prev(1) get by (simp add: compute_phase_def Let_def)
  next
    case (Some rec)
    have memo: "memo_ok S hist obs now q (of_shared rec)" by (rule I(4) [OF q Some])
    show ?thesis
    proof (cases "sr_verified_at rec = rv")
      case True
      have "obs(q := insert now (obs q)) = obs" "(of_shared rec)\<lparr>rr_verified_at := rv\<rparr> = of_shared rec"
        using memo True now by (auto simp: memo_ok_def fun_eq_iff of_shared_def)
      then have "memo_ok S hist (obs(q := insert now (obs q))) now q ((of_shared rec)\<lparr>rr_verified_at := rv\<rparr>)"
        using memo by simp
      from phase_post_after [OF adopt_record_spec [OF ok1 q nb(1) this rv1] ev1]
      show ?thesis using Some True prev(1) get by (simp add: compute_phase_def Let_def)
    next
      case False
      obtain b w2 obs2 where run: "try_revalidate acc q rv (sr_deps rec) (sr_changed_at rec) ?w1 = (Finished (Inr b), w2)"
        "world_ok S hist now obs2 (insert q busy) leads w2" "evolves S (st_rank S q) ?w1 obs w2 obs2"
        "task_ext [] (w_task ?w1) (w_task w2)"
        "b \<longrightarrow> ev (st_sys S) (hist now) (compute_of (st_sys S) q) (map dep_dyn (sr_deps rec)) (Inr (sr_value rec))
            \<and> (\<forall>d \<in> set (sr_deps rec). st_isder S (dep_kind d) \<longrightarrow> now \<in> obs2 (dep_dyn d))"
        using try_revalidate_spec [OF S acc q memo ok1 rdy1, of rv] by auto
      have obs2: "obs2 q = obs q" "\<And>q. obs q \<subseteq> obs2 q" and rt2: "rt_revision (w_rt w2) = rt_revision (w_rt w)"
        using run(3) by (auto simp: evolves_def)
      have rv2: "rv = world_rev w2" using rt2 by (simp add: rv world_rev_def current_revision_def)
      have ev2: "evolves S (Suc (st_rank S q)) w obs w2 obs2"
        using evolves_trans [OF ev1 evolves_mono [OF run(3), of "Suc (st_rank S q)"]] by simp
      have t2: "task_ext [] (w_task w) (w_task w2)" using run(4) by simp
      show ?thesis
      proof (cases b)
        case True
        have "memo_ok S hist (obs2(q := insert now (obs2 q))) now q ((of_shared rec)\<lparr>rr_verified_at := rv\<rparr>)"
          using memo_verified [OF memo obs2(2,1) _ _ now] run(5) True by simp
        from phase_post_after [OF adopt_record_spec [OF run(2) q nb(1) this rv2] ev2 t2]
        show ?thesis using Some False prev(1) get run(1) True by (simp add: compute_phase_def Let_def)
      next
        case nob: False
        have "ready_for S (st_rank S q) busy leads (w_task w2)" using ready_for_ext [OF rdy t2] .
        moreover have "prev_ok S hist obs2 now q prev" using prev(2) obs2(1) by (simp add: prev_ok_def)
        ultimately have "phase_post S hist now q want busy leads w2 obs2 (inflight_phase (st_sys S) acc again q want rv prev w2)"
          using inflight_phase_spec [OF S acc q nb run(2) _ _ rv2] by blast
        from phase_post_after [OF this ev2 t2]
        show ?thesis using Some False prev(1) get run(1) nob by (simp add: compute_phase_def Let_def)
      qed
    qed
  qed
qed

lemma reverify:
  assumes mem: "memos_ok S hist now obs busy leads w" and q: "st_isder S (dk_kind q)" "q \<notin> busy"
    and cell: "get_cell q w = Some (new_ready r)" and reg: "derived_reg w (dk_kind q)"
    and memo: "memo_ok S hist (obs(q := insert now (obs q))) now q (r\<lparr>rr_verified_at := rv\<rparr>)" and now: "nat_of rv = now"
  shows "memos_ok S hist now (obs(q := insert now (obs q))) busy leads (set_cell q (new_ready (r\<lparr>rr_verified_at := rv\<rparr>)) w)"
proof -
  let ?obs = "obs(q := insert now (obs q))" let ?r = "r\<lparr>rr_verified_at := rv\<rparr>"
  note I = memos_okD [OF mem]
  have cells: "get_cell q' (set_cell q (new_ready ?r) w) = (if q' = q then Some (new_ready ?r) else get_cell q' w)" for q'
    by (rule get_set_cell [OF reg])
  have mono: "memo_ok S hist ?obs now q' r'" if "memo_ok S hist obs now q' r'" "q' \<noteq> q" for q' r'
    by (rule memo_mono [OF that(1)]) (use that(2) in auto)
  have inj: "new_ready a = new_ready b \<longleftrightarrow> a = b" for a b :: "'a ReadyRecord"
    by (metis option.inject ready_record_new_ready)
  show ?thesis
    unfolding memos_ok_def cells set_cell_fields
  proof (intro conjI allI impI, goal_cases)
    case (1 q' r')
    then show ?case using memo I(1) [of q' r'] mono by (auto simp: inj split: if_splits)
  next
    case (2 q' s)
    then show ?case using I(2) [of q' s] by (auto simp: new_ready_def split: if_splits)
  next
    case (3 q' e va)
    then show ?case using I(3) [of q' e va] by (auto simp: new_ready_def split: if_splits)
  next
    case (4 q' rec)
    show ?case
    proof (cases "q' = q")
      case True
      have m: "memo_ok S hist obs now q (of_shared rec)" using I(4) 4 True by blast
      have "rr_value r = sr_value rec" using I(5) [of q rec] 4 True q(2) cell by (auto simp: inj)
      then have "evq (st_sys S) (hist now) q (Inr (sr_value rec))"
        using memo now by (auto simp: memo_ok_def)
      then show ?thesis using m True unfolding memo_ok_def by auto
    next
      case False
      then show ?thesis using I(4) 4 mono by blast
    qed
  next
    case (5 q' rec)
    then show ?case using I(5) [of q' rec] q(2) cell by (auto simp: inj)
  next
    case (6 k e)
    then show ?case using I(6) by blast
  next
    case (7 k e)
    then show ?case using I(6) by blast
  qed
qed

lemma access_round_spec:
  assumes S: "well_set S" and acc: "acc_spec S hist now acc (st_rank S q)" and q: "st_isder S (dk_kind q)"
    and nb: "q \<notin> busy" "q \<notin> leads"
    and ok: "world_ok S hist now obs busy leads w"
    and rdy: "ready_for S (st_rank S q) busy leads (w_task w)"
  shows "phase_post S hist now q want busy leads w obs (access_round (st_sys S) acc again q want w)"
proof -
  have env: "env_ok S hist now w" and mem: "memos_ok S hist now obs busy leads w"
    and bnd: "\<And>q. obs q \<subseteq> {..now}" using ok by (auto simp: world_ok_def)
  note I = memos_okD [OF mem]
  let ?rv = "world_rev w"
  have now: "nat_of ?rv = now" using env by (simp add: env_ok_def world_rev_def current_revision_def)
  have reg: "derived_reg w (dk_kind q)" using env q by (simp add: env_ok_def)
  show ?thesis
  proof (cases "cell_state q w")
    case Vacant
    then have "phase_post S hist now q want busy leads w obs (compute_phase (st_sys S) acc again q want ?rv w)"
      by (intro compute_phase_spec [OF S acc q nb ok rdy]) auto
    then show ?thesis using Vacant by (simp add: access_round_def observe_def Let_def)
  next
    case (Running s)
    then have "get_cell q w = Some (Running s)" by (auto simp: cell_state_def split: option.splits)
    then show ?thesis using I(2) q nb by blast
  next
    case (Poisoned e va)
    then have "get_cell q w = Some (Poisoned e va)" by (auto simp: cell_state_def split: option.splits)
    then show ?thesis using I(3) q by blast
  next
    case (Ready v va ca ds)
    let ?r = "\<lparr>rr_value = v, rr_verified_at = va, rr_changed_at = ca, rr_deps = ds\<rparr>"
    have cell: "get_cell q w = Some (new_ready ?r)"
      using Ready by (auto simp: cell_state_def new_ready_def split: option.splits)
    then have memo: "memo_ok S hist obs now q ?r" using I(1) q by blast
    show ?thesis
    proof (cases "va = ?rv")
      case True
      let ?res = "\<lparr>ar_value = (if want then Some v else None), ar_changed_at = ca\<rparr>"
      have "access_round (st_sys S) acc again q want w = (Finished (Inr ?res), w)"
        using Ready True by (simp add: access_round_def observe_def Let_def return_if_current_def)
      moreover have "fresh_result S hist now obs q want ?res" "now \<in> obs q"
        using memo True now by (auto simp: memo_ok_def fresh_result_def)
      ultimately show ?thesis using ok unfolding phase_post_def by (intro exI [of _ ?res] exI [of _ w] exI [of _ obs]) simp
    next
      case False
      obtain b w1 obs1 where run: "try_revalidate acc q ?rv ds ca w = (Finished (Inr b), w1)"
        "world_ok S hist now obs1 busy leads w1" "evolves S (st_rank S q) w obs w1 obs1"
        "task_ext [] (w_task w) (w_task w1)"
        "b \<longrightarrow> ev (st_sys S) (hist now) (compute_of (st_sys S) q) (map dep_dyn ds) (Inr v)
            \<and> (\<forall>d \<in> set ds. st_isder S (dep_kind d) \<longrightarrow> now \<in> obs1 (dep_dyn d))"
        using try_revalidate_spec [OF S acc q memo ok rdy, of ?rv] by auto
      have obs1: "obs1 q = obs q" "\<And>q. obs q \<subseteq> obs1 q" and rt1: "rt_revision (w_rt w1) = rt_revision (w_rt w)"
        and cell1: "get_cell q w1 = get_cell q w"
        using run(3) by (auto simp: evolves_def)
      have rv1: "?rv = world_rev w1" using rt1 by (simp add: world_rev_def current_revision_def)
      have ev1: "evolves S (Suc (st_rank S q)) w obs w1 obs1"
        using evolves_mono [OF run(3), of "Suc (st_rank S q)"] by simp
      have st1: "cell_state q w1 = Ready v va ca ds" using Ready cell1 by (simp add: cell_state_def)
      show ?thesis
      proof (cases b)
        case True
        let ?w2 = "set_cell q (new_ready (?r\<lparr>rr_verified_at := ?rv\<rparr>)) w1"
        let ?obs = "obs1(q := insert now (obs1 q))"
        have mem1: "memos_ok S hist now obs1 busy leads w1" and env1: "env_ok S hist now w1"
          and bnd1: "\<And>q. obs1 q \<subseteq> {..now}" using run(2) by (auto simp: world_ok_def)
        have reg1: "derived_reg w1 (dk_kind q)" using env1 q by (simp add: env_ok_def)
        have memo1: "memo_ok S hist ?obs now q (?r\<lparr>rr_verified_at := ?rv\<rparr>)"
          using memo_verified [OF memo obs1(2,1) _ _ now] run(5) True by simp
        have mem2: "memos_ok S hist now ?obs busy leads ?w2"
          using reverify [OF mem1 q nb(1) _ reg1 memo1 now] cell cell1 by simp
        have ok2: "world_ok S hist now ?obs busy leads ?w2"
          using mem2 set_cell_env [OF env1] bnd1 by (auto simp: world_ok_def)
        have ev2: "evolves S (Suc (st_rank S q)) w obs ?w2 ?obs"
          using ev1 get_set_cell [OF reg1] by (auto simp: evolves_def)
        let ?res = "\<lparr>ar_value = (if want then Some v else None), ar_changed_at = ca\<rparr>"
        have "world_rev ?w2 = ?rv" using rv1 by (simp add: world_rev_def)
        then have "access_round (st_sys S) acc again q want w = (Finished (Inr ?res), ?w2)"
          using Ready False run(1) True st1
          by (simp add: access_round_def observe_def Let_def revalidated_def return_if_current_def new_ready_def)
        moreover have "fresh_result S hist now ?obs q want ?res"
          using memo1 now by (auto simp: memo_ok_def fresh_result_def)
        ultimately show ?thesis using ok2 ev2 run(4)
          unfolding phase_post_def by (intro exI [of _ ?res] exI [of _ ?w2] exI [of _ ?obs]) simp
      next
        case nob: False
        have "phase_post S hist now q want busy leads w1 obs1 (compute_phase (st_sys S) acc again q want ?rv w1)"
          by (rule compute_phase_spec [OF S acc q nb run(2) ready_for_ext [OF rdy run(4)] rv1]) (use st1 False in auto)
        from phase_post_after [OF this ev1 run(4)]
        show ?thesis using Ready False run(1) nob by (simp add: access_round_def observe_def Let_def)
      qed
    qed
  qed
qed

lemma ensure_cell_ok:
  assumes ok: "world_ok S hist now obs busy leads w" and q: "st_isder S (dk_kind q)" "q \<notin> busy"
  shows "world_ok S hist now obs busy leads (ensure_cell q w) \<and> evolves S (Suc (st_rank S q)) w obs (ensure_cell q w) obs"
proof (cases "get_cell q w")
  case (Some st)
  then show ?thesis using ok by (simp add: ensure_cell_def)
next
  case None
  have env: "env_ok S hist now w" and mem: "memos_ok S hist now obs busy leads w"
    using ok by (auto simp: world_ok_def)
  have reg: "derived_reg w (dk_kind q)" using env q by (simp add: env_ok_def)
  note I = memos_okD [OF mem]
  have cells: "get_cell q' (set_cell q Vacant w) = (if q' = q then Some Vacant else get_cell q' w)" for q'
    by (rule get_set_cell [OF reg])
  have "memos_ok S hist now obs busy leads (set_cell q Vacant w)"
    unfolding memos_ok_def cells set_cell_fields
  proof (intro conjI allI impI, goal_cases)
    case (1 q' r)
    then show ?case using I(1) by (auto simp: new_ready_def split: if_splits)
  next
    case (5 q' rec)
    then show ?case using I(5) [of q' rec] q(2) None by auto
  qed (use I in \<open>auto split: if_splits\<close>)
  then show ?thesis
    using None ok set_cell_env [OF env] set_cell_evolves [OF reg] by (simp add: ensure_cell_def world_ok_def)
qed

lemma ready_for_idle:
  assumes "ready_for S (Suc (st_rank S q)) busy leads t"
  shows "wf_task t \<and> q \<notin> busy \<and> q \<notin> leads \<and> q \<notin> set (stack_keys t)"
proof -
  have "k \<in> busy \<union> leads \<union> set (stack_keys t) \<Longrightarrow> k \<noteq> q" for k
    using assms unfolding ready_for_def by (metis not_less_eq_eq order_refl)
  then show ?thesis using assms unfolding ready_for_def by blast
qed

lemma access_enter_spec:
  assumes loop: "\<And>w obs. world_ok S hist now obs busy leads w \<Longrightarrow> ready_for S (st_rank S q) busy leads (w_task w) \<Longrightarrow>
      phase_post S hist now q want busy leads w obs (loop q want w)"
    and q: "st_isder S (dk_kind q)" and ok: "world_ok S hist now obs busy leads w"
    and rdy: "ready_for S (Suc (st_rank S q)) busy leads (w_task w)"
  shows "access_post S hist now q want busy leads w obs (access_enter loop q want w)"
proof -
  note idle = ready_for_idle [OF rdy]
  then have wf: "wf_task (w_task w)" and nb: "q \<notin> busy" and "q \<notin> set (stack_keys (w_task w))"
    by blast+
  then have nc: "find_cycle q (w_task w) = None" by (simp add: find_cycle_None)
  let ?w1 = "record_access q want w"
  have w1: "?w1 = on_task (\<lambda>t. if want \<and> has_active_frame t then record_dep (dyn_dep q) t else t) w"
    by (simp add: record_access_def on_task_def)
  have ext: "task_ext (if want then [dyn_dep q] else []) (w_task w) (w_task ?w1)"
    unfolding w1 using task_ext_record [OF wf] by simp
  have ok1: "world_ok S hist now obs busy leads ?w1" unfolding w1 using ok by simp
  let ?w2 = "ensure_cell q ?w1"
  have ok2: "world_ok S hist now obs busy leads ?w2" "evolves S (Suc (st_rank S q)) ?w1 obs ?w2 obs"
    using ensure_cell_ok [OF ok1 q nb] by auto
  have ev2: "evolves S (Suc (st_rank S q)) w obs ?w2 obs" using ok2(2) unfolding w1 by (simp add: evolves_def)
  have t2: "w_task ?w2 = w_task ?w1" by (simp add: ensure_cell_def split: option.split)
  have "ready_for S (st_rank S q) busy leads (w_task ?w2)"
    unfolding t2 using ready_for_ext [OF ready_for_mono [OF rdy] ext] by simp
  from loop [OF ok2(1) this] obtain res w' obs' where l: "loop q want ?w2 = (Finished (Inr res), w')"
    "world_ok S hist now obs' busy leads w'" "evolves S (Suc (st_rank S q)) ?w2 obs w' obs'"
    "task_ext [] (w_task ?w2) (w_task w')" "now \<in> obs' q" "fresh_result S hist now obs' q want res"
    unfolding phase_post_def by blast
  have "task_ext (if want then [dyn_dep q] else []) (w_task w) (w_task w')"
    using task_ext_trans [OF ext, of "[]" "w_task w'"] l(4) t2 by simp
  then show ?thesis
    using l evolves_trans [OF ev2 l(3)] nc unfolding access_post_def access_enter_def by auto
qed

text \<open>The fuel: one unit for every level of rank.\<close>

lemma access_spec: "well_set S \<Longrightarrow> acc_spec S hist now (access n (st_sys S)) n"
proof (induction n)
  case 0
  then show ?case by (simp add: acc_spec_def)
next
  case (Suc n)
  have acc: "acc_spec S hist now (access n (st_sys S)) (st_rank S q)" if "st_rank S q < Suc n" for q
    using Suc that unfolding acc_spec_def by auto
  show ?case
    unfolding acc_spec_def access_def
  proof (intro allI impI)
    fix q want busy leads w obs
    assume q: "st_isder S (dk_kind q)" "st_rank S q < Suc n" and ok: "world_ok S hist now obs busy leads w"
      and rdy: "ready_for S (Suc (st_rank S q)) busy leads (w_task w)"
    have nb: "q \<notin> busy" "q \<notin> leads" using ready_for_idle [OF rdy] by blast+
    show "access_post S hist now q want busy leads w obs (access_enter (access_loop (Suc n) (st_sys S)) q want w)"
    proof (rule access_enter_spec [OF _ q(1) ok rdy])
      fix w obs assume "world_ok S hist now obs busy leads w" "ready_for S (st_rank S q) busy leads (w_task w)"
      from access_round_spec [OF Suc.prems acc [OF q(2)] q(1) nb this]
      show "phase_post S hist now q want busy leads w obs (access_loop (Suc n) (st_sys S) q want w)"
        by (simp add: access_def)
    qed
  qed
qed

end
