(* ===== verification/WorldInv.thy ===== *)
theory WorldInv
  imports AccessCorrect
begin

text \<open>
  What every access keeps, whatever the queries do: succeed, fail, panic, form cycles, wait for
  ever or run out of fuel. The interface lists the steps an access takes on the world; a predicate
  that each of them keeps is kept by \<open>get\<close> and \<open>touch\<close>. The predicate may speak about the cells of
  some keys, which are then \<open>guarded\<close>: they exist, and a round of the loop for one of them is
  argued by the instance.
\<close>

locale world_invariant =
  fixes P :: "'v world \<Rightarrow> bool" and guarded :: "DynKey \<Rightarrow> bool"
  assumes inv_cell: "P w \<Longrightarrow> \<not> guarded q \<Longrightarrow> P (set_cell q st w)"
    and guarded_cell: "P w \<Longrightarrow> guarded q \<Longrightarrow> get_cell q w \<noteq> None"
    and guarded_round: "P w \<Longrightarrow> guarded q \<Longrightarrow> (\<And>q want w. P w \<Longrightarrow> P (snd (acc q want w))) \<Longrightarrow>
      (\<And>w. P w \<Longrightarrow> P (snd (again w))) \<Longrightarrow> P (snd (access_round sys acc again q want w))"
    and inv_deps: "P w \<Longrightarrow> P (on_rt (update_query_deps q ds) w)"
    and inv_notify: "P w \<Longrightarrow> P (on_rt (notify_query_changed rv q) w)"
    and inv_cache: "P w \<Longrightarrow> P (w\<lparr>w_cache := c\<rparr>)"
    and inv_inflight: "P w \<Longrightarrow> P (w\<lparr>w_inflight := r\<rparr>)"
    and inv_task: "P w \<Longrightarrow> P (w\<lparr>w_task := t\<rparr>)"
begin

definition keeps :: "'v accessor \<Rightarrow> bool" where
  "keeps acc \<longleftrightarrow> (\<forall>q want w. P w \<longrightarrow> P (snd (acc q want w)))"

lemma keepsD: "keeps acc \<Longrightarrow> P w \<Longrightarrow> P (snd (acc q want w))"
  by (simp add: keeps_def)

lemma inv_on_task: "P w \<Longrightarrow> P (on_task f w)"
  by (simp add: on_task_def inv_task)

lemma inv_put: "P w \<Longrightarrow> P (put_record q r w)"
  by (simp add: put_record_def inv_cache)

lemmas inv_steps = inv_cell inv_deps inv_notify inv_cache inv_inflight inv_task inv_on_task inv_put

lemma inv_then_run:
  assumes "P (snd m)" and "\<And>a w. P w \<Longrightarrow> P (snd (k a w))"
  shows "P (snd (then_run m k))"
  using assms by (cases m; cases "fst m") (auto simp: then_run_def)

lemma keeps_scoped: "keeps acc \<Longrightarrow> keeps (scoped acc)"
  unfolding keeps_def scoped_def
  by (auto split: option.split prod.split intro!: inv_on_task) (metis inv_on_task snd_conv)

lemma inv_get_erased: "keeps acc \<Longrightarrow> P w \<Longrightarrow> P (snd (get_erased acc q w))"
  unfolding get_erased_def by (rule inv_then_run) (simp_all add: keepsD [OF keeps_scoped])

lemma inv_touch_erased: "keeps acc \<Longrightarrow> P w \<Longrightarrow> P (snd (touch_erased acc q w))"
  unfolding touch_erased_def by (rule inv_then_run) (simp_all add: keepsD [OF keeps_scoped])

lemma inv_run_prog: "keeps acc \<Longrightarrow> P w \<Longrightarrow> P (snd (run_prog acc p w))"
proof (induction p arbitrary: w)
  case (ReadInput q k)
  have "P (snd (read_input q w))" using ReadInput.prems by (simp add: read_input_def Let_def inv_on_task)
  then show ?case using ReadInput.IH [OF rangeI ReadInput.prems(1)] by (simp add: case_prod_beta)
next
  case (Query q k)
  have "P (snd (then_run (get_erased acc q w) (\<lambda>res w1. run_prog acc (k res) w1)))"
    by (rule inv_then_run) (use Query in \<open>auto intro: inv_get_erased\<close>)
  then show ?case by simp
qed simp_all

lemma inv_revalidate_deps: "keeps acc \<Longrightarrow> P w \<Longrightarrow> P (snd (revalidate_deps acc ds ca w))"
proof (induction ds arbitrary: w)
  case (Cons d ds)
  have touch: "P (snd (touch acc i key w))" for i key
    using Cons.prems by (auto simp: touch_def inv_touch_erased split: ingredient.split)
  show ?case
  proof (cases "ingredient (w_ingredients w) (dep_kind d)")
    case (Some i)
    have "P (snd (then_run (touch acc i (dep_key d) w) (\<lambda>res w1.
            case res of
              Inl e \<Rightarrow> (Finished (Inl e), w1)
            | Inr changed_at \<Rightarrow>
                if ca < changed_at then (Finished (Inr False), w1)
                else revalidate_deps acc ds ca w1)))"
      by (rule inv_then_run [OF touch]) (use Cons in \<open>auto split: sum.split\<close>)
    then show ?thesis using Some by simp
  qed (use Cons in simp)
qed simp

lemma inv_try_revalidate: "keeps acc \<Longrightarrow> P w \<Longrightarrow> P (snd (try_revalidate acc q rv ds ca w))"
  unfolding try_revalidate_def
  by (auto split: prod.split intro!: inv_then_run inv_revalidate_deps inv_on_task)

lemma inv_return_if_current:
  "P w \<Longrightarrow> (\<And>w. P w \<Longrightarrow> P (snd (again w))) \<Longrightarrow> P (snd (return_if_current again rv res w))"
  by (simp add: return_if_current_def)

lemma inv_adopt_record: "P w \<Longrightarrow> \<not> guarded q \<Longrightarrow> P (adopt_record q rv rec w)"
  by (simp add: adopt_record_def Let_def inv_steps)

lemma inv_finalize_ok: "P w \<Longrightarrow> \<not> guarded q \<Longrightarrow> P (finalize_ok eq q rv prev g ds out w)"
  by (simp add: finalize_ok_def Let_def inv_steps)

lemma inv_finalize_err: "P w \<Longrightarrow> \<not> guarded q \<Longrightarrow> P (finalize_err q rv g e w)"
  by (simp add: finalize_err_def Let_def inv_steps)

lemma inv_lead_phase:
  assumes "keeps acc" and "\<And>w. P w \<Longrightarrow> P (snd (again w))" and "P w" and "\<not> guarded q"
  shows "P (snd (lead_phase sys acc again q want rv prev g w))"
  unfolding lead_phase_def Let_def
  by (auto split: prod.split sum.split caught.split
      intro!: inv_then_run inv_run_prog inv_on_task inv_return_if_current inv_finalize_ok inv_finalize_err assms)

lemma inv_follow_phase:
  assumes "\<And>w. P w \<Longrightarrow> P (snd (again w))" and "P w" and "\<not> guarded q"
  shows "P (snd (follow_phase again q want rv e w))"
  unfolding follow_phase_def Let_def
  by (auto split: InFlightState.split intro!: inv_return_if_current inv_steps assms)

lemma inv_inflight_phase:
  assumes "keeps acc" and "\<And>w. P w \<Longrightarrow> P (snd (again w))" and "P w" and "\<not> guarded q"
  shows "P (snd (inflight_phase sys acc again q want rv prev w))"
  unfolding inflight_phase_def Let_def
  by (auto split: prod.split TryLeadResult.split
      intro!: inv_lead_phase inv_follow_phase inv_inflight assms)

lemma inv_compute_phase:
  assumes "keeps acc" and "\<And>w. P w \<Longrightarrow> P (snd (again w))" and "P w" and "\<not> guarded q"
  shows "P (snd (compute_phase sys acc again q want rv w))"
  unfolding compute_phase_def Let_def
  by (auto split: option.split sum.split bool.split
      intro!: inv_then_run inv_try_revalidate inv_inflight_phase inv_return_if_current inv_adopt_record inv_cell assms)

lemma inv_revalidated:
  assumes "\<And>w. P w \<Longrightarrow> P (snd (again w))" and "P w" and "\<not> guarded q"
  shows "P (snd (revalidated again q want rv w))"
  unfolding revalidated_def
  by (auto split: ErasedState.split intro!: inv_return_if_current inv_cell assms)

lemma inv_access_round:
  assumes "keeps acc" and "\<And>w. P w \<Longrightarrow> P (snd (again w))" and "P w"
  shows "P (snd (access_round sys acc again q want w))"
proof (cases "guarded q")
  case True
  then show ?thesis using guarded_round assms keepsD [OF assms(1)] by blast
next
  case False
  then show ?thesis
    unfolding access_round_def Let_def
    by (auto split: ErasedObserved.split sum.split bool.split
        intro!: inv_then_run inv_try_revalidate inv_return_if_current inv_revalidated inv_compute_phase assms)
qed

lemma keeps_access_enter: "keeps loop \<Longrightarrow> keeps (access_enter loop)"
  unfolding keeps_def
proof (intro allI impI)
  fix q want w assume loop: "\<forall>q want w. P w \<longrightarrow> P (snd (loop q want w))" and w: "P w"
  have "P (ensure_cell q (record_access q want w))"
    using w guarded_cell [of "record_access q want w" q]
    by (cases "guarded q") (auto simp: ensure_cell_def record_access_def inv_on_task inv_cell split: option.split)
  then show "P (snd (access_enter loop q want w))"
    using loop w by (simp add: access_enter_def split: option.split)
qed

lemma keeps_access_loop: "keeps (access_loop n sys)"
proof (induction n)
  case (Suc n)
  show ?case
    unfolding keeps_def
    using inv_access_round [OF keeps_access_enter [OF Suc] keepsD [OF Suc]] by simp
qed (simp add: keeps_def)

lemma keeps_access: "keeps (access n sys)"
  unfolding access_def by (rule keeps_access_enter [OF keeps_access_loop])

lemma get_keeps: "P w \<Longrightarrow> P (snd (db_get n sys q w))"
  unfolding db_get_def by (rule inv_get_erased [OF keeps_access])

lemma touch_keeps: "P w \<Longrightarrow> P (snd (db_touch n sys q w))"
  unfolding db_touch_def by (rule inv_touch_erased [OF keeps_access])

end

subsection \<open>Reads do not write\<close>

definition reads_only :: "'v world \<Rightarrow> 'v world \<Rightarrow> bool" where
  "reads_only w0 w \<longleftrightarrow>
     (\<forall>k. input_at w k = input_at w0 k) \<and> (\<forall>k. derived_reg w k = derived_reg w0 k)
     \<and> rt_id (w_rt w) = rt_id (w_rt w0) \<and> is_snapshot (w_rt w) = is_snapshot (w_rt w0)
     \<and> divergent_scope (w_rt w) = divergent_scope (w_rt w0) \<and> rt_revision (w_rt w) = rt_revision (w_rt w0)
     \<and> revision_tx (w_rt w) = revision_tx (w_rt w0)
     \<and> w_counter w = w_counter w0"

interpretation reader: world_invariant "reads_only w0" "\<lambda>_. False" for w0
proof unfold_locales
  fix w :: "'a world" and q st
  assume "reads_only w0 w"
  then show "reads_only w0 (set_cell q st w)"
    by (simp add: reads_only_def) (simp add: set_cell_def split: option.split ingredient.split)
next
  fix w :: "'a world" and q ds
  assume "reads_only w0 w"
  then show "reads_only w0 (on_rt (update_query_deps q ds) w)"
    by (simp add: reads_only_def update_query_deps_def Let_def) (simp add: on_rt_def)
next
  fix w :: "'a world" and rv q
  assume "reads_only w0 w"
  then show "reads_only w0 (on_rt (notify_query_changed rv q) w)"
    by (simp add: reads_only_def notify_query_changed_def send_event_def) (simp add: on_rt_def)
qed (erule FalseE | simp add: reads_only_def)+

text \<open>
  C3. A read never writes: whatever the queries do (fail, panic, form a cycle, block), \<open>get\<close> and \<open>touch\<close>
  leave every input, every registered kind, the revision, the scope and the id counter as they
  were. Of the runtime only the events and the dependency graph change.
\<close>
theorem reads_write_nothing:
  "let w1 = snd (db_get n sys q w); w2 = snd (db_touch n sys q w)
   in (\<forall>k. input_at w1 k = input_at w k \<and> input_at w2 k = input_at w k)
      \<and> current_revision (w_rt w1) = current_revision (w_rt w) \<and> current_revision (w_rt w2) = current_revision (w_rt w)
      \<and> cache_scope_id (w_rt w1) = cache_scope_id (w_rt w) \<and> cache_scope_id (w_rt w2) = cache_scope_id (w_rt w)
      \<and> w_counter w1 = w_counter w \<and> w_counter w2 = w_counter w"
proof -
  have "reads_only w w" by (simp add: reads_only_def)
  from reader.get_keeps [OF this, of n sys q] reader.touch_keeps [OF this, of n sys q]
  show ?thesis unfolding reads_only_def Let_def cache_scope_id_def current_revision_def by simp
qed

end
