(* ===== verification/Consistency.thy ===== *)
theory Consistency
  imports WorldInv
begin

text \<open>
  The properties of whole runs of a database: any sequence of input writes, removals and query
  reads, starting from a fresh database, returns from-scratch results.
\<close>

subsection \<open>Runs\<close>

datatype 'v db_op =
    OpSet QueryKindId bytes 'v
  | OpRemove QueryKindId bytes
  | OpGet DynKey
  | OpTouch DynKey

fun db_run :: "hasher \<Rightarrow> nat \<Rightarrow> 'v system \<Rightarrow> 'v db_op \<Rightarrow> 'v world \<Rightarrow> 'v world" where
  "db_run sh n sys (OpSet kind key v) w = db_set sh sys kind key v w"
| "db_run sh n sys (OpRemove kind key) w = db_remove sh kind key w"
| "db_run sh n sys (OpGet q) w = snd (db_get n sys q w)"
| "db_run sh n sys (OpTouch q) w = snd (db_touch n sys q w)"

text \<open>
  A database as \<open>new\<close> leaves it: empty ingredients, revision 0, and a runtime id that no entry of
  the process-wide cache and registry belongs to yet.
\<close>

definition fresh_world :: "'v setting \<Rightarrow> 'v world \<Rightarrow> bool" where
  "fresh_world S w \<longleftrightarrow>
     rt_revision (w_rt w) = 0 \<and> \<not> is_snapshot (w_rt w) \<and> w_task w = task0
     \<and> (\<forall>k. st_isder S k \<longrightarrow> (\<exists>name. ingredient (w_ingredients w) k = Some (DerivedI (derived_new k name))))
     \<and> (\<forall>k. st_isin S k \<longrightarrow> (\<exists>name. ingredient (w_ingredients w) k = Some (InputI (input_new k name))))
     \<and> (\<forall>k r. tget (sc_map (w_cache w)) k = Some r \<longrightarrow> sk_runtime_id k \<noteq> cache_scope_id (w_rt w))
     \<and> (\<forall>k e. tget (reg_map (w_inflight w)) k = Some e \<longrightarrow> if_runtime_id k \<noteq> cache_scope_id (w_rt w))"

text \<open>Between operations: nothing is in progress and the invariant holds for some history.\<close>

definition top_ok :: "'v setting \<Rightarrow> nat \<Rightarrow> 'v world \<Rightarrow> bool" where
  "top_ok S m w \<longleftrightarrow>
     (\<exists>hist now obs. now \<le> m \<and> world_ok S hist now obs {} {} w \<and> hist now = input_value w)
     \<and> wf_task (w_task w) \<and> active_stack (w_task w) = None \<and> \<not> is_snapshot (w_rt w)"

lemma top_ok_fresh:
  assumes "fresh_world S w"
  shows "top_ok S 0 w"
proof -
  let ?obs = "\<lambda>_. {} :: nat set"
  have none: "get_cell q w = None" if "st_isder S (dk_kind q)" for q
    using assms that by (force simp: fresh_world_def get_cell_def derived_new_def)
  have slots: "tget (sc_map (w_cache w)) (slot (w_rt w) q) = None" for q
  proof (cases "tget (sc_map (w_cache w)) (slot (w_rt w) q)")
    case (Some r)
    then have "sk_runtime_id (slot (w_rt w) q) \<noteq> cache_scope_id (w_rt w)"
      using assms unfolding fresh_world_def by blast
    then show ?thesis by (simp add: slot_def)
  qed simp
  have leads: "if_runtime_id k \<noteq> cache_scope_id (w_rt w)" if "tget (reg_map (w_inflight w)) k = Some e" for k e
    using assms that unfolding fresh_world_def by blast
  have mem: "memos_ok S (\<lambda>_. input_value w) 0 ?obs {} {} w"
    unfolding memos_ok_def
  proof (intro conjI allI impI, goal_cases)
    case (6 k e)
    then show ?case using leads by blast
  next
    case (7 k e)
    then show ?case using leads by blast
  qed (simp_all add: none slots)
  have env: "env_ok S (\<lambda>_. input_value w) 0 w"
    unfolding env_ok_def
  proof (intro conjI allI impI, goal_cases)
    case 1
    then show ?case using assms by (simp add: fresh_world_def)
  next
    case (2 k)
    then show ?case using assms by (force simp: fresh_world_def derived_reg_def derived_new_def)
  next
    case (3 k)
    then show ?case using assms by (force simp: fresh_world_def input_at_def input_new_def)
  next
    case (4 q s)
    then show ?case using assms by (force simp: fresh_world_def input_at_def input_new_def stamp_def)
  next
    case (5 q s t)
    then show ?case by (simp add: input_value_def)
  qed
  have "world_ok S (\<lambda>_. input_value w) 0 ?obs {} {} w" using mem env by (simp add: world_ok_def)
  then show ?thesis
    using assms unfolding top_ok_def fresh_world_def
    by (intro conjI exI [of _ "\<lambda>_. input_value w"] exI [of _ 0] exI [of _ ?obs]) (auto simp: task0_def wf_task_def)
qed

subsection \<open>Reads\<close>

lemma input_value_cong: "(\<And>k. input_at w' k = input_at w k) \<Longrightarrow> input_value w' = input_value w"
  by (simp add: input_value_def fun_eq_iff)

text \<open>A read from outside any query, on a database or a snapshot where nothing is in progress.\<close>

definition idle :: "'v setting \<Rightarrow> (nat \<Rightarrow> 'v inputs) \<Rightarrow> nat \<Rightarrow> 'v world \<Rightarrow> bool" where
  "idle S hist now w \<longleftrightarrow> (\<exists>obs. world_ok S hist now obs {} {} w) \<and> hist now = input_value w
     \<and> wf_task (w_task w) \<and> active_stack (w_task w) = None"

lemma idle_access:
  assumes S: "well_set S" and ok: "idle S hist now w" and q: "st_isder S (dk_kind q)" "st_rank S q < n"
  shows "\<exists>res w' v. scoped (access n (st_sys S)) q want w = (Finished (Inr res), w') \<and> idle S hist now w'
     \<and> ar_value res = (if want then Some v else None) \<and> evq (st_sys S) (input_value w) q (Inr v)
     \<and> input_value w' = input_value w \<and> is_snapshot (w_rt w') = is_snapshot (w_rt w)"
proof -
  obtain obs where w: "world_ok S hist now obs {} {} w" "hist now = input_value w"
    and t: "wf_task (w_task w)" "active_stack (w_task w) = None"
    using ok unfolding idle_def by blast
  let ?w0 = "on_task (\<lambda>t. t\<lparr>active_stack := Some []\<rparr>) w"
  have "ready_for S (Suc (st_rank S q)) {} {} (w_task ?w0)"
    by (simp add: ready_for_def stack_keys_def wf_task_def)
  then have "access_post S hist now q want {} {} ?w0 obs (access n (st_sys S) q want ?w0)"
    using access_spec [OF S, of hist now n] q w(1) unfolding acc_spec_def by simp
  then obtain res w1 obs1 where a: "access n (st_sys S) q want ?w0 = (Finished (Inr res), w1)"
    "world_ok S hist now obs1 {} {} w1" "evolves S (Suc (st_rank S q)) ?w0 obs w1 obs1"
    "task_ext (if want then [dyn_dep q] else []) (w_task ?w0) (w_task w1)" "fresh_result S hist now obs1 q want res"
    unfolding access_post_def by blast
  let ?w1 = "on_task (\<lambda>t. t\<lparr>active_stack := None\<rparr>) w1"
  have run: "scoped (access n (st_sys S)) q want w = (Finished (Inr res), ?w1)"
    using t(2) a(1) by (simp add: scoped_def)
  obtain v where v: "ar_value res = (if want then Some v else None)" "evq (st_sys S) (hist now) q (Inr v)"
    using a(5) unfolding fresh_result_def by blast
  have iv: "input_value ?w1 = input_value w"
    by (rule input_value_cong) (use a(3) in \<open>simp add: evolves_def\<close>)
  have sn: "is_snapshot (w_rt ?w1) = is_snapshot (w_rt w)" using a(3) by (simp add: evolves_def)
  have "idle S hist now ?w1"
    unfolding idle_def
  proof (intro conjI exI [of _ obs1])
    show "world_ok S hist now obs1 {} {} ?w1" using a(2) by simp
    show "hist now = input_value ?w1" using w(2) iv by simp
  qed (simp_all add: wf_task_def)
  then show ?thesis using run v w(2) iv sn by auto
qed

lemma idle_get:
  assumes "well_set S" "idle S hist now w" "st_isder S (dk_kind q)" "st_rank S q < n"
  shows "\<exists>v w'. db_get n (st_sys S) q w = (Finished (Inr v), w') \<and> idle S hist now w'
     \<and> evq (st_sys S) (input_value w) q (Inr v) \<and> input_value w' = input_value w"
  using idle_access [OF assms, of True] by (auto simp: db_get_def get_erased_def)

lemma top_idle: "top_ok S m w \<longleftrightarrow> (\<exists>hist now. now \<le> m \<and> idle S hist now w) \<and> \<not> is_snapshot (w_rt w)"
  unfolding top_ok_def idle_def by blast

lemma top_access:
  assumes "well_set S" and "top_ok S m w" and "st_isder S (dk_kind q)" "st_rank S q < n"
  shows "\<exists>res w' v. scoped (access n (st_sys S)) q want w = (Finished (Inr res), w') \<and> top_ok S m w'
     \<and> ar_value res = (if want then Some v else None) \<and> evq (st_sys S) (input_value w) q (Inr v)
     \<and> input_value w' = input_value w"
proof -
  obtain hist now where i: "now \<le> m" "idle S hist now w" and ns: "\<not> is_snapshot (w_rt w)"
    using assms(2) unfolding top_idle by blast
  from idle_access [OF assms(1) i(2) assms(3,4), of want] show ?thesis
    using i(1) ns unfolding top_idle by blast
qed

lemma top_get:
  assumes "well_set S" "top_ok S m w" "st_isder S (dk_kind q)" "st_rank S q < n"
  shows "\<exists>v w'. db_get n (st_sys S) q w = (Finished (Inr v), w') \<and> top_ok S m w'
     \<and> evq (st_sys S) (input_value w) q (Inr v) \<and> input_value w' = input_value w"
  using top_access [OF assms, of True] by (auto simp: db_get_def get_erased_def)

lemma top_touch:
  assumes "well_set S" "top_ok S m w" "st_isder S (dk_kind q)" "st_rank S q < n"
  shows "\<exists>c w'. db_touch n (st_sys S) q w = (Finished (Inr c), w') \<and> top_ok S m w'"
  using top_access [OF assms, of False] by (auto simp: db_touch_def touch_erased_def)


subsection \<open>Writes\<close>

lemma memo_ok_extend:
  assumes "memo_ok S hist obs now q r" and "obs q \<subseteq> {..now}" and "\<And>t. t \<le> now \<Longrightarrow> hist' t = hist t"
  shows "memo_ok S hist' obs (Suc now) q r"
  using assms unfolding memo_ok_def by (auto simp: subset_iff)

lemma write_runtime_frame:
  assumes "write_begin d = (rv, d1)" and "\<not> is_snapshot (db_runtime d)"
  shows "\<not> is_snapshot (db_runtime (write_finish q x rv d1))"
    and "cache_scope_id (db_runtime (write_finish q x rv d1)) = cache_scope_id (db_runtime d)"
  using assms
  by (auto simp: write_begin_def write_finish_def bump_revision_def mark_divergent_def send_event_def Let_def
      notify_input_set_def notify_input_removed_def propagate_invalidation_def cache_scope_id_def split: prod.splits)

text \<open>The world after an effective write of an input.\<close>

definition written :: "DynKey \<Rightarrow> 'v option \<Rightarrow> 'v Input \<Rightarrow> 'v world \<Rightarrow> 'v world" where
  "written q x s w =
     (let (rv, d1) = write_begin \<lparr>db_input = s, db_runtime = w_rt w, db_counter = w_counter w\<rparr>;
          d = write_finish q x rv d1
      in w\<lparr>w_ingredients := tinsert (dk_kind q) (InputI (db_input d)) (w_ingredients w),
           w_rt := db_runtime d, w_counter := db_counter d\<rparr>)"

lemma written_views:
  assumes s: "input_at w (dk_kind q) = Some s" and ns: "\<not> is_snapshot (w_rt w)"
    and s': "s' = s\<lparr>inp_entries := tinsert q \<lparr>ie_value = x, ie_changed_at = Revision (rt_revision (w_rt w) + 1)\<rparr> (inp_entries s)\<rparr>"
  shows "input_at (written q x s w) k = (if k = dk_kind q then Some s' else input_at w k)"
    and "get_cell p (written q x s w) = get_cell p w" and "derived_reg (written q x s w) k = derived_reg w k"
    and "rt_revision (w_rt (written q x s w)) = rt_revision (w_rt w) + 1"
    and "\<not> is_snapshot (w_rt (written q x s w))" and "slot (w_rt (written q x s w)) p = slot (w_rt w) p"
    and "cache_scope_id (w_rt (written q x s w)) = cache_scope_id (w_rt w)"
    and "w_cache (written q x s w) = w_cache w" and "w_inflight (written q x s w) = w_inflight w"
    and "w_task (written q x s w) = w_task w"
proof -
  let ?d = "\<lparr>db_input = s, db_runtime = w_rt w, db_counter = w_counter w\<rparr>"
  obtain rv d1 where wb: "write_begin ?d = (rv, d1)" by fastforce
  note W = write_spec [OF wb]
  note F = write_runtime_frame [OF wb]
  have i: "ingredient (w_ingredients w) (dk_kind q) = Some (InputI s)"
    using s by (auto simp: input_at_def split: option.splits ingredient.splits)
  have w': "written q x s w = w\<lparr>w_ingredients := tinsert (dk_kind q) (InputI s') (w_ingredients w),
      w_rt := db_runtime (write_finish q x rv d1), w_counter := db_counter (write_finish q x rv d1)\<rparr>"
    using W wb s' by (simp add: written_def Let_def)
  show "input_at (written q x s w) k = (if k = dk_kind q then Some s' else input_at w k)"
    and "get_cell p (written q x s w) = get_cell p w" and "derived_reg (written q x s w) k = derived_reg w k"
    using i unfolding w' by (auto simp: input_at_def ingredient_def get_cell_def derived_reg_def)
  show "rt_revision (w_rt (written q x s w)) = rt_revision (w_rt w) + 1"
    using W unfolding w' by simp
  show "\<not> is_snapshot (w_rt (written q x s w))"
    and sc: "cache_scope_id (w_rt (written q x s w)) = cache_scope_id (w_rt w)"
    using F ns unfolding w' by simp_all
  show "slot (w_rt (written q x s w)) p = slot (w_rt w) p" using sc by (simp add: slot_def)
qed (simp_all add: written_def Let_def split: prod.split)

lemma top_ok_written:
  assumes S: "well_set S" and ok: "top_ok S m w" and room: "Suc m < 2 ^ 64"
    and q: "st_isin S (dk_kind q)" and s: "input_at w (dk_kind q) = Some s"
  shows "top_ok S (Suc m) (written q x s w)"
proof -
  obtain hist now obs where now: "now \<le> m" and w: "env_ok S hist now w" "memos_ok S hist now obs {} {} w"
    and bnd: "\<And>q. obs q \<subseteq> {..now}" and hn: "hist now = input_value w"
    and t: "wf_task (w_task w)" "active_stack (w_task w) = None" and ns: "\<not> is_snapshot (w_rt w)"
    using ok unfolding top_ok_def world_ok_def by blast
  let ?w = "written q x s w" let ?rv = "Revision (rt_revision (w_rt w) + 1)"
  define s' where "s' = s\<lparr>inp_entries := tinsert q \<lparr>ie_value = x, ie_changed_at = ?rv\<rparr> (inp_entries s)\<rparr>"
  define hist' where "hist' = hist(Suc now := input_value ?w)"
  note V = written_views [OF s ns s'_def]
  note I = memos_okD [OF w(2)]
  have rev: "unat (rt_revision (w_rt w)) = now" using w(1) by (simp add: env_ok_def)
  have rv: "nat_of ?rv = Suc now" using rev now room by (simp add: unat_word_ariths)
  have old: "hist' t = hist t" if "t \<le> now" for t using that by (simp add: hist'_def)
  have ext: "memo_ok S hist' obs (Suc now) p r" if "memo_ok S hist obs now p r" for p r
    by (rule memo_ok_extend [OF that bnd old])
  have view: "stamp s' p = (if p = q then ?rv else stamp s p)" "held s' p = (if p = q then x else held s p)" for p
    by (simp_all add: s'_def stamp_def held_def)
  have E: "nat_of (stamp sp p) \<le> now" "nat_of (stamp sp p) \<le> t \<Longrightarrow> t \<le> now \<Longrightarrow> hist t p = held sp p"
    if "st_isin S (dk_kind p)" "input_at w (dk_kind p) = Some sp" for p sp t
    using w(1) that unfolding env_ok_def by blast+
  have split: "(p = q \<and> sp = s') \<or> (p \<noteq> q \<and> (\<exists>sp0. input_at w (dk_kind p) = Some sp0 \<and> stamp sp p = stamp sp0 p \<and> held sp p = held sp0 p))"
    if "input_at ?w (dk_kind p) = Some sp" for p sp
    using that s view [of p] unfolding V(1) by (cases "dk_kind p = dk_kind q"; cases "p = q") auto
  have in1: "nat_of (stamp sp p) \<le> Suc now"
    and in2: "nat_of (stamp sp p) \<le> t \<Longrightarrow> t \<le> Suc now \<Longrightarrow> hist' t p = held sp p"
    if i: "input_at ?w (dk_kind p) = Some sp" and k: "st_isin S (dk_kind p)" for p sp t
  proof -
    show "nat_of (stamp sp p) \<le> Suc now"
      using split [OF i] E(1) [OF k] rv by (auto simp: view intro: le_SucI)
    show "hist' t p = held sp p" if t: "nat_of (stamp sp p) \<le> t" "t \<le> Suc now"
    proof (cases "t = Suc now")
      case True
      then show ?thesis using i by (simp add: hist'_def input_value_def)
    next
      case False
      then have tn: "t \<le> now" using t by simp
      have "p \<noteq> q" using split [OF i] t(1) tn rv by (auto simp: view)
      then show ?thesis using split [OF i] E(2) [OF k] t(1) tn old [OF tn] by auto
    qed
  qed
  have "env_ok S hist' (Suc now) ?w"
    unfolding env_ok_def V
  proof (intro conjI allI impI, goal_cases)
    case 1
    show ?case using rv by simp
  next
    case (2 k)
    then show ?case using w(1) by (simp add: env_ok_def)
  next
    case (3 k)
    then obtain sk where sk: "input_at w k = Some sk" "inp_kind sk = k" using w(1) unfolding env_ok_def by blast
    show ?case
    proof (cases "k = dk_kind q")
      case True
      then show ?thesis using sk s by (simp add: s'_def)
    next
      case False
      then show ?thesis using sk by simp
    qed
  next
    case (4 p sp)
    then show ?case using in1 [of p sp] unfolding V(1) by blast
  next
    case (5 p sp t)
    then show ?case using in2 [of p sp t] unfolding V(1) by blast
  qed
  moreover have "memos_ok S hist' (Suc now) obs {} {} ?w"
    unfolding memos_ok_def V
  proof (intro conjI allI impI, goal_cases)
    case (1 p r)
    then show ?case using I(1) ext by blast
  next
    case (4 p rec)
    then show ?case using I(4) ext by blast
  qed (use I in blast)+
  moreover have "obs p \<subseteq> {..Suc now}" for p using bnd [of p] by (auto simp: le_Suc_eq)
  ultimately have "world_ok S hist' (Suc now) obs {} {} ?w" by (simp add: world_ok_def)
  moreover have "hist' (Suc now) = input_value ?w" by (simp add: hist'_def)
  ultimately show ?thesis
    unfolding top_ok_def V using t now by (intro conjI exI [of _ hist'] exI [of _ "Suc now"] exI [of _ obs]) (use V(5) in auto)
qed

lemma top_ok_mono: "top_ok S m w \<Longrightarrow> m \<le> m' \<Longrightarrow> top_ok S m' w"
  unfolding top_ok_def by (meson order_trans)

text \<open>A set or a removal is an effective write or leaves the database alone.\<close>

lemma self_tinsert_input:
  "ingredient (w_ingredients w) kind = Some (InputI s) \<Longrightarrow>
   top_ok S m (w\<lparr>w_ingredients := tinsert kind (InputI s) (w_ingredients w)\<rparr>) \<longleftrightarrow> top_ok S m w"
proof -
  assume i: "ingredient (w_ingredients w) kind = Some (InputI s)"
  let ?w = "w\<lparr>w_ingredients := tinsert kind (InputI s) (w_ingredients w)\<rparr>"
  have V: "input_at ?w k = input_at w k" "get_cell p ?w = get_cell p w" "derived_reg ?w k = derived_reg w k" for k p
    using i by (auto simp: input_at_def get_cell_def derived_reg_def ingredient_def)
  have "input_value ?w = input_value w" by (rule input_value_cong) (rule V)
  then show ?thesis by (simp add: top_ok_def world_ok_def env_ok_def memos_ok_def V)
qed

lemma db_set_cases:
  assumes "ingredient (w_ingredients w) kind = Some (InputI s)" and "inp_kind s = kind"
  shows "db_set sh sys kind key v w = w\<lparr>w_ingredients := tinsert kind (InputI s) (w_ingredients w)\<rparr>
     \<or> db_set sh sys kind key v w = written \<lparr>dk_kind = kind, dk_key = from_bytes sh key\<rparr> (Some v) s w"
  using assms
  by (auto simp: db_set_def on_input_def input_set_def raw_codec_def encode_facet_def written_def Let_def
      split: option.splits prod.splits)

lemma db_remove_cases:
  assumes "ingredient (w_ingredients w) kind = Some (InputI s)" and "inp_kind s = kind"
  shows "db_remove sh kind key w = w\<lparr>w_ingredients := tinsert kind (InputI s) (w_ingredients w)\<rparr>
     \<or> db_remove sh kind key w = written \<lparr>dk_kind = kind, dk_key = from_bytes sh key\<rparr> None s w"
  using assms
  by (auto simp: db_remove_def on_input_def input_remove_def raw_codec_def encode_facet_def written_def Let_def
      split: option.splits prod.splits)


subsection \<open>Whole runs\<close>

primrec op_ok :: "'v setting \<Rightarrow> nat \<Rightarrow> 'v db_op \<Rightarrow> bool" where
  "op_ok S n (OpSet kind key v) \<longleftrightarrow> st_isin S kind"
| "op_ok S n (OpRemove kind key) \<longleftrightarrow> st_isin S kind"
| "op_ok S n (OpGet q) \<longleftrightarrow> st_isder S (dk_kind q) \<and> st_rank S q < n"
| "op_ok S n (OpTouch q) \<longleftrightarrow> st_isder S (dk_kind q) \<and> st_rank S q < n"

lemma top_input:
  assumes "top_ok S m w" and "st_isin S kind"
  obtains s where "ingredient (w_ingredients w) kind = Some (InputI s)" "inp_kind s = kind" "input_at w kind = Some s"
proof -
  from assms obtain s where "input_at w kind = Some s" "inp_kind s = kind"
    unfolding top_ok_def world_ok_def env_ok_def by blast
  moreover from this have "ingredient (w_ingredients w) kind = Some (InputI s)"
    by (auto simp: input_at_def split: option.splits ingredient.splits)
  ultimately show ?thesis using that by blast
qed

lemma top_ok_run:
  assumes S: "well_set S" and ok: "top_ok S m w" and room: "Suc m < 2 ^ 64" and op: "op_ok S n op"
  shows "top_ok S (Suc m) (db_run sh n (st_sys S) op w)"
proof (cases op)
  case (OpSet kind key v)
  then obtain s where s: "ingredient (w_ingredients w) kind = Some (InputI s)" "inp_kind s = kind" "input_at w kind = Some s"
    using top_input [OF ok] op by auto
  let ?q = "\<lparr>dk_kind = kind, dk_key = from_bytes sh key\<rparr>"
  show ?thesis
    using db_set_cases [OF s(1,2), of sh "st_sys S" key v] top_ok_written [OF S ok room, of ?q s "Some v"] op OpSet s(3)
      self_tinsert_input [OF s(1)] top_ok_mono [OF ok, of "Suc m"] by auto
next
  case (OpRemove kind key)
  then obtain s where s: "ingredient (w_ingredients w) kind = Some (InputI s)" "inp_kind s = kind" "input_at w kind = Some s"
    using top_input [OF ok] op by auto
  let ?q = "\<lparr>dk_kind = kind, dk_key = from_bytes sh key\<rparr>"
  show ?thesis
    using db_remove_cases [OF s(1,2), of sh key] top_ok_written [OF S ok room, of ?q s None] op OpRemove s(3)
      self_tinsert_input [OF s(1)] top_ok_mono [OF ok, of "Suc m"] by auto
next
  case (OpGet q)
  then show ?thesis using top_get [OF S ok, of q n] op top_ok_mono [of S m _ "Suc m"] by auto
next
  case (OpTouch q)
  then show ?thesis using top_touch [OF S ok, of q n] op top_ok_mono [of S m _ "Suc m"] by auto
qed

lemma top_ok_runs:
  assumes S: "well_set S"
  shows "top_ok S m w \<Longrightarrow> m + length ops < 2 ^ 64 \<Longrightarrow> \<forall>op \<in> set ops. op_ok S n op \<Longrightarrow>
    top_ok S (m + length ops) (fold (db_run sh n (st_sys S)) ops w)"
proof (induction ops arbitrary: m w)
  case Nil
  then show ?case by simp
next
  case (Cons op ops)
  then have "top_ok S (Suc m) (db_run sh n (st_sys S) op w)" by (intro top_ok_run [OF S]) auto
  from Cons.IH [OF this] Cons.prems show ?case by simp
qed

subsection \<open>A concrete setting\<close>

text \<open>
  Kind 1 is an input, kind 3 a query that reads the input of the same key, kind 4 a query that
  doubles kind 3.
\<close>

definition demo_sys :: "u8 system" where
  "demo_sys = \<lparr>
     sys_compute = (\<lambda>kd key.
       if kd = QueryKindId 3 then
         ReadInput \<lparr>dk_kind = QueryKindId 1, dk_key = key\<rparr> (\<lambda>x. Ret (case x of None \<Rightarrow> 0 | Some v \<Rightarrow> v + 1))
       else
         Query \<lparr>dk_kind = QueryKindId 3, dk_key = key\<rparr> (\<lambda>r. Ret (case r of Inl _ \<Rightarrow> 0 | Inr v \<Rightarrow> v + v))),
     sys_eq = (\<lambda>_ a b. a = b)\<rparr>"

definition demo_setting :: "u8 setting" where
  "demo_setting = \<lparr>st_sys = demo_sys, st_isin = (\<lambda>k. k = QueryKindId 1),
     st_isder = (\<lambda>k. k = QueryKindId 3 \<or> k = QueryKindId 4),
     st_rank = (\<lambda>q. if dk_kind q = QueryKindId 4 then 1 else 0)\<rparr>"

definition demo_world :: "u8 world" where
  "demo_world = \<lparr>w_rt = fst (runtime_new 7),
     w_ingredients = register (DerivedI (derived_new (QueryKindId 4) ''double''))
       (register (DerivedI (derived_new (QueryKindId 3) ''next''))
         (register (InputI (input_new (QueryKindId 1) ''number'')) [])),
     w_cache = shared_cache_init None, w_inflight = registry0, w_task = task0, w_counter = 8\<rparr>"

lemma demo_next: "evq demo_sys I \<lparr>dk_kind = QueryKindId 3, dk_key = key\<rparr>
    (Inr (case I \<lparr>dk_kind = QueryKindId 1, dk_key = key\<rparr> of None \<Rightarrow> 0 | Some v \<Rightarrow> v + 1))"
  unfolding evq_def compute_of_def demo_sys_def by (force intro: ev_read ev_ret)

lemma demo_double:
  assumes "evq demo_sys I \<lparr>dk_kind = QueryKindId 3, dk_key = key\<rparr> (Inr v)"
  shows "evq demo_sys I \<lparr>dk_kind = QueryKindId 4, dk_key = key\<rparr> (Inr (v + v))"
proof -
  let ?k = "\<lambda>r :: u8 PicanteResult. Ret (case r of Inl _ \<Rightarrow> 0 | Inr v \<Rightarrow> v + v) :: u8 prog"
  obtain tr where "ev demo_sys I (compute_of demo_sys \<lparr>dk_kind = QueryKindId 3, dk_key = key\<rparr>) tr (Inr v)"
    using assms unfolding evq_def by blast
  moreover have "ev demo_sys I (?k (Inr v)) [] (Inr (v + v))" using ev_ret [of demo_sys I "v + v"] by simp
  ultimately have "ev demo_sys I (Query \<lparr>dk_kind = QueryKindId 3, dk_key = key\<rparr> ?k)
      [\<lparr>dk_kind = QueryKindId 3, dk_key = key\<rparr>] (Inr (v + v))"
    by (rule ev_query)
  moreover have "compute_of demo_sys \<lparr>dk_kind = QueryKindId 4, dk_key = key\<rparr> = Query \<lparr>dk_kind = QueryKindId 3, dk_key = key\<rparr> ?k"
    by (simp add: compute_of_def demo_sys_def)
  ultimately show ?thesis unfolding evq_def by metis
qed

lemma well_set_demo: "well_set demo_setting"
  unfolding well_set_def
proof (intro conjI allI impI, goal_cases)
  case (4 I q)
  obtain kd key where q: "q = \<lparr>dk_kind = kd, dk_key = key\<rparr>" by (cases q) simp
  from 4 q consider "kd = QueryKindId 3" | "kd = QueryKindId 4" by (auto simp: demo_setting_def)
  then show ?case using q demo_next [of I key] demo_double [OF demo_next [of I key]]
    by cases (auto simp: demo_setting_def)
qed (auto simp: demo_setting_def demo_sys_def compute_of_def)

lemma fresh_demo_world: "fresh_world demo_setting demo_world"
  by (simp add: fresh_world_def demo_setting_def demo_world_def runtime_new_def new_unique_def register_def
      ingredient_kind_def derived_new_def input_new_def ingredient_def shared_cache_init_def registry0_def)

text \<open>
  C1. From-scratch consistency. The queries call each other acyclically (each calls only queries of lower rank), their equality
  functions never identify different values, and from scratch no query fails, whatever the inputs hold. Start from a
  fresh database, on which such queries and their inputs are registered, and run any sequence of fewer than \<open>2 ^ 64\<close> input
  writes, removals, reads and revalidations of them. Then \<open>get\<close> returns, needing no more fuel than the rank of the
  query plus one, and its value is the one and only value that evaluating the query functions
  directly over the inputs the database now holds gives, whatever was memoised, revalidated,
  taken from the shared cache or cut off early on the way. (For queries that can fail the statement is
  false: \<open>revalidation_leaks_handled_error\<close> in \<open>Findings\<close>.)
\<close>
theorem from_scratch_consistency:
  assumes "well_set S" and "fresh_world S w0" and "length ops < 2 ^ 64" and "\<forall>op \<in> set ops. op_ok S n op"
    and "st_isder S (dk_kind q)" and "st_rank S q < n"
  shows "let w = fold (db_run sh n (st_sys S)) ops w0
         in \<exists>v w'. db_get n (st_sys S) q w = (Finished (Inr v), w')
              \<and> (\<forall>r. evq (st_sys S) (input_value w) q r \<longleftrightarrow> r = Inr v)"
proof -
  have "top_ok S (0 + length ops) (fold (db_run sh n (st_sys S)) ops w0)"
    by (rule top_ok_runs [OF assms(1) top_ok_fresh [OF assms(2)] _ assms(4)]) (use assms(3) in simp)
  from top_get [OF assms(1) this assms(5,6)] show ?thesis unfolding Let_def using evq_det by blast
qed

theorem from_scratch_consistency_witness:
  "let q = \<lparr>dk_kind = QueryKindId 4, dk_key = from_bytes (\<lambda>_. 0) [1]\<rparr>;
       w = fold (db_run (\<lambda>_. 0) 2 demo_sys)
             [OpSet (QueryKindId 1) [1] 5, OpGet q, OpSet (QueryKindId 1) [1] 6, OpTouch q, OpRemove (QueryKindId 1) [1]]
             demo_world
   in \<exists>v w'. db_get 2 demo_sys q w = (Finished (Inr v), w') \<and> (\<forall>r. evq demo_sys (input_value w) q r \<longleftrightarrow> r = Inr v)"
  using from_scratch_consistency [OF well_set_demo fresh_demo_world,
      of "[OpSet (QueryKindId 1) [1] 5, OpGet \<lparr>dk_kind = QueryKindId 4, dk_key = from_bytes (\<lambda>_. 0) [1]\<rparr>,
           OpSet (QueryKindId 1) [1] 6, OpTouch \<lparr>dk_kind = QueryKindId 4, dk_key = from_bytes (\<lambda>_. 0) [1]\<rparr>,
           OpRemove (QueryKindId 1) [1]]" 2 "\<lparr>dk_kind = QueryKindId 4, dk_key = from_bytes (\<lambda>_. 0) [1]\<rparr>" "\<lambda>_. 0"]
  by (simp add: demo_setting_def Let_def)

end
