(* ===== verification/Snapshots.thy ===== *)
theory Snapshots
  imports Consistency
begin

text \<open>
  Database snapshots: what the generated \<open>from_database\<close> (\<open>picante-macros/src/db.rs\<close>) builds from a
  live database, what a read of the snapshot returns as long as the parent stands still, and what
  it can return once the parent has moved on.
\<close>

subsection \<open>Taking a snapshot\<close>

text \<open>
  Input data is copied through its snapshot, memo cells are deep-copied when they are ready. The
  cache, the registry and the id counter are global to the process.
\<close>

definition snapshot_input :: "hasher \<Rightarrow> 'v Input \<Rightarrow> 'v Input" where
  "snapshot_input sh s = input_new_from_snapshot sh raw_codec (inp_kind s) (inp_kind_name s) (input_snapshot raw_codec s)"

definition snapshot_derived :: "'v Derived \<Rightarrow> 'v Derived" where
  "snapshot_derived d = load_cells (snapshot_cells_deep d) (derived_new (de_kind d) (de_kind_name d))"

definition snapshot_ingredient :: "hasher \<Rightarrow> 'v ingredient \<Rightarrow> 'v ingredient" where
  "snapshot_ingredient sh i =
     (case i of InputI s \<Rightarrow> InputI (snapshot_input sh s) | DerivedI d \<Rightarrow> DerivedI (snapshot_derived d))"

definition from_database :: "hasher \<Rightarrow> 'v world \<Rightarrow> 'v world" where
  "from_database sh w =
     (let runtime = set_current_revision (current_revision (w_rt w)) (new_for_snapshot (rt_id (w_rt w)))
      in w\<lparr>w_rt := runtime,
           w_ingredients := fold (register \<circ> snapshot_ingredient sh) (map snd (w_ingredients w)) []\<rparr>)"


subsection \<open>Well-formed databases\<close>

text \<open>The shape \<open>new\<close> and every operation keep: tables without duplicates, kinds where they belong.\<close>

definition ingredient_wf :: "hasher \<Rightarrow> QueryKindId \<Rightarrow> 'v ingredient \<Rightarrow> bool" where
  "ingredient_wf sh k i \<longleftrightarrow> ingredient_kind i = k
     \<and> (case i of InputI s \<Rightarrow> input_wf sh raw_codec s | DerivedI d \<Rightarrow> twf (de_cells d))"

definition db_shape :: "hasher \<Rightarrow> 'v world \<Rightarrow> bool" where
  "db_shape sh w \<longleftrightarrow> twf (w_ingredients w) \<and> \<not> is_snapshot (w_rt w) \<and> divergent_scope (w_rt w) = 0
     \<and> (\<forall>k i. tget (w_ingredients w) k = Some i \<longrightarrow> ingredient_wf sh k i)"

lemma db_shape_tinsert:
  "db_shape sh w \<Longrightarrow> ingredient_wf sh k i \<Longrightarrow> db_shape sh (w\<lparr>w_ingredients := tinsert k i (w_ingredients w)\<rparr>)"
  by (auto simp: db_shape_def)

interpretation shaped: world_invariant "db_shape sh" "\<lambda>_. False" for sh
proof unfold_locales
  fix w :: "'a world" and q st
  assume w: "db_shape sh w"
  show "db_shape sh (set_cell q st w)"
  proof (cases "ingredient (w_ingredients w) (dk_kind q)")
    case (Some i)
    then have "ingredient_wf sh (dk_kind q) i" using w by (simp add: db_shape_def ingredient_def)
    then show ?thesis
      using Some w by (cases i) (auto simp: set_cell_def ingredient_wf_def ingredient_kind_def intro: db_shape_tinsert)
  qed (use w in \<open>simp add: set_cell_def\<close>)
qed (erule FalseE | simp add: db_shape_def on_rt_def update_query_deps_def notify_query_changed_def send_event_def Let_def)+

lemma db_shape_written:
  assumes w: "db_shape sh w" and s: "tget (w_ingredients w) (dk_kind q) = Some (InputI s)" and q: "dk_key q = from_bytes sh bs"
  shows "db_shape sh (written q x s w)"
proof -
  let ?d = "\<lparr>db_input = s, db_runtime = w_rt w, db_counter = w_counter w\<rparr>"
  obtain rv d1 where wb: "write_begin ?d = (rv, d1)" by fastforce
  have rt: "\<not> is_snapshot (db_runtime (write_finish q x rv d1)) \<and> divergent_scope (db_runtime (write_finish q x rv d1)) = 0"
    using wb w by (auto simp: db_shape_def write_begin_def write_finish_def bump_revision_def mark_divergent_def
        send_event_def Let_def notify_input_set_def notify_input_removed_def propagate_invalidation_def split: prod.splits)
  have s': "db_input (write_finish q x rv d1) = s\<lparr>inp_entries := tinsert q \<lparr>ie_value = x, ie_changed_at = rv\<rparr> (inp_entries s)\<rparr>"
    using write_spec(1) [OF wb, of q x] by simp
  have i: "ingredient_wf sh (dk_kind q) (InputI s)" using w s by (simp add: db_shape_def)
  then have wf: "input_wf sh raw_codec s" "inp_kind s = dk_kind q"
    using i by (simp_all add: ingredient_wf_def ingredient_kind_def)
  have "q = \<lparr>dk_kind = inp_kind s, dk_key = from_bytes sh bs\<rparr>" using q wf(2) by (cases q) simp
  moreover have "encode_facet sh raw_codec bs = Inr (from_bytes sh bs)" by (simp add: encode_facet_def raw_codec_def)
  ultimately have "input_wf sh raw_codec (db_input (write_finish q x rv d1))"
    unfolding s' using input_wf_tinsert [OF wf(1), of bs] by metis
  then have "ingredient_wf sh (dk_kind q) (InputI (db_input (write_finish q x rv d1)))"
    using wf(2) by (simp add: ingredient_wf_def ingredient_kind_def s')
  from db_shape_tinsert [OF w this] rt show ?thesis
    by (simp add: written_def wb db_shape_def Let_def)
qed

lemma db_shape_run:
  assumes w: "db_shape sh w"
  shows "db_shape sh (db_run sh n sys op w)"
proof -
  have both: "db_shape sh (db_set sh sys kind key v w) \<and> db_shape sh (db_remove sh kind key w)" for kind key v
  proof (cases "\<exists>s. ingredient (w_ingredients w) kind = Some (InputI s)")
      case True
      then obtain s where s: "ingredient (w_ingredients w) kind = Some (InputI s)" by blast
      then have i: "ingredient_wf sh kind (InputI s)" using w by (auto simp: db_shape_def ingredient_def)
      then have k: "inp_kind s = kind" by (simp add: ingredient_wf_def ingredient_kind_def)
      have "db_shape sh (written \<lparr>dk_kind = kind, dk_key = from_bytes sh key\<rparr> x s w)" for x
        by (rule db_shape_written [OF w]) (use s in \<open>simp_all add: ingredient_def\<close>)
      then show ?thesis
        using db_set_cases [OF s k, of sh sys key v] db_remove_cases [OF s k, of sh key] db_shape_tinsert [OF w i] by metis
    next
      case False
      then show ?thesis using w
        by (auto simp: db_set_def db_remove_def on_input_def split: option.split ingredient.split)
  qed
  show ?thesis
    by (cases op) (simp_all add: both shaped.get_keeps [OF w] shaped.touch_keeps [OF w])
qed

lemma db_shape_runs: "db_shape sh w \<Longrightarrow> db_shape sh (fold (db_run sh n sys) ops w)"
  by (induction ops arbitrary: w) (simp_all add: db_shape_run)

subsection \<open>The snapshot's views\<close>

lemma snapshot_kind [simp]: "ingredient_kind (snapshot_ingredient sh i) = ingredient_kind i"
  by (cases i) (simp_all add: snapshot_ingredient_def snapshot_input_def snapshot_derived_def ingredient_kind_def input_new_from_snapshot_def input_new_def
      load_cells_def derived_new_def)

lemma fold_register:
  "(\<And>k i. (k, i) \<in> set es \<Longrightarrow> ingredient_kind i = k) \<Longrightarrow>
   fold (register \<circ> snapshot_ingredient sh) (map snd es) m
     = fold (\<lambda>(k, i). tinsert k i) (map (\<lambda>(k, i). (k, snapshot_ingredient sh i)) es) m"
proof (induction es arbitrary: m)
  case (Cons e es)
  obtain k i where e: "e = (k, i)" by (cases e)
  have k: "ingredient_kind i = k" using Cons.prems e by auto
  have "fold (register \<circ> snapshot_ingredient sh) (map snd es) (tinsert k (snapshot_ingredient sh i) m)
     = fold (\<lambda>(k, i). tinsert k i) (map (\<lambda>(k, i). (k, snapshot_ingredient sh i)) es) (tinsert k (snapshot_ingredient sh i) m)"
    by (rule Cons.IH) (use Cons.prems in auto)
  then show ?case using k by (simp add: register_def [of "snapshot_ingredient sh i"] e comp_def)
qed simp

lemma snapshot_ingredient_at:
  assumes "db_shape sh w"
  shows "ingredient (w_ingredients (from_database sh w)) k = map_option (snapshot_ingredient sh) (ingredient (w_ingredients w) k)"
proof -
  let ?es = "w_ingredients w"
  have d: "distinct (map fst ?es)" using assms by (simp add: db_shape_def twf_def)
  then have kinds: "(k, i) \<in> set ?es \<Longrightarrow> ingredient_kind i = k" for k i
    using assms by (auto simp: db_shape_def ingredient_wf_def)
  have "map_of (map (\<lambda>(k, i). (k, snapshot_ingredient sh i)) ?es) k = map_option (snapshot_ingredient sh) (map_of ?es k)"
    by (induction ?es) (auto simp: map_of_map)
  moreover have "distinct (map fst (map (\<lambda>(k, i). (k, snapshot_ingredient sh i)) ?es))"
    using d by (simp add: comp_def case_prod_beta)
  ultimately show ?thesis
    unfolding from_database_def Let_def ingredient_def
    by (simp add: fold_register [OF kinds] tab.look_fold_ins split: option.split)
qed

lemma snapshot_entries:
  assumes wf: "input_wf sh raw_codec s" and q: "dk_kind q = inp_kind s"
  shows "tget (inp_entries (input_new_from_snapshot sh raw_codec (inp_kind s) name (input_snapshot raw_codec s))) q
    = tget (inp_entries s) q"
proof (cases "\<exists>k. encode_facet sh raw_codec k = Inr (dk_key q)")
  case True
  then obtain k where "encode_facet sh raw_codec k = Inr (dk_key q)" by blast
  from snapshot_lookup [OF lawful_raw_codec wf this, of name] q show ?thesis by (cases q) simp
next
  case False
  have keep: "tget (fold (\<lambda>(k, e) acc. case encode_facet sh raw_codec k of
             Inl _ \<Rightarrow> acc
           | Inr encoded \<Rightarrow> tinsert \<lparr>dk_kind = inp_kind s, dk_key = encoded\<rparr>
                \<lparr>ie_value = ie_value e, ie_changed_at = ie_changed_at e\<rparr> acc) es acc) q = tget acc q"
    for es :: "(bytes \<times> 'a InputEntry) list" and acc
  proof (induction es arbitrary: acc)
    case (Cons x es)
    then show ?case using False by (cases x; cases q) (auto split: sum.split)
  qed simp
  have "tget (inp_entries s) q = None"
    using input_wfD(2) [OF wf] False by (cases "tget (inp_entries s) q") auto
  then show ?thesis by (simp add: input_new_from_snapshot_def keep)
qed

lemma snapshot_input_at:
  assumes w: "db_shape sh w" and s: "input_at w k = Some s"
  shows "\<exists>s'. input_at (from_database sh w) k = Some s' \<and> inp_kind s' = inp_kind s
     \<and> (\<forall>q. dk_kind q = k \<longrightarrow> held s' q = held s q \<and> stamp s' q = stamp s q)"
proof -
  have i: "ingredient (w_ingredients w) k = Some (InputI s)"
    using s by (auto simp: input_at_def split: option.splits ingredient.splits)
  then have "ingredient_wf sh k (InputI s)" using w by (simp add: db_shape_def ingredient_def)
  then have wf: "input_wf sh raw_codec s" "inp_kind s = k" by (simp_all add: ingredient_wf_def ingredient_kind_def)
  let ?s = "input_new_from_snapshot sh raw_codec (inp_kind s) (inp_kind_name s) (input_snapshot raw_codec s)"
  have "input_at (from_database sh w) k = Some ?s"
    using snapshot_ingredient_at [OF w, of k] i by (simp add: input_at_def snapshot_ingredient_def snapshot_input_def snapshot_derived_def)
  moreover have "inp_kind ?s = inp_kind s" by (simp add: input_new_from_snapshot_def input_new_def)
  ultimately show ?thesis using snapshot_entries [OF wf(1)] wf(2) by (auto simp: held_def stamp_def)
qed

lemma snapshot_input_at_None:
  assumes "db_shape sh w" "input_at w k = None"
  shows "input_at (from_database sh w) k = None"
  using snapshot_ingredient_at [OF assms(1), of k] assms(2)
  by (auto simp: input_at_def snapshot_ingredient_def snapshot_input_def snapshot_derived_def split: option.splits ingredient.splits)

lemma snapshot_input_value:
  assumes "db_shape sh w"
  shows "input_value (from_database sh w) = input_value w"
proof
  fix q
  show "input_value (from_database sh w) q = input_value w q"
  proof (cases "input_at w (dk_kind q)")
    case None
    then show ?thesis using snapshot_input_at_None [OF assms None] by (simp add: input_value_def)
  next
    case (Some s)
    from snapshot_input_at [OF assms this] Some show ?thesis by (auto simp: input_value_def)
  qed
qed

lemma snapshot_derived_reg:
  assumes "db_shape sh w" "derived_reg w k"
  shows "derived_reg (from_database sh w) k"
  using snapshot_ingredient_at [OF assms(1), of k] assms(2)
  by (auto simp: derived_reg_def snapshot_ingredient_def snapshot_input_def snapshot_derived_def load_cells_def derived_new_def)

lemma snapshot_get_cell:
  assumes w: "db_shape sh w"
  shows "get_cell q (from_database sh w) = map_option new_ready (Option.bind (get_cell q w) ready_record)"
proof (cases "ingredient (w_ingredients w) (dk_kind q)")
  case None
  then show ?thesis using snapshot_ingredient_at [OF w, of "dk_kind q"] by (simp add: get_cell_def)
next
  case (Some i)
  then have wf: "ingredient_wf sh (dk_kind q) i" using w by (simp add: db_shape_def ingredient_def)
  show ?thesis
  proof (cases i)
    case (InputI s)
    then show ?thesis using Some snapshot_ingredient_at [OF w, of "dk_kind q"]
      by (simp add: get_cell_def snapshot_ingredient_def snapshot_input_def snapshot_derived_def)
  next
    case (DerivedI d)
    then have "twf (de_cells d)" using wf by (simp add: ingredient_wf_def)
    from snapshot_cells_deep_lookup [OF this] show ?thesis
      using Some DerivedI snapshot_ingredient_at [OF w, of "dk_kind q"]
      by (simp add: get_cell_def snapshot_ingredient_def snapshot_input_def snapshot_derived_def load_cells_def ready_at_def)
  qed
qed

lemma snapshot_runtime:
  assumes "db_shape sh w"
  shows "rt_revision (w_rt (from_database sh w)) = rt_revision (w_rt w)"
    and "cache_scope_id (w_rt (from_database sh w)) = cache_scope_id (w_rt w)"
    and "slot (w_rt (from_database sh w)) q = slot (w_rt w) q"
  using assms
  by (simp_all add: from_database_def Let_def set_current_revision_def send_event_def new_for_snapshot_def
      current_revision_def cache_scope_id_def db_shape_def slot_def)

lemma snapshot_fields [simp]:
  "w_cache (from_database sh w) = w_cache w" "w_inflight (from_database sh w) = w_inflight w"
  "w_task (from_database sh w) = w_task w"
  by (simp_all add: from_database_def)

lemma snapshot_idle:
  assumes w: "db_shape sh w" and ok: "idle S hist now w"
  shows "idle S hist now (from_database sh w)"
proof -
  obtain obs where env: "env_ok S hist now w" and mem: "memos_ok S hist now obs {} {} w"
    and bnd: "\<And>q. obs q \<subseteq> {..now}"
    using ok unfolding idle_def world_ok_def by blast
  note I = memos_okD [OF mem]
  let ?w = "from_database sh w"
  note C = snapshot_get_cell [OF w]
  note R = snapshot_runtime [OF w]
  have ready: "get_cell q ?w = Some st \<longleftrightarrow> (\<exists>r. st = new_ready r \<and> get_cell q w = Some (new_ready r))" for q st
    unfolding C by (auto simp: bind_eq_Some_conv ready_record_Some)
  have nr: "Running s \<noteq> new_ready r" "Poisoned e va \<noteq> new_ready r" for s e va and r :: "'a ReadyRecord"
    by (simp_all add: new_ready_def)
  have "memos_ok S hist now obs {} {} ?w"
    unfolding memos_ok_def R snapshot_fields ready
  proof (intro conjI allI impI, goal_cases)
    case (1 q r)
    then show ?case using I(1) by (auto simp: new_ready_def)
  next
    case (4 q rec)
    then show ?case using I(4) by blast
  next
    case (5 q rec)
    then show ?case using I(5) [of q rec] by blast
  next
    case (6 k e)
    then show ?case using I(6) by blast
  next
    case (7 k e)
    then show ?case using I(6) by blast
  qed (use nr in blast)+
  moreover have "env_ok S hist now ?w"
    unfolding env_ok_def R
  proof (intro conjI allI impI, goal_cases)
    case 1
    show ?case using env by (simp add: env_ok_def)
  next
    case (2 k)
    then show ?case using env snapshot_derived_reg [OF w] by (simp add: env_ok_def)
  next
    case (3 k)
    then obtain s where "input_at w k = Some s" "inp_kind s = k" using env unfolding env_ok_def by blast
    then show ?case using snapshot_input_at [OF w] by metis
  next
    case (4 q s)
    then obtain s0 where s0: "input_at w (dk_kind q) = Some s0" using env unfolding env_ok_def by blast
    then have "stamp s q = stamp s0 q" using snapshot_input_at [OF w s0] 4 by auto
    then show ?case using env 4 s0 by (simp add: env_ok_def)
  next
    case (5 q s t)
    then obtain s0 where s0: "input_at w (dk_kind q) = Some s0" using env unfolding env_ok_def by blast
    then have "stamp s q = stamp s0 q" "held s q = held s0 q" using snapshot_input_at [OF w s0] 5 by auto
    then show ?case using env 5 s0 by (simp add: env_ok_def)
  qed
  ultimately show ?thesis
    using ok bnd snapshot_input_value [OF w] unfolding idle_def world_ok_def by auto
qed

lemma idle_gets:
  assumes S: "well_set S"
  shows "idle S hist now w \<Longrightarrow> \<forall>q \<in> set qs. st_isder S (dk_kind q) \<and> st_rank S q < n \<Longrightarrow>
    idle S hist now (fold (\<lambda>q w. snd (db_get n (st_sys S) q w)) qs w)
    \<and> input_value (fold (\<lambda>q w. snd (db_get n (st_sys S) q w)) qs w) = input_value w"
proof (induction qs arbitrary: w)
  case (Cons q qs)
  then obtain v w1 where "db_get n (st_sys S) q w = (Finished (Inr v), w1)" "idle S hist now w1" "input_value w1 = input_value w"
    using idle_get [OF S Cons.prems(1), of q n] by auto
  then show ?case using Cons.IH [of w1] Cons.prems by simp
qed simp

subsection \<open>A snapshot of a database that stands still\<close>

text \<open>
  C2. Queries as in the theorem on from-scratch consistency: acyclic calls, equality functions that identify no different values, and no query
  that fails on any inputs. A snapshot of a database, taken after any run of fewer than \<open>2 ^ 64\<close> operations from a fresh
  database, answers every read with the from-scratch
  result over the inputs the database held then, whatever the snapshot has read before, as long
  as the database does not move on.
\<close>
theorem snapshot_from_scratch:
  assumes "well_set S" and "fresh_world S w0" and "db_shape sh w0" and "length ops < 2 ^ 64"
    and "\<forall>op \<in> set ops. op_ok S n op" and "\<forall>p \<in> set qs. st_isder S (dk_kind p) \<and> st_rank S p < n"
    and "st_isder S (dk_kind q)" and "st_rank S q < n"
  shows "let w = fold (db_run sh n (st_sys S)) ops w0;
             s = fold (\<lambda>p s. snd (db_get n (st_sys S) p s)) qs (from_database sh w)
         in \<exists>v s'. db_get n (st_sys S) q s = (Finished (Inr v), s')
              \<and> (\<forall>r. evq (st_sys S) (input_value w) q r \<longleftrightarrow> r = Inr v)"
proof -
  let ?w = "fold (db_run sh n (st_sys S)) ops w0"
  have "top_ok S (0 + length ops) ?w"
    by (rule top_ok_runs [OF assms(1) top_ok_fresh [OF assms(2)] _ assms(5)]) (use assms(4) in simp)
  then obtain hist now where i: "idle S hist now ?w" unfolding top_idle by blast
  have sh: "db_shape sh ?w" by (rule db_shape_runs [OF assms(3)])
  note g = idle_gets [OF assms(1) snapshot_idle [OF sh i] assms(6)]
  from idle_get [OF assms(1) conjunct1 [OF g] assms(7,8)] conjunct2 [OF g] snapshot_input_value [OF sh]
  show ?thesis unfolding Let_def using evq_det by metis
qed

lemma db_shape_demo: "db_shape sh demo_world"
  by (auto simp: db_shape_def demo_world_def runtime_new_def new_unique_def register_def ingredient_kind_def
      derived_new_def input_new_def ingredient_wf_def input_wf_def split: if_splits)

theorem snapshot_from_scratch_witness:
  "let q = \<lparr>dk_kind = QueryKindId 4, dk_key = from_bytes (\<lambda>_. 0) [1]\<rparr>;
       w = fold (db_run (\<lambda>_. 0) 2 demo_sys) [OpSet (QueryKindId 1) [1] 5, OpGet q] demo_world;
       s = fold (\<lambda>p s. snd (db_get 2 demo_sys p s)) [q, q] (from_database (\<lambda>_. 0) w)
   in \<exists>v s'. db_get 2 demo_sys q s = (Finished (Inr v), s') \<and> (\<forall>r. evq demo_sys (input_value w) q r \<longleftrightarrow> r = Inr v)"
  using snapshot_from_scratch [OF well_set_demo fresh_demo_world db_shape_demo,
      of "[OpSet (QueryKindId 1) [1] 5, OpGet \<lparr>dk_kind = QueryKindId 4, dk_key = from_bytes (\<lambda>_. 0) [1]\<rparr>]" 2
        "[\<lparr>dk_kind = QueryKindId 4, dk_key = from_bytes (\<lambda>_. 0) [1]\<rparr>, \<lparr>dk_kind = QueryKindId 4, dk_key = from_bytes (\<lambda>_. 0) [1]\<rparr>]"
        "\<lparr>dk_kind = QueryKindId 4, dk_key = from_bytes (\<lambda>_. 0) [1]\<rparr>" "\<lambda>_. 0"]
  by (simp add: demo_setting_def Let_def)

end
