(* ===== verification/Settled.thy ===== *)
theory Settled
  imports Snapshots
begin

text \<open>
  Reads whose course is settled by what the cells hold, on any database and with any queries: the cell
  of a query that is marked running, the memo of a query whose dependencies are inputs nobody
  writes, and the revalidation of a record whose dependencies were all read at the current revision.
  The first two are kept by everything else a task does.
\<close>

subsection \<open>Operations on other keys\<close>

text \<open>What a dependency on an input shows: the value and the revision of its last change.\<close>

definition dep_input :: "'v world \<Rightarrow> Dep \<Rightarrow> ('v option \<times> Revision) option" where
  "dep_input w d =
     (case input_at w (dep_kind d) of
        Some s \<Rightarrow> if inp_kind s = dep_kind d then Some (held s (dep_dyn d), stamp s (dep_dyn d)) else None
      | None \<Rightarrow> None)"

fun writes :: "hasher \<Rightarrow> DynKey \<Rightarrow> 'v db_op \<Rightarrow> bool" where
  "writes sh i (OpSet kind key v) \<longleftrightarrow> i = \<lparr>dk_kind = kind, dk_key = from_bytes sh key\<rparr>"
| "writes sh i (OpRemove kind key) \<longleftrightarrow> i = \<lparr>dk_kind = kind, dk_key = from_bytes sh key\<rparr>"
| "writes sh i _ \<longleftrightarrow> False"

lemma get_cell_other: "p \<noteq> q \<Longrightarrow> get_cell q (set_cell p st w) = get_cell q w"
  by (auto simp: get_cell_def set_cell_def ingredient_def split: option.splits ingredient.splits)

lemma get_cell_on_input [simp]: "get_cell q (snd (on_input kind f w)) = get_cell q w"
  by (auto simp: on_input_def get_cell_def ingredient_def case_prod_beta split: option.splits ingredient.splits)

lemma derived_reg_on_input [simp]: "derived_reg (snd (on_input kind f w)) k \<longleftrightarrow> derived_reg w k"
  by (auto simp: on_input_def derived_reg_def ingredient_def case_prod_beta split: option.splits ingredient.splits)

lemma on_input_fields [simp]:
  "w_task (snd (on_input kind f w)) = w_task w" "w_cache (snd (on_input kind f w)) = w_cache w"
  "w_inflight (snd (on_input kind f w)) = w_inflight w"
  by (simp_all add: on_input_def case_prod_beta split: option.split ingredient.split)

lemma dep_input_cong: "(\<And>k. input_at w' k = input_at w k) \<Longrightarrow> dep_input w' d = dep_input w d"
  by (simp add: dep_input_def)

lemma dep_input_other_write:
  assumes "\<not> writes sh (dep_dyn d) op" and "dep_input w d \<noteq> None" and "op = OpSet kind key v \<or> op = OpRemove kind key"
  shows "dep_input (db_run sh n sys op w) d = dep_input w d"
proof -
  obtain s where s: "input_at w (dep_kind d) = Some s" "inp_kind s = dep_kind d"
    using assms(2) by (auto simp: dep_input_def split: option.splits if_splits)
  let ?i = "\<lparr>dk_kind = kind, dk_key = from_bytes sh key\<rparr>"
  have other: "dep_dyn d \<noteq> ?i" using assms(1,3) by auto
  have same: "dep_input (snd (on_input kind f w)) d = dep_input w d"
    if f: "\<And>d1. inp_kind (db_input d1) = kind \<Longrightarrow> inp_kind (db_input (snd (f d1))) = kind
        \<and> tget (inp_entries (db_input (snd (f d1)))) (dep_dyn d) = tget (inp_entries (db_input d1)) (dep_dyn d)" for f
  proof (cases "dep_kind d = kind")
    case True
    then have "ingredient (w_ingredients w) kind = Some (InputI s)"
      using s by (auto simp: input_at_def split: option.splits ingredient.splits)
    then show ?thesis
      using s f [of "\<lparr>db_input = s, db_runtime = w_rt w, db_counter = w_counter w\<rparr>"] True
      by (simp add: on_input_def case_prod_beta dep_input_def input_at_def ingredient_def held_def stamp_def)
  next
    case False
    then have "input_at (snd (on_input kind f w)) (dep_kind d) = input_at w (dep_kind d)"
      by (auto simp: on_input_def input_at_def ingredient_def case_prod_beta split: option.split ingredient.split)
    then show ?thesis by (simp add: dep_input_def)
  qed
  have "write_begin d1 = (rv, d2) \<Longrightarrow> db_input d2 = db_input d1" for d1 d2 :: "'a input_db" and rv
    by (auto simp: write_begin_def Let_def split: prod.splits)
  then show ?thesis
    using assms(3) other
    by (elim disjE; simp add: db_set_def db_remove_def)
      (rule same; auto simp: input_set_def input_remove_def write_finish_def Let_def encode_facet_def raw_codec_def
        split: option.split prod.split)+
qed

lemma db_get_task: "active_stack (w_task w) = None \<Longrightarrow> active_stack (w_task (snd (db_get n sys q w))) = None"
  by (cases "access n sys q True (on_task (\<lambda>t. t\<lparr>active_stack := Some []\<rparr>) w)";
      cases "fst (access n sys q True (on_task (\<lambda>t. t\<lparr>active_stack := Some []\<rparr>) w))")
    (auto simp: db_get_def get_erased_def scoped_def then_run_def)

lemma db_touch_task: "active_stack (w_task w) = None \<Longrightarrow> active_stack (w_task (snd (db_touch n sys q w))) = None"
  by (cases "access n sys q False (on_task (\<lambda>t. t\<lparr>active_stack := Some []\<rparr>) w)";
      cases "fst (access n sys q False (on_task (\<lambda>t. t\<lparr>active_stack := Some []\<rparr>) w))")
    (auto simp: db_touch_def touch_erased_def scoped_def then_run_def)

text \<open>Between operations no query is on the stack of the task.\<close>

lemma db_run_task: "active_stack (w_task w) = None \<Longrightarrow> active_stack (w_task (db_run sh n sys op w)) = None"
  by (cases op) (simp_all add: db_set_def db_remove_def db_get_task db_touch_task)

lemma db_runs_task: "active_stack (w_task w) = None \<Longrightarrow> active_stack (w_task (fold (db_run sh n sys) ops w)) = None"
  by (induction ops arbitrary: w) (simp_all add: db_run_task)

subsection \<open>A cell that is marked running\<close>

text \<open>On one task nobody but the access that marked the cell can reset it.\<close>

definition marked_running :: "DynKey \<Rightarrow> 'v world \<Rightarrow> bool" where
  "marked_running q w \<longleftrightarrow> (\<exists>s. get_cell q w = Some (Running s))"

lemma running_round: "marked_running q w \<Longrightarrow> access_round sys acc again q want w = (Blocked, w)"
  by (auto simp: marked_running_def access_round_def cell_state_def observe_def Let_def)

interpretation stuck: world_invariant "marked_running q" "\<lambda>p. p = q" for q
proof unfold_locales
  fix w :: "'a world" and p st
  assume "marked_running q w" "\<not> p = q"
  then show "marked_running q (set_cell p st w)" by (simp add: marked_running_def get_cell_other)
next
  fix w :: "'a world" and p sys acc again want
  assume "marked_running q w" "p = q"
  then show "marked_running q (snd (access_round sys acc again p want w))" by (simp add: running_round)
qed (auto simp: marked_running_def)

lemma marked_running_run: "marked_running q w \<Longrightarrow> marked_running q (db_run sh n sys op w)"
  by (cases op) (simp_all add: stuck.get_keeps stuck.touch_keeps db_set_def db_remove_def, simp_all add: marked_running_def)

lemma marked_running_runs: "marked_running q w \<Longrightarrow> marked_running q (fold (db_run sh n sys) ops w)"
  by (induction ops arbitrary: w) (simp_all add: marked_running_run)

text \<open>A read from outside any query.\<close>

abbreviation entered :: "'v world \<Rightarrow> 'v world" where
  "entered w \<equiv> on_task (\<lambda>t. t\<lparr>active_stack := Some []\<rparr>) w"

lemma top_access_enters:
  assumes "get_cell q w \<noteq> None"
  shows "access (Suc n) sys q want (entered w) = access_round sys (access n sys) (access_loop n sys q want) q want (entered w)"
  using assms
  by (auto simp: access_def access_enter_def find_cycle_def record_access_def has_active_frame_def ensure_cell_def)

lemma read_from_outside:
  assumes "active_stack (w_task w) = None" and "access n sys q True (entered w) = (Finished r, w1)"
  shows "db_get n sys q w =
    (Finished (case r of Inl e \<Rightarrow> Inl e
       | Inr a \<Rightarrow> (case ar_value a of Some v \<Rightarrow> Inr v | None \<Rightarrow> Inl (Panic get_bug_message))),
     on_task (\<lambda>t. t\<lparr>active_stack := None\<rparr>) w1)"
  using assms by (simp add: db_get_def get_erased_def scoped_def)

lemma running_blocks:
  assumes "active_stack (w_task w) = None" and "marked_running q w"
  shows "fst (db_get (Suc n) sys q w) = Blocked"
proof -
  have "marked_running q (entered w)" using assms(2) by (simp add: marked_running_def)
  moreover have "get_cell q w \<noteq> None" using assms(2) by (auto simp: marked_running_def)
  ultimately have "access (Suc n) sys q True (entered w) = (Blocked, entered w)"
    by (simp add: top_access_enters running_round)
  with assms(1) show ?thesis by (simp add: db_get_def get_erased_def scoped_def)
qed

subsection \<open>A memo whose dependencies are inputs that nobody writes\<close>

text \<open>
  The memo of \<open>q\<close> holds \<open>v\<close>, changed at \<open>ca\<close>, and was computed from the inputs \<open>ds\<close>; these
  show what \<open>obs\<close> says, unchanged since \<open>ca\<close>.
\<close>

definition memo_kept :: "DynKey \<Rightarrow> 'v \<Rightarrow> Revision \<Rightarrow> Dep list \<Rightarrow> (Dep \<Rightarrow> 'v option \<times> Revision) \<Rightarrow> 'v world \<Rightarrow> bool" where
  "memo_kept q v ca ds obs w \<longleftrightarrow>
     (\<exists>va. get_cell q w = Some (Ready v va ca ds))
     \<and> (\<forall>d \<in> set ds. dep_input w d = Some (obs d) \<and> snd (obs d) \<le> ca)"

lemma memo_kept_cong:
  "memo_kept q v ca ds obs w \<Longrightarrow> get_cell q w' = get_cell q w \<Longrightarrow> (\<And>k. input_at w' k = input_at w k) \<Longrightarrow>
   memo_kept q v ca ds obs w'"
  by (simp add: memo_kept_def dep_input_def)

lemma revalidate_inputs:
  assumes "\<And>d. d \<in> set ds \<Longrightarrow> dep_input w d = Some (obs d) \<and> snd (obs d) \<le> ca"
  shows "revalidate_deps acc ds ca w = (Finished (Inr True), w)"
  using assms
proof (induction ds)
  case (Cons d ds)
  obtain s where s: "input_at w (dep_kind d) = Some s" "inp_kind s = dep_kind d" "stamp s (dep_dyn d) \<le> ca"
    using Cons.prems [of d] by (auto simp: dep_input_def split: option.splits if_splits) (metis snd_conv)
  then have "ingredient (w_ingredients w) (dep_kind d) = Some (InputI s)"
    by (auto simp: input_at_def split: option.splits ingredient.splits)
  with s Cons show ?case by (simp add: touch_def input_touch_stamp dep_dyn_def not_less)
qed simp

lemma kept_round:
  assumes "memo_kept q v ca ds obs w"
  shows "\<exists>w1. access_round sys acc again q want w =
      (Finished (Inr \<lparr>ar_value = (if want then Some v else None), ar_changed_at = ca\<rparr>), w1)
    \<and> memo_kept q v ca ds obs w1"
proof -
  obtain va where c: "get_cell q w = Some (Ready v va ca ds)"
    and d: "\<And>d. d \<in> set ds \<Longrightarrow> dep_input w d = Some (obs d) \<and> snd (obs d) \<le> ca"
    using assms unfolding memo_kept_def by blast
  show ?thesis
  proof (cases "va = world_rev w")
    case True
    then show ?thesis using c assms
      by (simp add: access_round_def cell_state_def observe_def Let_def return_if_current_def)
  next
    case False
    obtain h t where fn: "frame_new q (world_rev w) (w_task w) = (h, t)" by fastforce
    let ?w1 = "on_task pop_frame (on_task (\<lambda>_. push_frame h t) w)"
    have same: "dep_input (on_task f w) d = dep_input w d" for f d by (rule dep_input_cong) simp
    have v: "try_revalidate acc q (world_rev w) ds ca w = (Finished (Inr True), ?w1)"
      using revalidate_inputs [of ds "on_task (\<lambda>_. push_frame h t) w" obs ca acc] d same
      by (simp add: try_revalidate_def fn)
    let ?w2 = "set_cell q (Ready v (world_rev w) ca ds) ?w1"
    have derived_cells: "\<exists>i. ingredient (w_ingredients w) (dk_kind q) = Some (DerivedI i)"
      using c by (auto simp: get_cell_def split: option.splits ingredient.splits)
    have "get_cell q ?w2 = Some (Ready v (world_rev w) ca ds)"
      using derived_cells by (auto simp: get_cell_def set_cell_def ingredient_def on_task_def)
    then have "memo_kept q v ca ds obs ?w2" using d by (auto simp: memo_kept_def dep_input_def)
    moreover have "access_round sys acc again q want w =
        (Finished (Inr \<lparr>ar_value = (if want then Some v else None), ar_changed_at = ca\<rparr>), ?w2)"
      using c False v
      by (simp add: access_round_def cell_state_def observe_def Let_def return_if_current_def revalidated_def)
        (simp add: world_rev_def)
    ultimately show ?thesis by blast
  qed
qed

lemma kept_inv_cell:
  assumes "memo_kept q v ca ds obs w" and "p \<noteq> q"
  shows "memo_kept q v ca ds obs (set_cell p st w)"
  by (rule memo_kept_cong [OF assms(1)]) (simp_all add: get_cell_other [OF assms(2)])

lemma kept_inv_round:
  assumes "memo_kept q v ca ds obs w"
  shows "memo_kept q v ca ds obs (snd (access_round sys acc again q want w))"
proof -
  obtain w1 where "snd (access_round sys acc again q want w) = w1" "memo_kept q v ca ds obs w1"
    using kept_round [OF assms, of sys acc again want] by fastforce
  then show ?thesis by simp
qed

lemma kept_inv_frames:
  assumes "memo_kept q v ca ds obs w"
  shows "memo_kept q v ca ds obs (on_rt f w)" "memo_kept q v ca ds obs (w\<lparr>w_cache := c\<rparr>)"
    "memo_kept q v ca ds obs (w\<lparr>w_inflight := r\<rparr>)" "memo_kept q v ca ds obs (w\<lparr>w_task := t\<rparr>)"
    "get_cell q w \<noteq> None"
proof -
  show "get_cell q w \<noteq> None" using assms by (auto simp: memo_kept_def)
qed (rule memo_kept_cong [OF assms]; simp)+

interpretation kept: world_invariant "memo_kept q v ca ds obs" "\<lambda>p. p = q" for q v ca ds obs
proof (unfold_locales, goal_cases)
  case (1 w p st)
  then show ?case by (rule kept_inv_cell)
next
  case (2 w p)
  then show ?case using kept_inv_frames(5) [of q v ca ds obs w] by simp
next
  case (3 w p acc again sys want)
  then show ?case using kept_inv_round [of q v ca ds obs w] by simp
qed (rule kept_inv_frames, assumption)+

lemma memo_kept_write:
  assumes k: "memo_kept q v ca ds obs w" and d: "\<forall>d \<in> set ds. \<not> writes sh (dep_dyn d) op"
    and op: "op = OpSet kind key x \<or> op = OpRemove kind key"
  shows "memo_kept q v ca ds obs (db_run sh n sys op w)"
proof -
  have "dep_input (db_run sh n sys op w) d = dep_input w d" if "d \<in> set ds" for d
    by (rule dep_input_other_write [OF _ _ op]) (use k d that in \<open>auto simp: memo_kept_def\<close>)
  moreover have "get_cell q (db_run sh n sys op w) = get_cell q w"
    using op by (auto simp: db_set_def db_remove_def)
  ultimately show ?thesis using k by (simp add: memo_kept_def)
qed

lemma memo_kept_run:
  assumes "memo_kept q v ca ds obs w" and "\<forall>d \<in> set ds. \<not> writes sh (dep_dyn d) op"
  shows "memo_kept q v ca ds obs (db_run sh n sys op w)"
proof (cases op)
  case (OpGet p)
  show ?thesis unfolding OpGet db_run.simps by (rule kept.get_keeps [OF assms(1)])
next
  case (OpTouch p)
  show ?thesis unfolding OpTouch db_run.simps by (rule kept.touch_keeps [OF assms(1)])
qed (use memo_kept_write [OF assms] in blast)+

lemma memo_kept_runs:
  assumes "memo_kept q v ca ds obs w" and "\<forall>op \<in> set ops. \<forall>d \<in> set ds. \<not> writes sh (dep_dyn d) op"
  shows "memo_kept q v ca ds obs (fold (db_run sh n sys) ops w)"
  using assms by (induction ops arbitrary: w) (simp_all add: memo_kept_run)

lemma kept_is_served:
  assumes "memo_kept q v ca ds obs w" and "active_stack (w_task w) = None"
  shows "fst (db_get (Suc n) sys q w) = Finished (Inr v)"
proof -
  have k: "memo_kept q v ca ds obs (entered w)" by (rule memo_kept_cong [OF assms(1)]) simp_all
  then have "get_cell q w \<noteq> None" by (auto simp: memo_kept_def)
  with kept_round [OF k, of sys "access n sys" "access_loop n sys q True" True]
  obtain w1 where "access (Suc n) sys q True (entered w) = (Finished (Inr \<lparr>ar_value = Some v, ar_changed_at = ca\<rparr>), w1)"
    by (auto simp: top_access_enters)
  from read_from_outside [OF assms(2) this] show ?thesis by simp
qed

subsection \<open>Revalidation over dependencies read at the current revision\<close>

text \<open>A dependency whose touch answers at once, with a revision that is not after \<open>ca\<close>.\<close>

definition dep_settled :: "'v world \<Rightarrow> Revision \<Rightarrow> Dep \<Rightarrow> bool" where
  "dep_settled w ca d \<longleftrightarrow>
     (case ingredient (w_ingredients w) (dep_kind d) of
        Some (InputI s) \<Rightarrow> inp_kind s = dep_kind d \<and> stamp s (dep_dyn d) \<le> ca
      | Some (DerivedI i) \<Rightarrow> de_kind i = dep_kind d
          \<and> (\<exists>v c ds. get_cell (dep_dyn d) w = Some (Ready v (world_rev w) c ds) \<and> c \<le> ca)
      | None \<Rightarrow> False)"

text \<open>A dependency on a query that has failed at the current revision.\<close>

definition dep_failed :: "'v world \<Rightarrow> PicanteError \<Rightarrow> Dep \<Rightarrow> bool" where
  "dep_failed w e d \<longleftrightarrow> derived_reg w (dep_kind d) \<and> get_cell (dep_dyn d) w = Some (Poisoned e (world_rev w))"

lemma dep_settled_cong:
  assumes "world_rev w' = world_rev w" and "w_ingredients w' = w_ingredients w"
  shows "dep_settled w' ca d = dep_settled w ca d" "dep_failed w' e d = dep_failed w e d"
proof -
  have "get_cell p w' = get_cell p w" for p using assms(2) by (simp add: get_cell_def)
  then show "dep_settled w' ca d = dep_settled w ca d" "dep_failed w' e d = dep_failed w e d"
    using assms by (simp_all add: dep_settled_def dep_failed_def derived_reg_def split: option.split ingredient.split)
qed

lemma dep_settled_set_cell:
  assumes "\<And>st. get_cell q w = Some st \<Longrightarrow> observe True (world_rev w) st = ObsStaleOther"
  shows "dep_settled w ca d \<Longrightarrow> dep_settled (set_cell q st w) ca d"
    and "dep_failed w e d \<Longrightarrow> dep_failed (set_cell q st w) e d"
proof -
  have rev: "world_rev (set_cell q st w) = world_rev w" by (simp add: world_rev_def)
  have cell: "get_cell (dep_dyn d) (set_cell q st w) = get_cell (dep_dyn d) w"
    if "get_cell (dep_dyn d) w = Some (Ready v (world_rev w) c ds) \<or> get_cell (dep_dyn d) w = Some (Poisoned e (world_rev w))"
    for v c ds e
    by (rule get_cell_other) (use assms that in \<open>auto simp: observe_def\<close>)
  show "dep_failed w e d \<Longrightarrow> dep_failed (set_cell q st w) e d"
    using cell rev by (simp add: dep_failed_def)
  show "dep_settled (set_cell q st w) ca d" if d: "dep_settled w ca d"
  proof (cases "ingredient (w_ingredients w) (dep_kind d)")
    case (Some i)
    show ?thesis
    proof (cases i)
      case (InputI s)
      then have "ingredient (w_ingredients (set_cell q st w)) (dep_kind d) = Some (InputI s)"
        using Some by (auto simp: set_cell_def ingredient_def split: option.split ingredient.split)
      then show ?thesis using d Some InputI by (simp add: dep_settled_def)
    next
      case (DerivedI c)
      have "\<exists>c'. ingredient (w_ingredients (set_cell q st w)) (dep_kind d) = Some (DerivedI c') \<and> de_kind c' = de_kind c"
        using Some DerivedI by (cases "dep_kind d = dk_kind q")
          (auto simp: set_cell_def ingredient_def split: option.split ingredient.split)
      then show ?thesis using d Some DerivedI cell rev by (auto simp: dep_settled_def)
    qed
  qed (use d in \<open>simp add: dep_settled_def\<close>)
qed

lemma touch_settled:
  assumes "active_stack (w_task w) \<noteq> None" and "p \<notin> set (stack_keys (w_task w))" and "get_cell p w = Some st"
  shows "st = Ready v (world_rev w) c ds \<Longrightarrow> touch_erased (access (Suc n) sys) p w = (Finished (Inr c), w)"
    and "st = Poisoned e (world_rev w) \<Longrightarrow> touch_erased (access (Suc n) sys) p w = (Finished (Inl e), w)"
proof -
  have fc: "find_cycle p (w_task w) = None" using assms(2) by (simp add: find_cycle_None)
  have "record_access p False w = w" "ensure_cell p w = w" using assms(3) by (simp_all add: record_access_def ensure_cell_def)
  then have "touch_erased (access (Suc n) sys) p w =
      then_run (access_round sys (access n sys) (access_loop n sys p False) p False w)
        (\<lambda>res w1. (Finished (case res of Inl e \<Rightarrow> Inl e | Inr r \<Rightarrow> Inr (ar_changed_at r)), w1))"
    using assms(1) fc by (simp add: touch_erased_def scoped_active access_def access_enter_def)
  then show "st = Ready v (world_rev w) c ds \<Longrightarrow> touch_erased (access (Suc n) sys) p w = (Finished (Inr c), w)"
    and "st = Poisoned e (world_rev w) \<Longrightarrow> touch_erased (access (Suc n) sys) p w = (Finished (Inl e), w)"
    using assms(3) by (simp_all add: access_round_def cell_state_def observe_def Let_def return_if_current_def)
qed

text \<open>Nothing but the cells is looked at, and the first failure is the result.\<close>

lemma revalidate_deps_fails:
  assumes act: "active_stack (w_task w) \<noteq> None"
    and free: "\<And>x. x \<in> set (ds1 @ [d]) \<Longrightarrow> derived_reg w (dep_kind x) \<Longrightarrow> dep_dyn x \<notin> set (stack_keys (w_task w))"
    and ds1: "\<forall>d \<in> set ds1. dep_settled w ca d" and d: "dep_failed w e d"
  shows "revalidate_deps (access (Suc n) sys) (ds1 @ d # ds2) ca w = (Finished (Inl e), w)"
  using free ds1
proof (induction ds1)
  case Nil
  obtain i where i: "ingredient (w_ingredients w) (dep_kind d) = Some (DerivedI i)" "de_kind i = dep_kind d"
    using d by (auto simp: dep_failed_def derived_reg_def)
  have "touch_erased (access (Suc n) sys) (dep_dyn d) w = (Finished (Inl e), w)"
    by (rule touch_settled(2) [OF act]) (use Nil d in \<open>auto simp: dep_failed_def\<close>)
  then show ?case using i by (simp add: touch_def dep_dyn_def)
next
  case (Cons x ds)
  have tail: "revalidate_deps (access (Suc n) sys) (ds @ d # ds2) ca w = (Finished (Inl e), w)"
    using Cons by simp
  have x: "dep_settled w ca x" "derived_reg w (dep_kind x) \<Longrightarrow> dep_dyn x \<notin> set (stack_keys (w_task w))"
    using Cons.prems by simp_all
  then obtain i where i: "ingredient (w_ingredients w) (dep_kind x) = Some i"
    by (auto simp: dep_settled_def split: option.splits)
  obtain c where "touch (access (Suc n) sys) i (dep_key x) w = (Finished (Inr c), w)" "c \<le> ca"
  proof (cases i)
    case (InputI s)
    then show ?thesis using that x i by (simp add: touch_def input_touch_stamp dep_settled_def dep_dyn_def)
  next
    case (DerivedI c)
    then obtain v r ds' where r: "de_kind c = dep_kind x" "get_cell (dep_dyn x) w = Some (Ready v (world_rev w) r ds')" "r \<le> ca"
      using x(1) i by (auto simp: dep_settled_def)
    have "derived_reg w (dep_kind x)" using i DerivedI r(1) by (simp add: derived_reg_def)
    from touch_settled(1) [OF act x(2) [OF this] r(2) refl] r(1,3) show ?thesis
      using that DerivedI by (simp add: touch_def dep_dyn_def)
  qed
  with i tail show ?case by (simp add: not_less [symmetric])
qed

lemma try_revalidate_fails:
  assumes stack: "active_stack (w_task w) = Some []"
    and stale: "\<And>v c ds e. get_cell q w \<noteq> Some (Ready v (world_rev w) c ds) \<and> get_cell q w \<noteq> Some (Poisoned e (world_rev w))"
    and ds1: "\<forall>d \<in> set ds1. dep_settled w ca d" and d: "dep_failed w e d"
  shows "\<exists>w1. try_revalidate (access (Suc n) sys) q (world_rev w) (ds1 @ d # ds2) ca w = (Finished (Inl e), w1)
     \<and> get_cell q w1 = get_cell q w \<and> w_rt w1 = w_rt w"
proof -
  obtain h t where fn: "frame_new q (world_rev w) (w_task w) = (h, t)" by fastforce
  let ?w = "on_task (\<lambda>_. push_frame h t) w"
  have wf: "wf_task (w_task w)" using stack by (simp add: wf_task_def)
  note p = pushed_frame [OF fn wf stack]
  have keys: "stack_keys (w_task ?w) = [q]" using p(3) stack by (simp add: stack_keys_def)
  have same: "world_rev ?w = world_rev w" "w_ingredients ?w = w_ingredients w"
    by (simp_all add: world_rev_def) (simp add: on_task_def)
  note s = dep_settled_cong [OF same]
  have free: "dep_dyn x \<notin> set (stack_keys (w_task ?w))" if x: "x \<in> set (ds1 @ [d])" "derived_reg ?w (dep_kind x)" for x
  proof (cases "x = d")
    case True
    then show ?thesis using d stale keys by (auto simp: dep_failed_def)
  next
    case False
    then have "dep_settled w ca x" "x \<in> set ds1" using x ds1 by auto
    then have "dep_dyn x \<noteq> q"
      using stale x(2) [simplified] by (auto simp: dep_settled_def derived_reg_def split: option.splits ingredient.splits)
    then show ?thesis using keys by simp
  qed
  have "active_stack (w_task ?w) \<noteq> None" using p(2) by simp
  from revalidate_deps_fails [OF this free, where ca = ca and e = e and n = n and sys = sys and ?ds2.0 = ds2] ds1 d s
  have "revalidate_deps (access (Suc n) sys) (ds1 @ d # ds2) ca ?w = (Finished (Inl e), ?w)" by simp
  then show ?thesis by (simp add: try_revalidate_def fn)
qed

subsection \<open>What a read from outside any query does\<close>

lemma entered_same:
  "world_rev (entered w) = world_rev w" "w_ingredients (entered w) = w_ingredients w"
  by (simp_all add: world_rev_def) (simp add: on_task_def)

text \<open>A memo of an older revision: the failure of the dependency is the result.\<close>

lemma memo_read_fails:
  assumes idle: "active_stack (w_task w) = None"
    and memo: "get_cell q w = Some (Ready v va ca (ds1 @ d # ds2))" "va \<noteq> world_rev w"
    and deps: "\<forall>d \<in> set ds1. dep_settled w ca d" "dep_failed w e d"
  shows "fst (db_get (Suc (Suc n)) sys q w) = Finished (Inl e)"
proof -
  let ?w = "entered w"
  have cell: "get_cell q ?w = Some (Ready v va ca (ds1 @ d # ds2))" using memo(1) by simp
  have deps': "\<forall>d \<in> set ds1. dep_settled ?w ca d" "dep_failed ?w e d"
    using deps dep_settled_cong [OF entered_same] by blast+
  obtain w1 where "try_revalidate (access (Suc n) sys) q (world_rev ?w) (ds1 @ d # ds2) ca ?w = (Finished (Inl e), w1)"
    using try_revalidate_fails [OF _ _ deps', of q n sys ds2] cell memo(2) entered_same(1) [of w] by auto
  then have "access_round sys (access (Suc n) sys) (access_loop (Suc n) sys q True) q True ?w = (Finished (Inl e), w1)"
    using cell memo(2) entered_same(1) [of w]
    by (simp add: access_round_def cell_state_def observe_def Let_def)
  then have "access (Suc (Suc n)) sys q True ?w = (Finished (Inl e), w1)"
    using top_access_enters [of q w "Suc n" sys True] memo(1) by simp
  from read_from_outside [OF idle this] show ?thesis by simp
qed

text \<open>No value in the cell: an outdated record of the shared cache is revalidated after the cell was marked.\<close>

lemma record_read_fails:
  assumes idle: "active_stack (w_task w) = None" and reg: "derived_reg w (dk_kind q)"
    and none: "observe True (world_rev w) (cell_state q w) = ObsStaleOther"
    and rec: "shared_cache_get (cache_scope_id (w_rt w)) (dk_kind q) (dk_key q) (w_cache w) = Some r"
      "sr_verified_at r \<noteq> world_rev w" "sr_deps r = ds1 @ d # ds2"
    and deps: "\<forall>d \<in> set ds1. dep_settled w (sr_changed_at r) d" "dep_failed w e d"
  shows "fst (db_get (Suc (Suc n)) sys q w) = Finished (Inl e) \<and> marked_running q (snd (db_get (Suc (Suc n)) sys q w))"
proof -
  let ?rv = "world_rev w" let ?ca = "sr_changed_at r"
  define w1 where "w1 = ensure_cell q (entered w)"
  define w2 where "w2 = set_cell q (Running ?rv) w1"
  have deps0: "\<forall>d \<in> set ds1. dep_settled (entered w) ?ca d" "dep_failed (entered w) e d"
    using deps dep_settled_cong [OF entered_same] by blast+
  have cell: "get_cell q w1 = Some (cell_state q w)"
    using get_set_cell [of "entered w" q q Vacant] reg
    by (auto simp: w1_def ensure_cell_def cell_state_def split: option.split)
  have same: "world_rev w1 = ?rv" "w_rt w1 = w_rt w" "w_cache w1 = w_cache w" "w_task w1 = w_task (entered w)"
    "derived_reg w1 (dk_kind q)"
    using reg by (simp_all add: w1_def ensure_cell_def world_rev_def split: option.split)
  have deps1: "\<forall>d \<in> set ds1. dep_settled w1 ?ca d" "dep_failed w1 e d"
    using deps0 dep_settled_set_cell [where q = q and w = "entered w" and st = Vacant]
    unfolding w1_def ensure_cell_def by (cases "get_cell q (entered w)"; fastforce)+
  have none1: "get_cell q w1 = Some st \<Longrightarrow> observe True (world_rev w1) st = ObsStaleOther" for st
    using cell none same(1) by simp
  have deps2: "\<forall>d \<in> set ds1. dep_settled w2 ?ca d" "dep_failed w2 e d"
    using deps1 dep_settled_set_cell [OF none1] unfolding w2_def by blast+
  have run: "get_cell q w2 = Some (Running ?rv)" using get_set_cell [OF same(5)] by (simp add: w2_def)
  have rev2: "world_rev w2 = ?rv" "active_stack (w_task w2) = Some []"
    using same by (simp_all add: w2_def world_rev_def)
  obtain w3 where w3: "try_revalidate (access (Suc n) sys) q ?rv (ds1 @ d # ds2) ?ca w2 = (Finished (Inl e), w3)"
    "get_cell q w3 = get_cell q w2"
    using try_revalidate_fails [OF rev2(2) _ deps2, of q n sys ds2] run rev2(1) by auto
  obtain prev where start: "start_running ?rv (cell_state q w1) = Some prev"
    using none cell same(1) by (auto simp: observe_def start_running_def cell_state_def split: ErasedState.splits if_splits)
  have "compute_phase sys (access (Suc n) sys) (access_loop (Suc n) sys q True) q True ?rv w1 = (Finished (Inl e), w3)"
    using start rec same(2,3) w3(1)
    by (simp add: compute_phase_def w2_def [symmetric] Let_def) (simp add: w2_def same)
  then have "access_round sys (access (Suc n) sys) (access_loop (Suc n) sys q True) q True w1 = (Finished (Inl e), w3)"
    using none cell same(1) by (simp add: access_round_def cell_state_def Let_def)
  then have "access (Suc (Suc n)) sys q True (entered w) = (Finished (Inl e), w3)"
    by (simp add: access_def access_enter_def find_cycle_def record_access_def has_active_frame_def w1_def)
  from read_from_outside [OF idle this] show ?thesis using w3(2) run by (simp add: marked_running_def)
qed

text \<open>The first computation of a query that reads one input.\<close>

lemma first_read:
  assumes idle: "active_stack (w_task w) = None" and reg: "derived_reg w (dk_kind q)"
    and vac: "cell_state q w = Vacant"
    and none: "shared_cache_get (cache_scope_id (w_rt w)) (dk_kind q) (dk_key q) (w_cache w) = None"
    and lead: "\<And>k. if_runtime_id k = cache_scope_id (w_rt w) \<Longrightarrow> tget (reg_map (w_inflight w)) k = None"
    and q: "compute_of sys q = ReadInput i (\<lambda>x. Ret (f x))" and s: "input_at w (dk_kind i) = Some s"
  shows "\<exists>w'. db_get (Suc n) sys q w = (Finished (Inr (f (held s i))), w')
     \<and> get_cell q w' = Some (Ready (f (held s i)) (world_rev w) (world_rev w) [dyn_dep i])
     \<and> (\<forall>k. input_at w' k = input_at w k) \<and> active_stack (w_task w') = None"
proof -
  let ?rv = "world_rev w" and ?v = "f (held s i)" and ?scope = "cache_scope_id (w_rt w)"
  let ?key = "\<lparr>if_runtime_id = ?scope, if_revision = ?rv, if_kind = dk_kind q, if_key = dk_key q\<rparr>"
  define w1 where "w1 = ensure_cell q (entered w)"
  define w2 where "w2 = set_cell q (Running ?rv) w1"
  obtain g reg where lead: "try_lead ?key (w_inflight w) = (Leader g, reg)"
    using lead [of ?key] by (auto simp: try_lead_def Let_def split: option.split)
  define w3 where "w3 = w2\<lparr>w_inflight := reg\<rparr>"
  have V: "w_rt w1 = w_rt w" "w_cache w1 = w_cache w" "w_inflight w1 = w_inflight w" "w_task w1 = w_task (entered w)"
    "derived_reg w1 k = derived_reg w k" "input_at w1 k = input_at w k" for k
    by (simp_all add: w1_def ensure_cell_def split: option.split)
  have W: "w_rt w3 = w_rt w" "w_task w3 = w_task (entered w)" "derived_reg w3 k = derived_reg w k" "input_at w3 k = input_at w k" for k
    by (simp_all add: w3_def w2_def V)
  have cell: "cell_state q w1 = Vacant"
    using vac get_set_cell [of "entered w" q q Vacant] reg
    by (auto simp: w1_def ensure_cell_def cell_state_def split: option.splits)
  obtain h t where fn: "frame_new q ?rv (w_task w3) = (h, t)" by fastforce
  have st: "active_stack (w_task w3) = Some []" "wf_task (w_task w3)" by (simp_all add: W wf_task_def)
  note p = pushed_frame [OF fn st(2,1)]
  let ?w4 = "on_task (\<lambda>_. push_frame h t) w3"
  let ?w5 = "on_task (record_dep (dyn_dep i)) ?w4"
  have "ingredient (w_ingredients ?w4) (dk_kind i) = Some (InputI s)"
    using s W(4) [of "dk_kind i"] by (auto simp: input_at_def on_task_def split: option.splits ingredient.splits)
  then have body: "run_prog acc (compute_of sys q) ?w4 = (Finished (Returned (Inr ?v)), ?w5)" for acc
    using p(2) by (simp add: q read_input_def has_active_frame_def)
  have ext: "task_ext [dyn_dep i] (push_frame h t) (w_task ?w5)"
    using p(1,2) by (auto simp: task_ext_def top_frame_def record_dep_def wf_task_def fr_deps_add_dep add_dep_def)
  obtain t1 where t1: "take_deps h (w_task ?w5) = ([dyn_dep i], t1)"
    using p(4) [OF ext] by (cases "take_deps h (w_task ?w5)") simp
  let ?w6 = "on_task pop_frame (finalize_ok (sys_eq sys (dk_kind q)) q ?rv None g [dyn_dep i] ?v (on_task (\<lambda>_. t1) ?w5))"
  have fin: "world_rev ?w6 = ?rv" "\<And>k. input_at ?w6 k = input_at w k"
    "get_cell q ?w6 = Some (Ready ?v ?rv ?rv [dyn_dep i])"
    using reg by (simp_all add: finalize_ok_def Let_def world_rev_def W current_revision_def finalize_changed_at_def get_set_cell new_ready_def)
  have "access (Suc n) sys q True (entered w) = access_round sys (access n sys) (access_loop n sys q True) q True w1"
    by (simp add: access_def access_enter_def find_cycle_def record_access_def has_active_frame_def w1_def)
  also have "\<dots> = compute_phase sys (access n sys) (access_loop n sys q True) q True ?rv w1"
    using cell by (simp add: access_round_def observe_def Let_def world_rev_def V)
  also have "\<dots> = lead_phase sys (access n sys) (access_loop n sys q True) q True ?rv None g w3"
    using cell none lead
    by (simp add: compute_phase_def start_running_def Let_def inflight_phase_def V w3_def w2_def)
  also have "\<dots> = (Finished (Inr \<lparr>ar_value = Some ?v, ar_changed_at = ?rv\<rparr>), ?w6)"
    using fin(1) by (simp add: lead_phase_def fn body t1 [simplified] Let_def return_if_current_def finalize_changed_at_def)
  finally show ?thesis using read_from_outside [OF idle] fin by simp
qed

end
