(* ===== verification/Findings.thy ===== *)
theory Findings
  imports Settled
begin

text \<open>
  Runs of the model that end where the program does not mean to, compared with evaluating the
  queries from scratch: a torn write, a failing revalidation and a failing adoption on any database,
  and a snapshot that moves on a small one, for any values. The witnesses execute the definitions.
\<close>

subsection \<open>Executing a run\<close>

lemma access_loop_at:
  "access_loop (Suc n) sys q want w = access_round sys (access n sys) (access_loop n sys q want) q want w"
  by (simp add: access_def)

text \<open>Evaluate arguments before continuations.\<close>

lemma then_run_weak: "m = m' \<Longrightarrow> then_run m k = then_run m' k"
  by simp

lemmas run_cong = then_run_weak let_weak_cong prod.case_cong_weak

lemmas run_write = db_set_def db_remove_def on_input_def raw_codec_def input_set_def input_remove_def write_begin_def
  write_finish_def bump_revision_def mark_divergent_def send_event_def notify_input_set_def notify_input_removed_def
  propagate_invalidation_def encode_facet_def decode_facet_def from_bytes_def

lemmas run_tables = ingredient_def tinsert_def sinsert_def get_cell_def set_cell_def cell_state_def new_ready_def
  input_touch_def held_def

lemmas run_task = frame_new_def push_frame_def take_deps_def record_dep_def add_dep_def drop_guard_def find_cycle_def
  has_active_frame_def on_task_def task0_def dyn_dep_def dep_dyn_def

lemmas run_runtime = on_rt_def world_rev_def current_revision_def cache_scope_id_def update_query_deps_def link_dep_def
  unlink_dep_def notify_query_changed_def runtime_new_def new_unique_def

lemmas run_shared = shared_cache_get_def put_record_def shared_cache_put_at put_begin_def put_finish_def
  shared_cache_max_entries_def shared_cache_init_def try_lead_def guard_complete_def guard_fail_def entry_complete_def
  entry_fail_def entry_new_def guard_drop_def entry_cancel_def set_state_def notify_entry_def unregister_def tremove_def registry0_def

lemmas run_access = db_get_def get_erased_def touch_erased_def scoped_def access_def access_enter_def access_loop_at
  record_access_def ensure_cell_def access_round_def observe_def compute_phase_def start_running_def revalidated_def
  inflight_phase_def lead_phase_def compute_of_def read_input_def finalize_ok_def finalize_err_def finalize_changed_at_def
  return_if_current_def try_revalidate_def touch_def adopt_record_def

lemmas run_snapshot = from_database_def snapshot_ingredient_def snapshot_input_def snapshot_derived_def register_def ingredient_kind_def load_cells_def
  snapshot_cells_deep_def ready_cells_def derived_new_def input_new_def input_new_from_snapshot_def input_snapshot_def
  new_for_snapshot_def set_current_revision_def

lemmas run_simps = run_write run_tables run_task run_runtime run_shared run_access run_snapshot Let_def

declare access_loop.simps [simp del]

abbreviation fuel2 :: nat where "fuel2 \<equiv> Suc (Suc 0)"
abbreviation sh0 :: hasher where "sh0 \<equiv> \<lambda>_. 0"
abbreviation k1 :: Key where "k1 \<equiv> \<lparr>key_bytes = [1], key_hash = 0\<rparr>"
abbreviation k2 :: Key where "k2 \<equiv> \<lparr>key_bytes = [2], key_hash = 0\<rparr>"
abbreviation i1 :: DynKey where "i1 \<equiv> \<lparr>dk_kind = QueryKindId 1, dk_key = k1\<rparr>"
abbreviation i2 :: DynKey where "i2 \<equiv> \<lparr>dk_kind = QueryKindId 1, dk_key = k2\<rparr>"
abbreviation q3 :: DynKey where "q3 \<equiv> \<lparr>dk_kind = QueryKindId 3, dk_key = k1\<rparr>"
abbreviation q5 :: DynKey where "q5 \<equiv> \<lparr>dk_kind = QueryKindId 5, dk_key = k2\<rparr>"

text \<open>An input of kind 1, a query of kind 3 that reads \<open>i1\<close> and hands it on.\<close>

definition echo_sys :: "'v system" where
  "echo_sys = \<lparr>
     sys_compute = (\<lambda>kd key. ReadInput i1 (\<lambda>x. case x of None \<Rightarrow> PanicP (StrPayload []) | Some v \<Rightarrow> Ret v)),
     sys_eq = (\<lambda>_ a b. a = b)\<rparr>"

definition two_world :: "'v world" where
  "two_world = \<lparr>w_rt = fst (runtime_new 7),
     w_ingredients = [(QueryKindId 1, InputI (input_new (QueryKindId 1) [])),
                      (QueryKindId 3, DerivedI (derived_new (QueryKindId 3) [])),
                      (QueryKindId 5, DerivedI (derived_new (QueryKindId 5) []))],
     w_cache = shared_cache_init None, w_inflight = registry0, w_task = task0, w_counter = 8\<rparr>"

abbreviation set1 where "set1 sys v w \<equiv> db_set sh0 sys (QueryKindId 1) [1] v w"
abbreviation set2 where "set2 sys v w \<equiv> db_set sh0 sys (QueryKindId 1) [2] v w"

lemma echo_from_scratch: "I i1 = Some v \<Longrightarrow> evq echo_sys I q3 r \<longleftrightarrow> r = Inr v"
proof -
  assume i: "I i1 = Some v"
  have "evq echo_sys I q3 (Inr v)"
    unfolding evq_def compute_of_def echo_sys_def using i by (force intro: ev_read ev_ret)
  then show ?thesis using evq_det by blast
qed

subsection \<open>A snapshot that sees the future\<close>

lemma snapshot_future_run:
  assumes "a \<noteq> b"
  shows "let w1 = set1 echo_sys a two_world; s = from_database sh0 w1;
             w3 = snd (db_get fuel2 echo_sys q3 (set1 echo_sys b w1))
         in fst (db_get fuel2 echo_sys q3 (s\<lparr>w_cache := w_cache w3, w_inflight := w_inflight w3\<rparr>)) = Finished (Inr b)
            \<and> input_value s i1 = Some a"
  using assms by (simp add: run_simps two_world_def echo_sys_def input_value_def input_at_def cong: run_cong)




subsection \<open>A read between the two halves of a write\<close>

text \<open>What \<open>set\<close> does after it has published the revision.\<close>

definition set_rest :: "DynKey \<Rightarrow> 'v \<Rightarrow> Revision \<Rightarrow> 'v input_db \<Rightarrow> Revision \<times> 'v input_db" where
  "set_rest q v rv d = (rv, write_finish q (Some v) rv d)"

lemma tinsert_twice: "tinsert k a (tinsert k b t) = tinsert k a t"
  by (induction t) (auto simp: tinsert_def)

text \<open>On an input that changes, the two halves are \<open>set\<close>.\<close>

lemma set_in_halves:
  assumes "ingredient (w_ingredients w) (dk_kind i) = Some (InputI s)" and "inp_kind s = dk_kind i"
    and "dk_key i = from_bytes sh key" and "\<And>x. held s i = Some x \<Longrightarrow> \<not> sys_eq sys (dk_kind i) x b"
  shows "db_set sh sys (dk_kind i) key b w =
    (case on_input (dk_kind i) write_begin w of (rv, w1) \<Rightarrow> snd (on_input (dk_kind i) (set_rest i b rv) w1))"
proof -
  have i: "\<lparr>dk_kind = dk_kind i, dk_key = from_bytes sh key\<rparr> = i" using assms(3) by (cases i) simp
  let ?d = "\<lparr>db_input = s, db_runtime = w_rt w, db_counter = w_counter w\<rparr>"
  obtain rv rt c where wb: "write_begin ?d = (rv, \<lparr>db_input = s, db_runtime = rt, db_counter = c\<rparr>)"
    using that by (auto simp: write_begin_def Let_def case_prod_beta)
  have "input_set sh raw_codec (sys_eq sys (dk_kind i)) key b ?d =
      (rv, write_finish i (Some b) rv \<lparr>db_input = s, db_runtime = rt, db_counter = c\<rparr>)"
    using assms(2,4) i wb
    by (auto simp: input_set_def encode_facet_def raw_codec_def held_def Let_def split: option.split)
  then show ?thesis
    using assms(1) wb by (simp add: db_set_def on_input_def set_rest_def ingredient_def tinsert_twice)
qed

lemma write_begin_views:
  assumes "on_input (dk_kind i) write_begin w = (rv, w1)" and "input_at w (dk_kind i) = Some s" and "\<not> is_snapshot (w_rt w)"
  shows "rv = world_rev w1" "input_at w1 k = input_at w k" "cache_scope_id (w_rt w1) = cache_scope_id (w_rt w)"
proof -
  let ?d = "\<lparr>db_input = s, db_runtime = w_rt w, db_counter = w_counter w\<rparr>"
  have i: "ingredient (w_ingredients w) (dk_kind i) = Some (InputI s)"
    using assms(2) by (auto simp: input_at_def split: option.splits ingredient.splits)
  obtain d1 where wb: "write_begin ?d = (rv, d1)" "w1 = w\<lparr>w_ingredients := tinsert (dk_kind i) (InputI (db_input d1)) (w_ingredients w),
      w_rt := db_runtime d1, w_counter := db_counter d1\<rparr>"
    using assms(1) i by (auto simp: on_input_def split: prod.splits)
  have d1: "db_input d1 = s" "current_revision (db_runtime d1) = rv" "cache_scope_id (db_runtime d1) = cache_scope_id (w_rt w)"
    using wb(1) assms(3)
    by (auto simp: write_begin_def bump_revision_def mark_divergent_def send_event_def cache_scope_id_def
        current_revision_def Let_def split: prod.splits if_splits)
  show "rv = world_rev w1" "cache_scope_id (w_rt w1) = cache_scope_id (w_rt w)" using d1 wb(2) by (simp_all add: world_rev_def)
  show "input_at w1 k = input_at w k" using d1(1) i unfolding wb(2) by (auto simp: input_at_def ingredient_def)
qed

lemma set_rest_views:
  assumes "input_at w (dk_kind i) = Some s" and "inp_kind s = dk_kind i"
  shows "dep_input (snd (on_input (dk_kind i) (set_rest i b rv) w)) (dyn_dep i) = Some (Some b, rv)"
proof -
  have "ingredient (w_ingredients w) (dk_kind i) = Some (InputI s)"
    using assms(1) by (auto simp: input_at_def split: option.splits ingredient.splits)
  then show ?thesis using assms(2)
    by (simp add: on_input_def set_rest_def write_finish_def Let_def dep_input_def input_at_def ingredient_def held_def
        stamp_def dyn_dep_def dep_dyn_def)
qed

text \<open>
  C20. \<open>set\<close> publishes the new revision before it stores the new entry. Take any database and a query that is some
  function of one input, and was never computed. If it is computed between the two halves of a write of its input, the
  function of the old value is memoised as verified and changed at the new revision, and it is served
  from then on, at this revision and at all later ones, whatever is read, set or removed in between, until
  someone writes this very input again.
\<close>
theorem torn_write_serves_stale_value:
  assumes "compute_of sys q = ReadInput i (\<lambda>x. Ret (f x))"
    and "input_at w (dk_kind i) = Some s" and "inp_kind s = dk_kind i" and "derived_reg w (dk_kind q)"
    and "\<not> is_snapshot (w_rt w)" and "active_stack (w_task w) = None" and "cell_state q w = Vacant"
    and "shared_cache_get (cache_scope_id (w_rt w)) (dk_kind q) (dk_key q) (w_cache w) = None"
    and "\<And>k. if_runtime_id k = cache_scope_id (w_rt w) \<Longrightarrow> tget (reg_map (w_inflight w)) k = None"
    and "\<forall>op \<in> set ops. \<not> writes sh i op"
  shows "let (rv, w1) = on_input (dk_kind i) write_begin w; w2 = snd (db_get (Suc n) sys q w1);
       w3 = snd (on_input (dk_kind i) (set_rest i b rv) w2); w4 = fold (db_run sh m sys) ops w3
   in fst (db_get (Suc k) sys q w4) = Finished (Inr (f (held s i)))
      \<and> (\<forall>r. evq sys (input_value w4) q r \<longleftrightarrow> r = Inr (f (Some b)))"
proof -
  obtain rv w1 where w1: "on_input (dk_kind i) write_begin w = (rv, w1)" by fastforce
  have w1': "w1 = snd (on_input (dk_kind i) write_begin w)" using w1 by simp
  note V = write_begin_views [OF w1 assms(2,5)]
  let ?v = "f (held s i)"
  obtain w2 where w2: "db_get (Suc n) sys q w1 = (Finished (Inr ?v), w2)"
    "get_cell q w2 = Some (Ready ?v rv rv [dyn_dep i])" "\<And>k. input_at w2 k = input_at w1 k" "active_stack (w_task w2) = None"
    using first_read [of w1 q sys i f s n] assms V by (auto simp: w1' cell_state_def)
  let ?w3 = "snd (on_input (dk_kind i) (set_rest i b rv) w2)"
  let ?w4 = "fold (db_run sh m sys) ops ?w3"
  have in2: "input_at w2 (dk_kind i) = Some s" using w2(3) V(2) assms(2) by simp
  have kept: "memo_kept q ?v rv [dyn_dep i] (\<lambda>_. (Some b, rv)) ?w3"
    using w2(2) set_rest_views [OF in2 assms(3), of b rv] by (simp add: memo_kept_def)
  have "\<forall>op \<in> set ops. \<forall>d \<in> set [dyn_dep i]. \<not> writes sh (dep_dyn d) op"
    using assms(10) by (simp add: dyn_dep_def dep_dyn_def)
  note kept4 = memo_kept_runs [OF kept this, of m sys]
  have "active_stack (w_task ?w4) = None" by (rule db_runs_task) (simp add: w2(4))
  note get = kept_is_served [OF kept4 this, of k sys]
  have "dep_input ?w4 (dyn_dep i) = Some (Some b, rv)" using kept4 by (simp add: memo_kept_def)
  then have "input_value ?w4 i = Some b"
    by (auto simp: dep_input_def input_value_def dyn_dep_def dep_dyn_def split: option.splits if_splits)
  then have "evq sys (input_value ?w4) q (Inr (f (Some b)))"
    unfolding evq_def assms(1) by (metis ev_read ev_ret)
  with get evq_det show ?thesis unfolding Let_def w1 by (auto simp: w2(1))
qed

lemma two_world_facts:
  "input_at two_world (QueryKindId 1) = Some (input_new (QueryKindId 1) [])" "derived_reg two_world (QueryKindId 3)"
  "\<not> is_snapshot (w_rt two_world)" "active_stack (w_task two_world) = None" "cell_state q3 two_world = Vacant"
  "shared_cache_get c kd ky (w_cache two_world) = None" "tget (reg_map (w_inflight two_world)) k = None"
  by (simp_all add: two_world_def input_at_def ingredient_def derived_reg_def derived_new_def runtime_new_def new_unique_def
      task0_def cell_state_def get_cell_def shared_cache_get_def shared_cache_init_def registry0_def)

text \<open>The first write of an input, torn: the query is its default 0 for ever, although the input holds 6.\<close>

definition value_sys :: "u8 system" where
  "value_sys = \<lparr>sys_compute = (\<lambda>kd key. ReadInput i1 (\<lambda>x. Ret (case x of None \<Rightarrow> 0 | Some v \<Rightarrow> v))), sys_eq = (\<lambda>_ a b. a = b)\<rparr>"

theorem torn_write_serves_stale_value_witness:
  "let (rv, w1) = on_input (QueryKindId 1) write_begin two_world; w2 = snd (db_get 1 value_sys q3 w1);
       w3 = snd (on_input (QueryKindId 1) (set_rest i1 6 rv) w2);
       w4 = fold (db_run sh0 2 value_sys) [OpGet q3, OpSet (QueryKindId 1) [2] 9, OpTouch q5, OpRemove (QueryKindId 1) [2]] w3
   in fst (db_get 1 value_sys q3 w4) = Finished (Inr 0) \<and> (\<forall>r. evq value_sys (input_value w4) q3 r \<longleftrightarrow> r = Inr 6)"
proof -
  have q: "compute_of value_sys q3 = ReadInput i1 (\<lambda>x. Ret (case x of None \<Rightarrow> 0 | Some v \<Rightarrow> v))"
    by (simp add: compute_of_def value_sys_def)
  have ops: "\<forall>op \<in> set [OpGet q3, OpSet (QueryKindId 1) [2] 9, OpTouch q5, OpRemove (QueryKindId 1) [2]]. \<not> writes sh0 i1 op"
    by (simp add: from_bytes_def)
  let ?s = "input_new (QueryKindId 1) [] :: u8 Input"
  have s: "input_at two_world (dk_kind i1) = Some ?s" "inp_kind ?s = dk_kind i1" "derived_reg two_world (dk_kind q3)"
    by (simp_all add: two_world_facts) (simp add: input_new_def)
  have h: "(case held ?s i1 of None \<Rightarrow> 0 | Some v \<Rightarrow> v) = 0" by (simp add: held_def input_new_def)
  from torn_write_serves_stale_value [OF q s two_world_facts(3-7) ops, where b = 6 and m = 2 and n = 0 and k = 0] h
  show ?thesis by simp
qed

subsection \<open>A query that handles the failure of another\<close>

definition lost :: PicanteError where
  "lost = MissingInputValue (QueryKindId 1) 0"

text \<open>Kind 5 fails when \<open>i2\<close> is missing; kind 3 falls back to a default when kind 5 fails.\<close>

definition fallback_sys :: "'v \<Rightarrow> 'v system" where
  "fallback_sys d = \<lparr>
     sys_compute = (\<lambda>kd key.
       if kd = QueryKindId 3 then Query q5 (\<lambda>r. case r of Inl e \<Rightarrow> Ret d | Inr v \<Rightarrow> Ret v)
       else ReadInput i2 (\<lambda>x. case x of None \<Rightarrow> Throw lost | Some v \<Rightarrow> Ret v)),
     sys_eq = (\<lambda>_ a b. a = b)\<rparr>"

lemma fallback_from_scratch: "I i2 = None \<Longrightarrow> evq (fallback_sys d) I q3 r \<longleftrightarrow> r = Inr d"
proof -
  assume i: "I i2 = None"
  have 5: "ev (fallback_sys d) I (compute_of (fallback_sys d) q5) [i2] (Inl lost)"
    unfolding compute_of_def fallback_sys_def using i by (force intro: ev_read ev_throw)
  have "ev (fallback_sys d) I (compute_of (fallback_sys d) q3) [q5] (Inr d)"
    using ev_query [OF 5, of "\<lambda>r. case r of Inl e \<Rightarrow> Ret d | Inr v \<Rightarrow> Ret v" "[]" "Inr d"]
    by (simp add: compute_of_def fallback_sys_def ev_ret)
  then show ?thesis using evq_det unfolding evq_def by blast
qed

lemma fallback_run:
  "let w1 = set2 (fallback_sys d) a two_world; w2 = snd (db_get fuel2 (fallback_sys d) q3 w1);
       w3 = db_remove sh0 (QueryKindId 1) [2] w2
   in fst (db_get fuel2 (fallback_sys d) q3 w3) = Finished (Inl lost) \<and> input_value w3 i2 = None
      \<and> fst (db_get fuel2 (fallback_sys d) q3 (db_remove sh0 (QueryKindId 1) [2] w1)) = Finished (Inr d)"
  by (simp add: run_simps two_world_def fallback_sys_def input_value_def input_at_def cong: run_cong)

text \<open>
  C22. Revalidation propagates the error of a dependency even when the query handles it. On any database, take a
  query that is memoised at an older revision and that from scratch over the current inputs succeeds with \<open>u\<close>. If
  one of its dependencies, a query, has failed at the current revision, and each dependency before that
  one is an input, or a query verified at this revision, that has not changed after the memo did, then a read
  from outside any query returns the error of that dependency, not \<open>u\<close>.
\<close>
theorem revalidation_leaks_handled_error:
  assumes "active_stack (w_task w) = None"
    and "get_cell q w = Some (Ready v va ca (ds1 @ d # ds2))" and "va \<noteq> world_rev w"
    and "\<forall>d1 \<in> set ds1. dep_settled w ca d1" and "dep_failed w e d"
    and "evq sys (input_value w) q (Inr u)"
  shows "fst (db_get (Suc (Suc n)) sys q w) = Finished (Inl e) \<and> (\<forall>r. evq sys (input_value w) q r \<longleftrightarrow> r = Inr u)"
  using memo_read_fails [OF assms(1-5)] assms(6) evq_det by blast

text \<open>A query memoised, its dependency's input removed, the dependency read: the default is lost.\<close>

definition fallback_world :: "u8 world" where
  "fallback_world = snd (db_get fuel2 (fallback_sys 0) q5 (db_remove sh0 (QueryKindId 1) [2]
     (snd (db_get fuel2 (fallback_sys 0) q3 (set2 (fallback_sys 0) 7 two_world)))))"

lemma fallback_world_facts:
  "active_stack (w_task fallback_world) = None"
  "get_cell q3 fallback_world = Some (Ready 7 (Revision 1) (Revision 1) ([] @ dyn_dep q5 # []))"
  "Revision 1 \<noteq> world_rev fallback_world" "dep_failed fallback_world lost (dyn_dep q5)" "input_value fallback_world i2 = None"
  by (simp_all add: fallback_world_def run_simps two_world_def fallback_sys_def input_value_def input_at_def dep_failed_def
      derived_reg_def cong: run_cong)

theorem revalidation_leaks_handled_error_witness:
  "fst (db_get fuel2 (fallback_sys 0) q3 fallback_world) = Finished (Inl lost)
   \<and> (\<forall>r. evq (fallback_sys 0) (input_value fallback_world) q3 r \<longleftrightarrow> r = Inr 0)"
proof -
  have "evq (fallback_sys 0) (input_value fallback_world) q3 (Inr 0)"
    by (simp add: fallback_from_scratch fallback_world_facts)
  from revalidation_leaks_handled_error [OF fallback_world_facts(1-3) _ fallback_world_facts(4) this, of 0]
  show ?thesis by simp
qed

subsection \<open>A cell that stays marked running\<close>

text \<open>Kind 3 hands on the failure of kind 5, and panics when \<open>i1\<close> is missing.\<close>

definition strict_sys :: "'v system" where
  "strict_sys = \<lparr>
     sys_compute = (\<lambda>kd key.
       if kd = QueryKindId 3 then
         Query q5 (\<lambda>r. case r of Inl e \<Rightarrow> Throw e
                    | Inr v \<Rightarrow> ReadInput i1 (\<lambda>x. case x of None \<Rightarrow> PanicP (StrPayload []) | Some v \<Rightarrow> Ret v))
       else ReadInput i2 (\<lambda>x. case x of None \<Rightarrow> Throw lost | Some v \<Rightarrow> Ret v)),
     sys_eq = (\<lambda>_ a b. a = b)\<rparr>"

lemma strict_from_scratch:
  "I i1 = Some v \<Longrightarrow> I i2 = Some u \<Longrightarrow> evq strict_sys I q3 r \<longleftrightarrow> r = Inr v"
proof -
  assume i: "I i1 = Some v" "I i2 = Some u"
  let ?k = "\<lambda>r :: 'a PicanteResult. case r of Inl e \<Rightarrow> Throw e
                    | Inr v \<Rightarrow> ReadInput i1 (\<lambda>x. case x of None \<Rightarrow> PanicP (StrPayload []) | Some v \<Rightarrow> Ret v)"
  have 5: "ev strict_sys I (compute_of strict_sys q5) [i2] (Inr u)"
    unfolding compute_of_def strict_sys_def using i by (force intro: ev_read ev_ret)
  have "ev strict_sys I (?k (Inr u)) [i1] (Inr v)" using i by (force intro: ev_read ev_ret)
  from ev_query [OF 5, of ?k "[i1]" "Inr v"] this have "ev strict_sys I (compute_of strict_sys q3) [q5, i1] (Inr v)"
    by (simp add: compute_of_def strict_sys_def)
  then show ?thesis using evq_det unfolding evq_def by blast
qed

text \<open>
  C18. A query is marked running before its record in the shared cache is revalidated, and an error in that
  revalidation leaves with \<open>?\<close> without resetting the cell. On any database and with any query functions: let a
  query hold no value (its cell is vacant, or failed at an older revision), let the cache have a record for it that was
  verified at another revision, one of whose dependencies, a query, has failed at the current revision, while each dependency
  before that one is an input, or a query verified at this revision, that has not changed after the record did. Then a
  read from outside any query returns the error of the dependency, and every
  later read of the query by this task waits for ever, after any writes, removals, reads and
  revalidations whatever, also when all inputs are back.
\<close>
theorem failed_adoption_blocks_for_ever:
  assumes "active_stack (w_task w) = None" and "derived_reg w (dk_kind q)"
    and "observe True (world_rev w) (cell_state q w) = ObsStaleOther"
    and "shared_cache_get (cache_scope_id (w_rt w)) (dk_kind q) (dk_key q) (w_cache w) = Some rec"
    and "sr_verified_at rec \<noteq> world_rev w" and "sr_deps rec = ds1 @ d # ds2"
    and "\<forall>d1 \<in> set ds1. dep_settled w (sr_changed_at rec) d1" and "dep_failed w e d"
  shows "let (r, w1) = db_get (Suc (Suc n)) sys q w; w2 = fold (db_run sh m sys) ops w1
     in r = Finished (Inl e) \<and> fst (db_get (Suc k) sys q w2) = Blocked"
proof -
  note read = record_read_fails [OF assms, of n sys]
  obtain r w1 where r: "db_get (Suc (Suc n)) sys q w = (r, w1)" by fastforce
  have "marked_running q (fold (db_run sh m sys) ops w1)" by (rule marked_running_runs) (use read r in simp)
  moreover have "active_stack (w_task (fold (db_run sh m sys) ops w1)) = None"
    by (rule db_runs_task) (use db_get_task [OF assms(1), of "Suc (Suc n)" sys q] r in simp)
  ultimately show ?thesis using running_blocks read r by (simp add: Let_def)
qed

text \<open>
  On one thread: the query is memoised, panics without its first input, and its dependency fails without the second.
  With both inputs back the query is a value from scratch, and is not answered.
\<close>

definition strict_world :: "u8 world" where
  "strict_world =
     (let w1 = snd (db_get fuel2 strict_sys q3 (set1 strict_sys 8 (set2 strict_sys 7 two_world)));
          w2 = snd (db_get fuel2 strict_sys q3 (db_remove sh0 (QueryKindId 1) [1] w1))
      in snd (db_get fuel2 strict_sys q5 (db_remove sh0 (QueryKindId 1) [2] w2)))"

definition strict_record :: "u8 SharedCacheRecord" where
  "strict_record = \<lparr>sr_value = 8, sr_deps = [dyn_dep q5, dyn_dep i1], sr_changed_at = Revision 2,
     sr_verified_at = Revision 2, sr_insert_id = 2\<rparr>"

lemma strict_world_facts:
  "active_stack (w_task strict_world) = None" "derived_reg strict_world (dk_kind q3)"
  "observe True (world_rev strict_world) (cell_state q3 strict_world) = ObsStaleOther"
  "shared_cache_get (cache_scope_id (w_rt strict_world)) (dk_kind q3) (dk_key q3) (w_cache strict_world) = Some strict_record"
  "sr_verified_at strict_record \<noteq> world_rev strict_world" "sr_deps strict_record = [] @ dyn_dep q5 # [dyn_dep i1]"
  "dep_failed strict_world lost (dyn_dep q5)"
  by (simp_all add: strict_world_def strict_record_def run_simps two_world_def strict_sys_def dep_failed_def
      derived_reg_def cong: run_cong)

abbreviation strict_repair :: "u8 db_op list" where
  "strict_repair \<equiv> [OpSet (QueryKindId 1) [2] 7, OpGet q5, OpSet (QueryKindId 1) [1] 8]"

lemma input_at_reads: "input_at (snd (db_get n sys q w)) k = input_at w k"
  using reader.get_keeps [of w w n sys q] by (simp add: reads_only_def)

lemma dep_input_set:
  assumes "dep_input w (dyn_dep \<lparr>dk_kind = kind, dk_key = from_bytes sh key\<rparr>) \<noteq> None" and "\<And>x. sys_eq sys kind x v \<Longrightarrow> x = v"
  shows "\<exists>c. dep_input (db_set sh sys kind key v w) (dyn_dep \<lparr>dk_kind = kind, dk_key = from_bytes sh key\<rparr>) = Some (Some v, c)"
proof -
  let ?i = "\<lparr>dk_kind = kind, dk_key = from_bytes sh key\<rparr>"
  obtain s where s: "input_at w kind = Some s" "inp_kind s = kind"
    using assms(1) by (auto simp: dep_input_def dyn_dep_def split: option.splits if_splits)
  then have i: "ingredient (w_ingredients w) kind = Some (InputI s)"
    by (auto simp: input_at_def split: option.splits ingredient.splits)
  let ?d = "\<lparr>db_input = s, db_runtime = w_rt w, db_counter = w_counter w\<rparr>"
  let ?d' = "snd (input_set sh raw_codec (sys_eq sys kind) key v ?d)"
  obtain rv d1 where wb: "write_begin ?d = (rv, d1)" by fastforce
  have "inp_kind (db_input ?d') = kind \<and> held (db_input ?d') ?i = Some v"
  proof (cases "\<exists>x. held s ?i = Some x \<and> sys_eq sys kind x v")
    case True
    then have "held s ?i = Some v" "?d' = ?d"
      using assms(2) s(2) by (auto simp: input_set_def encode_facet_def raw_codec_def held_def Let_def split: option.splits)
    then show ?thesis using s(2) by simp
  next
    case False
    then have "?d' = write_finish ?i (Some v) rv d1"
      using s(2) wb by (auto simp: input_set_def encode_facet_def raw_codec_def held_def Let_def split: option.split)
    then show ?thesis using write_spec(1) [OF wb, of ?i "Some v"] s(2) by (simp add: held_def)
  qed
  then show ?thesis
    using i by (simp add: db_set_def on_input_def case_prod_beta dep_input_def input_at_def ingredient_def dyn_dep_def dep_dyn_def)
qed

lemma strict_repaired:
  assumes "w2 = fold (db_run sh0 2 strict_sys) strict_repair (snd (db_get fuel2 strict_sys q3 strict_world))"
  shows "input_value w2 i1 = Some 8" "input_value w2 i2 = Some 7"
proof -
  let ?w = "snd (db_get fuel2 strict_sys q3 strict_world)"
  let ?w3 = "db_run sh0 2 strict_sys (OpSet (QueryKindId 1) [2] 7) ?w"
  let ?w4 = "snd (db_get 2 strict_sys q5 ?w3)"
  have i: "i1 = \<lparr>dk_kind = QueryKindId 1, dk_key = from_bytes sh0 [1]\<rparr>" "i2 = \<lparr>dk_kind = QueryKindId 1, dk_key = from_bytes sh0 [2]\<rparr>"
    by (simp_all add: from_bytes_def)
  have same: "dep_input (snd (db_get n sys q w)) d = dep_input w d" for n and sys :: "u8 system" and q w d
    by (rule dep_input_cong) (rule input_at_reads)
  have old: "dep_input strict_world (dyn_dep i1) \<noteq> None" "dep_input strict_world (dyn_dep i2) \<noteq> None"
    by (simp_all add: strict_world_def run_simps two_world_def strict_sys_def dep_input_def input_at_def cong: run_cong)
  have set: "\<exists>c. dep_input (db_set sh0 strict_sys (QueryKindId 1) key v w) (dyn_dep \<lparr>dk_kind = QueryKindId 1, dk_key = from_bytes sh0 key\<rparr>) = Some (Some v, c)"
    if "dep_input w (dyn_dep \<lparr>dk_kind = QueryKindId 1, dk_key = from_bytes sh0 key\<rparr>) \<noteq> None" for w :: "u8 world" and key v
    by (rule dep_input_set [OF that]) (simp add: strict_sys_def)
  have other: "dep_input (db_set sh0 strict_sys (QueryKindId 1) key v w) (dyn_dep p) = dep_input w (dyn_dep p)"
    if "dep_input w (dyn_dep p) \<noteq> None" "p \<noteq> \<lparr>dk_kind = QueryKindId 1, dk_key = from_bytes sh0 key\<rparr>" for w :: "u8 world" and key v p
    using dep_input_other_write [of sh0 "dyn_dep p" "OpSet (QueryKindId 1) key v" w "QueryKindId 1" key v 0 strict_sys] that
    by (simp add: dep_dyn_def dyn_dep_def)
  have 3: "\<exists>c. dep_input ?w3 (dyn_dep i2) = Some (Some 7, c)" "dep_input ?w3 (dyn_dep i1) \<noteq> None"
    using set [of ?w "[2]" 7, folded i] other [of ?w i1 "[2]" 7, folded i] old by (simp_all add: same)
  have w2: "w2 = db_set sh0 strict_sys (QueryKindId 1) [1] 8 ?w4" using assms by simp
  have "\<exists>c. dep_input w2 (dyn_dep i1) = Some (Some 8, c)"
    unfolding w2 by (rule set [of ?w4 "[1]" 8, folded i]) (use 3 in \<open>simp add: same\<close>)
  moreover have "dep_input w2 (dyn_dep i2) = dep_input ?w4 (dyn_dep i2)"
    unfolding w2 by (rule other [of ?w4 i2 "[1]" 8, folded i]) (use 3 in \<open>auto simp: same\<close>)
  then have "\<exists>c. dep_input w2 (dyn_dep i2) = Some (Some 7, c)" using 3(1) by (simp only: same)
  ultimately have "\<exists>c. dep_input w2 (dyn_dep i1) = Some (Some 8, c)" "\<exists>c. dep_input w2 (dyn_dep i2) = Some (Some 7, c)"
    by blast+
  then show "input_value w2 i1 = Some 8" "input_value w2 i2 = Some 7"
    by (auto simp: dep_input_def input_value_def dyn_dep_def dep_dyn_def split: option.splits if_splits)
qed

theorem failed_adoption_blocks_for_ever_witness:
  "let (r, w1) = db_get fuel2 strict_sys q3 strict_world;
       w2 = fold (db_run sh0 2 strict_sys) strict_repair w1
   in r = Finished (Inl lost) \<and> fst (db_get fuel2 strict_sys q3 w2) = Blocked
      \<and> (\<forall>r. evq strict_sys (input_value w2) q3 r \<longleftrightarrow> r = Inr 8)"
proof -
  have "\<forall>d1 \<in> set []. dep_settled strict_world (sr_changed_at strict_record) d1" by simp
  from failed_adoption_blocks_for_ever [OF strict_world_facts(1-6) this strict_world_facts(7),
      of 0 strict_sys sh0 2 strict_repair 1] strict_from_scratch [OF strict_repaired [OF refl]]
  show ?thesis by (simp add: Let_def case_prod_beta)
qed

subsection \<open>After an early cutoff\<close>

text \<open>A query that reads \<open>i1\<close> and returns the same value whatever it holds.\<close>

definition const_sys :: "'v \<Rightarrow> 'v system" where
  "const_sys d = \<lparr>sys_compute = (\<lambda>kd key. ReadInput i1 (\<lambda>x. Ret d)), sys_eq = (\<lambda>_ a b. a = b)\<rparr>"

text \<open>The number of computations led so far: every one leaves an entry.\<close>

definition computed :: "'v world \<Rightarrow> nat" where
  "computed w = length (reg_entries (w_inflight w))"

text \<open>
  Revalidation compares a dependency with the revision the query's value last changed at, not with the
  revision the query was last verified at. After a recomputation that found the same value (the early
  cutoff), the dependency stays newer than the value for ever: every later write of any
  unrelated input makes the next read run the query again, though nothing it read has changed.
  Without the cutoff it is not run again.
\<close>
theorem early_cutoff_recomputes_for_ever:
  assumes "a \<noteq> b" and "x \<noteq> y"
  shows "let get = (\<lambda>w. snd (db_get fuel2 (const_sys d) q3 w));
             w1 = get (set1 (const_sys d) a two_world);
             w2 = get (set1 (const_sys d) b w1);
             w3 = get (set2 (const_sys d) x w2);
             w4 = get (set2 (const_sys d) y w3)
         in map computed [w1, w2, w3, w4] = [1, 2, 3, 4]
            \<and> map computed [get (set2 (const_sys d) x w1), get (set2 (const_sys d) y (get (set2 (const_sys d) x w1)))] = [1, 1]"
  using assms by (simp add: run_simps two_world_def const_sys_def computed_def cong: run_cong)

theorem early_cutoff_recomputes_for_ever_witness:
  "let get = (\<lambda>w. snd (db_get fuel2 (const_sys 7) q3 w));
       w1 = get (set1 (const_sys 7) (1 :: u8) two_world);
       w2 = get (set1 (const_sys 7) 2 w1);
       w3 = get (set2 (const_sys 7) 1 w2);
       w4 = get (set2 (const_sys 7) 2 w3)
   in map computed [w1, w2, w3, w4] = [1, 2, 3, 4]"
proof -
  have "(1 :: u8) \<noteq> 2" by simp
  from early_cutoff_recomputes_for_ever [OF this this] show ?thesis unfolding Let_def by (rule conjunct1)
qed

end
