(* ===== verification/Files.thy ===== *)
theory Files
  imports Errors
begin

text \<open>
  The file system as the persistence code uses it. A path names a file through a directory table,
  an open handle is the number of the file: a file that was unlinked or replaced keeps
  receiving what its open handle writes. The outcomes of the system calls are a schedule in the
  state: an entry \<open>Some (message, n)\<close> makes the next call fail with that text after \<open>n\<close> bytes,
  an empty schedule means that nothing fails. \<open>BufWriter\<close> is modelled as the standard library
  has it.
\<close>

subsection \<open>Results with a state\<close>

definition sbind :: "('e + 'a) \<times> 's \<Rightarrow> ('a \<Rightarrow> 's \<Rightarrow> ('e + 'b) \<times> 's) \<Rightarrow> ('e + 'b) \<times> 's" where
  "sbind m k = (case m of (Inl e, s) \<Rightarrow> (Inl e, s) | (Inr a, s) \<Rightarrow> k a s)"

definition map_err :: "('e \<Rightarrow> 'f) \<Rightarrow> ('e + 'a) \<times> 's \<Rightarrow> ('f + 'a) \<times> 's" where
  "map_err f m = (case m of (Inl e, s) \<Rightarrow> (Inl (f e), s) | (Inr a, s) \<Rightarrow> (Inr a, s))"

lemma sbind_simps [simp]: "sbind (Inl e, s) k = (Inl e, s)" "sbind (Inr a, s) k = k a s"
  by (simp_all add: sbind_def)

lemma map_err_simps [simp]: "map_err f (Inl e, s) = (Inl (f e), s)" "map_err f (Inr a, s) = (Inr a, s)"
  by (simp_all add: map_err_def)

lemma sbind_Inr: "sbind m k = (Inr b, t) \<longleftrightarrow> (\<exists>a s. m = (Inr a, s) \<and> k a s = (Inr b, t))"
  by (cases m; cases "fst m") auto

lemma map_err_Inr: "map_err f m = (Inr a, s) \<longleftrightarrow> m = (Inr a, s)"
  by (cases m; cases "fst m") auto

lemma snd_map_err [simp]: "snd (map_err f m) = snd m"
  by (cases m; cases "fst m") auto

subsection \<open>Files\<close>

type_synonym path = string

datatype io_error = NotFound | IoError string

text \<open>The operating system's text for a missing file.\<close>

definition not_found_text :: string where
  "not_found_text = ''No such file or directory (os error 2)''"

definition io_text :: "io_error \<Rightarrow> string" where
  "io_text e = (case e of NotFound \<Rightarrow> not_found_text | IoError m \<Rightarrow> m)"

record files =
  fs_dir :: "(path, nat) table"
  fs_data :: "bytes list"
  fs_faults :: "(string \<times> nat) option list"

definition fs_wf :: "files \<Rightarrow> bool" where
  "fs_wf fs \<longleftrightarrow> twf (fs_dir fs) \<and> (\<forall>p i. tget (fs_dir fs) p = Some i \<longrightarrow> i < length (fs_data fs))
     \<and> (\<forall>p q i. tget (fs_dir fs) p = Some i \<longrightarrow> tget (fs_dir fs) q = Some i \<longrightarrow> p = q)"

definition contents :: "path \<Rightarrow> files \<Rightarrow> bytes option" where
  "contents p fs = map_option (\<lambda>i. fs_data fs ! i) (tget (fs_dir fs) p)"

definition syscall :: "files \<Rightarrow> (string \<times> nat) option \<times> files" where
  "syscall fs =
     (case fs_faults fs of [] \<Rightarrow> (None, fs) | f # rest \<Rightarrow> (f, fs\<lparr>fs_faults := rest\<rparr>))"

definition set_data :: "nat \<Rightarrow> bytes \<Rightarrow> files \<Rightarrow> files" where
  "set_data i bs fs = fs\<lparr>fs_data := (fs_data fs)[i := bs]\<rparr>"

text \<open>Open for writing, create if missing, truncate if not.\<close>

definition create_file :: "path \<Rightarrow> files \<Rightarrow> (io_error + nat) \<times> files" where
  "create_file p fs =
     (case syscall fs of
        (Some (m, _), fs1) \<Rightarrow> (Inl (IoError m), fs1)
      | (None, fs1) \<Rightarrow>
          (case tget (fs_dir fs1) p of
             Some i \<Rightarrow> (Inr i, set_data i [] fs1)
           | None \<Rightarrow> (Inr (length (fs_data fs1)),
               fs1\<lparr>fs_dir := tinsert p (length (fs_data fs1)) (fs_dir fs1), fs_data := fs_data fs1 @ [[]]\<rparr>)))"

text \<open>\<open>write_all\<close> on a handle: a failure may leave a part of the bytes in the file.\<close>

definition write_file :: "nat \<Rightarrow> bytes \<Rightarrow> files \<Rightarrow> (string + unit) \<times> files" where
  "write_file i bs fs =
     (case syscall fs of
        (Some (m, n), fs1) \<Rightarrow> (Inl m, set_data i (fs_data fs1 ! i @ take n bs) fs1)
      | (None, fs1) \<Rightarrow> (Inr (), set_data i (fs_data fs1 ! i @ bs) fs1))"

definition rename_file :: "path \<Rightarrow> path \<Rightarrow> files \<Rightarrow> (io_error + unit) \<times> files" where
  "rename_file a b fs =
     (case syscall fs of
        (Some (m, _), fs1) \<Rightarrow> (Inl (IoError m), fs1)
      | (None, fs1) \<Rightarrow>
          (case tget (fs_dir fs1) a of
             None \<Rightarrow> (Inl NotFound, fs1)
           | Some i \<Rightarrow> (Inr (), if a = b then fs1 else fs1\<lparr>fs_dir := tinsert b i (tremove a (fs_dir fs1))\<rparr>)))"

definition remove_file :: "path \<Rightarrow> files \<Rightarrow> (io_error + unit) \<times> files" where
  "remove_file p fs =
     (case syscall fs of
        (Some (m, _), fs1) \<Rightarrow> (Inl (IoError m), fs1)
      | (None, fs1) \<Rightarrow>
          (case tget (fs_dir fs1) p of
             None \<Rightarrow> (Inl NotFound, fs1)
           | Some _ \<Rightarrow> (Inr (), fs1\<lparr>fs_dir := tremove p (fs_dir fs1)\<rparr>)))"

definition read_file :: "path \<Rightarrow> files \<Rightarrow> (io_error + bytes) \<times> files" where
  "read_file p fs =
     (case syscall fs of
        (Some (m, _), fs1) \<Rightarrow> (Inl (IoError m), fs1)
      | (None, fs1) \<Rightarrow> (case contents p fs1 of None \<Rightarrow> Inl NotFound | Some bs \<Rightarrow> Inr bs, fs1))"

text \<open>A call that only succeeds or fails: \<open>create_dir_all\<close>.\<close>

definition bare_call :: "files \<Rightarrow> (string + unit) \<times> files" where
  "bare_call fs = (case syscall fs of (Some (m, _), fs1) \<Rightarrow> (Inl m, fs1) | (None, fs1) \<Rightarrow> (Inr (), fs1))"

definition metadata :: "path \<Rightarrow> files \<Rightarrow> (io_error + unit) \<times> files" where
  "metadata p fs =
     (case syscall fs of
        (Some (m, _), fs1) \<Rightarrow> (Inl (IoError m), fs1)
      | (None, fs1) \<Rightarrow> (case contents p fs1 of None \<Rightarrow> Inl NotFound | Some _ \<Rightarrow> Inr (), fs1))"

text \<open>\<open>Path::exists\<close>: no error but \<open>false\<close>.\<close>

definition path_exists :: "path \<Rightarrow> files \<Rightarrow> bool \<times> files" where
  "path_exists p fs = (case metadata p fs of (Inl _, fs1) \<Rightarrow> (False, fs1) | (Inr _, fs1) \<Rightarrow> (True, fs1))"

lemma syscall_ok [simp]: "fs_faults fs = [] \<Longrightarrow> syscall fs = (None, fs)"
  by (simp add: syscall_def)

lemma syscall_fields: "syscall fs = (f, fs1) \<Longrightarrow> fs_dir fs1 = fs_dir fs \<and> fs_data fs1 = fs_data fs"
  by (auto simp: syscall_def split: list.splits)

subsection \<open>Paths\<close>

text \<open>The part after the last separator, and the extension as \<open>Path\<close> sees it.\<close>

definition is_slash :: "char \<Rightarrow> bool" where
  "is_slash c \<longleftrightarrow> c = CHR ''/''"

definition file_name :: "path \<Rightarrow> string" where
  "file_name p = rev (takeWhile (\<lambda>c. \<not> is_slash c) (rev p))"

definition parent_prefix :: "path \<Rightarrow> string" where
  "parent_prefix p = rev (dropWhile (\<lambda>c. \<not> is_slash c) (rev p))"

definition file_stem :: "string \<Rightarrow> string" where
  "file_stem name =
     (let (ext, before) = (takeWhile (\<lambda>c. c \<noteq> CHR ''.'') (rev name), dropWhile (\<lambda>c. c \<noteq> CHR ''.'') (rev name))
      in if length before \<le> 1 then name else rev (tl before))"

definition with_extension :: "path \<Rightarrow> string \<Rightarrow> path" where
  "with_extension p ext = parent_prefix p @ file_stem (file_name p) @ ''.'' @ ext"

definition with_file_name :: "path \<Rightarrow> string \<Rightarrow> path" where
  "with_file_name p name = parent_prefix p @ name"

text \<open>\<open>Path::parent\<close> of a path without trailing separators, \<open>.\<close> or \<open>..\<close> components.\<close>

definition path_parent :: "path \<Rightarrow> path option" where
  "path_parent p =
     (if file_name p = [] then None
      else let dir = parent_prefix p in Some (if length dir \<le> 1 then dir else butlast dir))"

lemma prefix_and_name: "parent_prefix p @ file_name p = p"
  by (simp add: parent_prefix_def file_name_def flip: rev_append)

subsection \<open>Buffered writing\<close>

record bufw =
  bw_file :: nat
  bw_buf :: bytes

definition bw_capacity :: nat where
  "bw_capacity = 8192"

text \<open>What a failed flush could not write stays in the buffer.\<close>

definition flush_buf :: "bufw \<Rightarrow> files \<Rightarrow> (string + unit) \<times> bufw \<times> files" where
  "flush_buf w fs =
     (if bw_buf w = [] then (Inr (), w, fs)
      else case syscall fs of
             (Some (m, n), fs1) \<Rightarrow>
               (Inl m, w\<lparr>bw_buf := drop n (bw_buf w)\<rparr>,
                set_data (bw_file w) (fs_data fs1 ! bw_file w @ take n (bw_buf w)) fs1)
           | (None, fs1) \<Rightarrow>
               (Inr (), w\<lparr>bw_buf := []\<rparr>, set_data (bw_file w) (fs_data fs1 ! bw_file w @ bw_buf w) fs1))"

definition buf_write_all :: "bytes \<Rightarrow> bufw \<Rightarrow> files \<Rightarrow> (string + unit) \<times> bufw \<times> files" where
  "buf_write_all bs w fs =
     (let spare = bw_capacity - length (bw_buf w)
      in if length bs < spare then (Inr (), w\<lparr>bw_buf := bw_buf w @ bs\<rparr>, fs)
         else sbind (if spare < length bs then flush_buf w fs else (Inr (), w, fs))
           (\<lambda>_ (w1, fs1).
              if bw_capacity \<le> length bs
              then (case write_file (bw_file w1) bs fs1 of (r, fs2) \<Rightarrow> (r, w1, fs2))
              else (Inr (), w1\<lparr>bw_buf := bw_buf w1 @ bs\<rparr>, fs1)))"

text \<open>\<open>Drop\<close>: a flush whose failure is ignored.\<close>

definition drop_buf :: "bufw \<Rightarrow> files \<Rightarrow> files" where
  "drop_buf w fs = snd (snd (flush_buf w fs))"

text \<open>Everything written so far, on disk or still in the buffer.\<close>

definition written_bytes :: "bufw \<Rightarrow> files \<Rightarrow> bytes" where
  "written_bytes w fs = fs_data fs ! bw_file w @ bw_buf w"

lemma flush_buf_ok:
  assumes "fs_faults fs = []" and "bw_file w < length (fs_data fs)"
  shows "flush_buf w fs = (Inr (), w\<lparr>bw_buf := []\<rparr>, set_data (bw_file w) (written_bytes w fs) fs)"
  using assms by (cases w) (simp add: flush_buf_def written_bytes_def set_data_def)

lemma set_data_simps [simp]:
  "fs_faults (set_data i bs fs) = fs_faults fs" "fs_dir (set_data i bs fs) = fs_dir fs"
  "length (fs_data (set_data i bs fs)) = length (fs_data fs)"
  "i < length (fs_data fs) \<Longrightarrow> fs_data (set_data i bs fs) ! i = bs"
  "i \<noteq> j \<Longrightarrow> fs_data (set_data i bs fs) ! j = fs_data fs ! j"
  by (simp_all add: set_data_def)

text \<open>Without failures a write extends the written bytes and touches no other file.\<close>

lemma buf_write_all_ok:
  assumes "fs_faults fs = []" and "bw_file w < length (fs_data fs)"
  shows "\<exists>w' fs'. buf_write_all bs w fs = (Inr (), w', fs') \<and> written_bytes w' fs' = written_bytes w fs @ bs
     \<and> bw_file w' = bw_file w \<and> fs_faults fs' = [] \<and> fs_dir fs' = fs_dir fs
     \<and> length (fs_data fs') = length (fs_data fs) \<and> (\<forall>j. j \<noteq> bw_file w \<longrightarrow> fs_data fs' ! j = fs_data fs ! j)
     \<and> (\<exists>more. fs_data fs' ! bw_file w = fs_data fs ! bw_file w @ more)"
proof -
  have "bw_capacity \<le> bw_capacity - length (bw_buf w) \<Longrightarrow> bw_buf w = []"
    by (cases "bw_buf w") (auto simp: bw_capacity_def)
  then show ?thesis
    using assms by (auto simp: buf_write_all_def Let_def flush_buf_ok write_file_def written_bytes_def)
qed

end
