(* ===== verification/Wal.thy ===== *)
theory Wal
  imports Files
begin

text \<open>
  \<open>wal.rs\<close>: the write-ahead log. A file is the magic bytes, a length-prefixed header and
  length-prefixed entries; lengths are 32-bit little-endian. The writer buffers and flushes every
  \<open>auto_flush_threshold\<close> entries, the reader stops at the first length it cannot read in full.
  Serialisation of the header and of an entry is a parameter.

  The theorems: what was appended is what is read, what a crash can leave behind is read as a
  prefix of it, and how much of it is on disk at any time.
\<close>

subsection \<open>The format\<close>

definition WAL_FORMAT_VERSION :: u32 where
  "WAL_FORMAT_VERSION = 1"

text \<open>\<open>b"PICANTE\0"\<close>.\<close>

definition WAL_MAGIC :: bytes where
  "WAL_MAGIC = [0x50, 0x49, 0x43, 0x41, 0x4E, 0x54, 0x45, 0x00]"

record WalHeader =
  wh_format_version :: u32
  wh_base_revision :: u64

datatype WalOperation = WalSet bytes bytes | WalDelete bytes

record WalEntry =
  we_revision :: u64
  we_kind_id :: u32
  we_operation :: WalOperation

record wal_codecs =
  header_codec :: "WalHeader codec"
  entry_codec :: "WalEntry codec"

definition to_le_bytes :: "u32 \<Rightarrow> bytes" where
  "to_le_bytes n = map (\<lambda>i. ucast (drop_bit (8 * i) n)) [0, 1, 2, 3]"

definition from_le_bytes :: "bytes \<Rightarrow> u32" where
  "from_le_bytes bs = foldr (\<lambda>b acc. or (ucast b) (push_bit 8 acc)) bs 0"

text \<open>\<open>len() as u32\<close> truncates.\<close>

definition len_prefix :: "bytes \<Rightarrow> bytes" where
  "len_prefix bs = to_le_bytes (word_of_nat (length bs))"

definition MAX_HEADER_LEN :: nat where
  "MAX_HEADER_LEN = 1000000"

definition MAX_ENTRY_LEN :: nat where
  "MAX_ENTRY_LEN = 100000000"

definition DEFAULT_AUTO_FLUSH_THRESHOLD :: nat where
  "DEFAULT_AUTO_FLUSH_THRESHOLD = 100"

subsection \<open>The writer\<close>

record WalWriter =
  ww_path :: path
  ww_writer :: bufw
  ww_base_revision :: u64
  ww_entries_since_flush :: nat
  ww_auto_flush_threshold :: nat

definition cache_error :: "string \<Rightarrow> string \<Rightarrow> PicanteError" where
  "cache_error msg e = Cache (msg @ e)"

text \<open>\<open>write_all\<close> with the error text of the call site.\<close>

definition wal_write :: "string \<Rightarrow> bytes \<Rightarrow> bufw \<times> files \<Rightarrow> unit PicanteResult \<times> bufw \<times> files" where
  "wal_write msg bs = (\<lambda>(w, fs). map_err (cache_error msg) (buf_write_all bs w fs))"

definition wal_flush_file :: "string \<Rightarrow> bufw \<times> files \<Rightarrow> unit PicanteResult \<times> bufw \<times> files" where
  "wal_flush_file msg = (\<lambda>(w, fs). map_err (cache_error msg) (flush_buf w fs))"

text \<open>The part of \<open>create_with_threshold\<close> that writes to the opened file.\<close>

definition write_header :: "wal_codecs \<Rightarrow> u64 \<Rightarrow> bufw \<times> files \<Rightarrow> unit PicanteResult \<times> bufw \<times> files" where
  "write_header cs base_revision st =
     sbind (wal_write ''Failed to write WAL magic bytes: '' WAL_MAGIC st) (\<lambda>_ st.
       case enc (header_codec cs) \<lparr>wh_format_version = WAL_FORMAT_VERSION, wh_base_revision = base_revision\<rparr> of
         Inl m \<Rightarrow> (Inl (Encode ''WAL header'' m), st)
       | Inr header_bytes \<Rightarrow>
           sbind (wal_write ''Failed to write WAL header length: '' (len_prefix header_bytes) st) (\<lambda>_ st.
           sbind (wal_write ''Failed to write WAL header: '' header_bytes st) (\<lambda>_ st.
           wal_flush_file ''Failed to flush WAL header: '' st)))"

text \<open>An early return drops the buffered writer.\<close>

definition create_with_threshold ::
  "wal_codecs \<Rightarrow> path \<Rightarrow> u64 \<Rightarrow> nat \<Rightarrow> files \<Rightarrow> WalWriter PicanteResult \<times> files" where
  "create_with_threshold cs path base_revision auto_flush_threshold fs =
     (case create_file path fs of
        (Inl e, fs1) \<Rightarrow> (Inl (Cache (''Failed to create WAL file at '' @ path @ '': '' @ io_text e)), fs1)
      | (Inr file, fs1) \<Rightarrow>
          (case write_header cs base_revision (\<lparr>bw_file = file, bw_buf = []\<rparr>, fs1) of
             (Inl e, w, fs2) \<Rightarrow> (Inl e, drop_buf w fs2)
           | (Inr _, w, fs2) \<Rightarrow>
               (Inr \<lparr>ww_path = path, ww_writer = w, ww_base_revision = base_revision,
                     ww_entries_since_flush = 0, ww_auto_flush_threshold = auto_flush_threshold\<rparr>, fs2)))"

definition wal_create :: "wal_codecs \<Rightarrow> path \<Rightarrow> u64 \<Rightarrow> files \<Rightarrow> WalWriter PicanteResult \<times> files" where
  "wal_create cs path base_revision fs =
     create_with_threshold cs path base_revision DEFAULT_AUTO_FLUSH_THRESHOLD fs"

definition wal_flush :: "WalWriter \<Rightarrow> files \<Rightarrow> unit PicanteResult \<times> WalWriter \<times> files" where
  "wal_flush w fs =
     (case wal_flush_file ''Failed to flush WAL: '' (ww_writer w, fs) of
        (Inl e, b, fs1) \<Rightarrow> (Inl e, w\<lparr>ww_writer := b\<rparr>, fs1)
      | (Inr _, b, fs1) \<Rightarrow> (Inr (), w\<lparr>ww_writer := b, ww_entries_since_flush := 0\<rparr>, fs1))"

definition wal_append :: "wal_codecs \<Rightarrow> WalEntry \<Rightarrow> WalWriter \<Rightarrow> files \<Rightarrow> unit PicanteResult \<times> WalWriter \<times> files" where
  "wal_append cs entry w fs =
     (case enc (entry_codec cs) entry of
        Inl m \<Rightarrow> (Inl (Encode ''WAL entry'' m), w, fs)
      | Inr entry_bytes \<Rightarrow>
          (case sbind (wal_write ''Failed to write WAL entry length: '' (len_prefix entry_bytes) (ww_writer w, fs))
                  (\<lambda>_ st. wal_write ''Failed to write WAL entry: '' entry_bytes st) of
             (Inl e, b, fs1) \<Rightarrow> (Inl e, w\<lparr>ww_writer := b\<rparr>, fs1)
           | (Inr _, b, fs1) \<Rightarrow>
               (let w1 = w\<lparr>ww_writer := b, ww_entries_since_flush := Suc (ww_entries_since_flush w)\<rparr>
                in if ww_auto_flush_threshold w1 \<le> ww_entries_since_flush w1 then wal_flush w1 fs1
                   else (Inr (), w1, fs1))))"

text \<open>\<open>Drop\<close>: a best-effort flush, then the buffer's own.\<close>

definition wal_drop :: "WalWriter \<Rightarrow> files \<Rightarrow> files" where
  "wal_drop w fs = (case wal_flush w fs of (_, w1, fs1) \<Rightarrow> drop_buf (ww_writer w1) fs1)"

subsection \<open>The reader\<close>

text \<open>
  What a reader of an open file can still get: the bytes, and what happens after them, the end
  of the file or a failing read.
\<close>

datatype stream_end = AtEof | Broken string

record WalReader =
  wr_path :: path
  wr_rest :: bytes
  wr_end :: stream_end
  wr_header :: WalHeader

datatype read_error = UnexpectedEof | ReadFailed string

definition read_text :: "read_error \<Rightarrow> string" where
  "read_text e = (case e of UnexpectedEof \<Rightarrow> ''failed to fill whole buffer'' | ReadFailed m \<Rightarrow> m)"

definition read_exact :: "nat \<Rightarrow> stream_end \<Rightarrow> bytes \<Rightarrow> read_error + bytes \<times> bytes" where
  "read_exact n e bs =
     (if n \<le> length bs then Inr (take n bs, drop n bs)
      else case e of AtEof \<Rightarrow> Inl UnexpectedEof | Broken m \<Rightarrow> Inl (ReadFailed m))"

definition read_or :: "string \<Rightarrow> nat \<Rightarrow> stream_end \<Rightarrow> bytes \<Rightarrow> (bytes \<times> bytes) PicanteResult" where
  "read_or msg n e bs =
     (case read_exact n e bs of Inl r \<Rightarrow> Inl (Cache (msg @ read_text r)) | Inr x \<Rightarrow> Inr x)"

text \<open>\<open>{:?}\<close> of a byte array.\<close>

fun commas :: "string list \<Rightarrow> string" where
  "commas [] = []"
| "commas [s] = s"
| "commas (s # t # ss) = s @ '', '' @ commas (t # ss)"

definition debug_bytes :: "bytes \<Rightarrow> string" where
  "debug_bytes bs = ''['' @ commas (map (\<lambda>b. show_nat (unat b)) bs) @ '']''"

definition length_exceeds :: "string \<Rightarrow> nat \<Rightarrow> nat \<Rightarrow> string" where
  "length_exceeds what n mx =
     ''WAL '' @ what @ '' length ('' @ show_nat n @ '' bytes) exceeds maximum allowed ('' @ show_nat mx
       @ '' bytes) - file may be corrupted''"

text \<open>Validation of an opened file: magic, header length, header, version.\<close>

definition read_header :: "wal_codecs \<Rightarrow> stream_end \<Rightarrow> bytes \<Rightarrow> (WalHeader \<times> bytes) PicanteResult" where
  "read_header cs e bs =
     rbind (read_or ''Failed to read WAL magic bytes: '' 8 e bs) (\<lambda>(magic, bs).
     if magic \<noteq> WAL_MAGIC then
       Inl (Cache (''Invalid WAL magic bytes (expected '' @ debug_bytes WAL_MAGIC @ '', got '' @ debug_bytes magic @ '')''))
     else
     rbind (read_or ''Failed to read WAL header length: '' 4 e bs) (\<lambda>(header_len_bytes, bs).
     let header_len = unat (from_le_bytes header_len_bytes)
     in if MAX_HEADER_LEN < header_len then Inl (Cache (length_exceeds ''header'' header_len MAX_HEADER_LEN))
     else
     rbind (read_or ''Failed to read WAL header: '' header_len e bs) (\<lambda>(header_bytes, bs).
     case dec (header_codec cs) header_bytes of
       Inl m \<Rightarrow> Inl (Decode ''WAL header'' m)
     | Inr header \<Rightarrow>
         if wh_format_version header \<noteq> WAL_FORMAT_VERSION then
           Inl (Cache (''Unsupported WAL format version (expected '' @ show_nat (unat WAL_FORMAT_VERSION) @ '', got ''
             @ show_nat (unat (wh_format_version header)) @ '')''))
         else Inr (header, bs))))"

text \<open>The file is opened, then read in order; the read that fails is the next fault of the schedule.\<close>

definition wal_open :: "wal_codecs \<Rightarrow> path \<Rightarrow> files \<Rightarrow> WalReader PicanteResult \<times> files" where
  "wal_open cs path fs =
     (case syscall fs of
        (Some (m, _), fs1) \<Rightarrow> (Inl (Cache (''Failed to open WAL file at '' @ path @ '': '' @ m)), fs1)
      | (None, fs1) \<Rightarrow>
          (case contents path fs1 of
             None \<Rightarrow> (Inl (Cache (''Failed to open WAL file at '' @ path @ '': '' @ not_found_text)), fs1)
           | Some bs \<Rightarrow>
               (let (f, fs2) = syscall fs1;
                    (e, data) = (case f of Some (m, n) \<Rightarrow> (Broken m, take n bs) | None \<Rightarrow> (AtEof, bs))
                in (rbind (read_header cs e data) (\<lambda>(header, rest).
                      Inr \<lparr>wr_path = path, wr_rest = rest, wr_end = e, wr_header = header\<rparr>), fs2))))"

definition next_entry :: "wal_codecs \<Rightarrow> WalReader \<Rightarrow> WalEntry option PicanteResult \<times> WalReader" where
  "next_entry cs r =
     (case read_exact 4 (wr_end r) (wr_rest r) of
        Inl UnexpectedEof \<Rightarrow> (Inr None, r\<lparr>wr_rest := []\<rparr>)
      | Inl (ReadFailed m) \<Rightarrow> (Inl (Cache (''Failed to read WAL entry length: '' @ m)), r\<lparr>wr_rest := []\<rparr>)
      | Inr (entry_len_bytes, bs) \<Rightarrow>
          (let entry_len = unat (from_le_bytes entry_len_bytes)
           in if MAX_ENTRY_LEN < entry_len then
                (Inl (Cache (length_exceeds ''entry'' entry_len MAX_ENTRY_LEN)), r\<lparr>wr_rest := bs\<rparr>)
              else
                (case read_or ''Failed to read WAL entry: '' entry_len (wr_end r) bs of
                   Inl e \<Rightarrow> (Inl e, r\<lparr>wr_rest := []\<rparr>)
                 | Inr (entry_bytes, bs1) \<Rightarrow>
                     (case dec (entry_codec cs) entry_bytes of
                        Inl m \<Rightarrow> (Inl (Decode ''WAL entry'' m), r\<lparr>wr_rest := bs1\<rparr>)
                      | Inr entry \<Rightarrow> (Inr (Some entry), r\<lparr>wr_rest := bs1\<rparr>)))))"

lemma next_entry_shorter:
  "next_entry cs r = (Inr (Some e), r') \<Longrightarrow> length (wr_rest r') < length (wr_rest r)"
  by (auto simp: next_entry_def read_exact_def read_or_def Let_def split: if_splits stream_end.splits sum.splits)

text \<open>A \<open>for\<close> loop over \<open>entries()\<close> whose body leaves at the first error: the entries and the error.\<close>

function read_entries :: "wal_codecs \<Rightarrow> WalReader \<Rightarrow> WalEntry list \<times> PicanteError option" where
  "read_entries cs r =
     (case next_entry cs r of
        (Inr (Some e), r') \<Rightarrow> (let (es, err) = read_entries cs r' in (e # es, err))
      | (Inr None, r') \<Rightarrow> ([], None)
      | (Inl err, r') \<Rightarrow> ([], Some err))"
  by pat_completeness auto
termination
  by (relation "measure (\<lambda>(cs, r). length (wr_rest r))") (auto dest!: sym [THEN next_entry_shorter])

declare read_entries.simps [simp del]

subsection \<open>Lengths\<close>

lemma length_to_le_bytes [simp]: "length (to_le_bytes n) = 4"
  by (simp add: to_le_bytes_def)

lemma le_bytes_roundtrip: "from_le_bytes (to_le_bytes n) = n"
proof (rule bit_word_eqI)
  fix i assume "i < LENGTH(32)"
  then consider "i < 8" | "8 \<le> i" "i < 16" | "16 \<le> i" "i < 24" | "24 \<le> i" "i < 32" by force
  then show "bit (from_le_bytes (to_le_bytes n)) i = bit n i"
    by cases (auto simp: from_le_bytes_def to_le_bytes_def bit_simps)
qed


subsection \<open>The bytes of a log\<close>

text \<open>The bytes of an entry in the log, and of a list of them.\<close>

definition frame :: "bytes \<Rightarrow> bytes" where
  "frame bs = len_prefix bs @ bs"

definition entry_fits :: "wal_codecs \<Rightarrow> WalEntry \<Rightarrow> bool" where
  "entry_fits cs e = (case enc (entry_codec cs) e of Inl _ \<Rightarrow> False | Inr b \<Rightarrow> length b \<le> MAX_ENTRY_LEN)"

definition encodable :: "wal_codecs \<Rightarrow> WalEntry \<Rightarrow> bool" where
  "encodable cs e = (case enc (entry_codec cs) e of Inl _ \<Rightarrow> False | Inr _ \<Rightarrow> True)"

lemma entry_fits_encodable: "entry_fits cs e \<Longrightarrow> encodable cs e"
  by (simp add: entry_fits_def encodable_def split: sum.splits)

definition entry_frame :: "wal_codecs \<Rightarrow> WalEntry \<Rightarrow> bytes" where
  "entry_frame cs e = (case enc (entry_codec cs) e of Inl _ \<Rightarrow> [] | Inr b \<Rightarrow> frame b)"

definition log_frames :: "wal_codecs \<Rightarrow> WalEntry list \<Rightarrow> bytes" where
  "log_frames cs es = concat (map (entry_frame cs) es)"

lemma log_frames_simps [simp]:
  "log_frames cs [] = []" "log_frames cs (e # es) = entry_frame cs e @ log_frames cs es"
  "log_frames cs (es @ es') = log_frames cs es @ log_frames cs es'"
  by (simp_all add: log_frames_def)

definition torn_error :: PicanteError where
  "torn_error = Cache (''Failed to read WAL entry: '' @ read_text UnexpectedEof)"

lemma length_len_prefix [simp]: "length (len_prefix bs) = 4"
  by (simp add: len_prefix_def)

lemma len_prefix_reads [simp]: "length bs < 2 ^ 32 \<Longrightarrow> unat (from_le_bytes (len_prefix bs)) = length bs"
  by (simp add: len_prefix_def le_bytes_roundtrip unat_of_nat)

lemma read_exact_append [simp]: "n = length bs \<Longrightarrow> read_exact n e (bs @ tl_bs) = Inr (bs, tl_bs)"
  by (simp add: read_exact_def)

lemma next_entry_frame:
  assumes "lawful (entry_codec cs)" and "entry_fits cs e" and "wr_rest r = entry_frame cs e @ tl_bs"
  shows "next_entry cs r = (Inr (Some e), r\<lparr>wr_rest := tl_bs\<rparr>)"
proof -
  obtain b where b: "enc (entry_codec cs) e = Inr b" "length b \<le> MAX_ENTRY_LEN"
    using assms(2) by (auto simp: entry_fits_def split: sum.splits)
  then have "length b < 2 ^ 32" by (simp add: MAX_ENTRY_LEN_def)
  with b assms(1,3) show ?thesis
    by (simp add: next_entry_def entry_frame_def frame_def read_or_def lawfulD)
qed

text \<open>A frame cut short is the end of the log when its length is cut, an error when its body is.\<close>

lemma next_entry_torn:
  assumes "entry_fits cs e" and "n < length (entry_frame cs e)" and "wr_rest r = take n (entry_frame cs e)"
    and "wr_end r = AtEof"
  shows "fst (next_entry cs r) = (if n < 4 then Inr None else Inl torn_error)"
proof -
  obtain b where b: "enc (entry_codec cs) e = Inr b" "length b \<le> MAX_ENTRY_LEN"
    using assms(1) by (auto simp: entry_fits_def split: sum.splits)
  then have "length b < 2 ^ 32" by (simp add: MAX_ENTRY_LEN_def)
  with b assms(2-) show ?thesis
    by (auto simp: next_entry_def entry_frame_def frame_def read_or_def read_exact_def torn_error_def Let_def)
qed

text \<open>The number of leading entries that lie completely within \<open>n\<close> bytes of the log.\<close>

fun whole :: "wal_codecs \<Rightarrow> nat \<Rightarrow> WalEntry list \<Rightarrow> nat" where
  "whole cs n [] = 0"
| "whole cs n (e # es) =
     (if length (entry_frame cs e) \<le> n then Suc (whole cs (n - length (entry_frame cs e)) es) else 0)"

lemma entry_frame_long: "entry_fits cs e \<Longrightarrow> 4 \<le> length (entry_frame cs e)"
  by (auto simp: entry_fits_def entry_frame_def frame_def split: sum.splits)

lemma whole_all: "whole cs (length (log_frames cs es)) es = length es"
  by (induction es) auto

lemma whole_at_least: "length (log_frames cs es) \<le> n \<Longrightarrow> length es \<le> whole cs n (es @ es')"
  by (induction es arbitrary: n) auto

lemma whole_fits: "length (log_frames cs (take (whole cs n es) es)) \<le> n"
proof (induction es arbitrary: n)
  case (Cons e es)
  show ?case using Cons.IH [of "n - length (entry_frame cs e)"] by simp linarith
qed simp

lemma whole_maximal: "whole cs n es < length es \<Longrightarrow> n < length (log_frames cs (take (Suc (whole cs n es)) es))"
proof (induction es arbitrary: n)
  case (Cons e es)
  show ?case
  proof (cases "length (entry_frame cs e) \<le> n")
    case True
    then have "n - length (entry_frame cs e) < length (log_frames cs (take (Suc (whole cs (n - length (entry_frame cs e)) es)) es))"
      by (intro Cons.IH) (use Cons.prems in simp)
    with True show ?thesis by simp
  qed simp
qed simp

lemma whole_le: "whole cs n es \<le> length es"
  by (induction es arbitrary: n) auto

lemma read_entries_prefix:
  assumes "lawful (entry_codec cs)" and "\<forall>e \<in> set es. entry_fits cs e" and "wr_end r = AtEof"
    and "wr_rest r = take n (log_frames cs es)"
  shows "\<exists>err. read_entries cs r = (take (whole cs n es) es, err) \<and> err \<in> {None, Some torn_error}
     \<and> (length (log_frames cs es) \<le> n \<longrightarrow> err = None)"
  using assms(2-)
proof (induction es arbitrary: r n)
  case Nil
  then show ?case by (subst read_entries.simps) (simp add: next_entry_def read_exact_def)
next
  case (Cons e es)
  show ?case
  proof (cases "length (entry_frame cs e) \<le> n")
    case True
    with Cons.prems have "next_entry cs r =
        (Inr (Some e), r\<lparr>wr_rest := take (n - length (entry_frame cs e)) (log_frames cs es)\<rparr>)"
      using next_entry_frame [OF assms(1), of e r] by simp
    with Cons.prems True show ?thesis
      using Cons.IH [of "r\<lparr>wr_rest := take (n - length (entry_frame cs e)) (log_frames cs es)\<rparr>" "n - length (entry_frame cs e)"]
      by (subst read_entries.simps) auto
  next
    case False
    then have "n < length (entry_frame cs e)" by simp
    with Cons.prems have "fst (next_entry cs r) = (if n < 4 then Inr None else Inl torn_error)"
      by (intro next_entry_torn) auto
    with False show ?thesis
      by (subst read_entries.simps) (cases "next_entry cs r", auto)
  qed
qed
subsection \<open>Opening a log\<close>

definition the_header :: "u64 \<Rightarrow> WalHeader" where
  "the_header base_revision = \<lparr>wh_format_version = WAL_FORMAT_VERSION, wh_base_revision = base_revision\<rparr>"

definition header_fits :: "wal_codecs \<Rightarrow> u64 \<Rightarrow> bool" where
  "header_fits cs base_revision =
     (case enc (header_codec cs) (the_header base_revision) of Inl _ \<Rightarrow> False | Inr b \<Rightarrow> length b \<le> MAX_HEADER_LEN)"

definition log_header :: "wal_codecs \<Rightarrow> u64 \<Rightarrow> bytes" where
  "log_header cs base_revision =
     (case enc (header_codec cs) (the_header base_revision) of Inl _ \<Rightarrow> [] | Inr b \<Rightarrow> WAL_MAGIC @ frame b)"

lemma read_header_ok:
  assumes "lawful (header_codec cs)" and "header_fits cs rv"
  shows "read_header cs e (log_header cs rv @ bs) = Inr (the_header rv, bs)"
proof -
  obtain b where b: "enc (header_codec cs) (the_header rv) = Inr b" "length b \<le> MAX_HEADER_LEN"
    using assms(2) by (auto simp: header_fits_def split: sum.splits)
  then have "length b < 2 ^ 32" by (simp add: MAX_HEADER_LEN_def)
  moreover have "read_exact 8 e (WAL_MAGIC @ xs) = Inr (WAL_MAGIC, xs)" for xs
    by (simp add: WAL_MAGIC_def read_exact_def)
  ultimately show ?thesis
    using b assms(1)
    by (simp add: read_header_def log_header_def frame_def read_or_def lawfulD the_header_def)
qed

text \<open>A header that is not complete is refused.\<close>

lemma read_header_torn:
  assumes "header_fits cs rv" and "n < length (log_header cs rv)"
  shows "\<exists>err. read_header cs AtEof (take n (log_header cs rv)) = Inl err"
proof -
  obtain b where b: "enc (header_codec cs) (the_header rv) = Inr b" "length b \<le> MAX_HEADER_LEN"
    using assms(1) by (auto simp: header_fits_def split: sum.splits)
  have len: "length b < 2 ^ 32" using b(2) by (simp add: MAX_HEADER_LEN_def)
  have magic: "length WAL_MAGIC = 8" by (simp add: WAL_MAGIC_def)
  consider "n < 8" | "8 \<le> n" "n < 12" | "12 \<le> n" by linarith
  then show ?thesis
  proof cases
    case 1
    then show ?thesis by (simp add: read_header_def read_or_def read_exact_def min_def)
  next
    case 2
    then obtain m where m: "n = 8 + m" "m < 4" using le_Suc_ex by auto
    then have "take n (log_header cs rv) = WAL_MAGIC @ take m (len_prefix b)"
      using b(1) magic by (simp add: log_header_def frame_def)
    moreover have "length (take m (len_prefix b)) < 4" using m(2) by simp
    ultimately show ?thesis using magic by (simp add: read_header_def read_or_def read_exact_def del: length_take)
  next
    case 3
    then obtain m where m: "n = 12 + m" using le_Suc_ex by blast
    then have "take n (log_header cs rv) = WAL_MAGIC @ len_prefix b @ take m b" "m < length b"
      using b(1) magic assms(2) by (simp_all add: log_header_def frame_def)
    then show ?thesis using len magic b(2) by (simp add: read_header_def read_or_def read_exact_def)
  qed
qed

lemma wal_open_torn:
  assumes "header_fits cs rv" and "n < length (log_header cs rv)" and "fs_faults fs = []"
    and "contents p fs = Some (take n (log_header cs rv))"
  shows "\<exists>err. wal_open cs p fs = (Inl err, fs)"
  using read_header_torn [OF assms(1,2)] assms(3,4) by (auto simp: wal_open_def)

lemma wal_open_ok:
  assumes "lawful (header_codec cs)" and "header_fits cs rv" and "fs_faults fs = []"
    and "contents p fs = Some (log_header cs rv @ bs)"
  shows "wal_open cs p fs =
     (Inr \<lparr>wr_path = p, wr_rest = bs, wr_end = AtEof, wr_header = the_header rv\<rparr>, fs)"
  using assms by (simp add: wal_open_def read_header_ok)

subsection \<open>Appending\<close>

fun append_all :: "wal_codecs \<Rightarrow> WalEntry list \<Rightarrow> WalWriter \<Rightarrow> files \<Rightarrow> unit PicanteResult \<times> WalWriter \<times> files" where
  "append_all cs [] w fs = (Inr (), w, fs)"
| "append_all cs (e # es) w fs =
     (case wal_append cs e w fs of
        (Inl err, w1, fs1) \<Rightarrow> (Inl err, w1, fs1)
      | (Inr _, w1, fs1) \<Rightarrow> append_all cs es w1 fs1)"

text \<open>
  A writer whose log, on disk and in the buffer, is \<open>log\<close>, and of which all but the last
  \<open>entries_since_flush\<close> entries \<open>done\<close> are on disk.
\<close>

definition writer_at :: "wal_codecs \<Rightarrow> bytes \<Rightarrow> WalEntry list \<Rightarrow> WalWriter \<Rightarrow> files \<Rightarrow> bool" where
  "writer_at cs hdr written w fs \<longleftrightarrow>
     fs_faults fs = [] \<and> bw_file (ww_writer w) < length (fs_data fs)
     \<and> tget (fs_dir fs) (ww_path w) = Some (bw_file (ww_writer w))
     \<and> written_bytes (ww_writer w) fs = hdr @ log_frames cs written
     \<and> ww_entries_since_flush w \<le> length written
     \<and> (ww_entries_since_flush w = 0 \<or> ww_entries_since_flush w < ww_auto_flush_threshold w)
     \<and> length (hdr @ log_frames cs (take (length written - ww_entries_since_flush w) written))
         \<le> length (fs_data fs ! bw_file (ww_writer w))"

lemma wal_flush_ok:
  assumes "fs_faults fs = []" and "bw_file (ww_writer w) < length (fs_data fs)"
  shows "wal_flush w fs = (Inr (), w\<lparr>ww_writer := (ww_writer w)\<lparr>bw_buf := []\<rparr>, ww_entries_since_flush := 0\<rparr>,
     set_data (bw_file (ww_writer w)) (written_bytes (ww_writer w) fs) fs)"
  using assms by (simp add: wal_flush_def wal_flush_file_def flush_buf_ok)

lemma wal_flush_writer_at:
  assumes "fs_faults fs = []" and "bw_file (ww_writer w) < length (fs_data fs)"
    and "tget (fs_dir fs) (ww_path w) = Some (bw_file (ww_writer w))"
    and "written_bytes (ww_writer w) fs = hdr @ log_frames cs written"
  shows "\<exists>w' fs'. wal_flush w fs = (Inr (), w', fs') \<and> writer_at cs hdr written w' fs'
     \<and> ww_path w' = ww_path w \<and> ww_auto_flush_threshold w' = ww_auto_flush_threshold w
     \<and> fs_dir fs' = fs_dir fs \<and> contents (ww_path w) fs' = Some (hdr @ log_frames cs written)"
  using assms by (auto simp: wal_flush_ok writer_at_def written_bytes_def contents_def)

lemma wal_append_ok:
  assumes "writer_at cs hdr written w fs" and "encodable cs e"
  shows "\<exists>w' fs'. wal_append cs e w fs = (Inr (), w', fs') \<and> writer_at cs hdr (written @ [e]) w' fs'
     \<and> ww_path w' = ww_path w \<and> ww_auto_flush_threshold w' = ww_auto_flush_threshold w \<and> fs_dir fs' = fs_dir fs"
proof -
  obtain b where b: "enc (entry_codec cs) e = Inr b" "entry_frame cs e = len_prefix b @ b"
    using assms(2) by (auto simp: encodable_def entry_frame_def frame_def split: sum.splits)
  note at = assms(1) [unfolded writer_at_def]
  obtain b1 fs1 where 1: "buf_write_all (len_prefix b) (ww_writer w) fs = (Inr (), b1, fs1)"
      "written_bytes b1 fs1 = written_bytes (ww_writer w) fs @ len_prefix b"
      "bw_file b1 = bw_file (ww_writer w)" "fs_faults fs1 = []" "fs_dir fs1 = fs_dir fs"
      "length (fs_data fs1) = length (fs_data fs)"
      "length (fs_data fs ! bw_file (ww_writer w)) \<le> length (fs_data fs1 ! bw_file (ww_writer w))"
    using buf_write_all_ok [of fs "ww_writer w" "len_prefix b"] at by force
  obtain b2 fs2 where 2: "buf_write_all b b1 fs1 = (Inr (), b2, fs2)"
      "written_bytes b2 fs2 = written_bytes b1 fs1 @ b"
      "bw_file b2 = bw_file b1" "fs_faults fs2 = []" "fs_dir fs2 = fs_dir fs1"
      "length (fs_data fs2) = length (fs_data fs1)"
      "length (fs_data fs1 ! bw_file b1) \<le> length (fs_data fs2 ! bw_file b1)"
    using buf_write_all_ok [of fs1 b1 b] 1 at by force
  let ?w1 = "w\<lparr>ww_writer := b2, ww_entries_since_flush := Suc (ww_entries_since_flush w)\<rparr>"
  have app: "wal_append cs e w fs = (if ww_auto_flush_threshold w \<le> Suc (ww_entries_since_flush w)
      then wal_flush ?w1 fs2 else (Inr (), ?w1, fs2))"
    using 1 2 b by (simp add: wal_append_def wal_write_def)
  have wr: "written_bytes b2 fs2 = hdr @ log_frames cs (written @ [e])"
    using 1 2 b at by simp
  show ?thesis
  proof (cases "ww_auto_flush_threshold w \<le> Suc (ww_entries_since_flush w)")
    case True
    with wal_flush_writer_at [of fs2 ?w1 hdr cs "written @ [e]"] app wr 1 2 at show ?thesis by auto
  next
    case False
    then show ?thesis using app wr 1 2 at by (auto simp: writer_at_def)
  qed
qed

lemma append_all_ok:
  assumes "writer_at cs hdr written w fs" and "\<forall>e \<in> set es. encodable cs e"
  shows "\<exists>w' fs'. append_all cs es w fs = (Inr (), w', fs') \<and> writer_at cs hdr (written @ es) w' fs'
     \<and> ww_path w' = ww_path w \<and> ww_auto_flush_threshold w' = ww_auto_flush_threshold w \<and> fs_dir fs' = fs_dir fs"
  using assms
proof (induction es arbitrary: written w fs)
  case Nil
  then show ?case by simp
next
  case (Cons e es)
  obtain w1 fs1 where 1: "wal_append cs e w fs = (Inr (), w1, fs1)" "writer_at cs hdr (written @ [e]) w1 fs1"
      "ww_path w1 = ww_path w" "ww_auto_flush_threshold w1 = ww_auto_flush_threshold w" "fs_dir fs1 = fs_dir fs"
    using wal_append_ok [OF Cons.prems(1)] Cons.prems(2) by force
  show ?case using Cons.IH [OF 1(2)] Cons.prems(2) 1 by simp
qed


definition buffered_at :: "nat \<Rightarrow> (path, nat) table \<Rightarrow> bytes \<Rightarrow> bufw \<times> files \<Rightarrow> bool" where
  "buffered_at i dir log = (\<lambda>(w, fs). fs_faults fs = [] \<and> bw_file w = i \<and> i < length (fs_data fs)
     \<and> fs_dir fs = dir \<and> written_bytes w fs = log)"

lemma wal_write_ok:
  assumes "buffered_at i dir log st"
  shows "\<exists>st'. wal_write msg bs st = (Inr (), st') \<and> buffered_at i dir (log @ bs) st'"
proof (cases st)
  case (Pair w fs)
  then show ?thesis
    using assms buf_write_all_ok [of fs w bs] by (force simp: buffered_at_def wal_write_def)
qed

lemma write_header_ok:
  assumes "buffered_at i dir [] st" and "header_fits cs rv"
  shows "\<exists>w fs. write_header cs rv st = (Inr (), w, fs) \<and> buffered_at i dir (log_header cs rv) (w, fs)
     \<and> fs_data fs ! i = log_header cs rv"
proof -
  obtain b where b: "enc (header_codec cs) (the_header rv) = Inr b" "log_header cs rv = WAL_MAGIC @ len_prefix b @ b"
    using assms(2) by (auto simp: header_fits_def log_header_def frame_def split: sum.splits)
  obtain s1 where 1: "wal_write ''Failed to write WAL magic bytes: '' WAL_MAGIC st = (Inr (), s1)"
      "buffered_at i dir WAL_MAGIC s1"
    using wal_write_ok [OF assms(1)] by (metis append_Nil)
  obtain s2 where 2: "wal_write ''Failed to write WAL header length: '' (len_prefix b) s1 = (Inr (), s2)"
      "buffered_at i dir (WAL_MAGIC @ len_prefix b) s2"
    using wal_write_ok [OF 1(2)] by metis
  obtain s3 where 3: "wal_write ''Failed to write WAL header: '' b s2 = (Inr (), s3)"
      "buffered_at i dir (WAL_MAGIC @ len_prefix b @ b) s3"
    using wal_write_ok [OF 2(2)] by (metis append_assoc)
  then show ?thesis
    using 1 2 b by (cases s3) (auto simp: write_header_def the_header_def wal_flush_file_def flush_buf_ok
        buffered_at_def written_bytes_def)
qed

lemma create_ok:
  assumes "fs_wf fs" and "fs_faults fs = []" and "header_fits cs rv"
  shows "\<exists>w fs1. create_with_threshold cs p rv th fs = (Inr w, fs1) \<and> writer_at cs (log_header cs rv) [] w fs1
     \<and> ww_path w = p \<and> ww_auto_flush_threshold w = th \<and> ww_base_revision w = rv"
proof -
  obtain i fs0 where 0: "create_file p fs = (Inr i, fs0)" "tget (fs_dir fs0) p = Some i"
      "buffered_at i (fs_dir fs0) [] (\<lparr>bw_file = i, bw_buf = []\<rparr>, fs0)"
    using assms(1,2) by (cases "tget (fs_dir fs) p")
      (auto simp: create_file_def buffered_at_def written_bytes_def fs_wf_def set_data_def)
  show ?thesis
    using write_header_ok [OF 0(3) assms(3)] 0
    by (auto simp: create_with_threshold_def writer_at_def buffered_at_def)
qed

lemma wal_drop_ok:
  assumes "writer_at cs hdr written w fs"
  shows "contents (ww_path w) (wal_drop w fs) = Some (hdr @ log_frames cs written) \<and> fs_faults (wal_drop w fs) = []"
  using assms by (auto simp: wal_drop_def writer_at_def wal_flush_ok drop_buf_def flush_buf_def contents_def)

lemma read_entries_oversized:
  assumes "lawful (entry_codec cs)" and "\<forall>e \<in> set es. entry_fits cs e"
    and "enc (entry_codec cs) e = Inr b" and "MAX_ENTRY_LEN < length b" and "length b < 2 ^ 32"
    and "wr_rest r = log_frames cs (es @ e # es')"
  shows "read_entries cs r = (es, Some (Cache (length_exceeds ''entry'' (length b) MAX_ENTRY_LEN)))"
  using assms(2,6)
proof (induction es arbitrary: r)
  case Nil
  with assms(3-5) show ?case
    by (subst read_entries.simps) (simp add: next_entry_def entry_frame_def frame_def Let_def)
next
  case (Cons x es)
  have "next_entry cs r = (Inr (Some x), r\<lparr>wr_rest := log_frames cs (es @ e # es')\<rparr>)"
    using next_entry_frame [OF assms(1), of x r] Cons.prems by simp
  with Cons.IH [of "r\<lparr>wr_rest := log_frames cs (es @ e # es')\<rparr>"] Cons.prems show ?case
    by (subst read_entries.simps) simp
qed

lemma read_entries_torn:
  assumes "lawful (entry_codec cs)" and "\<forall>e \<in> set es. entry_fits cs e"
    and "entry_fits cs e" and "4 \<le> n" and "n < length (entry_frame cs e)"
    and "wr_rest r = log_frames cs es @ take n (entry_frame cs e)" and "wr_end r = AtEof"
  shows "read_entries cs r = (es, Some torn_error)"
  using assms(2,6,7)
proof (induction es arbitrary: r)
  case Nil
  then have "fst (next_entry cs r) = Inl torn_error"
    using next_entry_torn [OF assms(3,5), of r] assms(4) by simp
  then show ?case by (subst read_entries.simps) (cases "next_entry cs r", simp)
next
  case (Cons x es)
  let ?r = "r\<lparr>wr_rest := log_frames cs es @ take n (entry_frame cs e)\<rparr>"
  have "next_entry cs r = (Inr (Some x), ?r)"
    using next_entry_frame [OF assms(1), of x r] Cons.prems by simp
  with Cons.IH [of ?r] Cons.prems show ?case
    by (subst read_entries.simps) simp
qed

subsection \<open>A small wire format\<close>

text \<open>One-byte numbers and key lengths: an instance of the serialisation parameter for the examples.\<close>

definition small_header_codec :: "WalHeader codec" where
  "small_header_codec =
     \<lparr>enc = (\<lambda>h. if unat (wh_format_version h) < 256 \<and> unat (wh_base_revision h) < 256
        then Inr [ucast (wh_format_version h), ucast (wh_base_revision h)] else Inl ''number too large''),
      dec = (\<lambda>bs. case bs of [v, r] \<Rightarrow> Inr \<lparr>wh_format_version = ucast v, wh_base_revision = ucast r\<rparr>
        | _ \<Rightarrow> Inl ''bad header'')\<rparr>"

definition small_entry_codec :: "WalEntry codec" where
  "small_entry_codec =
     \<lparr>enc = (\<lambda>e. if unat (we_revision e) < 256 \<and> unat (we_kind_id e) < 256
        then case we_operation e of
          WalDelete k \<Rightarrow> Inr (ucast (we_revision e) # ucast (we_kind_id e) # 0 # k)
        | WalSet k v \<Rightarrow> if length k < 256
            then Inr (ucast (we_revision e) # ucast (we_kind_id e) # 1 # word_of_nat (length k) # k @ v)
            else Inl ''key too long''
        else Inl ''number too large''),
      dec = (\<lambda>bs. case bs of
          r # k # t # rest \<Rightarrow>
            if t = 0 then Inr \<lparr>we_revision = ucast r, we_kind_id = ucast k, we_operation = WalDelete rest\<rparr>
            else (case rest of
              n # rest \<Rightarrow> Inr \<lparr>we_revision = ucast r, we_kind_id = ucast k,
                we_operation = WalSet (take (unat n) rest) (drop (unat n) rest)\<rparr>
            | [] \<Rightarrow> Inl ''bad entry'')
        | _ \<Rightarrow> Inl ''bad entry'')\<rparr>"

definition small_codecs :: wal_codecs where
  "small_codecs = \<lparr>header_codec = small_header_codec, entry_codec = small_entry_codec\<rparr>"

lemma ucast_byte:
  fixes x :: "'a::len word"
  assumes "unat x < 256" and "8 \<le> LENGTH('a)"
  shows "ucast (ucast x :: 8 word) = x"
proof -
  have "take_bit LENGTH('a) (unat x) = unat x" and "take_bit 8 (unat x) = unat x"
    using assms(1) by (simp_all add: take_bit_nat_eq_self)
  then show ?thesis by (simp add: word_unat_eq_iff unsigned_ucast_eq unsigned_take_bit_eq)
qed

lemma lawful_small_header: "lawful small_header_codec"
  by (auto simp: lawful_def small_header_codec_def ucast_byte split: if_splits)

lemma lawful_small_entry: "lawful small_entry_codec"
  by (auto simp: lawful_def small_entry_codec_def ucast_byte unat_of_nat
        intro!: WalEntry.equality split: if_splits WalOperation.splits)

lemma lawful_small [simp]: "lawful (header_codec small_codecs)" "lawful (entry_codec small_codecs)"
  by (simp_all add: small_codecs_def lawful_small_header lawful_small_entry)

definition no_files :: files where
  "no_files = \<lparr>fs_dir = [], fs_data = [], fs_faults = []\<rparr>"

definition sample_entries :: "WalEntry list" where
  "sample_entries =
     [\<lparr>we_revision = 6, we_kind_id = 1, we_operation = WalSet [1] [10, 11]\<rparr>,
      \<lparr>we_revision = 7, we_kind_id = 1, we_operation = WalDelete [1]\<rparr>,
      \<lparr>we_revision = 8, we_kind_id = 2, we_operation = WalSet [] []\<rparr>]"

lemma sample_fits [simp]: "header_fits small_codecs 5" "\<forall>e \<in> set sample_entries. entry_fits small_codecs e"
  "fs_wf no_files" "fs_faults no_files = []"
  by (simp_all add: header_fits_def the_header_def small_codecs_def small_header_codec_def MAX_HEADER_LEN_def
      WAL_FORMAT_VERSION_def sample_entries_def entry_fits_def small_entry_codec_def MAX_ENTRY_LEN_def
      fs_wf_def no_files_def twf_def)

subsection \<open>The log keeps what was appended\<close>



text \<open>
  C9. A crash loses only what was not handed to the system and never shows a wrong entry. A log is created and entries are
  appended to it without a fault, header and entries being small enough to be read; a crash leaves any leading part
  of it, of any length \<open>n\<close>, on disk. If the header is not complete the reader refuses the log. Else it opens with its
  base revision, and the reader returns exactly the entries that lie completely within that part: \<open>k\<close> of
  them, no fewer and no more. If the part has at least what the writer had handed to the system (there is no
  \<open>fsync\<close>, so a crash of the machine may leave less), then fewer than the flush threshold are missing.
\<close>

theorem wal_crash_safety:
  assumes "lawful (header_codec cs)" and "lawful (entry_codec cs)"
    and "header_fits cs base_revision" and "\<forall>e \<in> set es. entry_fits cs e"
    and "fs_wf fs" and "fs_faults fs = []"
    and "create_with_threshold cs p base_revision threshold fs = (Inr w, fs1)"
    and "append_all cs es w fs1 = (Inr (), w1, fs2)"
    and "fs_faults crashed = []"
    and "contents p crashed = Some (take n (written_bytes (ww_writer w1) fs2))"
  shows "if n < length (log_header cs base_revision) then \<exists>err. wal_open cs p crashed = (Inl err, crashed)
     else \<exists>r k err. wal_open cs p crashed = (Inr r, crashed) \<and> wh_base_revision (wr_header r) = base_revision
       \<and> read_entries cs r = (take k es, err) \<and> err \<in> {None, Some torn_error} \<and> k \<le> length es
       \<and> length (log_header cs base_revision @ log_frames cs (take k es)) \<le> n
       \<and> (k < length es \<longrightarrow> n < length (log_header cs base_revision @ log_frames cs (take (Suc k) es)))
       \<and> (length (fs_data fs2 ! bw_file (ww_writer w1)) \<le> n \<longrightarrow> length es - k < max 1 threshold)"
proof -
  let ?hdr = "log_header cs base_revision"
  have 1: "writer_at cs ?hdr [] w fs1" "ww_auto_flush_threshold w = threshold"
    using create_ok [OF assms(5,6,3), of p threshold] assms(7) by auto
  have 2: "writer_at cs ?hdr es w1 fs2" "ww_auto_flush_threshold w1 = threshold"
    using append_all_ok [OF 1(1), of es] assms(4,8) entry_fits_encodable 1(2) by auto
  note at = 2(1) [unfolded writer_at_def]
  have disk: "contents p crashed = Some (take n (?hdr @ log_frames cs es))" using assms(10) at by simp
  show ?thesis
  proof (cases "n < length ?hdr")
    case True
    then have "contents p crashed = Some (take n ?hdr)" using disk by simp
    from wal_open_torn [OF assms(3) True assms(9) this] True show ?thesis by simp
  next
    case False
    define m where "m = n - length ?hdr"
    have n: "n = length ?hdr + m" using False by (simp add: m_def)
    define k where "k = whole cs m es"
    have "contents p crashed = Some (?hdr @ take m (log_frames cs es))" using disk n by simp
    note opened = wal_open_ok [OF assms(1,3,9) this]
    define j where "j = length es - ww_entries_since_flush w1"
    have few: "length es - k < max 1 threshold" if "length (fs_data fs2 ! bw_file (ww_writer w1)) \<le> n"
    proof -
      have "length (log_frames cs (take j es)) \<le> m" using at that n unfolding j_def by simp
      then have "length (take j es) \<le> k"
        using whole_at_least [of cs "take j es" m "drop j es"] by (simp add: k_def)
      then show ?thesis using at 2(2) by (auto simp: j_def)
    qed
    obtain err where "read_entries cs \<lparr>wr_path = p, wr_rest = take m (log_frames cs es), wr_end = AtEof,
        wr_header = the_header base_revision\<rparr> = (take k es, err)" "err \<in> {None, Some torn_error}"
      using read_entries_prefix [OF assms(2,4), of "\<lparr>wr_path = p, wr_rest = take m (log_frames cs es), wr_end = AtEof,
        wr_header = the_header base_revision\<rparr>" m] by (auto simp: k_def)
    moreover have "length (log_frames cs (take k es)) \<le> m" "k < length es \<Longrightarrow> m < length (log_frames cs (take (Suc k) es))"
      "k \<le> length es"
      unfolding k_def by (rule whole_fits, erule whole_maximal, rule whole_le)
    ultimately show ?thesis using False opened few n by (auto simp: the_header_def)
  qed
qed

lemma disk_is_a_prefix:
  assumes "writer_at cs hdr written w fs"
  shows "fs_faults fs = []" and "contents (ww_path w) fs
     = Some (take (length (fs_data fs ! bw_file (ww_writer w))) (written_bytes (ww_writer w) fs))"
proof -
  have "take (length (fs_data fs ! bw_file (ww_writer w))) (written_bytes (ww_writer w) fs)
      = fs_data fs ! bw_file (ww_writer w)"
    by (simp add: written_bytes_def)
  then show "fs_faults fs = []" and "contents (ww_path w) fs
     = Some (take (length (fs_data fs ! bw_file (ww_writer w))) (written_bytes (ww_writer w) fs))"
    using assms by (simp_all only: writer_at_def contents_def option.map)
qed

theorem wal_crash_safety_witness:
  "\<exists>w fs1 w1 fs2 r k err. create_with_threshold small_codecs ''cache.wal'' 5 2 no_files = (Inr w, fs1)
     \<and> append_all small_codecs sample_entries w fs1 = (Inr (), w1, fs2)
     \<and> wal_open small_codecs ''cache.wal'' fs2 = (Inr r, fs2) \<and> wh_base_revision (wr_header r) = 5
     \<and> read_entries small_codecs r = (take k sample_entries, err) \<and> err \<in> {None, Some torn_error}
     \<and> k \<le> length sample_entries \<and> length sample_entries - k < max 1 2"
proof -
  obtain w fs1 where 1: "create_with_threshold small_codecs ''cache.wal'' 5 2 no_files = (Inr w, fs1)"
      "writer_at small_codecs (log_header small_codecs 5) [] w fs1" "ww_path w = ''cache.wal''"
    using create_ok [OF sample_fits(3,4,1)] by blast
  obtain w1 fs2 where 2: "append_all small_codecs sample_entries w fs1 = (Inr (), w1, fs2)"
      "writer_at small_codecs (log_header small_codecs 5) sample_entries w1 fs2" "ww_path w1 = ''cache.wal''"
    using append_all_ok [OF 1(2), of sample_entries] sample_fits(2) entry_fits_encodable 1(3) by auto
  note 3 = disk_is_a_prefix [OF 2(2), unfolded 2(3)]
  have "\<not> length (fs_data fs2 ! bw_file (ww_writer w1)) < length (log_header small_codecs 5)"
    using 2(2) by (simp add: writer_at_def)
  then show ?thesis
    using wal_crash_safety [OF lawful_small sample_fits 1(1) 2(1) 3] 1(1) 2(1) by auto
qed

text \<open>
  The writer accepts what the reader refuses: an entry longer than 100,000,000 bytes is appended without an
  error, and from then on the log reads only up to it; every entry after it is lost.
\<close>

theorem oversized_entry_hides_the_rest:
  assumes "lawful (header_codec cs)" and "lawful (entry_codec cs)"
    and "header_fits cs base_revision" and "\<forall>e \<in> set es. entry_fits cs e"
    and "fs_wf fs" and "fs_faults fs = []"
    and "enc (entry_codec cs) e = Inr b" and "MAX_ENTRY_LEN < length b" and "length b < 2 ^ 32"
    and "\<forall>e \<in> set es'. encodable cs e"
  shows "\<exists>w fs1 w1 fs2 r. create_with_threshold cs p base_revision threshold fs = (Inr w, fs1)
     \<and> append_all cs (es @ e # es') w fs1 = (Inr (), w1, fs2)
     \<and> wal_open cs p (wal_drop w1 fs2) = (Inr r, wal_drop w1 fs2)
     \<and> read_entries cs r = (es, Some (Cache (length_exceeds ''entry'' (length b) MAX_ENTRY_LEN)))"
proof -
  obtain w fs1 where 1: "create_with_threshold cs p base_revision threshold fs = (Inr w, fs1)"
      "writer_at cs (log_header cs base_revision) [] w fs1" "ww_path w = p"
    using create_ok assms by blast
  have "\<forall>x \<in> set (es @ e # es'). encodable cs x"
    using assms(4,7,10) entry_fits_encodable by (auto simp: encodable_def)
  then obtain w1 fs2 where 2: "append_all cs (es @ e # es') w fs1 = (Inr (), w1, fs2)"
      "writer_at cs (log_header cs base_revision) (es @ e # es') w1 fs2" "ww_path w1 = p"
    using append_all_ok [OF 1(2)] 1(3) by (metis append_Nil)
  note on_disk = wal_drop_ok [OF 2(2), unfolded 2(3)]
  let ?r = "\<lparr>wr_path = p, wr_rest = log_frames cs (es @ e # es'), wr_end = AtEof, wr_header = the_header base_revision\<rparr>"
  have "read_entries cs ?r = (es, Some (Cache (length_exceeds ''entry'' (length b) MAX_ENTRY_LEN)))"
    by (rule read_entries_oversized [OF assms(2,4,7-9)]) simp
  then show ?thesis
    using 1 2 wal_open_ok [OF assms(1,3)] on_disk by auto
qed

definition big_entry :: WalEntry where
  "big_entry = \<lparr>we_revision = 7, we_kind_id = 1, we_operation = WalSet [] (replicate 100000000 0)\<rparr>"

definition big_bytes :: bytes where
  "big_bytes = 7 # 1 # 1 # 0 # replicate 100000000 0"

lemma big_entry_facts:
  "enc (entry_codec small_codecs) big_entry = Inr big_bytes" "MAX_ENTRY_LEN < length big_bytes"
  "length big_bytes < 2 ^ 32"
  by (simp_all add: small_codecs_def small_entry_codec_def big_entry_def big_bytes_def MAX_ENTRY_LEN_def)

theorem oversized_entry_hides_the_rest_witness:
  "\<exists>w fs1 w1 fs2 r. create_with_threshold small_codecs ''cache.wal'' 5 100 no_files = (Inr w, fs1)
     \<and> append_all small_codecs (sample_entries @ big_entry # sample_entries) w fs1 = (Inr (), w1, fs2)
     \<and> wal_open small_codecs ''cache.wal'' (wal_drop w1 fs2) = (Inr r, wal_drop w1 fs2)
     \<and> read_entries small_codecs r
        = (sample_entries, Some (Cache (length_exceeds ''entry'' (length big_bytes) MAX_ENTRY_LEN)))"
proof -
  have "\<forall>e \<in> set sample_entries. encodable small_codecs e"
    using sample_fits(2) entry_fits_encodable by blast
  then show ?thesis
    by (rule oversized_entry_hides_the_rest [OF lawful_small sample_fits big_entry_facts])
qed

end
