(* ===== verification/Interned.thy ===== *)
theory Interned
  imports Frames Interfaces
begin

text \<open>
  \<open>ingredient/interned.rs\<close>: values with stable 32-bit ids. The two hash maps are tables,
  \<open>next_id\<close> is a 32-bit word whose \<open>fetch_add\<close> wraps around. A function that leaves half of its
  work behind on an error (\<open>load_records\<close>) returns the state it leaves beside its result.

  The theorems: interning is a bijection between the ids handed out and the values, save
  and load restore it, and the two ways in which ids stop being stable: an id at the top of
  the 32-bit range, and a load that fails half-way.
\<close>

subsection \<open>State\<close>

datatype InternId = InternId (intern_id: u32)

record 'a Interned =
  in_kind :: QueryKindId
  in_kind_name :: string
  in_next_id :: u32
  in_by_value :: "(Key, InternId) table"
  in_by_id :: "(InternId, 'a) table"

definition interned_new :: "QueryKindId \<Rightarrow> string \<Rightarrow> 'a Interned" where
  "interned_new kind kind_name =
     \<lparr>in_kind = kind, in_kind_name = kind_name, in_next_id = 0, in_by_value = [], in_by_id = []\<rparr>"

record 'a InternedRecord =
  ir_id :: u32
  ir_value :: 'a

subsection \<open>Operations\<close>

definition intern :: "hasher \<Rightarrow> 'a codec \<Rightarrow> 'a \<Rightarrow> 'a Interned \<Rightarrow> InternId PicanteResult \<times> 'a Interned" where
  "intern sh vc value s =
     (case encode_facet sh vc value of
        Inl e \<Rightarrow> (Inl e, s)
      | Inr key \<Rightarrow>
          (case tget (in_by_value s) key of
             Some i \<Rightarrow> (Inr i, s)
           | None \<Rightarrow>
               (let i = InternId (in_next_id s)
                in (Inr i, s\<lparr>in_next_id := in_next_id s + 1,
                             in_by_id := tinsert i value (in_by_id s),
                             in_by_value := tinsert key i (in_by_value s)\<rparr>))))"

definition interned_get ::
  "hasher \<Rightarrow> InternId codec \<Rightarrow> InternId \<Rightarrow> 'a Interned \<Rightarrow> task \<Rightarrow> 'a PicanteResult \<times> task" where
  "interned_get sh idc i s t =
     (let lookup = (case tget (in_by_id s) i of
                      Some v \<Rightarrow> Inr v
                    | None \<Rightarrow> Inl (MissingInternedValue (in_kind s) (intern_id i)))
      in if has_active_frame t
         then (case encode_facet sh idc i of
                 Inl e \<Rightarrow> (Inl e, t)
               | Inr key \<Rightarrow> (lookup, record_dep \<lparr>dep_kind = in_kind s, dep_key = key\<rparr> t))
         else (lookup, t))"

definition interned_clear :: "'a Interned \<Rightarrow> 'a Interned" where
  "interned_clear s = s\<lparr>in_by_value := [], in_by_id := [], in_next_id := 0\<rparr>"

definition interned_save_records :: "'a InternedRecord codec \<Rightarrow> 'a Interned \<Rightarrow> bytes list PicanteResult" where
  "interned_save_records rc s =
     mapM (\<lambda>(i, value).
             case enc rc \<lparr>ir_id = intern_id i, ir_value = value\<rparr> of
               Inl m \<Rightarrow> Inl (Encode ''interned record'' m)
             | Inr bs \<Rightarrow> Inr bs)
          (sort_key (\<lambda>(i, _). intern_id i) (in_by_id s))"

definition saturating_succ32 :: "u32 \<Rightarrow> u32" where
  "saturating_succ32 n = (if n = - 1 then n else n + 1)"

definition duplicate_id_message :: "u32 \<Rightarrow> string \<Rightarrow> string" where
  "duplicate_id_message i name =
     ''duplicate interned id '' @ show_nat (unat i) @ '' in `'' @ name @ ''`''"

definition duplicate_value_message :: "u32 \<Rightarrow> u32 \<Rightarrow> string \<Rightarrow> string" where
  "duplicate_value_message existing i name =
     ''duplicate interned value for `'' @ name @ ''` (ids '' @ show_nat (unat existing) @ '' and ''
     @ show_nat (unat i) @ '')''"

text \<open>The loop of \<open>load_records\<close>: the maximal id, or the error that leaves the loop.\<close>

fun interned_load_loop ::
  "hasher \<Rightarrow> 'a codec \<Rightarrow> 'a InternedRecord codec \<Rightarrow> bytes list \<Rightarrow> u32 \<Rightarrow> 'a Interned
   \<Rightarrow> u32 PicanteResult \<times> 'a Interned" where
  "interned_load_loop sh vc rc [] max_id s = (Inr max_id, s)"
| "interned_load_loop sh vc rc (bs # rest) max_id s =
     (case dec rc bs of
        Inl m \<Rightarrow> (Inl (Decode ''interned record'' m), s)
      | Inr rec \<Rightarrow>
          (let i = InternId (ir_id rec); max_id' = max max_id (intern_id i)
           in if tget (in_by_id s) i \<noteq> None
              then (Inl (Cache (duplicate_id_message (intern_id i) (in_kind_name s))), s)
              else (case encode_facet sh vc (ir_value rec) of
                      Inl e \<Rightarrow> (Inl e, s)
                    | Inr key \<Rightarrow>
                        (let s1 = s\<lparr>in_by_value := tinsert key i (in_by_value s)\<rparr>
                         in case tget (in_by_value s) key of
                              Some existing \<Rightarrow>
                                (Inl (Cache (duplicate_value_message (intern_id existing) (intern_id i)
                                       (in_kind_name s))), s1)
                            | None \<Rightarrow>
                                interned_load_loop sh vc rc rest max_id'
                                  (s1\<lparr>in_by_id := tinsert i (ir_value rec) (in_by_id s1)\<rparr>)))))"

definition interned_load_records ::
  "hasher \<Rightarrow> 'a codec \<Rightarrow> 'a InternedRecord codec \<Rightarrow> bytes list \<Rightarrow> 'a Interned
   \<Rightarrow> unit PicanteResult \<times> 'a Interned" where
  "interned_load_records sh vc rc records s =
     (case interned_load_loop sh vc rc records 0 (interned_clear s) of
        (Inl e, s') \<Rightarrow> (Inl e, s')
      | (Inr max_id, s') \<Rightarrow> (Inr (), s'\<lparr>in_next_id := saturating_succ32 max_id\<rparr>))"

definition interned_save_incremental_records ::
  "u64 \<Rightarrow> 'a Interned \<Rightarrow> (u64 \<times> bytes \<times> bytes option) list PicanteResult" where
  "interned_save_incremental_records since_revision s = Inr []"

definition interned_apply_wal_entry ::
  "hasher \<Rightarrow> 'a codec \<Rightarrow> 'a InternedRecord codec \<Rightarrow> u64 \<Rightarrow> bytes \<Rightarrow> bytes option \<Rightarrow> 'a Interned
   \<Rightarrow> unit PicanteResult \<times> 'a Interned" where
  "interned_apply_wal_entry sh vc rc revision key value s =
     (case value of
        None \<Rightarrow> (Inr (), s)
      | Some value_bytes \<Rightarrow>
          (case dec rc value_bytes of
             Inl m \<Rightarrow> (Inl (Decode ''interned record from WAL'' m), s)
           | Inr rec \<Rightarrow>
               (let i = InternId (ir_id rec)
                in case encode_facet sh vc (ir_value rec) of
                     Inl e \<Rightarrow> (Inl e, s)
                   | Inr k \<Rightarrow>
                       (let s1 = s\<lparr>in_by_id := tinsert i (ir_value rec) (in_by_id s),
                                   in_by_value := tinsert k i (in_by_value s)\<rparr>
                        in (Inr (), if in_next_id s \<le> intern_id i
                                    then s1\<lparr>in_next_id := saturating_succ32 (intern_id i)\<rparr>
                                    else s1)))))"

definition interned_touch :: "InternId codec \<Rightarrow> Key \<Rightarrow> 'a Interned \<Rightarrow> Revision PicanteResult" where
  "interned_touch idc key s =
     (case decode_facet idc key of
        Inl e \<Rightarrow> Inl e
      | Inr i \<Rightarrow> (case tget (in_by_id s) i of
                    None \<Rightarrow> Inl (MissingInternedValue (in_kind s) (intern_id i))
                  | Some _ \<Rightarrow> Inr (Revision 0)))"

subsection \<open>The bijection\<close>

definition intern_inv :: "hasher \<Rightarrow> 'a codec \<Rightarrow> 'a Interned \<Rightarrow> bool" where
  "intern_inv sh vc s \<longleftrightarrow>
     twf (in_by_id s) \<and> twf (in_by_value s)
     \<and> (\<forall>i v. tget (in_by_id s) i = Some v \<longrightarrow>
          (\<exists>k. encode_facet sh vc v = Inr k \<and> tget (in_by_value s) k = Some i) \<and> intern_id i < in_next_id s)
     \<and> (\<forall>k i. tget (in_by_value s) k = Some i \<longrightarrow>
          (\<exists>v. tget (in_by_id s) i = Some v \<and> encode_facet sh vc v = Inr k))"

lemma intern_invD:
  assumes "intern_inv sh vc s"
  shows "tget (in_by_id s) i = Some v \<Longrightarrow> \<exists>k. encode_facet sh vc v = Inr k \<and> tget (in_by_value s) k = Some i"
    and "tget (in_by_id s) i = Some v \<Longrightarrow> intern_id i < in_next_id s"
    and "tget (in_by_value s) k = Some i \<Longrightarrow> \<exists>v. tget (in_by_id s) i = Some v \<and> encode_facet sh vc v = Inr k"
    and "twf (in_by_id s)" and "twf (in_by_value s)"
  using assms unfolding intern_inv_def by blast+

lemma intern_inv_new [simp]: "intern_inv sh vc (interned_new kind name)"
  by (simp add: intern_inv_def interned_new_def)

lemma intern_fresh:
  assumes inv: "intern_inv sh vc s" and k: "encode_facet sh vc v = Inr k" "tget (in_by_value s) k = None"
    and room: "in_next_id s \<noteq> - 1"
  shows "intern_inv sh vc (s\<lparr>in_next_id := in_next_id s + 1,
      in_by_id := tinsert (InternId (in_next_id s)) v (in_by_id s),
      in_by_value := tinsert k (InternId (in_next_id s)) (in_by_value s)\<rparr>)"
proof -
  let ?i = "InternId (in_next_id s)"
  note I = intern_invD [OF inv]
  have less: "intern_id i < in_next_id s + 1" if "tget (in_by_id s) i = Some w" for i w
    using I(2) [OF that] by (simp add: less_word_succ [OF room])
  have fresh: "tget (in_by_id s) ?i = None"
    using I(2) [of ?i] by (cases "tget (in_by_id s) ?i") auto
  then have "i \<noteq> ?i" if "tget (in_by_value s) k' = Some i" for k' i
    using I(3) [OF that] by auto
  moreover have "k' \<noteq> k" if "tget (in_by_value s) k' = Some i" for k' i
    using that k(2) by auto
  ultimately show ?thesis
    using I less k fresh unfolding intern_inv_def
    by (auto simp: less_word_succ [OF room] split: if_splits) blast+
qed

text \<open>What one successful \<open>intern\<close> does.\<close>

lemma intern_step:
  assumes inv: "intern_inv sh vc s" and law: "lawful vc" and room: "in_next_id s \<noteq> - 1"
    and run: "intern sh vc v s = (Inr i, s')"
  shows "intern_inv sh vc s'" and "tget (in_by_id s') i = Some v"
    and "\<exists>k. encode_facet sh vc v = Inr k \<and> tget (in_by_value s') k = Some i"
    and "\<forall>j w. tget (in_by_id s) j = Some w \<longrightarrow> tget (in_by_id s') j = Some w"
    and "\<forall>k j. tget (in_by_value s) k = Some j \<longrightarrow> tget (in_by_value s') k = Some j"
    and "in_next_id s' = in_next_id s \<or> in_next_id s' = in_next_id s + 1"
proof -
  note I = intern_invD [OF inv]
  obtain k where k: "encode_facet sh vc v = Inr k"
    using run by (auto simp: intern_def split: sum.splits)
  have "intern_inv sh vc s' \<and> tget (in_by_id s') i = Some v \<and> tget (in_by_value s') k = Some i
     \<and> (\<forall>j w. tget (in_by_id s) j = Some w \<longrightarrow> tget (in_by_id s') j = Some w)
     \<and> (\<forall>k j. tget (in_by_value s) k = Some j \<longrightarrow> tget (in_by_value s') k = Some j)
     \<and> (in_next_id s' = in_next_id s \<or> in_next_id s' = in_next_id s + 1)"
  proof (cases "tget (in_by_value s) k")
    case (Some j)
    then have "s' = s" "j = i" using run k by (auto simp: intern_def)
    moreover obtain w where "tget (in_by_id s) j = Some w" "encode_facet sh vc w = Inr k"
      using I(3) [OF Some] by blast
    moreover from this have "w = v" using encode_facet_inj [OF law _ k] by blast
    ultimately show ?thesis using inv Some by simp
  next
    case None
    have s': "i = InternId (in_next_id s)"
      "s' = s\<lparr>in_next_id := in_next_id s + 1, in_by_id := tinsert i v (in_by_id s),
             in_by_value := tinsert k i (in_by_value s)\<rparr>"
      using run k None by (auto simp: intern_def Let_def)
    have "tget (in_by_id s) i = None" using I(2) [of i] s'(1) by (cases "tget (in_by_id s) i") auto
    with intern_fresh [OF inv k None room] None show ?thesis unfolding s' by auto
  qed
  with k show "intern_inv sh vc s'" and "tget (in_by_id s') i = Some v"
    and "\<exists>k. encode_facet sh vc v = Inr k \<and> tget (in_by_value s') k = Some i"
    and "\<forall>j w. tget (in_by_id s) j = Some w \<longrightarrow> tget (in_by_id s') j = Some w"
    and "\<forall>k j. tget (in_by_value s) k = Some j \<longrightarrow> tget (in_by_value s') k = Some j"
    and "in_next_id s' = in_next_id s \<or> in_next_id s' = in_next_id s + 1" by auto
qed

text \<open>A client that interns a sequence of values with \<open>?\<close> after each call.\<close>

fun intern_all ::
  "hasher \<Rightarrow> 'a codec \<Rightarrow> 'a list \<Rightarrow> 'a Interned \<Rightarrow> InternId list PicanteResult \<times> 'a Interned" where
  "intern_all sh vc [] s = (Inr [], s)"
| "intern_all sh vc (v # vs) s =
     (case intern sh vc v s of
        (Inl e, s1) \<Rightarrow> (Inl e, s1)
      | (Inr i, s1) \<Rightarrow>
          (case intern_all sh vc vs s1 of
             (Inl e, s2) \<Rightarrow> (Inl e, s2)
           | (Inr is, s2) \<Rightarrow> (Inr (i # is), s2)))"

lemma intern_all_lookup:
  assumes "intern_inv sh vc s" "lawful vc" "unat (in_next_id s) + length vs < 2 ^ 32"
    "intern_all sh vc vs s = (Inr is, s')"
  shows "intern_inv sh vc s' \<and> length is = length vs
     \<and> (\<forall>a < length vs. tget (in_by_id s') (is ! a) = Some (vs ! a)
          \<and> (\<exists>k. encode_facet sh vc (vs ! a) = Inr k \<and> tget (in_by_value s') k = Some (is ! a)))
     \<and> (\<forall>j w. tget (in_by_id s) j = Some w \<longrightarrow> tget (in_by_id s') j = Some w)
     \<and> (\<forall>k j. tget (in_by_value s) k = Some j \<longrightarrow> tget (in_by_value s') k = Some j)"
  using assms
proof (induction vs arbitrary: s "is")
  case Nil
  then show ?case by simp
next
  case (Cons v vs)
  obtain i s1 where i: "intern sh vc v s = (Inr i, s1)"
    using Cons.prems(4) by (auto split: prod.splits sum.splits)
  obtain is1 where rest: "intern_all sh vc vs s1 = (Inr is1, s')" "is = i # is1"
    using Cons.prems(4) i by (auto split: prod.splits sum.splits)
  have room: "in_next_id s \<noteq> - 1"
    using Cons.prems(3) by (simp add: not_max_word_unat)
  note st = intern_step [OF Cons.prems(1,2) room i]
  have "unat (in_next_id s1) + length vs < 2 ^ 32"
    using st(6) Cons.prems(3) by (auto simp: unat_word_ariths)
  note ih = Cons.IH [OF st(1) Cons.prems(2) this rest(1)]
  show ?case
  proof (intro conjI allI impI)
    fix a assume "a < length (v # vs)"
    then show "tget (in_by_id s') (is ! a) = Some ((v # vs) ! a)"
      and "\<exists>k. encode_facet sh vc ((v # vs) ! a) = Inr k \<and> tget (in_by_value s') k = Some (is ! a)"
      using ih st(2,3) rest(2) by (cases a; auto)+
  qed (use ih st rest in auto)
qed

text \<open>
  C40. Interning any sequence of values gives equal ids exactly to equal values, every id looks up
  the value it was given for, and ids handed out before keep their values.
\<close>
theorem interning_injective:
  assumes "intern_inv sh vc s" and "lawful vc" and "unat (in_next_id s) + length vs < 2 ^ 32"
    and "intern_all sh vc vs s = (Inr is, s')"
  shows "(\<forall>a < length vs. \<forall>b < length vs. is ! a = is ! b \<longleftrightarrow> vs ! a = vs ! b)
     \<and> (\<forall>a < length vs. tget (in_by_id s') (is ! a) = Some (vs ! a))
     \<and> (\<forall>j w. tget (in_by_id s) j = Some w \<longrightarrow> tget (in_by_id s') j = Some w)"
  using intern_all_lookup [OF assms] by (metis Inr_inject option.inject)

theorem interning_injective_witness:
  "\<exists>i j s'. intern_all (\<lambda>_. 0) byte_codec [7, 9, 7] (interned_new (QueryKindId 1) ''Name'') = (Inr [i, j, i], s')
     \<and> i \<noteq> j"
proof -
  let ?s = "interned_new (QueryKindId 1) ''Name'' :: u8 Interned"
  have run: "fst (intern_all (\<lambda>_. 0) byte_codec [7, 9, 7] ?s) = Inr [InternId 0, InternId 1, InternId 0]"
    by (simp add: intern_def encode_facet_def byte_codec_def interned_new_def tinsert_def Let_def)
  then obtain s' where r: "intern_all (\<lambda>_. 0) byte_codec [7, 9, 7] ?s = (Inr [InternId 0, InternId 1, InternId 0], s')"
    by (metis prod.collapse)
  have "unat (in_next_id ?s) + length [7, 9, 7 :: u8] < 2 ^ 32" by (simp add: interned_new_def)
  from interning_injective [OF intern_inv_new lawful_byte_codec this r]
  have "InternId 0 \<noteq> InternId 1" by (auto simp: All_less_Suc numeral_3_eq_3)
  with r show ?thesis by blast
qed

subsection \<open>Saving and loading\<close>

definition intern_key :: "hasher \<Rightarrow> 'a codec \<Rightarrow> 'a \<Rightarrow> Key" where
  "intern_key sh vc v = projr (encode_facet sh vc v)"

definition swap_entries :: "hasher \<Rightarrow> 'a codec \<Rightarrow> (InternId \<times> 'a) list \<Rightarrow> (Key \<times> InternId) list" where
  "swap_entries sh vc es = map (\<lambda>(i, v). (intern_key sh vc v, i)) es"

lemma interned_load_loop_ok:
  assumes law: "lawful rc"
  shows "list_all2 (\<lambda>(i, v) bs. enc rc \<lparr>ir_id = intern_id i, ir_value = v\<rparr> = Inr bs) es bss \<Longrightarrow>
    (\<forall>(i, v) \<in> set es. encode_facet sh vc v = Inr (intern_key sh vc v)) \<Longrightarrow>
    distinct (map fst (in_by_id s @ es)) \<Longrightarrow> distinct (map fst (in_by_value s @ swap_entries sh vc es)) \<Longrightarrow>
    interned_load_loop sh vc rc bss m s =
      (Inr (fold max (map (\<lambda>(i, _). intern_id i) es) m),
       s\<lparr>in_by_id := in_by_id s @ es, in_by_value := in_by_value s @ swap_entries sh vc es\<rparr>)"
proof (induction es arbitrary: bss m s)
  case Nil
  then show ?case by (simp add: swap_entries_def)
next
  case (Cons e es)
  obtain i v where e: "e = (i, v)" by (cases e)
  obtain bs bss' where b: "bss = bs # bss'" "enc rc \<lparr>ir_id = intern_id i, ir_value = v\<rparr> = Inr bs"
    "list_all2 (\<lambda>(i, v) bs. enc rc \<lparr>ir_id = intern_id i, ir_value = v\<rparr> = Inr bs) es bss'"
    using Cons.prems(1) e by (auto simp: list_all2_Cons1)
  let ?k = "intern_key sh vc v"
  let ?s = "s\<lparr>in_by_value := tinsert ?k i (in_by_value s), in_by_id := tinsert i v (in_by_id s)\<rparr>"
  have f: "i \<notin> set (tkeys (in_by_id s))" "?k \<notin> set (tkeys (in_by_value s))"
    using Cons.prems(3,4) e by (auto simp: swap_entries_def)
  then have n: "tget (in_by_id s) i = None" "tget (in_by_value s) ?k = None"
    by (simp_all add: map_of_eq_None_iff)
  have d: "dec rc bs = Inr \<lparr>ir_id = intern_id i, ir_value = v\<rparr>" using lawfulD [OF law b(2)] .
  have k: "encode_facet sh vc v = Inr ?k" using Cons.prems(2) e by auto
  have "interned_load_loop sh vc rc bss' (max m (intern_id i)) ?s =
      (Inr (fold max (map (\<lambda>(i, _). intern_id i) es) (max m (intern_id i))),
       ?s\<lparr>in_by_id := in_by_id ?s @ es, in_by_value := in_by_value ?s @ swap_entries sh vc es\<rparr>)"
    using Cons.prems(2-4) e b(3)
    by (intro Cons.IH) (auto simp: tinsert_fresh [OF f(1)] tinsert_fresh [OF f(2)] swap_entries_def)
  then show ?case
    using b d k n e by (simp add: Let_def max.commute tinsert_fresh [OF f(1)] tinsert_fresh [OF f(2)] swap_entries_def)
qed

lemma fold_max_bounds:
  fixes m :: "'b::linorder"
  shows "m \<le> fold max xs m \<and> (\<forall>x \<in> set xs. x \<le> fold max xs m) \<and> (fold max xs m = m \<or> fold max xs m \<in> set xs)"
proof (induction xs arbitrary: m)
  case Nil
  then show ?case by simp
next
  case (Cons x xs)
  from Cons [of "max x m"] show ?case by (auto simp: max_def split: if_splits)
qed

definition interned_good :: "hasher \<Rightarrow> 'a codec \<Rightarrow> 'a InternedRecord codec \<Rightarrow> 'a Interned \<Rightarrow> bool" where
  "interned_good sh vc rc s \<longleftrightarrow> lawful vc \<and> lawful rc \<and> intern_inv sh vc s"

definition interned_obs :: "'a Interned \<Rightarrow> (InternId \<Rightarrow> 'a option) \<times> (Key \<Rightarrow> InternId option)" where
  "interned_obs s = (tget (in_by_id s), tget (in_by_value s))"

lemma interned_load_save:
  assumes good: "interned_good sh vc rc s" and saved: "interned_save_records rc s = Inr bss"
  shows "\<exists>next'. interned_load_records sh vc rc bss t =
      (Inr (), t\<lparr>in_by_id := sort_key (\<lambda>(i, _). intern_id i) (in_by_id s),
                in_by_value := swap_entries sh vc (sort_key (\<lambda>(i, _). intern_id i) (in_by_id s)),
                in_next_id := next'\<rparr>)
     \<and> (\<forall>(i, v) \<in> set (in_by_id s). intern_id i < next')"
proof -
  let ?es = "sort_key (\<lambda>(i, _). intern_id i) (in_by_id s)"
  have law: "lawful vc" "lawful rc" and inv: "intern_inv sh vc s" using good by (auto simp: interned_good_def)
  note I = intern_invD [OF inv]
  have enc: "list_all2 (\<lambda>(i, v) bs. enc rc \<lparr>ir_id = intern_id i, ir_value = v\<rparr> = Inr bs) ?es bss"
    using saved unfolding interned_save_records_def mapM_Inr_iff
    by (rule list_all2_mono) (auto split: sum.splits)
  have keys: "\<forall>(i, v) \<in> set ?es. encode_facet sh vc v = Inr (intern_key sh vc v)"
    using I(1,4) by (force simp: intern_key_def twf_tget_iff)
  have d1: "distinct (map fst ?es)" using I(4) by (simp add: twf_def distinct_map)
  have "inj_on (\<lambda>(i, v). intern_key sh vc v) (set (in_by_id s))"
  proof (rule inj_onI, clarify)
    fix i v j w assume *: "(i, v) \<in> set (in_by_id s)" "(j, w) \<in> set (in_by_id s)"
      "intern_key sh vc v = intern_key sh vc w"
    have "tget (in_by_value s) (intern_key sh vc v) = Some i" "tget (in_by_value s) (intern_key sh vc w) = Some j"
      using I(1) [of i v] I(1) [of j w] *(1,2) I(4) by (auto simp: intern_key_def twf_tget_iff)
    then have "i = j" using * by simp
    moreover have "v = w" using * calculation I(4) by (metis twf_tget_iff option.inject)
    ultimately show "i = j \<and> v = w" by blast
  qed
  then have d2: "distinct (map fst (swap_entries sh vc ?es))"
    using d1 by (auto simp: swap_entries_def distinct_map comp_def case_prod_unfold)
  let ?m = "fold max (map (\<lambda>(i, _). intern_id i) ?es) 0"
  have "interned_load_loop sh vc rc bss 0 (interned_clear t) =
      (Inr ?m, (interned_clear t)\<lparr>in_by_id := ?es, in_by_value := swap_entries sh vc ?es\<rparr>)"
    using interned_load_loop_ok [OF law(2) enc keys, of "interned_clear t"] d1 d2 by (simp add: interned_clear_def)
  then have run: "interned_load_records sh vc rc bss t = (Inr (), t\<lparr>in_by_id := ?es,
      in_by_value := swap_entries sh vc ?es, in_next_id := saturating_succ32 ?m\<rparr>)"
    by (simp add: interned_load_records_def interned_clear_def)
  have "?m \<noteq> - 1"
  proof
    assume m: "?m = - 1"
    then have "- 1 \<in> intern_id ` fst ` set (in_by_id s)"
      using fold_max_bounds [of 0 "map (\<lambda>(i, _). intern_id i) ?es"] by (force simp: case_prod_unfold)
    then obtain i v where "(i, v) \<in> set (in_by_id s)" "intern_id i = - 1" by auto
    then have "- 1 < in_next_id s" using I(2) [of i v] I(4) by (auto simp: twf_tget_iff)
    then show False by (simp add: word_order.extremum_strict)
  qed
  moreover have "\<forall>(i, v) \<in> set (in_by_id s). intern_id i \<le> ?m"
    using fold_max_bounds [of 0 "map (\<lambda>(i, _). intern_id i) ?es"] by force
  ultimately have "\<forall>(i, v) \<in> set (in_by_id s). intern_id i < saturating_succ32 ?m"
    by (auto simp: saturating_succ32_def less_word_succ)
  with run show ?thesis by blast
qed

lemma interned_loaded_state:
  assumes good: "interned_good sh vc rc s" and bound: "\<forall>(i, v) \<in> set (in_by_id s). intern_id i < next'"
    and t: "t = u\<lparr>in_by_id := sort_key (\<lambda>(i, _). intern_id i) (in_by_id s),
        in_by_value := swap_entries sh vc (sort_key (\<lambda>(i, _). intern_id i) (in_by_id s)), in_next_id := next'\<rparr>"
  shows "interned_obs t = interned_obs s \<and> interned_good sh vc rc t"
proof -
  have law: "lawful vc" "lawful rc" and inv: "intern_inv sh vc s" using good by (auto simp: interned_good_def)
  note I = intern_invD [OF inv]
  let ?es = "sort_key (\<lambda>(i, _). intern_id i) (in_by_id s)"
  have wf: "twf ?es" using I(4) by (simp add: twf_def distinct_map)
  have ids: "tget (in_by_id t) = tget (in_by_id s)"
    unfolding t using twf_same_set [OF I(4) wf] by simp
  have key: "encode_facet sh vc v = Inr k \<Longrightarrow> intern_key sh vc v = k" for v k
    by (simp add: intern_key_def)
  have sw: "(k, i) \<in> set (swap_entries sh vc ?es) \<longleftrightarrow> tget (in_by_value s) k = Some i" for k i
  proof
    assume "(k, i) \<in> set (swap_entries sh vc ?es)"
    then obtain v where "tget (in_by_id s) i = Some v" "k = intern_key sh vc v"
      using I(4) by (auto simp: swap_entries_def twf_tget_iff)
    then show "tget (in_by_value s) k = Some i" using I(1) key by metis
  next
    assume "tget (in_by_value s) k = Some i"
    then obtain v where "tget (in_by_id s) i = Some v" "k = intern_key sh vc v"
      using I(3) key by metis
    then show "(k, i) \<in> set (swap_entries sh vc ?es)"
      using I(4) by (force simp: swap_entries_def twf_tget_iff)
  qed
  have "i = j" if "(k, i) \<in> set (swap_entries sh vc ?es)" "(k, j) \<in> set (swap_entries sh vc ?es)" for k i j
    using that by (simp add: sw)
  moreover have "map snd (swap_entries sh vc ?es) = map fst ?es"
    by (simp add: swap_entries_def case_prod_unfold)
  then have "distinct (swap_entries sh vc ?es)"
    using wf by (metis distinct_map twf_def)
  ultimately have wfv: "twf (swap_entries sh vc ?es)"
    by (auto simp: twf_def distinct_map inj_on_def)
  have vals: "tget (in_by_value t) = tget (in_by_value s)"
    unfolding t by (rule map_eqI) (simp add: twf_tget_iff [OF wfv] sw)
  have "intern_id i < in_next_id t" if "tget (in_by_id s) i = Some v" for i v
    using bound that I(4) by (auto simp: t twf_tget_iff)
  then have "intern_inv sh vc t"
    using I wf wfv unfolding intern_inv_def ids vals by (simp add: t)
  with law ids vals show ?thesis by (simp add: interned_obs_def interned_good_def)
qed

lemma interned_load_keeps_kind [simp]:
  "in_kind (snd (interned_load_loop sh vc rc bss m s)) = in_kind s"
  by (induction sh vc rc bss m s rule: interned_load_loop.induct)
     (auto simp: Let_def split: sum.split option.split)

interpretation interned_store:
  persistable "interned_good sh vc rc" interned_obs "\<lambda>s t. in_kind s = in_kind t"
    "interned_save_records rc" "interned_load_records sh vc rc"
  for sh vc rc
proof (unfold_locales, goal_cases)
  case (1 s t bss)
  then show ?case
    using interned_load_save [OF 1(1,3), of t] interned_loaded_state [OF 1(1) _ refl] by force
next
  case (2 s t bss)
  obtain res u where lu: "interned_load_loop sh vc rc bss 0 (interned_clear t) = (res, u)"
    by fastforce
  then have "in_kind u = in_kind t"
    using interned_load_keeps_kind [of sh vc rc bss 0 "interned_clear t"] by (simp add: interned_clear_def)
  then show ?case
    using 2 lu by (simp add: interned_load_records_def split: sum.split)
qed simp

text \<open>
  Whatever a table of the same kind held before, loading the records of a save makes it answer
  every id and every value as the saved one did, and leaves it ready to intern more.
\<close>
theorem interned_save_load_roundtrip:
  assumes "lawful vc" and "lawful rc" and "intern_inv sh vc s" and "in_kind s = in_kind t"
    and "interned_save_records rc s = Inr records"
  shows "case interned_load_records sh vc rc records t of
           (res, t') \<Rightarrow> res = Inr () \<and> tget (in_by_id t') = tget (in_by_id s)
             \<and> tget (in_by_value t') = tget (in_by_value s) \<and> intern_inv sh vc t'"
  using interned_store.load_save [of sh vc rc s t records] assms
  by (simp add: interned_good_def interned_obs_def case_prod_beta)

text \<open>A lawful record codec for the witnesses: the value, then the id in unary.\<close>

definition unary_codec :: "u8 InternedRecord codec" where
  "unary_codec =
     \<lparr>enc = (\<lambda>r. Inr (ir_value r # replicate (unat (ir_id r)) 0)),
      dec = (\<lambda>bs. case bs of v # zs \<Rightarrow> Inr \<lparr>ir_id = word_of_nat (length zs), ir_value = v\<rparr>
                          | [] \<Rightarrow> Inl ''empty'')\<rparr>"

lemma lawful_unary_codec [simp]: "lawful unary_codec"
  by (auto simp: lawful_def unary_codec_def)

text \<open>Ids encoded as four bytes, for the witnesses.\<close>

definition id_codec :: "InternId codec" where
  "id_codec = \<lparr>enc = (\<lambda>i. Inr [ucast (intern_id i), ucast (drop_bit 8 (intern_id i)), ucast (drop_bit 16 (intern_id i)), ucast (drop_bit 24 (intern_id i))]),
     dec = (\<lambda>bs. case bs of [a, b, c, d] \<Rightarrow> Inr (InternId (ucast a OR push_bit 8 (ucast b) OR push_bit 16 (ucast c) OR push_bit 24 (ucast d)))
                 | _ \<Rightarrow> Inl ''length'')\<rparr>"

lemma id_bytes:
  "ucast (ucast n :: u8) OR push_bit 8 (ucast (ucast (drop_bit 8 n) :: u8)) OR push_bit 16 (ucast (ucast (drop_bit 16 n) :: u8))
     OR push_bit 24 (ucast (ucast (drop_bit 24 n) :: u8)) = (n :: u32)"
proof (rule bit_word_eqI)
  fix k assume "k < LENGTH(32)"
  then consider "k < 8" | "8 \<le> k" "k < 16" | "16 \<le> k" "k < 24" | "24 \<le> k" "k < 32" by force
  then show "bit (ucast (ucast n :: u8) OR push_bit 8 (ucast (ucast (drop_bit 8 n) :: u8)) OR push_bit 16 (ucast (ucast (drop_bit 16 n) :: u8))
     OR push_bit 24 (ucast (ucast (drop_bit 24 n) :: u8)) :: u32) k = bit n k"
    by cases (auto simp: bit_simps)
qed

lemma id_codec_good [simp]: "lawful id_codec" "total_codec id_codec"
  using id_bytes by (auto simp: lawful_def total_codec_def id_codec_def InternId.expand)

definition demo_interned :: "u8 Interned" where
  "demo_interned = snd (intern_all (\<lambda>_. 0) byte_codec [7, 9] (interned_new (QueryKindId 1) ''Name''))"

lemma demo_interned_state:
  "demo_interned = \<lparr>in_kind = QueryKindId 1, in_kind_name = ''Name'', in_next_id = 2,
     in_by_value = [(from_bytes (\<lambda>_. 0) [7], InternId 0), (from_bytes (\<lambda>_. 0) [9], InternId 1)],
     in_by_id = [(InternId 0, 7), (InternId 1, 9)]\<rparr>"
  by (simp add: demo_interned_def intern_def encode_facet_def byte_codec_def interned_new_def tinsert_def Let_def)

lemma intern_inv_demo [simp]: "intern_inv (\<lambda>_. 0) byte_codec demo_interned"
  by (auto simp: demo_interned_state intern_inv_def twf_def encode_facet_def byte_codec_def split: if_splits)

theorem interned_save_load_roundtrip_witness:
  "\<exists>records. interned_save_records unary_codec demo_interned = Inr records
     \<and> tget (in_by_id (snd (interned_load_records (\<lambda>_. 0) byte_codec unary_codec records
              (interned_new (QueryKindId 1) ''Name'')))) (InternId 1) = Some 9"
proof -
  let ?t = "interned_new (QueryKindId 1) ''Name'' :: u8 Interned"
  have save: "interned_save_records unary_codec demo_interned = Inr [[7], [9, 0]]"
    by (simp add: interned_save_records_def demo_interned_state unary_codec_def)
  have "in_kind demo_interned = in_kind ?t" by (simp add: demo_interned_state interned_new_def)
  from interned_save_load_roundtrip [OF lawful_byte_codec lawful_unary_codec intern_inv_demo this save]
  have "tget (in_by_id (snd (interned_load_records (\<lambda>_. 0) byte_codec unary_codec [[7], [9, 0]] ?t)))
      = tget (in_by_id demo_interned)"
    by (simp add: case_prod_beta)
  with save show ?thesis by (simp add: demo_interned_state)
qed

subsection \<open>Where ids stop being stable\<close>

text \<open>
  A load that fails on a later record keeps the earlier ones but leaves \<open>next_id\<close> at zero. If
  the caller goes on (the cache is advisory), the next new value is given the id of a loaded
  one: the id then looks up the new value while the loaded value still interns to it.
\<close>
theorem interned_failed_load_reuses_ids:
  assumes "lawful rc" and "enc rc \<lparr>ir_id = 0, ir_value = v\<rparr> = Inr b" and "dec rc garbage = Inl m"
    and "encode_facet sh vc v = Inr k" and "encode_facet sh vc w = Inr k'" and "k' \<noteq> k"
  shows "case interned_load_records sh vc rc [b, garbage] t of (res, t1) \<Rightarrow>
           res = Inl (Decode ''interned record'' m)
           \<and> (case intern sh vc w t1 of (i, t2) \<Rightarrow>
                i = Inr (InternId 0) \<and> tget (in_by_id t2) (InternId 0) = Some w
                \<and> fst (intern sh vc v t2) = Inr (InternId 0))"
  using assms lawfulD [OF assms(1,2)]
  by (simp add: interned_load_records_def interned_clear_def intern_def Let_def)

theorem interned_failed_load_reuses_ids_witness:
  "fst (interned_load_records (\<lambda>_. 0) byte_codec unary_codec [[7], []] (interned_new (QueryKindId 1) ''Name''))
     = Inl (Decode ''interned record'' ''empty'')"
proof -
  have "enc unary_codec \<lparr>ir_id = 0, ir_value = 7\<rparr> = Inr [7]" "dec unary_codec [] = Inl ''empty''"
    "encode_facet (\<lambda>_. 0) byte_codec 7 = Inr (from_bytes (\<lambda>_. 0) [7])"
    "encode_facet (\<lambda>_. 0) byte_codec 9 = Inr (from_bytes (\<lambda>_. 0) [9])"
    "from_bytes (\<lambda>_. 0) [9] \<noteq> from_bytes (\<lambda>_. 0) [7]"
    by (simp_all add: unary_codec_def byte_codec_def encode_facet_def)
  from interned_failed_load_reuses_ids [OF lawful_unary_codec this, of "interned_new (QueryKindId 1) ''Name''"]
  show ?thesis by (simp add: case_prod_beta)
qed

text \<open>The other end of the range: an id of \<open>u32::MAX\<close> saturates the counter.\<close>

lemma interned_top_id_aliases:
  assumes "lawful rc" "enc rc \<lparr>ir_id = - 1, ir_value = v\<rparr> = Inr b"
    "encode_facet sh vc v = Inr k" "encode_facet sh vc w = Inr k'" "k' \<noteq> k"
  shows "case interned_load_records sh vc rc [b] t of (res, t1) \<Rightarrow>
           res = Inr () \<and> fst (intern sh vc w t1) = Inr (InternId (- 1))
           \<and> tget (in_by_id t1) (InternId (- 1)) = Some v
           \<and> tget (in_by_id (snd (intern sh vc w t1))) (InternId (- 1)) = Some w"
  using assms lawfulD [OF assms(1,2)]
  by (simp add: interned_load_records_def interned_clear_def intern_def Let_def saturating_succ32_def)

end
