(* ===== verification/Persist.thy ===== *)
theory Persist
  imports Wal Interned Derived
begin

text \<open>
  \<open>persist.rs\<close>: cache files, their size limits, loading with a corruption policy, and the write-ahead
  log over a list of ingredients. \<open>dyn PersistableIngredient\<close> is the sum of its three implementations,
  a trait method is a case over it. Time stamps and trace output are left out. Sizes are natural
  numbers. The encoding of the whole file is a parameter like every other encoding.
\<close>

subsection \<open>Ingredients as trait objects\<close>

datatype SectionType = InputSection | DerivedSection | InternedSection

datatype ('k, 'v) ingredient_obj =
    InputObj "('k, 'v) input_codecs" "'v Input"
  | DerivedObj "('k, 'v) derived_codecs" "'v Derived"
  | InternedObj "'v codec" "'v InternedRecord codec" "'v Interned"

fun pi_kind :: "('k, 'v) ingredient_obj \<Rightarrow> QueryKindId" where
  "pi_kind (InputObj _ s) = inp_kind s"
| "pi_kind (DerivedObj _ s) = de_kind s"
| "pi_kind (InternedObj _ _ s) = in_kind s"

fun pi_kind_name :: "('k, 'v) ingredient_obj \<Rightarrow> string" where
  "pi_kind_name (InputObj _ s) = inp_kind_name s"
| "pi_kind_name (DerivedObj _ s) = de_kind_name s"
| "pi_kind_name (InternedObj _ _ s) = in_kind_name s"

fun pi_section_type :: "('k, 'v) ingredient_obj \<Rightarrow> SectionType" where
  "pi_section_type (InputObj _ _) = InputSection"
| "pi_section_type (DerivedObj _ _) = DerivedSection"
| "pi_section_type (InternedObj _ _ _) = InternedSection"

fun pi_clear :: "('k, 'v) ingredient_obj \<Rightarrow> ('k, 'v) ingredient_obj" where
  "pi_clear (InputObj cs s) = InputObj cs (input_clear s)"
| "pi_clear (DerivedObj cs s) = DerivedObj cs (derived_clear s)"
| "pi_clear (InternedObj vc rc s) = InternedObj vc rc (interned_clear s)"

fun pi_save_records :: "(PicanteError \<Rightarrow> string) \<Rightarrow> ('k, 'v) ingredient_obj \<Rightarrow> bytes list PicanteResult" where
  "pi_save_records dbg (InputObj cs s) = input_save_records cs s"
| "pi_save_records dbg (DerivedObj cs s) = derived_save_records dbg cs s"
| "pi_save_records dbg (InternedObj vc rc s) = interned_save_records rc s"

fun pi_load_records ::
  "hasher \<Rightarrow> bytes list \<Rightarrow> ('k, 'v) ingredient_obj \<Rightarrow> unit PicanteResult \<times> ('k, 'v) ingredient_obj" where
  "pi_load_records sh rs (InputObj cs s) = (case input_load_records sh cs rs s of (r, s') \<Rightarrow> (r, InputObj cs s'))"
| "pi_load_records sh rs (DerivedObj cs s) = (case derived_load_records sh cs rs s of (r, s') \<Rightarrow> (r, DerivedObj cs s'))"
| "pi_load_records sh rs (InternedObj vc rc s) =
     (case interned_load_records sh vc rc rs s of (r, s') \<Rightarrow> (r, InternedObj vc rc s'))"

text \<open>Inputs and interned values keep the default, which does nothing.\<close>

fun pi_restore_runtime_state :: "('k, 'v) ingredient_obj \<Rightarrow> Runtime \<Rightarrow> Runtime" where
  "pi_restore_runtime_state (DerivedObj cs s) rt = restore_runtime_state s rt"
| "pi_restore_runtime_state _ rt = rt"

fun pi_save_incremental_records ::
  "(PicanteError \<Rightarrow> string) \<Rightarrow> u64 \<Rightarrow> ('k, 'v) ingredient_obj \<Rightarrow> (u64 \<times> bytes \<times> bytes option) list PicanteResult" where
  "pi_save_incremental_records dbg since (InputObj cs s) = input_save_incremental_records cs since s"
| "pi_save_incremental_records dbg since (DerivedObj cs s) = derived_save_incremental_records dbg cs since s"
| "pi_save_incremental_records dbg since (InternedObj vc rc s) = interned_save_incremental_records since s"

fun pi_apply_wal_entry ::
  "hasher \<Rightarrow> u64 \<Rightarrow> bytes \<Rightarrow> bytes option \<Rightarrow> ('k, 'v) ingredient_obj \<Rightarrow> unit PicanteResult \<times> ('k, 'v) ingredient_obj" where
  "pi_apply_wal_entry sh rv k v (InputObj cs s) = (case input_apply_wal_entry sh cs rv k v s of (r, s') \<Rightarrow> (r, InputObj cs s'))"
| "pi_apply_wal_entry sh rv k v (DerivedObj cs s) =
     (case derived_apply_wal_entry sh cs rv k v s of (r, s') \<Rightarrow> (r, DerivedObj cs s'))"
| "pi_apply_wal_entry sh rv k v (InternedObj vc rc s) =
     (case interned_apply_wal_entry sh vc rc rv k v s of (r, s') \<Rightarrow> (r, InternedObj vc rc s'))"

subsection \<open>The file format and the options\<close>

definition FORMAT_VERSION :: u32 where
  "FORMAT_VERSION = 1"

datatype OnCorruptCache = OnError | OnIgnore | OnDelete

record CacheLoadOptions =
  lo_max_bytes :: "nat option"
  lo_on_corrupt :: OnCorruptCache

definition default_load_options :: CacheLoadOptions where
  "default_load_options = \<lparr>lo_max_bytes = None, lo_on_corrupt = OnError\<rparr>"

record CacheSaveOptions =
  so_max_bytes :: "nat option"
  so_max_records_per_section :: "nat option"
  so_max_record_bytes :: "nat option"

definition default_save_options :: CacheSaveOptions where
  "default_save_options = \<lparr>so_max_bytes = None, so_max_records_per_section = None, so_max_record_bytes = None\<rparr>"

record Section =
  sec_kind_id :: u32
  sec_kind_name :: string
  sec_type :: SectionType
  sec_records :: "bytes list"

record CacheFile =
  cf_format_version :: u32
  cf_current_revision :: u64
  cf_sections :: "Section list"

definition encode_cache_file :: "CacheFile codec \<Rightarrow> CacheFile \<Rightarrow> bytes PicanteResult" where
  "encode_cache_file fc cache = (case enc fc cache of Inl m \<Rightarrow> Inl (Encode ''cache file'' m) | Inr bs \<Rightarrow> Inr bs)"

definition decode_cache_file :: "CacheFile codec \<Rightarrow> bytes \<Rightarrow> CacheFile PicanteResult" where
  "decode_cache_file fc bs = (case dec fc bs of Inl m \<Rightarrow> Inl (Decode ''cache file'' m) | Inr cache \<Rightarrow> Inr cache)"

fun unique_kinds_loop :: "u32 list \<Rightarrow> u32 list \<Rightarrow> unit PicanteResult" where
  "unique_kinds_loop seen [] = Inr ()"
| "unique_kinds_loop seen (i # is) =
     (if i \<in> set seen then Inl (Cache (''duplicate ingredient kind id '' @ show_nat (unat i)))
      else unique_kinds_loop (i # seen) is)"

definition ensure_unique_kinds :: "('k, 'v) ingredient_obj list \<Rightarrow> unit PicanteResult" where
  "ensure_unique_kinds ings = unique_kinds_loop [] (map (as_u32 \<circ> pi_kind) ings)"

subsection \<open>Shrinking a cache to a size\<close>

definition record_bytes :: "CacheFile \<Rightarrow> nat" where
  "record_bytes cache = sum_list (map (\<lambda>s. sum_list (map length (sec_records s))) (cf_sections cache))"

text \<open>The section of a type whose last record is the longest, the first one among equals.\<close>

fun best_section :: "SectionType \<Rightarrow> nat \<Rightarrow> Section list \<Rightarrow> (nat \<times> nat) option \<Rightarrow> (nat \<times> nat) option" where
  "best_section ty i [] best = best"
| "best_section ty i (s # ss) best =
     best_section ty (Suc i) ss
       (if sec_type s \<noteq> ty \<or> sec_records s = [] then best
        else (case best of
                None \<Rightarrow> Some (i, length (last (sec_records s)))
              | Some (_, best_len) \<Rightarrow>
                  if best_len < length (last (sec_records s)) then Some (i, length (last (sec_records s))) else best))"

text \<open>\<open>None\<close> is the result \<open>false\<close>: nothing to drop, nothing changed.\<close>

definition drop_one_record :: "SectionType \<Rightarrow> CacheFile \<times> nat \<Rightarrow> (CacheFile \<times> nat) option" where
  "drop_one_record ty = (\<lambda>(cache, current_record_bytes).
     case best_section ty 0 (cf_sections cache) None of
       None \<Rightarrow> None
     | Some (i, len) \<Rightarrow>
         (let s = cf_sections cache ! i
          in Some (cache\<lparr>cf_sections := (cf_sections cache)[i := s\<lparr>sec_records := butlast (sec_records s)\<rparr>]\<rparr>,
                   current_record_bytes - len)))"

definition drop_any_record :: "CacheFile \<times> nat \<Rightarrow> (CacheFile \<times> nat) option" where
  "drop_any_record st =
     (case drop_one_record DerivedSection st of
        Some st' \<Rightarrow> Some st'
      | None \<Rightarrow> (case drop_one_record InputSection st of
                   Some st' \<Rightarrow> Some st'
                 | None \<Rightarrow> drop_one_record InternedSection st))"

definition record_count :: "CacheFile \<Rightarrow> nat" where
  "record_count cache = sum_list (map (length \<circ> sec_records) (cf_sections cache))"

lemma best_section_sound:
  "best_section ty i ss best = Some (j, n) \<Longrightarrow>
   best = Some (j, n)
   \<or> (i \<le> j \<and> j < i + length ss \<and> sec_type (ss ! (j - i)) = ty \<and> sec_records (ss ! (j - i)) \<noteq> []
      \<and> n = length (last (sec_records (ss ! (j - i)))))"
proof (induction ss arbitrary: i best)
  case Nil
  then show ?case by simp
next
  case (Cons s ss)
  show ?case
    using Cons.IH [OF Cons.prems [simplified]]
    by (auto simp: nth_Cons' Suc_diff_le split: if_splits option.splits prod.splits)
qed

lemma best_section_None:
  "best_section ty i ss best = None \<longleftrightarrow> best = None \<and> (\<forall>s \<in> set ss. sec_type s = ty \<longrightarrow> sec_records s = [])"
  by (induction ss arbitrary: i best) (auto split: if_splits option.splits)

text \<open>What dropping one record does: the last record of one section of the type goes.\<close>

lemma drop_one_record_step:
  assumes "drop_one_record ty (cache, n) = Some (cache', n')"
  obtains i where "i < length (cf_sections cache)" and "sec_type (cf_sections cache ! i) = ty"
    and "sec_records (cf_sections cache ! i) \<noteq> []"
    and "cache' = cache\<lparr>cf_sections := (cf_sections cache)[i := (cf_sections cache ! i)
           \<lparr>sec_records := butlast (sec_records (cf_sections cache ! i))\<rparr>]\<rparr>"
    and "n' = n - length (last (sec_records (cf_sections cache ! i)))"
proof -
  obtain i len where b: "best_section ty 0 (cf_sections cache) None = Some (i, len)"
    using assms by (auto simp: drop_one_record_def split: option.splits)
  from best_section_sound [OF b] that show ?thesis using assms b by (auto simp: drop_one_record_def Let_def)
qed

lemma drop_one_record_None:
  "drop_one_record ty (cache, n) = None \<longleftrightarrow> (\<forall>s \<in> set (cf_sections cache). sec_type s = ty \<longrightarrow> sec_records s = [])"
proof -
  have "drop_one_record ty (cache, n) = None \<longleftrightarrow> best_section ty 0 (cf_sections cache) None = None"
    by (auto simp: drop_one_record_def Let_def split: option.split)
  then show ?thesis by (simp only: best_section_None) simp
qed

lemma sum_list_update_less:
  fixes f :: "'a \<Rightarrow> nat"
  assumes "i < length xs" and "f y < f (xs ! i)"
  shows "sum_list (map f (xs[i := y])) < sum_list (map f xs)"
  using assms
proof (induction xs arbitrary: i)
  case (Cons x xs)
  then show ?case by (cases i) auto
qed simp

lemma drop_one_record_fewer:
  assumes "drop_one_record ty st = Some st'"
  shows "record_count (fst st') < record_count (fst st)"
proof -
  obtain cache n cache' n' where st: "st = (cache, n)" "st' = (cache', n')" by (cases st; cases st')
  from assms [unfolded st] show ?thesis
    by (rule drop_one_record_step) (auto simp: record_count_def st intro!: sum_list_update_less)
qed

lemma drop_any_record_fewer: "drop_any_record st = Some st' \<Longrightarrow> record_count (fst st') < record_count (fst st)"
  by (auto simp: drop_any_record_def drop_one_record_fewer split: option.splits)

text \<open>\<open>while current_record_bytes > budget\<close>, left early when there is nothing to drop.\<close>

function drop_loop :: "nat \<Rightarrow> CacheFile \<times> nat \<Rightarrow> CacheFile \<times> nat" where
  "drop_loop budget st =
     (if budget < snd st
      then (case drop_any_record st of None \<Rightarrow> st | Some st' \<Rightarrow> drop_loop budget st')
      else st)"
  by pat_completeness auto
termination
  by (relation "measure (record_count \<circ> fst \<circ> snd)") (auto dest: drop_any_record_fewer)

declare drop_loop.simps [simp del]

definition too_large_after :: "nat \<Rightarrow> nat \<Rightarrow> PicanteError" where
  "too_large_after n max_bytes =
     Cache (''cache remains too large after truncation ('' @ show_nat n @ '' > '' @ show_nat max_bytes @ '')'')"

text \<open>The rounds of the verification loop that are left, then the final check.\<close>

fun verify_rounds :: "CacheFile codec \<Rightarrow> nat \<Rightarrow> nat \<Rightarrow> CacheFile \<Rightarrow> CacheFile PicanteResult" where
  "verify_rounds fc max_bytes 0 cache =
     (case encode_cache_file fc cache of
        Inl e \<Rightarrow> Inl e
      | Inr bs \<Rightarrow> if max_bytes < length bs then Inl (too_large_after (length bs) max_bytes) else Inr cache)"
| "verify_rounds fc max_bytes (Suc n) cache =
     (case encode_cache_file fc cache of
        Inl e \<Rightarrow> Inl e
      | Inr bs \<Rightarrow>
          if length bs \<le> max_bytes then Inr cache
          else (let overhead = length bs - record_bytes cache
                in if max_bytes \<le> overhead then verify_rounds fc max_bytes 0 cache
                   else verify_rounds fc max_bytes n (fst (drop_loop (max_bytes - overhead) (cache, record_bytes cache)))))"

definition sort_sections :: "CacheFile \<Rightarrow> CacheFile" where
  "sort_sections cache =
     cache\<lparr>cf_sections := map (\<lambda>s. s\<lparr>sec_records := sort_key length (sec_records s)\<rparr>) (cf_sections cache)\<rparr>"

text \<open>The cache as the function leaves it behind \<open>&mut\<close>; an error leaves nothing that is used.\<close>

definition shrink_cache_to_fit :: "CacheFile codec \<Rightarrow> nat \<Rightarrow> CacheFile \<Rightarrow> CacheFile PicanteResult" where
  "shrink_cache_to_fit fc max_bytes cache =
     (case encode_cache_file fc cache of
        Inl e \<Rightarrow> Inl e
      | Inr bs \<Rightarrow>
          if length bs \<le> max_bytes then Inr cache
          else (let overhead = (if record_bytes cache \<le> length bs then length bs - record_bytes cache else length bs)
                in if max_bytes \<le> overhead
                   then Inl (Cache (''cache overhead ('' @ show_nat overhead @ '' bytes) exceeds max_bytes ('' @ show_nat max_bytes @ '')''))
                   else verify_rounds fc max_bytes 3
                          (fst (drop_loop (max_bytes - overhead) (sort_sections cache, record_bytes cache)))))"

subsection \<open>Saving\<close>

definition collect_section ::
  "(PicanteError \<Rightarrow> string) \<Rightarrow> CacheSaveOptions \<Rightarrow> ('k, 'v) ingredient_obj \<Rightarrow> Section PicanteResult" where
  "collect_section dbg opts p =
     (case pi_save_records dbg p of
        Inl e \<Rightarrow> Inl e
      | Inr records \<Rightarrow>
          Inr \<lparr>sec_kind_id = as_u32 (pi_kind p), sec_kind_name = pi_kind_name p, sec_type = pi_section_type p,
               sec_records = (case so_max_record_bytes opts of
                                None \<Rightarrow> records | Some mx \<Rightarrow> filter (\<lambda>r. length r \<le> mx) records)\<rparr>)"

definition truncate_sections :: "nat option \<Rightarrow> CacheFile \<Rightarrow> CacheFile" where
  "truncate_sections mx cache =
     (case mx of
        None \<Rightarrow> cache
      | Some n \<Rightarrow> cache\<lparr>cf_sections := map (\<lambda>s. s\<lparr>sec_records := take n (sec_records s)\<rparr>) (cf_sections cache)\<rparr>)"

text \<open>Everything before the file is written.\<close>

definition build_cache ::
  "(PicanteError \<Rightarrow> string) \<Rightarrow> CacheFile codec \<Rightarrow> CacheSaveOptions \<Rightarrow> Runtime
   \<Rightarrow> ('k, 'v) ingredient_obj list \<Rightarrow> CacheFile PicanteResult" where
  "build_cache dbg fc opts rt ings =
     rbind (ensure_unique_kinds ings) (\<lambda>_.
     rbind (mapM (collect_section dbg opts) ings) (\<lambda>sections.
     let cache = truncate_sections (so_max_records_per_section opts)
           \<lparr>cf_format_version = FORMAT_VERSION, cf_current_revision = rev_u64 (current_revision rt), cf_sections = sections\<rparr>
     in case so_max_bytes opts of None \<Rightarrow> Inr cache | Some mx \<Rightarrow> shrink_cache_to_fit fc mx cache))"

text \<open>\<open>tokio::fs::write\<close>: create or truncate, then write everything.\<close>

definition fs_write :: "path \<Rightarrow> bytes \<Rightarrow> files \<Rightarrow> (string + unit) \<times> files" where
  "fs_write p bs fs =
     (case create_file p fs of
        (Inl e, fs1) \<Rightarrow> (Inl (io_text e), fs1)
      | (Inr i, fs1) \<Rightarrow> write_file i bs fs1)"

definition create_parent :: "path \<Rightarrow> files \<Rightarrow> unit PicanteResult \<times> files" where
  "create_parent p fs =
     (case path_parent p of
        None \<Rightarrow> (Inr (), fs)
      | Some dir \<Rightarrow>
          if dir = [] then (Inr (), fs)
          else map_err (\<lambda>m. Cache (''create_dir_all '' @ dir @ '': '' @ m)) (bare_call fs))"

definition tmp_path :: "path \<Rightarrow> path" where
  "tmp_path p = with_extension p ''tmp''"

definition save_cache_with_options ::
  "(PicanteError \<Rightarrow> string) \<Rightarrow> CacheFile codec \<Rightarrow> path \<Rightarrow> Runtime \<Rightarrow> ('k, 'v) ingredient_obj list
   \<Rightarrow> CacheSaveOptions \<Rightarrow> files \<Rightarrow> unit PicanteResult \<times> files" where
  "save_cache_with_options dbg fc path rt ings opts fs =
     (case rbind (build_cache dbg fc opts rt ings) (encode_cache_file fc) of
        Inl e \<Rightarrow> (Inl e, fs)
      | Inr bs \<Rightarrow>
          sbind (create_parent path fs) (\<lambda>_ fs1.
          sbind (map_err (\<lambda>m. Cache (''write '' @ tmp_path path @ '': '' @ m)) (fs_write (tmp_path path) bs fs1)) (\<lambda>_ fs2.
          map_err (\<lambda>e. Cache (''rename '' @ tmp_path path @ '' -> '' @ path @ '': '' @ io_text e))
            (rename_file (tmp_path path) path fs2))))"

definition save_cache ::
  "(PicanteError \<Rightarrow> string) \<Rightarrow> CacheFile codec \<Rightarrow> path \<Rightarrow> Runtime \<Rightarrow> ('k, 'v) ingredient_obj list
   \<Rightarrow> files \<Rightarrow> unit PicanteResult \<times> files" where
  "save_cache dbg fc path rt ings fs = save_cache_with_options dbg fc path rt ings default_save_options fs"

subsection \<open>Loading\<close>

text \<open>The map from kind ids to the positions of the ingredients.\<close>

definition by_kind :: "('k, 'v) ingredient_obj list \<Rightarrow> (u32, nat) table" where
  "by_kind ings = fold (\<lambda>i t. tinsert (as_u32 (pi_kind (ings ! i))) i t) [0..<length ings] []"

definition load_section ::
  "hasher \<Rightarrow> (u32, nat) table \<Rightarrow> Section \<Rightarrow> ('k, 'v) ingredient_obj list
   \<Rightarrow> unit PicanteResult \<times> ('k, 'v) ingredient_obj list" where
  "load_section sh kinds s ings =
     (case tget kinds (sec_kind_id s) of
        None \<Rightarrow> (Inr (), ings)
      | Some i \<Rightarrow>
          if sec_kind_name s \<noteq> pi_kind_name (ings ! i)
          then (Inl (Cache (''kind name mismatch for id '' @ show_nat (unat (sec_kind_id s)) @ '': file has `''
                  @ sec_kind_name s @ ''`, runtime has `'' @ pi_kind_name (ings ! i) @ ''`'')), ings)
          else if sec_type s \<noteq> pi_section_type (ings ! i)
          then (Inl (Cache (''section type mismatch for id '' @ show_nat (unat (sec_kind_id s)) @ '' (`''
                  @ sec_kind_name s @ ''`)'')), ings)
          else (case pi_load_records sh (sec_records s) (ings ! i) of (r, p) \<Rightarrow> (r, ings[i := p])))"

fun load_sections ::
  "hasher \<Rightarrow> (u32, nat) table \<Rightarrow> Section list \<Rightarrow> ('k, 'v) ingredient_obj list
   \<Rightarrow> unit PicanteResult \<times> ('k, 'v) ingredient_obj list" where
  "load_sections sh kinds [] ings = (Inr (), ings)"
| "load_sections sh kinds (s # ss) ings =
     (case load_section sh kinds s ings of
        (Inl e, ings1) \<Rightarrow> (Inl e, ings1)
      | (Inr _, ings1) \<Rightarrow> load_sections sh kinds ss ings1)"

definition restore_all :: "('k, 'v) ingredient_obj list \<Rightarrow> Runtime \<Rightarrow> Runtime" where
  "restore_all ings rt = fold pi_restore_runtime_state ings rt"

text \<open>The file that the load can use, or the result without one; nothing is changed up to here.\<close>

definition check_cache_bytes :: "CacheFile codec \<Rightarrow> CacheLoadOptions \<Rightarrow> bytes \<Rightarrow> CacheFile PicanteResult" where
  "check_cache_bytes fc opts bs =
     rbind (case lo_max_bytes opts of
        None \<Rightarrow> Inr ()
      | Some mx \<Rightarrow>
          if mx < length bs
          then Inl (Cache (''cache file too large ('' @ show_nat (length bs) @ '' bytes > max '' @ show_nat mx @ '')''))
          else Inr ()) (\<lambda>_.
     rbind (decode_cache_file fc bs) (\<lambda>cache.
     if cf_format_version cache \<noteq> FORMAT_VERSION
     then Inl (Cache (''unsupported cache format version '' @ show_nat (unat (cf_format_version cache))
            @ ''; expected '' @ show_nat (unat FORMAT_VERSION)))
     else Inr cache))"

text \<open>From the cleared dependency graph on.\<close>

definition install_cache ::
  "hasher \<Rightarrow> CacheFile \<Rightarrow> Runtime \<Rightarrow> ('k, 'v) ingredient_obj list
   \<Rightarrow> bool PicanteResult \<times> Runtime \<times> ('k, 'v) ingredient_obj list" where
  "install_cache sh cache rt ings =
     (let rt1 = clear_dependency_graph rt;
          ings1 = map pi_clear ings
      in case load_sections sh (by_kind ings) (cf_sections cache) ings1 of
           (Inl e, ings2) \<Rightarrow> (Inl e, rt1, ings2)
         | (Inr _, ings2) \<Rightarrow>
             (Inr True, set_current_revision (Revision (cf_current_revision cache)) (restore_all ings2 rt1), ings2))"

definition load_cache_inner ::
  "hasher \<Rightarrow> CacheFile codec \<Rightarrow> path \<Rightarrow> CacheLoadOptions \<Rightarrow> Runtime \<Rightarrow> ('k, 'v) ingredient_obj list \<Rightarrow> files
   \<Rightarrow> bool PicanteResult \<times> Runtime \<times> ('k, 'v) ingredient_obj list \<times> files" where
  "load_cache_inner sh fc path opts rt ings fs =
     (case ensure_unique_kinds ings of
        Inl e \<Rightarrow> (Inl e, rt, ings, fs)
      | Inr _ \<Rightarrow>
          (case read_file path fs of
             (Inl NotFound, fs1) \<Rightarrow> (Inr False, rt, ings, fs1)
           | (Inl (IoError m), fs1) \<Rightarrow> (Inl (Cache (''read '' @ path @ '': '' @ m)), rt, ings, fs1)
           | (Inr bs, fs1) \<Rightarrow>
               (case check_cache_bytes fc opts bs of
                  Inl e \<Rightarrow> (Inl e, rt, ings, fs1)
                | Inr cache \<Rightarrow> (case install_cache sh cache rt ings of (r, rt1, ings1) \<Rightarrow> (r, rt1, ings1, fs1)))))"

definition load_cache_with_options ::
  "hasher \<Rightarrow> CacheFile codec \<Rightarrow> path \<Rightarrow> CacheLoadOptions \<Rightarrow> Runtime \<Rightarrow> ('k, 'v) ingredient_obj list \<Rightarrow> files
   \<Rightarrow> bool PicanteResult \<times> Runtime \<times> ('k, 'v) ingredient_obj list \<times> files" where
  "load_cache_with_options sh fc path opts rt ings fs =
     (case load_cache_inner sh fc path opts rt ings fs of
        (Inr v, st) \<Rightarrow> (Inr v, st)
      | (Inl e, rt1, ings1, fs1) \<Rightarrow>
          (case lo_on_corrupt opts of
             OnError \<Rightarrow> (Inl e, rt1, ings1, fs1)
           | OnIgnore \<Rightarrow> (Inr False, rt1, ings1, fs1)
           | OnDelete \<Rightarrow> (Inr False, rt1, ings1, snd (remove_file path fs1))))"

definition load_cache ::
  "hasher \<Rightarrow> CacheFile codec \<Rightarrow> path \<Rightarrow> Runtime \<Rightarrow> ('k, 'v) ingredient_obj list \<Rightarrow> files
   \<Rightarrow> bool PicanteResult \<times> Runtime \<times> ('k, 'v) ingredient_obj list \<times> files" where
  "load_cache sh fc path rt ings fs = load_cache_with_options sh fc path default_load_options rt ings fs"

subsection \<open>The write-ahead log over ingredients\<close>

text \<open>One ingredient's changes, appended with \<open>?\<close>; the count goes on from \<open>n\<close>.\<close>

fun append_changes ::
  "wal_codecs \<Rightarrow> u32 \<Rightarrow> (u64 \<times> bytes \<times> bytes option) list \<Rightarrow> nat \<Rightarrow> WalWriter \<Rightarrow> files
   \<Rightarrow> nat PicanteResult \<times> WalWriter \<times> files" where
  "append_changes wc kind_id [] n w fs = (Inr n, w, fs)"
| "append_changes wc kind_id ((changed_revision, key, value) # changes) n w fs =
     (let entry = \<lparr>we_revision = changed_revision, we_kind_id = kind_id,
            we_operation = (case value of Some v \<Rightarrow> WalSet key v | None \<Rightarrow> WalDelete key)\<rparr>
      in case wal_append wc entry w fs of
           (Inl e, w1, fs1) \<Rightarrow> (Inl e, w1, fs1)
         | (Inr _, w1, fs1) \<Rightarrow> append_changes wc kind_id changes (Suc n) w1 fs1)"

fun append_ingredients ::
  "(PicanteError \<Rightarrow> string) \<Rightarrow> wal_codecs \<Rightarrow> u64 \<Rightarrow> ('k, 'v) ingredient_obj list \<Rightarrow> nat \<Rightarrow> WalWriter \<Rightarrow> files
   \<Rightarrow> nat PicanteResult \<times> WalWriter \<times> files" where
  "append_ingredients dbg wc since [] n w fs = (Inr n, w, fs)"
| "append_ingredients dbg wc since (p # ps) n w fs =
     (case pi_save_incremental_records dbg since p of
        Inl e \<Rightarrow> (Inl e, w, fs)
      | Inr changes \<Rightarrow>
          (case append_changes wc (as_u32 (pi_kind p)) changes n w fs of
             (Inl e, w1, fs1) \<Rightarrow> (Inl e, w1, fs1)
           | (Inr n1, w1, fs1) \<Rightarrow> append_ingredients dbg wc since ps n1 w1 fs1))"

definition append_to_wal ::
  "(PicanteError \<Rightarrow> string) \<Rightarrow> wal_codecs \<Rightarrow> WalWriter \<Rightarrow> ('k, 'v) ingredient_obj list \<Rightarrow> files
   \<Rightarrow> nat PicanteResult \<times> WalWriter \<times> files" where
  "append_to_wal dbg wc w ings fs = append_ingredients dbg wc (ww_base_revision w) ings 0 w fs"

definition apply_operation ::
  "hasher \<Rightarrow> WalEntry \<Rightarrow> ('k, 'v) ingredient_obj \<Rightarrow> unit PicanteResult \<times> ('k, 'v) ingredient_obj" where
  "apply_operation sh entry p =
     (case we_operation entry of
        WalSet key value \<Rightarrow> pi_apply_wal_entry sh (we_revision entry) key (Some value) p
      | WalDelete key \<Rightarrow> pi_apply_wal_entry sh (we_revision entry) key None p)"

text \<open>The loop over \<open>reader.entries()\<close>: the count and the maximal revision, or the error that leaves it.\<close>

function replay_loop ::
  "hasher \<Rightarrow> wal_codecs \<Rightarrow> (u32, nat) table \<Rightarrow> WalReader \<Rightarrow> ('k, 'v) ingredient_obj list \<Rightarrow> nat \<Rightarrow> u64
   \<Rightarrow> (nat \<times> u64) PicanteResult \<times> ('k, 'v) ingredient_obj list" where
  "replay_loop sh wc kinds r ings n max_revision =
     (case next_entry wc r of
        (Inl e, r1) \<Rightarrow> (Inl e, ings)
      | (Inr None, r1) \<Rightarrow> (Inr (n, max_revision), ings)
      | (Inr (Some entry), r1) \<Rightarrow>
          (case tget kinds (we_kind_id entry) of
             None \<Rightarrow> replay_loop sh wc kinds r1 ings n max_revision
           | Some i \<Rightarrow>
               (case apply_operation sh entry (ings ! i) of
                  (Inl e, p) \<Rightarrow> (Inl e, ings[i := p])
                | (Inr _, p) \<Rightarrow>
                    replay_loop sh wc kinds r1 (ings[i := p]) (Suc n) (max max_revision (we_revision entry)))))"
  by pat_completeness auto
termination
  by (relation "measure (\<lambda>(sh, wc, kinds, r, x). length (wr_rest r))") (auto dest!: sym [THEN next_entry_shorter])

declare replay_loop.simps [simp del]

definition replay_wal ::
  "hasher \<Rightarrow> wal_codecs \<Rightarrow> path \<Rightarrow> Runtime \<Rightarrow> ('k, 'v) ingredient_obj list \<Rightarrow> files
   \<Rightarrow> nat PicanteResult \<times> Runtime \<times> ('k, 'v) ingredient_obj list \<times> files" where
  "replay_wal sh wc path rt ings fs =
     (case metadata path fs of
        (Inl NotFound, fs1) \<Rightarrow> (Inr 0, rt, ings, fs1)
      | (_, fs1) \<Rightarrow>
          (case wal_open wc path fs1 of
             (Inl e, fs2) \<Rightarrow> (Inl e, rt, ings, fs2)
           | (Inr reader, fs2) \<Rightarrow>
               (let base_revision = wh_base_revision (wr_header reader)
                in if rev_u64 (current_revision rt) \<noteq> base_revision
                   then (Inl (Cache (''WAL base revision ('' @ show_nat (unat base_revision)
                           @ '') does not match snapshot revision ('' @ show_nat (unat (rev_u64 (current_revision rt))) @ '')'')),
                         rt, ings, fs2)
                   else (case replay_loop sh wc (by_kind ings) reader ings 0 base_revision of
                           (Inl e, ings1) \<Rightarrow> (Inl e, rt, ings1, fs2)
                         | (Inr (n, max_revision), ings1) \<Rightarrow>
                             (let rt1 = (if base_revision < max_revision
                                         then set_current_revision (Revision max_revision) rt else rt)
                              in (Inr n, restore_all ings1 rt1, ings1, fs2))))))"

text \<open>\<open>pid\<close> is the process id, used when the path has no file name.\<close>

definition compact_tmp_path :: "nat \<Rightarrow> path \<Rightarrow> path" where
  "compact_tmp_path pid p =
     with_file_name p (if file_name p = [] then ''cache-'' @ show_nat pid @ ''.compact.tmp''
                       else file_name p @ ''.compact.tmp'')"

definition compact_wal ::
  "(PicanteError \<Rightarrow> string) \<Rightarrow> CacheFile codec \<Rightarrow> wal_codecs \<Rightarrow> nat \<Rightarrow> path \<Rightarrow> path \<Rightarrow> Runtime
   \<Rightarrow> ('k, 'v) ingredient_obj list \<Rightarrow> CacheSaveOptions \<Rightarrow> bool \<Rightarrow> files \<Rightarrow> u64 PicanteResult \<times> files" where
  "compact_wal dbg fc wc pid cache_path wal_path rt ings opts create_new_wal fs =
     (let temp = compact_tmp_path pid cache_path; new_revision = rev_u64 (current_revision rt)
      in sbind (save_cache_with_options dbg fc temp rt ings opts fs) (\<lambda>_ fs1.
         case rename_file temp cache_path fs1 of
           (Inl e, fs2) \<Rightarrow>
             (Inl (Cache (''Failed to rename temporary snapshot from '' @ temp @ '' to '' @ cache_path @ '': '' @ io_text e)),
              snd (remove_file temp fs2))
         | (Inr _, fs2) \<Rightarrow>
             sbind (case path_exists wal_path fs2 of
                      (False, fs3) \<Rightarrow> (Inr (), fs3)
                    | (True, fs3) \<Rightarrow>
                        map_err (\<lambda>e. Cache (''Failed to delete old WAL at '' @ wal_path @ '': '' @ io_text e))
                          (remove_file wal_path fs3)) (\<lambda>_ fs4.
             if create_new_wal
             then (case wal_create wc wal_path new_revision fs4 of
                     (Inl e, fs5) \<Rightarrow> (Inl e, fs5)
                   | (Inr new_wal, fs5) \<Rightarrow> (Inr new_revision, wal_drop new_wal fs5))
             else (Inr new_revision, fs4))))"

end
