(* ===== verification/PersistProps.thy ===== *)
theory PersistProps
  imports Persist
begin

text \<open>
  Correctness of the persistence functions: atomic and bounded saves, the round trip of a whole
  database through a cache file, what a failing load leaves behind, and the log on top of a snapshot.
\<close>

subsection \<open>The file system calls\<close>

lemma fs_wfD:
  assumes "fs_wf fs"
  shows "twf (fs_dir fs)" and "tget (fs_dir fs) p = Some i \<Longrightarrow> i < length (fs_data fs)"
    and "tget (fs_dir fs) p = Some i \<Longrightarrow> tget (fs_dir fs) q = Some i \<Longrightarrow> p = q"
  using assms unfolding fs_wf_def by blast+

text \<open>Two states with the same directory and data.\<close>

definition same_files :: "files \<Rightarrow> files \<Rightarrow> bool" where
  "same_files fs fs' \<longleftrightarrow> fs_dir fs' = fs_dir fs \<and> fs_data fs' = fs_data fs"

lemma same_files_simps: "same_files fs fs' \<Longrightarrow> contents q fs' = contents q fs"
  "same_files fs fs' \<Longrightarrow> fs_wf fs' \<longleftrightarrow> fs_wf fs"
  by (simp_all add: same_files_def contents_def fs_wf_def)

lemma syscall_same: "syscall fs = (f, fs1) \<Longrightarrow> same_files fs fs1"
  by (simp add: same_files_def syscall_fields)

lemma fs_wf_set_data [simp]: "fs_wf fs \<Longrightarrow> fs_wf (set_data i bs fs)"
  by (simp add: fs_wf_def)

lemma contents_set_data:
  assumes "fs_wf fs" and "tget (fs_dir fs) p = Some i"
  shows "contents q (set_data i bs fs) = (if q = p then Some bs else contents q fs)"
proof (cases "q = p")
  case True
  then show ?thesis using assms(2) fs_wfD(2) [OF assms] by (simp add: contents_def)
next
  case False
  show ?thesis
  proof (cases "tget (fs_dir fs) q")
    case None
    then show ?thesis using False by (simp add: contents_def)
  next
    case (Some j)
    then have "i \<noteq> j" using fs_wfD(3) [OF assms(1,2), of q] False by blast
    then show ?thesis using Some False by (simp add: contents_def)
  qed
qed

lemma contents_dir:
  "contents q fs = (case tget (fs_dir fs) q of None \<Rightarrow> None | Some i \<Rightarrow> Some (fs_data fs ! i))"
  by (simp add: contents_def split: option.split)

lemma create_file_cases:
  assumes "fs_wf fs" and "create_file p fs = (r, fs1)"
  shows "case r of Inl e \<Rightarrow> same_files fs fs1
     | Inr i \<Rightarrow> fs_wf fs1 \<and> tget (fs_dir fs1) p = Some i
         \<and> (\<forall>q. contents q fs1 = (if q = p then Some [] else contents q fs))"
proof -
  obtain f fs0 where f: "syscall fs = (f, fs0)" by fastforce
  note same = syscall_same [OF f]
  note same' = same_files_simps [OF same]
  have wf: "fs_wf fs0" using same' assms(1) by simp
  show ?thesis
  proof (cases f)
    case (Some m)
    then show ?thesis using assms(2) f same by (cases m) (auto simp: create_file_def)
  next
    case None
    show ?thesis
    proof (cases "tget (fs_dir fs0) p")
      case (Some i)
      then show ?thesis
        using None assms(2) f wf same' by (auto simp: create_file_def contents_set_data [OF wf Some])
    next
      case none: None
      note new = fs_wfD [OF wf]
      have "tget (fs_dir fs0) q \<noteq> Some (length (fs_data fs0))" for q
        using new(2) [of q "length (fs_data fs0)"] by auto
      moreover have "contents q fs0 = map_option (\<lambda>i. (fs_data fs0 @ [[]]) ! i) (tget (fs_dir fs0) q)" for q
        using new(2) [of q] by (auto simp: contents_dir nth_append split: option.split)
      ultimately show ?thesis
        using None none assms(2) f wf same' unfolding fs_wf_def
        by (auto simp: create_file_def contents_def nth_append less_Suc_eq split: if_splits)
    qed
  qed
qed

lemma write_file_cases:
  assumes "fs_wf fs" and "tget (fs_dir fs) p = Some i" and "write_file i bs fs = (r, fs1)"
  shows "fs_wf fs1 \<and> (\<forall>q. q \<noteq> p \<longrightarrow> contents q fs1 = contents q fs)
     \<and> (r = Inr () \<longrightarrow> contents p fs1 = map_option (\<lambda>old. old @ bs) (contents p fs))"
proof -
  obtain f fs0 where f: "syscall fs = (f, fs0)" by fastforce
  note same = syscall_same [OF f]
  note same' = same_files_simps [OF same]
  have wf: "fs_wf fs0" and p: "tget (fs_dir fs0) p = Some i"
    using same' same assms(1,2) by (simp_all add: same_files_def)
  have old: "contents p fs0 = Some (fs_data fs0 ! i)" by (simp add: contents_def p)
  show ?thesis
    using assms(3) f wf same' old
    by (cases f) (auto simp: write_file_def contents_set_data [OF wf p] split: prod.splits)
qed

lemma rename_file_cases:
  assumes "fs_wf fs" and "a \<noteq> b" and "rename_file a b fs = (r, fs1)"
  shows "case r of Inl e \<Rightarrow> same_files fs fs1
     | Inr _ \<Rightarrow> fs_wf fs1 \<and> (\<forall>q. contents q fs1 = (if q = b then contents a fs else if q = a then None else contents q fs))"
proof -
  obtain f fs0 where f: "syscall fs = (f, fs0)" by fastforce
  note same = syscall_same [OF f]
  note same' = same_files_simps [OF same]
  have wf: "fs_wf fs0" using same' assms(1) by simp
  show ?thesis
  proof (cases f)
    case (Some m)
    then show ?thesis using assms(3) f same by (cases m) (auto simp: rename_file_def)
  next
    case None
    show ?thesis
    proof (cases "tget (fs_dir fs0) a")
      case none: None
      then show ?thesis using None assms(3) f same by (auto simp: rename_file_def)
    next
      case (Some i)
      define fs2 where "fs2 = fs0\<lparr>fs_dir := tinsert b i (tremove a (fs_dir fs0))\<rparr>"
      have "fs1 = fs2" and "r = Inr ()" using None Some assms(2,3) f by (auto simp: rename_file_def fs2_def)
      moreover have "contents q fs2 = (if q = b then contents a fs0 else if q = a then None else contents q fs0)" for q
        using Some assms(2) by (simp add: contents_def fs2_def)
      moreover have "fs_wf fs2"
        using wf Some fs_wfD(3) [OF wf Some] unfolding fs_wf_def fs2_def by (auto split: if_splits)
      ultimately show ?thesis using same' by simp
    qed
  qed
qed

lemma fs_write_cases:
  assumes "fs_wf fs" and "fs_write p bs fs = (r, fs1)"
  shows "fs_wf fs1 \<and> (\<forall>q. q \<noteq> p \<longrightarrow> contents q fs1 = contents q fs) \<and> (r = Inr () \<longrightarrow> contents p fs1 = Some bs)"
proof -
  obtain c fs0 where c: "create_file p fs = (c, fs0)" by fastforce
  show ?thesis
  proof (cases c)
    case (Inl e)
    then show ?thesis
      using create_file_cases [OF assms(1) c] assms(2) c same_files_simps [of fs fs0] assms(1)
      by (auto simp: fs_write_def)
  next
    case (Inr i)
    with create_file_cases [OF assms(1) c]
    have 1: "fs_wf fs0" "tget (fs_dir fs0) p = Some i"
      "\<And>q. contents q fs0 = (if q = p then Some [] else contents q fs)" by auto
    have "write_file i bs fs0 = (r, fs1)" using assms(2) c Inr by (simp add: fs_write_def)
    from write_file_cases [OF 1(1,2) this] 1(3) show ?thesis by simp
  qed
qed

lemma bare_call_same: "bare_call fs = (r, fs1) \<Longrightarrow> same_files fs fs1"
  using syscall_same [of fs] by (cases "syscall fs") (auto simp: bare_call_def split: option.splits)

lemma create_parent_same:
  assumes "create_parent p fs = (r, fs1)" shows "same_files fs fs1"
proof -
  have "map_err f (bare_call fs) = (r, fs1) \<Longrightarrow> same_files fs fs1" for f :: "string \<Rightarrow> PicanteError"
    using bare_call_same [of fs] by (cases "bare_call fs"; cases "fst (bare_call fs)") auto
  then show ?thesis
    using assms by (auto simp: create_parent_def same_files_def split: option.splits if_splits)
qed

subsection \<open>Saving is atomic and bounded\<close>

text \<open>What one call of \<open>save_cache_with_options\<close> does to the files, whatever fails in it.\<close>

lemma save_outcome:
  assumes "fs_wf fs" and "path \<noteq> tmp_path path"
    and "save_cache_with_options dbg fc path rt ings opts fs = (r, fs')"
  shows "fs_wf fs' \<and> (\<forall>q. q \<noteq> path \<longrightarrow> q \<noteq> tmp_path path \<longrightarrow> contents q fs' = contents q fs)
     \<and> (case r of Inl _ \<Rightarrow> contents path fs' = contents path fs
        | Inr _ \<Rightarrow> \<exists>cache bs. build_cache dbg fc opts rt ings = Inr cache \<and> encode_cache_file fc cache = Inr bs
                   \<and> contents path fs' = Some bs)"
proof (cases "rbind (build_cache dbg fc opts rt ings) (encode_cache_file fc)")
  case (Inl e)
  then show ?thesis using assms by (auto simp: save_cache_with_options_def)
next
  case (Inr bs)
  obtain r1 fs1 where 1: "create_parent path fs = (r1, fs1)" by fastforce
  note same = same_files_simps [OF create_parent_same [OF 1]]
  obtain r2 fs2 where 2: "fs_write (tmp_path path) bs fs1 = (r2, fs2)" by fastforce
  have wf1: "fs_wf fs1" using same assms(1) by simp
  note written = fs_write_cases [OF wf1 2]
  obtain r3 fs3 where 3: "rename_file (tmp_path path) path fs2 = (r3, fs3)" by fastforce
  have ne: "tmp_path path \<noteq> path" using assms(2) by simp
  note renamed = rename_file_cases [OF _ ne 3]
  show ?thesis
  proof (cases "(\<exists>e. r1 = Inl e) \<or> (\<exists>e. r2 = Inl e)")
    case True
    then show ?thesis
      using assms Inr 1 2 same written wf1
      by (cases r1; cases r2) (auto simp: save_cache_with_options_def)
  next
    case False
    then obtain u v where ok: "r1 = Inr u" "r2 = Inr v" by (cases r1; cases r2) auto
    show ?thesis
    proof (cases r3)
      case (Inl e)
      then show ?thesis
        using assms Inr 1 2 3 ok same written renamed same_files_simps [of fs2 fs3]
        by (auto simp: save_cache_with_options_def)
    next
      case Inr': (Inr x)
      have "\<exists>cache. build_cache dbg fc opts rt ings = Inr cache \<and> encode_cache_file fc cache = Inr bs"
        using Inr by (cases "build_cache dbg fc opts rt ings") auto
      then show ?thesis
        using assms Inr 1 2 3 ok same written renamed Inr'
        by (auto simp: save_cache_with_options_def)
    qed
  qed
qed

text \<open>
  C6. Saving to a path that is not its own temporary path, as one with the extension \<open>tmp\<close> is, is atomic: whatever system call
  fails, the cache file afterwards holds what it held before, when the
  save reports an error, or the complete encoding of the collected cache, when it succeeds; and no
  file but it and its temporary one is touched. The file system is well-formed: a path names one existing file, and two paths different ones.
\<close>

theorem save_atomic:
  assumes "fs_wf fs" and "path \<noteq> tmp_path path"
  shows "case save_cache_with_options dbg fc path rt ings opts fs of
      (r, fs') \<Rightarrow> (case r of Inl _ \<Rightarrow> contents path fs' = contents path fs
         | Inr _ \<Rightarrow> \<exists>cache bs. build_cache dbg fc opts rt ings = Inr cache \<and> encode_cache_file fc cache = Inr bs
             \<and> contents path fs' = Some bs)
       \<and> (\<forall>q. q \<noteq> path \<longrightarrow> q \<noteq> tmp_path path \<longrightarrow> contents q fs' = contents q fs)"
  using save_outcome [OF assms, of dbg fc rt ings opts]
  by (cases "save_cache_with_options dbg fc path rt ings opts fs") blast

lemma verify_rounds_fits:
  "verify_rounds fc mx n cache = Inr cache' \<Longrightarrow> \<exists>bs. encode_cache_file fc cache' = Inr bs \<and> length bs \<le> mx"
proof (induction fc mx n cache rule: verify_rounds.induct)
  case (1 fc mx cache)
  then show ?case by (auto split: sum.splits if_splits)
next
  case (2 fc mx n cache)
  then show ?case by (auto simp: Let_def split: sum.splits if_splits simp del: verify_rounds.simps(1))
qed

lemma shrink_fits:
  "shrink_cache_to_fit fc mx cache = Inr cache' \<Longrightarrow> \<exists>bs. encode_cache_file fc cache' = Inr bs \<and> length bs \<le> mx"
  using verify_rounds_fits [of fc mx 3]
  by (auto simp: shrink_cache_to_fit_def Let_def split: sum.splits if_splits)

lemma build_cache_fits:
  assumes "build_cache dbg fc opts rt ings = Inr cache" and "so_max_bytes opts = Some mx"
    and "encode_cache_file fc cache = Inr bs"
  shows "length bs \<le> mx"
proof -
  obtain c where "shrink_cache_to_fit fc mx c = Inr cache"
    using assms(1,2) by (auto simp: build_cache_def rbind_def Let_def split: sum.splits)
  from shrink_fits [OF this] assms(3) show ?thesis by auto
qed

text \<open>
  C26. A save with a size limit that succeeds leaves a cache file within the limit.
\<close>

theorem save_respects_max_bytes:
  assumes "fs_wf fs" and "path \<noteq> tmp_path path" and "so_max_bytes opts = Some mx"
    and "save_cache_with_options dbg fc path rt ings opts fs = (Inr (), fs')"
  shows "\<exists>bs. contents path fs' = Some bs \<and> length bs \<le> mx"
  using save_outcome [OF assms(1,2,4)] build_cache_fits [OF _ assms(3)] by auto

subsection \<open>What shrinking drops\<close>

fun drop_rank :: "SectionType \<Rightarrow> nat" where
  "drop_rank DerivedSection = 0"
| "drop_rank InputSection = 1"
| "drop_rank InternedSection = 2"

text \<open>
  Every section of \<open>c\<close> is a prefix of the one of \<open>s\<close>, and one that comes later in the order of
  dropping is complete as long as an earlier one has records.
\<close>

definition shrunk :: "Section list \<Rightarrow> Section list \<Rightarrow> bool" where
  "shrunk s c \<longleftrightarrow> length c = length s
     \<and> (\<forall>i < length s. \<exists>k. c ! i = (s ! i)\<lparr>sec_records := take k (sec_records (s ! i))\<rparr>)
     \<and> (\<forall>i < length s. \<forall>j < length s. drop_rank (sec_type (s ! i)) < drop_rank (sec_type (s ! j))
          \<and> sec_records (c ! i) \<noteq> [] \<longrightarrow> c ! j = s ! j)"

lemma shrunk_refl: "shrunk s s"
proof -
  have "s ! i = (s ! i)\<lparr>sec_records := take (length (sec_records (s ! i))) (sec_records (s ! i))\<rparr>" for i by simp
  then show ?thesis unfolding shrunk_def by blast
qed

lemma shrunk_type: "shrunk s c \<Longrightarrow> i < length s \<Longrightarrow> sec_type (c ! i) = sec_type (s ! i)"
proof -
  assume "shrunk s c" and "i < length s"
  then obtain k where "c ! i = (s ! i)\<lparr>sec_records := take k (sec_records (s ! i))\<rparr>"
    unfolding shrunk_def by blast
  then show ?thesis by simp
qed

lemma drop_rank_less:
  "drop_rank t = 0 \<longleftrightarrow> t = DerivedSection" "drop_rank t < 1 \<longleftrightarrow> t = DerivedSection" "drop_rank t < 2 \<longleftrightarrow> t = DerivedSection \<or> t = InputSection"
  by (cases t; simp)+

lemma drop_any_type:
  assumes "drop_any_record (c, n) = Some st"
  obtains ty where "drop_one_record ty (c, n) = Some st"
    and "\<forall>s \<in> set (cf_sections c). drop_rank (sec_type s) < drop_rank ty \<longrightarrow> sec_records s = []"
proof -
  have "\<exists>ty. drop_one_record ty (c, n) = Some st
      \<and> (\<forall>s \<in> set (cf_sections c). drop_rank (sec_type s) < drop_rank ty \<longrightarrow> sec_records s = [])"
  proof (cases "drop_one_record DerivedSection (c, n)")
    case d: None
    have nd: "\<forall>s \<in> set (cf_sections c). sec_type s = DerivedSection \<longrightarrow> sec_records s = []"
      using d by (simp add: drop_one_record_None)
    show ?thesis
    proof (cases "drop_one_record InputSection (c, n)")
      case i: None
      have "\<forall>s \<in> set (cf_sections c). sec_type s = InputSection \<longrightarrow> sec_records s = []"
        using i by (simp add: drop_one_record_None)
      with nd have "\<forall>s \<in> set (cf_sections c). drop_rank (sec_type s) < 2 \<longrightarrow> sec_records s = []"
        by (auto simp: drop_rank_less)
      with d i assms show ?thesis by (intro exI [of _ InternedSection]) (simp add: drop_any_record_def)
    next
      case (Some a)
      from nd have "\<forall>s \<in> set (cf_sections c). drop_rank (sec_type s) < 1 \<longrightarrow> sec_records s = []"
        by (auto simp: drop_rank_less)
      with d Some assms show ?thesis by (intro exI [of _ InputSection]) (simp add: drop_any_record_def)
    qed
  next
    case (Some a)
    then show ?thesis using assms by (intro exI [of _ DerivedSection]) (simp add: drop_any_record_def)
  qed
  with that show ?thesis by blast
qed

lemma shrunk_step:
  assumes "shrunk s (cf_sections c)" and "drop_any_record (c, n) = Some (c', n')"
  shows "shrunk s (cf_sections c')"
proof -
  obtain ty where ty: "drop_one_record ty (c, n) = Some (c', n')"
      "\<forall>x \<in> set (cf_sections c). drop_rank (sec_type x) < drop_rank ty \<longrightarrow> sec_records x = []"
    using assms(2) by (rule drop_any_type)
  from ty(1) obtain i where i: "i < length (cf_sections c)" "sec_type (cf_sections c ! i) = ty"
      "sec_records (cf_sections c ! i) \<noteq> []"
      "cf_sections c' = (cf_sections c)[i := (cf_sections c ! i)\<lparr>sec_records := butlast (sec_records (cf_sections c ! i))\<rparr>]"
    by (rule drop_one_record_step) simp
  have len: "length (cf_sections c) = length s"
    and pre0: "\<And>j. j < length s \<Longrightarrow> \<exists>k. cf_sections c ! j = (s ! j)\<lparr>sec_records := take k (sec_records (s ! j))\<rparr>"
    and full0: "\<And>a b. a < length s \<Longrightarrow> b < length s \<Longrightarrow> drop_rank (sec_type (s ! a)) < drop_rank (sec_type (s ! b))
      \<Longrightarrow> sec_records (cf_sections c ! a) \<noteq> [] \<Longrightarrow> cf_sections c ! b = s ! b"
    using assms(1) unfolding shrunk_def by blast+
  have "i < length s" using i(1) len by simp
  then obtain k where k: "cf_sections c ! i = (s ! i)\<lparr>sec_records := take k (sec_records (s ! i))\<rparr>"
    using pre0 by blast
  have at_i: "cf_sections c' ! i = (cf_sections c ! i)\<lparr>sec_records := butlast (sec_records (cf_sections c ! i))\<rparr>"
    and other: "\<And>j. j \<noteq> i \<Longrightarrow> cf_sections c' ! j = cf_sections c ! j"
    and len': "length (cf_sections c') = length s"
    using i(1) len unfolding i(4) by simp_all
  have "cf_sections c' ! i = (s ! i)\<lparr>sec_records := take (min k (length (sec_records (s ! i))) - 1) (sec_records (s ! i))\<rparr>"
    unfolding at_i k by (simp add: butlast_conv_take min_def)
  then have pre: "\<exists>k. cf_sections c' ! j = (s ! j)\<lparr>sec_records := take k (sec_records (s ! j))\<rparr>" if "j < length s" for j
    using pre0 [OF that] other [of j] by (cases "j = i") (blast, metis)
  have full: "cf_sections c' ! b = s ! b"
    if ab: "a < length s" "b < length s" "drop_rank (sec_type (s ! a)) < drop_rank (sec_type (s ! b))"
      "sec_records (cf_sections c' ! a) \<noteq> []" for a b
  proof -
    have a: "sec_records (cf_sections c ! a) \<noteq> []"
      using ab(4) i(3) other [of a] by (cases "a = i") simp_all
    have "b \<noteq> i"
    proof
      assume "b = i"
      then have "drop_rank (sec_type (cf_sections c ! a)) < drop_rank ty"
        using ab i(2) shrunk_type [OF assms(1)] by simp
      with ty(2) a ab(1) len show False by simp
    qed
    then show ?thesis using full0 [OF ab(1-3) a] other by simp
  qed
  from len' pre full show ?thesis unfolding shrunk_def by blast
qed

lemma shrunk_drop_loop: "shrunk s (cf_sections (fst st)) \<Longrightarrow> shrunk s (cf_sections (fst (drop_loop budget st)))"
proof (induction budget st rule: drop_loop.induct)
  case (1 budget st)
  show ?case
  proof (cases "budget < snd st")
    case True
    show ?thesis
    proof (cases "drop_any_record st")
      case None
      with 1 show ?thesis by (subst drop_loop.simps) simp
    next
      case (Some st')
      then have "shrunk s (cf_sections (fst st'))"
        using 1(2) shrunk_step [of s "fst st" "snd st" "fst st'" "snd st'"] by simp
      with 1(1) [OF True Some] True Some show ?thesis by (subst drop_loop.simps) simp
    qed
  next
    case False
    with 1 show ?thesis by (subst drop_loop.simps) simp
  qed
qed

lemma shrunk_verify_rounds:
  "shrunk s (cf_sections c) \<Longrightarrow> verify_rounds fc mx n c = Inr c' \<Longrightarrow> shrunk s (cf_sections c')"
proof (induction fc mx n c rule: verify_rounds.induct)
  case (1 fc mx cache)
  then show ?case by (auto split: sum.splits if_splits)
next
  case (2 fc mx n cache)
  show ?case
    using 2 shrunk_drop_loop [of s "(cache, record_bytes cache)"]
    by (auto simp: Let_def split: sum.splits if_splits simp del: verify_rounds.simps(1))
qed

text \<open>
  C25. Shrinking a cache to a size keeps the shortest records of every section, in order of length, and drops
  nothing from inputs while a derived record is left, nor from interned values while a derived or
  an input record is left.
\<close>

theorem shrink_drops_derived_first:
  assumes "shrink_cache_to_fit fc mx cache = Inr cache'"
  shows "cache' = cache \<or>
     (let old = cf_sections (sort_sections cache); new = cf_sections cache'
      in length new = length old
         \<and> (\<forall>i < length old. \<exists>k. new ! i = (old ! i)\<lparr>sec_records := take k (sec_records (old ! i))\<rparr>)
         \<and> (\<forall>i < length old. \<forall>j < length old. drop_rank (sec_type (old ! i)) < drop_rank (sec_type (old ! j))
              \<and> sec_records (new ! i) \<noteq> [] \<longrightarrow> new ! j = old ! j))"
proof -
  have "shrunk (cf_sections (sort_sections cache)) (cf_sections cache')" if ne: "cache' \<noteq> cache"
  proof -
    obtain budget where
      "verify_rounds fc mx 3 (fst (drop_loop budget (sort_sections cache, record_bytes cache))) = Inr cache'"
      using assms ne by (auto simp: shrink_cache_to_fit_def Let_def split: sum.splits if_splits simp del: verify_rounds.simps)
    from shrunk_verify_rounds [OF shrunk_drop_loop this] show ?thesis by (simp add: shrunk_refl)
  qed
  then show ?thesis unfolding shrunk_def Let_def by blast
qed

subsection \<open>Ingredients keep the contract of the cache file\<close>

fun pi_good :: "hasher \<Rightarrow> ('k, 'v) ingredient_obj \<Rightarrow> bool" where
  "pi_good sh (InputObj cs s) = input_good sh cs s"
| "pi_good sh (DerivedObj cs s) = derived_good sh cs s"
| "pi_good sh (InternedObj vc rc s) = interned_good sh vc rc s"

text \<open>What readers of an ingredient can see.\<close>

datatype 'v observed =
    SeenInput "DynKey \<Rightarrow> 'v InputEntry option"
  | SeenDerived "DynKey \<Rightarrow> 'v ReadyRecord option"
  | SeenInterned "(InternId \<Rightarrow> 'v option) \<times> (Key \<Rightarrow> InternId option)"

fun pi_obs :: "('k, 'v) ingredient_obj \<Rightarrow> 'v observed" where
  "pi_obs (InputObj _ s) = SeenInput (tget (inp_entries s))"
| "pi_obs (DerivedObj _ s) = SeenDerived (ready_at s)"
| "pi_obs (InternedObj _ _ s) = SeenInterned (interned_obs s)"

fun same_codecs :: "('k, 'v) ingredient_obj \<Rightarrow> ('k, 'v) ingredient_obj \<Rightarrow> bool" where
  "same_codecs (InputObj cs _) (InputObj cs' _) \<longleftrightarrow> cs = cs'"
| "same_codecs (DerivedObj cs _) (DerivedObj cs' _) \<longleftrightarrow> cs = cs'"
| "same_codecs (InternedObj vc rc _) (InternedObj vc' rc' _) \<longleftrightarrow> vc = vc' \<and> rc = rc'"
| "same_codecs _ _ \<longleftrightarrow> False"

text \<open>The same ingredient of the same program, possibly with other contents.\<close>

definition pi_compat :: "('k, 'v) ingredient_obj \<Rightarrow> ('k, 'v) ingredient_obj \<Rightarrow> bool" where
  "pi_compat p q \<longleftrightarrow> same_codecs p q \<and> pi_kind p = pi_kind q \<and> pi_kind_name p = pi_kind_name q"

lemma pi_compatE:
  assumes "pi_compat p q"
  obtains (input) cs s t where "p = InputObj cs s" "q = InputObj cs t" "inp_kind s = inp_kind t" "inp_kind_name s = inp_kind_name t"
  | (derived) cs s t where "p = DerivedObj cs s" "q = DerivedObj cs t" "de_kind s = de_kind t" "de_kind_name s = de_kind_name t"
  | (interned) vc rc s t where "p = InternedObj vc rc s" "q = InternedObj vc rc t" "in_kind s = in_kind t"
      "in_kind_name s = in_kind_name t"
  using assms unfolding pi_compat_def by (cases p; cases q) auto

lemma input_load_keeps_name [simp]: "inp_kind_name (snd (input_load_records sh cs bss s)) = inp_kind_name s"
  by (induction sh cs bss s rule: input_load_records.induct) (auto split: sum.split)

lemma derived_load_keeps_name [simp]: "de_kind_name (snd (derived_load_records sh cs bss s)) = de_kind_name s"
  by (induction sh cs bss s rule: derived_load_records.induct) (auto split: sum.split)

lemma interned_loop_keeps_name:
  "in_kind_name (snd (interned_load_loop sh vc rc bss mx s)) = in_kind_name s"
  by (induction sh vc rc bss mx s rule: interned_load_loop.induct) (auto simp: Let_def split: sum.split option.split)

lemma interned_load_keeps [simp]:
  "in_kind_name (snd (interned_load_records sh vc rc bss s)) = in_kind_name s"
  "in_kind (snd (interned_load_records sh vc rc bss s)) = in_kind s"
proof -
  obtain r t where t: "interned_load_loop sh vc rc bss 0 (interned_clear s) = (r, t)" by fastforce
  have "in_kind_name t = in_kind_name s" "in_kind t = in_kind s"
    using interned_loop_keeps_name [of sh vc rc bss 0 "interned_clear s"]
      interned_load_keeps_kind [of sh vc rc bss 0 "interned_clear s"]
    unfolding t by (simp_all add: interned_clear_def)
  then show "in_kind_name (snd (interned_load_records sh vc rc bss s)) = in_kind_name s"
    and "in_kind (snd (interned_load_records sh vc rc bss s)) = in_kind s"
    using t by (cases r; simp add: interned_load_records_def)+
qed

lemma interned_load_clear [simp]: "interned_load_records sh vc rc bss (interned_clear s) = interned_load_records sh vc rc bss s"
  by (simp add: interned_load_records_def interned_clear_def)

interpretation cached:
  persistable "pi_good sh" pi_obs pi_compat "pi_save_records dbg" "\<lambda>rs t. pi_load_records sh rs (pi_clear t)"
  for sh dbg
proof (unfold_locales, goal_cases)
  case (1 s t rs)
  from 1(2) show ?case
  proof (cases rule: pi_compatE)
    case (input cs a b)
    then show ?thesis using input_store.load_save [of sh cs a b rs] 1 by (simp add: case_prod_beta)
  next
    case (derived cs a b)
    then show ?thesis using derived_store.load_save [of sh cs a b dbg rs] 1 by (simp add: case_prod_beta)
  next
    case (interned vc rc a b)
    then show ?thesis using interned_store.load_save [of sh vc rc a b rs] 1 by (simp add: case_prod_beta)
  qed
next
  case (2 s t rs)
  then show ?case
    by (cases rule: pi_compatE)
      (simp_all add: pi_compat_def case_prod_beta input_clear_def derived_clear_def)
next
  case (3 s t)
  then show ?case by (cases rule: pi_compatE) (simp_all add: pi_compat_def)
qed

subsection \<open>A database through a cache file\<close>

lemma unique_kinds_loop_iff: "unique_kinds_loop seen is = Inr () \<longleftrightarrow> distinct is \<and> set is \<inter> set seen = {}"
  by (induction seen "is" rule: unique_kinds_loop.induct) auto

lemma ensure_unique_kinds_iff:
  "ensure_unique_kinds ings = Inr () \<longleftrightarrow> distinct (map (as_u32 \<circ> pi_kind) ings)"
  by (simp add: ensure_unique_kinds_def unique_kinds_loop_iff)

lemma by_kind_lookup:
  assumes "distinct (map (as_u32 \<circ> pi_kind) ings)" and "i < length ings"
  shows "tget (by_kind ings) (as_u32 (pi_kind (ings ! i))) = Some i"
proof -
  let ?kvs = "map (\<lambda>i. (as_u32 (pi_kind (ings ! i)), i)) [0..<length ings]"
  have f: "by_kind ings = fold (\<lambda>(k, v). tinsert k v) ?kvs []"
    by (simp add: by_kind_def fold_map comp_def)
  have d: "distinct (map fst ?kvs)"
    using assms(1) by (simp add: comp_def map_equality_iff distinct_conv_nth)
  have "(as_u32 (pi_kind (ings ! i)), i) \<in> set ?kvs" using assms(2) by auto
  then have "map_of ?kvs (as_u32 (pi_kind (ings ! i))) = Some i" by (rule map_of_is_SomeI [OF d])
  then show ?thesis unfolding f using tab.look_fold_ins [OF d, of "[]"] by simp
qed

lemma pi_compat_clear [simp]: "pi_compat p (pi_clear q) \<longleftrightarrow> pi_compat p q"
  by (cases p; cases q) (simp_all add: pi_compat_def input_clear_def derived_clear_def interned_clear_def)

lemma pi_clear_clear [simp]: "pi_clear (pi_clear q) = pi_clear q"
  by (cases q) (simp_all add: input_clear_def derived_clear_def interned_clear_def)

lemma pi_clear_kind [simp]: "pi_kind (pi_clear q) = pi_kind q" "pi_kind_name (pi_clear q) = pi_kind_name q"
  "pi_section_type (pi_clear q) = pi_section_type q"
  by (cases q; simp add: input_clear_def derived_clear_def interned_clear_def)+

lemma pi_compat_section_type: "pi_compat p q \<Longrightarrow> pi_section_type p = pi_section_type q"
  by (erule pi_compatE) simp_all

lemma collect_section_default:
  "collect_section dbg default_save_options p = Inr s \<longleftrightarrow>
     (\<exists>rs. pi_save_records dbg p = Inr rs \<and> s = \<lparr>sec_kind_id = as_u32 (pi_kind p), sec_kind_name = pi_kind_name p,
        sec_type = pi_section_type p, sec_records = rs\<rparr>)"
  by (auto simp: collect_section_def default_save_options_def split: sum.splits)

definition restored :: "hasher \<Rightarrow> ('k, 'v) ingredient_obj \<Rightarrow> ('k, 'v) ingredient_obj \<Rightarrow> bool" where
  "restored sh p q \<longleftrightarrow> pi_obs q = pi_obs p \<and> pi_compat p q \<and> pi_good sh q"

text \<open>Loading the sections of the remaining ingredients, one after the other.\<close>

lemma load_sections_ok:
  assumes "list_all2 (\<lambda>p s. collect_section dbg default_save_options p = Inr s) ps ss"
    and "list_all2 pi_compat ps qs" and "\<forall>p \<in> set ps. pi_good sh p"
    and "\<forall>i < length qs. tget kinds (as_u32 (pi_kind (qs ! i))) = Some (length done + i)"
  shows "\<exists>qs'. load_sections sh kinds ss (done @ map pi_clear qs) = (Inr (), done @ qs') \<and> list_all2 (restored sh) ps qs'"
  using assms
proof (induction ps arbitrary: ss qs "done")
  case Nil
  then show ?case by simp
next
  case (Cons p ps)
  from Cons.prems(1) obtain s ss' where ss: "ss = s # ss'" "collect_section dbg default_save_options p = Inr s"
      "list_all2 (\<lambda>p s. collect_section dbg default_save_options p = Inr s) ps ss'"
    by (auto simp: list_all2_Cons1)
  from Cons.prems(2) obtain q qs1 where qs: "qs = q # qs1" "pi_compat p q" "list_all2 pi_compat ps qs1"
    by (auto simp: list_all2_Cons1)
  obtain rs where rs: "pi_save_records dbg p = Inr rs" "s = \<lparr>sec_kind_id = as_u32 (pi_kind p),
      sec_kind_name = pi_kind_name p, sec_type = pi_section_type p, sec_records = rs\<rparr>"
    using ss(2) by (auto simp: collect_section_default)
  define q' where "q' = snd (pi_load_records sh rs (pi_clear q))"
  have loaded: "pi_load_records sh rs (pi_clear q) = (Inr (), q')" and r: "restored sh p q'"
    using cached.load_save [of sh p q dbg rs] cached.compat_load [of p q sh rs] Cons.prems(3) qs(2) rs(1)
    by (auto simp: q'_def restored_def prod_eq_iff)
  have k: "tget kinds (as_u32 (pi_kind p)) = Some (length done)"
    using Cons.prems(4) qs(1,2) by (auto simp: pi_compat_def)
  have step: "load_section sh kinds s (done @ map pi_clear qs) = (Inr (), (done @ [q']) @ map pi_clear qs1)"
    using qs(1,2) k loaded pi_compat_section_type [OF qs(2)]
    by (simp add: load_section_def rs(2) pi_compat_def nth_append list_update_append)
  have "\<forall>i < length qs1. tget kinds (as_u32 (pi_kind (qs1 ! i))) = Some (length (done @ [q']) + i)"
    using Cons.prems(4) qs(1) by auto
  from Cons.IH [OF ss(3) qs(3) _ this] Cons.prems(3) obtain qs' where
    "load_sections sh kinds ss' ((done @ [q']) @ map pi_clear qs1) = (Inr (), (done @ [q']) @ qs')"
    "list_all2 (restored sh) ps qs'" by auto
  with step r show ?case by (intro exI [of _ "q' # qs'"]) (simp add: ss(1))
qed

text \<open>The edges that the ready records of a list of ingredients stand for.\<close>

definition ready_in :: "('k, 'v) ingredient_obj list \<Rightarrow> DynKey \<Rightarrow> 'v ReadyRecord \<Rightarrow> bool" where
  "ready_in ings q r \<longleftrightarrow> (\<exists>cs s. DerivedObj cs s \<in> set ings \<and> ready_at s q = Some r)"

lemma ready_in_kind:
  assumes "ready_in ings q r" and "\<forall>p \<in> set ings. pi_good sh p"
  shows "dk_kind q \<in> pi_kind ` set ings"
proof -
  obtain cs s where p: "DerivedObj cs s \<in> set ings" "ready_at s q = Some r"
    using assms(1) by (auto simp: ready_in_def)
  with assms(2) have "derived_wf sh (dkey_codec cs) s" by (auto simp: derived_good_def)
  from derived_wfD(1) [OF this p(2)] have "dk_kind q = pi_kind (DerivedObj cs s)" by simp
  with p(1) show ?thesis by blast
qed

lemma restore_all_edges:
  assumes "\<forall>p \<in> set ings. pi_good sh p" and "distinct (map pi_kind ings)" and "graph_inv rt"
  shows "graph_inv (restore_all ings rt)
     \<and> (\<forall>q d. d \<in> forward_of (restore_all ings rt) q \<longleftrightarrow>
          (\<exists>r. ready_in ings q r \<and> d \<in> dep_dyn ` set (rr_deps r))
          \<or> (\<not> (\<exists>r. ready_in ings q r) \<and> d \<in> forward_of rt q))"
  using assms
proof (induction ings arbitrary: rt)
  case Nil
  then show ?case by (simp add: restore_all_def ready_in_def)
next
  case (Cons p ps)
  show ?case
  proof (cases p)
    case (DerivedObj cs s)
    have good: "derived_good sh cs s" using Cons.prems(1) DerivedObj by simp
    then have twf: "twf (de_cells s)" by (simp add: derived_good_def derived_wf_def)
    let ?rt = "restore_runtime_state s rt"
    have g: "graph_inv ?rt" and f: "\<And>q. forward_of ?rt q =
        (case ready_at s q of Some r \<Rightarrow> dep_dyn ` set (rr_deps r) | None \<Rightarrow> forward_of rt q)"
      using restore_edges [OF Cons.prems(3) distinct_ready_cells [OF twf]]
      unfolding restore_runtime_state_def tget_ready_cells [OF twf] by auto
    have alone: "\<not> ready_in ps q r'" if "ready_at s q = Some r" for q r r'
    proof
      assume "ready_in ps q r'"
      then have "dk_kind q \<in> pi_kind ` set ps" using ready_in_kind Cons.prems(1) by fastforce
      moreover have "dk_kind q = pi_kind p"
        using good derived_wfD(1) [of sh "dkey_codec cs" s q r] that DerivedObj by (simp add: derived_good_def)
      ultimately show False using Cons.prems(2) by auto
    qed
    have split: "ready_in (p # ps) q r \<longleftrightarrow> ready_at s q = Some r \<or> ready_in ps q r" for q r
      by (auto simp: ready_in_def DerivedObj)
    have "restore_all (p # ps) rt = restore_all ps ?rt" by (simp add: restore_all_def DerivedObj)
    with Cons.IH [of ?rt] Cons.prems g show ?thesis
      unfolding split by (auto simp: f split: option.splits dest: alone)
  next
    case (InputObj cs s)
    then show ?thesis using Cons by (simp add: restore_all_def ready_in_def)
  next
    case (InternedObj vc rc s)
    then show ?thesis using Cons by (simp add: restore_all_def ready_in_def)
  qed
qed

lemma restored_list:
  assumes "list_all2 (restored sh) ps qs"
  shows "\<forall>q \<in> set qs. pi_good sh q" and "map pi_kind qs = map pi_kind ps"
    and "ready_in qs q r \<longleftrightarrow> ready_in ps q r"
proof -
  have "(\<forall>q \<in> set qs. pi_good sh q) \<and> map pi_kind qs = map pi_kind ps \<and> (\<forall>q r. ready_in qs q r \<longleftrightarrow> ready_in ps q r)"
    using assms
  proof (induction rule: list_all2_induct)
    case Nil
    then show ?case by (simp add: ready_in_def)
  next
    case (Cons p ps q qs)
    have "ready_in (q # qs) k r \<longleftrightarrow> ready_in (p # ps) k r" for k r
    proof -
      have "ready_in (x # xs) k r \<longleftrightarrow> (\<exists>cs s. x = DerivedObj cs s \<and> ready_at s k = Some r) \<or> ready_in xs k r"
        for x :: "('a, 'b) ingredient_obj" and xs
        by (auto simp: ready_in_def)
      moreover have "(\<exists>cs s. q = DerivedObj cs s \<and> ready_at s k = Some r)
          \<longleftrightarrow> (\<exists>cs s. p = DerivedObj cs s \<and> ready_at s k = Some r)"
        using Cons(1) unfolding restored_def by (cases p; cases q) (auto simp: pi_compat_def)
      ultimately show ?thesis using Cons by simp
    qed
    then show ?case using Cons by (simp add: restored_def pi_compat_def)
  qed
  then show "\<forall>q \<in> set qs. pi_good sh q" and "map pi_kind qs = map pi_kind ps"
    and "ready_in qs q r \<longleftrightarrow> ready_in ps q r" by blast+
qed

lemma set_revision_simps [simp]:
  "current_revision (set_current_revision rv rt) = rv"
  "dependents_of (set_current_revision rv rt) = dependents_of rt"
  by (auto simp: set_current_revision_def current_revision_def send_event_def dependents_of_def)

lemma dependents_set_revision: "dependents_of (set_current_revision rv rt) d = dependents_of rt d"
  by simp

lemma forward_of_clear: "forward_of (clear_dependency_graph rt) q = {}"
  by (simp add: forward_of_def clear_dependency_graph_def)

lemma build_cache_default:
  assumes "build_cache dbg fc default_save_options rt ings = Inr cache"
  obtains ss where "ensure_unique_kinds ings = Inr ()"
    and "mapM (collect_section dbg default_save_options) ings = Inr ss"
    and "cache = \<lparr>cf_format_version = FORMAT_VERSION, cf_current_revision = rev_u64 (current_revision rt), cf_sections = ss\<rparr>"
  using assms
  by (cases "ensure_unique_kinds ings"; cases "mapM (collect_section dbg default_save_options) ings")
    (simp_all add: build_cache_def default_save_options_def truncate_sections_def)

lemma load_cache_ok:
  assumes "lawful fc" and "\<forall>p \<in> set ings. pi_good sh p" and "list_all2 pi_compat ings ings'"
    and built: "build_cache dbg fc default_save_options rt ings = Inr cache" "encode_cache_file fc cache = Inr bs"
    and "contents path fs = Some bs" and "fs_faults fs = []"
  shows "\<exists>rt1 ings1. load_cache sh fc path rt' ings' fs = (Inr True, rt1, ings1, fs)
     \<and> list_all2 (restored sh) ings ings1 \<and> current_revision rt1 = current_revision rt
     \<and> (\<forall>q d. q \<in> set (dependents_of rt1 d) \<longleftrightarrow> (\<exists>r. ready_in ings q r \<and> d \<in> dep_dyn ` set (rr_deps r)))"
proof -
  obtain ss where ss: "ensure_unique_kinds ings = Inr ()"
      "mapM (collect_section dbg default_save_options) ings = Inr ss"
      "cache = \<lparr>cf_format_version = FORMAT_VERSION, cf_current_revision = rev_u64 (current_revision rt), cf_sections = ss\<rparr>"
    using built(1) by (rule build_cache_default)
  have kinds: "map pi_kind ings' = map pi_kind ings"
    using assms(3) by (induction rule: list_all2_induct) (auto simp: pi_compat_def)
  then have kinds32: "map (as_u32 \<circ> pi_kind) ings' = map (as_u32 \<circ> pi_kind) ings" by (metis map_map)
  have d: "distinct (map (as_u32 \<circ> pi_kind) ings')" using ss(1) kinds32 by (simp add: ensure_unique_kinds_iff)
  have dk: "distinct (map pi_kind ings)"
  proof -
    have "distinct (map as_u32 (map pi_kind ings))" using d kinds32 by (simp only: map_map)
    then show ?thesis by (simp only: distinct_map)
  qed
  have found: "\<forall>i < length ings'. tget (by_kind ings') (as_u32 (pi_kind (ings' ! i))) = Some (length [] + i)"
    using by_kind_lookup [OF d] by simp
  from load_sections_ok [OF ss(2) [unfolded mapM_Inr_iff] assms(3,2) found]
  obtain ings1 where loaded: "load_sections sh (by_kind ings') ss (map pi_clear ings') = (Inr (), ings1)"
      "list_all2 (restored sh) ings ings1" by auto
  let ?rt1 = "set_current_revision (Revision (rev_u64 (current_revision rt))) (restore_all ings1 (clear_dependency_graph rt'))"
  have decoded: "dec fc bs = Inr cache"
    using built(2) lawfulD [OF assms(1)] by (auto simp: encode_cache_file_def split: sum.splits)
  have run: "load_cache sh fc path rt' ings' fs = (Inr True, ?rt1, ings1, fs)"
    using d loaded(1) decoded assms(6,7) ss(3)
    by (simp add: load_cache_def load_cache_with_options_def load_cache_inner_def ensure_unique_kinds_iff [THEN iffD2]
        read_file_def check_cache_bytes_def default_load_options_def decode_cache_file_def install_cache_def Let_def)
  have dk1: "distinct (map pi_kind ings1)"
    using restored_list(2) [OF loaded(2)] dk by simp
  let ?R = "restore_all ings1 (clear_dependency_graph rt')"
  have R: "graph_inv ?R" "d \<in> forward_of ?R q \<longleftrightarrow> (\<exists>r. ready_in ings q r \<and> d \<in> dep_dyn ` set (rr_deps r))" for q d
    using restore_all_edges [OF restored_list(1) [OF loaded(2)] dk1 graph_inv_clear, of rt']
    unfolding restored_list(3) [OF loaded(2)] forward_of_clear by blast+
  then have "q \<in> set (dependents_of ?rt1 d) \<longleftrightarrow> (\<exists>r. ready_in ings q r \<and> d \<in> dep_dyn ` set (rr_deps r))" for q d
    unfolding dependents_set_revision R(2) [symmetric] graph_inv_def by blast
  moreover have "current_revision ?rt1 = current_revision rt"
    by (cases "current_revision rt") simp
  ultimately show ?thesis using run loaded(2) by blast
qed

text \<open>
  C5. A database that is saved and loaded by a new process comes back: every ingredient shows its readers
  what it showed when it was saved (inputs with their revisions, ready records, interned ids),
  whatever it held before the load, the revision is the saved one, and the dependency graph has
  exactly the edges of the saved records.
\<close>

theorem save_load_cache:
  assumes "lawful fc" and "\<forall>p \<in> set ings. pi_good sh p" and "list_all2 pi_compat ings ings'"
    and "fs_wf fs" and "path \<noteq> tmp_path path"
    and "save_cache dbg fc path rt ings fs = (Inr (), fs1)" and "fs_faults fs1 = []"
  shows "\<exists>rt1 ings1. load_cache sh fc path rt' ings' fs1 = (Inr True, rt1, ings1, fs1)
     \<and> list_all2 (\<lambda>p q. pi_obs q = pi_obs p) ings ings1 \<and> current_revision rt1 = current_revision rt
     \<and> (\<forall>q d. q \<in> set (dependents_of rt1 d) \<longleftrightarrow>
          (\<exists>cs s r. DerivedObj cs s \<in> set ings \<and> ready_at s q = Some r \<and> d \<in> dep_dyn ` set (rr_deps r)))"
proof -
  obtain cache bs where c: "build_cache dbg fc default_save_options rt ings = Inr cache"
      "encode_cache_file fc cache = Inr bs" "contents path fs1 = Some bs"
    using save_outcome [OF assms(4,5) assms(6) [unfolded save_cache_def]] by auto
  from load_cache_ok [OF assms(1-3) c assms(7), of rt'] obtain rt1 ings1 where
    r: "load_cache sh fc path rt' ings' fs1 = (Inr True, rt1, ings1, fs1)" "list_all2 (restored sh) ings ings1"
      "current_revision rt1 = current_revision rt"
      "\<forall>q d. q \<in> set (dependents_of rt1 d) \<longleftrightarrow> (\<exists>r. ready_in ings q r \<and> d \<in> dep_dyn ` set (rr_deps r))" by blast
  moreover from r(2) have "list_all2 (\<lambda>p q. pi_obs q = pi_obs p) ings ings1"
    by (rule list_all2_mono) (simp add: restored_def)
  ultimately show ?thesis unfolding ready_in_def by blast
qed

subsection \<open>A small database\<close>

definition demo_ings :: "(u8, u8) ingredient_obj list" where
  "demo_ings = [InputObj byte_codecs demo_input, DerivedObj demo_derived_codecs demo_derived,
     InternedObj byte_codec unary_codec (demo_interned\<lparr>in_kind := QueryKindId 2\<rparr>)]"

definition demo_fresh :: "(u8, u8) ingredient_obj list" where
  "demo_fresh = [InputObj byte_codecs (input_new (QueryKindId 1) ''Item''),
     DerivedObj demo_derived_codecs (derived_new (QueryKindId 3) ''sum''),
     InternedObj byte_codec unary_codec (interned_new (QueryKindId 2) ''Name'')]"

definition demo_cache :: CacheFile where
  "demo_cache = \<lparr>cf_format_version = FORMAT_VERSION, cf_current_revision = 0, cf_sections =
     [\<lparr>sec_kind_id = 1, sec_kind_name = ''Item'', sec_type = InputSection, sec_records = [[1, 1, 5, 0], [2, 0, 0, 0, 0, 0]]\<rparr>,
      \<lparr>sec_kind_id = 3, sec_kind_name = ''sum'', sec_type = DerivedSection, sec_records = [[1]]\<rparr>,
      \<lparr>sec_kind_id = 2, sec_kind_name = ''Name'', sec_type = InternedSection, sec_records = [[7], [9, 0]]\<rparr>]\<rparr>"

text \<open>A lawful encoding of that one file, and one of every file that only has the right lengths.\<close>

definition demo_file_codec :: "CacheFile codec" where
  "demo_file_codec = \<lparr>enc = (\<lambda>c. if c = demo_cache then Inr [42, 43] else Inl ''unknown''),
     dec = (\<lambda>bs. if bs = [42, 43] then Inr demo_cache else Inl ''unknown'')\<rparr>"

definition sized_file_codec :: "CacheFile codec" where
  "sized_file_codec = \<lparr>enc = (\<lambda>c. Inr (replicate (6 + record_bytes c) 0)), dec = (\<lambda>bs. Inl ''not decodable'')\<rparr>"

lemma lawful_demo_file [simp]: "lawful demo_file_codec"
  by (simp add: lawful_def demo_file_codec_def)

lemma demo_saves:
  "input_save_records byte_codecs demo_input = Inr [[1, 1, 5, 0], [2, 0, 0, 0, 0, 0]]"
  "derived_save_records dbg demo_derived_codecs demo_derived = Inr [[1]]"
  "interned_save_records unary_codec (demo_interned\<lparr>in_kind := k\<rparr>) = Inr [[7], [9, 0]]"
proof -
  have three: "replicate 3 (0 :: u8) = [0, 0, 0]" by (simp add: numeral_3_eq_3)
  show "input_save_records byte_codecs demo_input = Inr [[1, 1, 5, 0], [2, 0, 0, 0, 0, 0]]"
    by (simp add: input_save_records_def demo_input_def encode_input_record_def byte_codecs_def
        unary_record_codec_def demo_key_def decode_facet_def byte_codec_def three)
  show "derived_save_records dbg demo_derived_codecs demo_derived = Inr [[1]]"
    by (simp add: derived_save_records_def ready_cells_def demo_derived_def encode_derived_record_def
        demo_derived_codecs_def demo_key_def decode_facet_def byte_codec_def)
  show "interned_save_records unary_codec (demo_interned\<lparr>in_kind := k\<rparr>) = Inr [[7], [9, 0]]"
    by (simp add: interned_save_records_def demo_interned_state unary_codec_def)
qed

lemma demo_names:
  "inp_kind demo_input = QueryKindId 1" "inp_kind_name demo_input = ''Item''"
  "de_kind demo_derived = QueryKindId 3" "de_kind_name demo_derived = ''sum''"
  "in_kind_name demo_interned = ''Name''"
  by (simp_all add: demo_input_def demo_derived_def demo_interned_state)

lemma demo_collected:
  "mapM (collect_section dbg \<lparr>so_max_bytes = mb, so_max_records_per_section = mr, so_max_record_bytes = None\<rparr>) demo_ings
     = Inr (cf_sections demo_cache)"
  by (simp add: demo_ings_def collect_section_def demo_saves demo_names demo_cache_def)

lemma demo_unique: "ensure_unique_kinds demo_ings = Inr ()"
  by (simp add: ensure_unique_kinds_def demo_ings_def demo_names)

lemma demo_good: "\<forall>p \<in> set demo_ings. pi_good (\<lambda>_. 0) p"
  and demo_compat: "list_all2 pi_compat demo_ings demo_fresh"
proof -
  have "lawful_derived demo_derived_codecs"
    by (simp add: lawful_derived_def demo_derived_codecs_def lawful_def byte_codec_def)
  moreover have "derived_wf (\<lambda>_. 0) (dkey_codec demo_derived_codecs) demo_derived"
    by (auto simp: derived_wf_def demo_derived_def demo_derived_codecs_def twf_def encode_byte demo_key_def
        demo_ready_def dyn_dep_def split: if_splits)
  moreover have "intern_inv (\<lambda>_. 0) byte_codec (demo_interned\<lparr>in_kind := QueryKindId 2\<rparr>)"
    using intern_inv_demo by (simp add: intern_inv_def)
  ultimately show "\<forall>p \<in> set demo_ings. pi_good (\<lambda>_. 0) p"
    by (simp add: demo_ings_def input_good_def derived_good_def interned_good_def lawful_byte_codecs input_wf_demo_codecs)
  show "list_all2 pi_compat demo_ings demo_fresh"
    by (simp add: demo_ings_def demo_fresh_def pi_compat_def demo_names input_new_def derived_new_def interned_new_def)
qed

lemma demo_path: "''c.bin'' \<noteq> tmp_path ''c.bin''" "tmp_path ''c.bin'' = ''c.tmp''" "path_parent ''c.bin'' = Some []"
  by code_simp+

lemma demo_build:
  assumes "current_revision rt = Revision 0"
  shows "build_cache dbg fc default_save_options rt demo_ings = Inr demo_cache"
  using assms demo_collected [of dbg None None]
  by (simp add: build_cache_def demo_unique default_save_options_def truncate_sections_def demo_cache_def Let_def)

lemma demo_save:
  assumes "current_revision rt = Revision 0"
  shows "save_cache dbg demo_file_codec ''c.bin'' rt demo_ings no_files =
     (Inr (), \<lparr>fs_dir = [(''c.bin'', 0)], fs_data = [[42, 43]], fs_faults = []\<rparr>)"
  by (simp add: save_cache_def save_cache_with_options_def demo_build [OF assms] encode_cache_file_def demo_file_codec_def
      create_parent_def demo_path fs_write_def create_file_def no_files_def write_file_def set_data_def rename_file_def
      tinsert_def tremove_def)

definition demo_runtime :: Runtime where
  "demo_runtime = fst (runtime_new 1)"

lemma demo_revision: "current_revision demo_runtime = Revision 0"
  by (simp add: demo_runtime_def runtime_new_def current_revision_def Let_def case_prod_beta)

theorem save_atomic_witness:
  "case save_cache_with_options (\<lambda>_. []) demo_file_codec ''c.bin'' demo_runtime demo_ings default_save_options
      (no_files\<lparr>fs_faults := [None, Some (''disk full'', 1)]\<rparr>) of
    (r, fs') \<Rightarrow> r = Inl (Cache (''write c.tmp: disk full'')) \<and> contents ''c.bin'' fs' = None \<and> contents ''c.tmp'' fs' = Some [42]"
proof -
  let ?fs = "no_files\<lparr>fs_faults := [None, Some (''disk full'', 1)]\<rparr>"
  have wf: "fs_wf ?fs" using sample_fits(3) by (simp add: fs_wf_def no_files_def)
  have r: "save_cache_with_options (\<lambda>_. []) demo_file_codec ''c.bin'' demo_runtime demo_ings default_save_options ?fs
      = (Inl (Cache (''write c.tmp: disk full'')), \<lparr>fs_dir = [(''c.tmp'', 0)], fs_data = [[42]], fs_faults = []\<rparr>)"
    by (simp add: save_cache_with_options_def demo_build [OF demo_revision] encode_cache_file_def demo_file_codec_def
      create_parent_def demo_path fs_write_def create_file_def no_files_def write_file_def set_data_def
      tinsert_def syscall_def)
  have "contents ''c.bin'' \<lparr>fs_dir = [(''c.tmp'', 0)], fs_data = [[42]], fs_faults = []\<rparr> = contents ''c.bin'' ?fs"
    using save_atomic [OF wf demo_path(1), of "\<lambda>_. []" demo_file_codec default_save_options demo_runtime demo_ings]
    unfolding r by simp
  then show ?thesis unfolding r by (simp add: contents_def no_files_def)
qed

definition limited :: "nat \<Rightarrow> CacheSaveOptions" where
  "limited mx = \<lparr>so_max_bytes = Some mx, so_max_records_per_section = None, so_max_record_bytes = None\<rparr>"

text \<open>Twenty bytes do not fit into sixteen: the derived record and the longest input record go.\<close>

definition demo_shrunk :: CacheFile where
  "demo_shrunk = demo_cache\<lparr>cf_sections :=
     [\<lparr>sec_kind_id = 1, sec_kind_name = ''Item'', sec_type = InputSection, sec_records = [[1, 1, 5, 0]]\<rparr>,
      \<lparr>sec_kind_id = 3, sec_kind_name = ''sum'', sec_type = DerivedSection, sec_records = []\<rparr>,
      \<lparr>sec_kind_id = 2, sec_kind_name = ''Name'', sec_type = InternedSection, sec_records = [[7], [9, 0]]\<rparr>]\<rparr>"

lemma sized_encoding: "encode_cache_file sized_file_codec c = Inr (replicate (6 + record_bytes c) 0)"
  by (simp add: encode_cache_file_def sized_file_codec_def)

lemma demo_sizes: "record_bytes demo_cache = 14" "record_bytes demo_shrunk = 7"
  by (simp_all add: record_bytes_def demo_cache_def demo_shrunk_def)

lemma demo_shrink: "shrink_cache_to_fit sized_file_codec 16 demo_cache = Inr demo_shrunk"
proof -
  have three: "(3 :: nat) = Suc 2" by simp
  have loop: "drop_loop 10 (sort_sections demo_cache, 14) = (demo_shrunk, 7)"
    by (simp add: drop_loop.simps [of _ "(_, _)"] drop_any_record_def drop_one_record_def sort_sections_def demo_cache_def demo_shrunk_def)
  show ?thesis
    unfolding shrink_cache_to_fit_def three verify_rounds.simps(2) sized_encoding demo_sizes
    by (simp add: loop demo_sizes)
qed

theorem save_respects_max_bytes_witness:
  "\<exists>fs' bs. save_cache_with_options (\<lambda>_. []) sized_file_codec ''c.bin'' demo_runtime demo_ings (limited 16) no_files = (Inr (), fs')
     \<and> contents ''c.bin'' fs' = Some bs \<and> length bs \<le> 16"
proof -
  have b: "build_cache (\<lambda>_. []) sized_file_codec (limited 16) demo_runtime demo_ings = Inr demo_shrunk"
    using demo_collected [of "\<lambda>_. []" "Some 16" None] demo_shrink demo_revision
    by (simp add: build_cache_def demo_unique limited_def truncate_sections_def demo_cache_def Let_def)
  have "\<exists>fs'. save_cache_with_options (\<lambda>_. []) sized_file_codec ''c.bin'' demo_runtime demo_ings (limited 16) no_files = (Inr (), fs')"
    by (simp add: save_cache_with_options_def b sized_encoding
      create_parent_def demo_path fs_write_def create_file_def no_files_def write_file_def set_data_def rename_file_def
      tinsert_def tremove_def)
  then obtain fs' where s:
    "save_cache_with_options (\<lambda>_. []) sized_file_codec ''c.bin'' demo_runtime demo_ings (limited 16) no_files = (Inr (), fs')" ..
  have "so_max_bytes (limited 16) = Some 16" by (simp add: limited_def)
  from save_respects_max_bytes [OF sample_fits(3) demo_path(1) this s] s show ?thesis by blast
qed

theorem shrink_drops_derived_first_witness:
  "shrink_cache_to_fit sized_file_codec 16 demo_cache = Inr demo_shrunk
     \<and> cf_sections demo_shrunk ! 2 = cf_sections (sort_sections demo_cache) ! 2"
proof -
  have ne: "demo_shrunk \<noteq> demo_cache" by (simp add: demo_shrunk_def demo_cache_def)
  have len: "length (cf_sections (sort_sections demo_cache)) = 3" by (simp add: sort_sections_def demo_cache_def)
  have "sec_type (cf_sections (sort_sections demo_cache) ! 0) = InputSection"
    "sec_type (cf_sections (sort_sections demo_cache) ! 2) = InternedSection"
    "sec_records (cf_sections demo_shrunk ! 0) \<noteq> []"
    by (simp_all add: sort_sections_def demo_cache_def demo_shrunk_def)
  moreover have "\<forall>i < 3. \<forall>j < 3. drop_rank (sec_type (cf_sections (sort_sections demo_cache) ! i))
        < drop_rank (sec_type (cf_sections (sort_sections demo_cache) ! j))
      \<and> sec_records (cf_sections demo_shrunk ! i) \<noteq> []
      \<longrightarrow> cf_sections demo_shrunk ! j = cf_sections (sort_sections demo_cache) ! j"
    using shrink_drops_derived_first [OF demo_shrink] ne unfolding Let_def len by blast
  ultimately have "cf_sections demo_shrunk ! 2 = cf_sections (sort_sections demo_cache) ! 2"
    by (metis drop_rank.simps(2,3) less_numeral_extra(1) numeral_less_iff one_less_numeral_iff semiring_norm(76) zero_less_numeral lessI numeral_2_eq_2 numeral_3_eq_3)
  with demo_shrink show ?thesis by blast
qed

theorem save_load_cache_witness:
  "\<exists>fs1 rt1 ings1. save_cache (\<lambda>_. []) demo_file_codec ''c.bin'' demo_runtime demo_ings no_files = (Inr (), fs1)
     \<and> load_cache (\<lambda>_. 0) demo_file_codec ''c.bin'' demo_runtime demo_fresh fs1 = (Inr True, rt1, ings1, fs1)
     \<and> list_all2 (\<lambda>p q. pi_obs q = pi_obs p) demo_ings ings1"
proof -
  let ?fs1 = "\<lparr>fs_dir = [(''c.bin'', 0)], fs_data = [[42, 43]], fs_faults = []\<rparr>"
  note saved = demo_save [OF demo_revision, of "\<lambda>_. []"]
  have "fs_faults ?fs1 = []" by simp
  from save_load_cache [OF lawful_demo_file demo_good demo_compat sample_fits(3) demo_path(1) saved this, of demo_runtime] saved
  show ?thesis by blast
qed

end
