(* ===== verification/LogReplay.thy ===== *)
theory LogReplay
  imports PersistProps
begin

text \<open>
  The write-ahead log on top of a snapshot: what \<open>append_to_wal\<close> writes for a database and what
  \<open>replay_wal\<close> makes of it, of a log that was cut off, and of one that was appended to twice.
\<close>

subsection \<open>Replaying a list of entries\<close>

text \<open>The loop of \<open>replay_wal\<close> over entries that are already read.\<close>

fun apply_entries ::
  "hasher \<Rightarrow> (u32, nat) table \<Rightarrow> WalEntry list \<Rightarrow> ('k, 'v) ingredient_obj list \<Rightarrow> nat \<Rightarrow> u64
   \<Rightarrow> (nat \<times> u64) PicanteResult \<times> ('k, 'v) ingredient_obj list" where
  "apply_entries sh kinds [] ings n mx = (Inr (n, mx), ings)"
| "apply_entries sh kinds (e # es) ings n mx =
     (case tget kinds (we_kind_id e) of
        None \<Rightarrow> apply_entries sh kinds es ings n mx
      | Some i \<Rightarrow>
          (case apply_operation sh e (ings ! i) of
             (Inl err, p) \<Rightarrow> (Inl err, ings[i := p])
           | (Inr _, p) \<Rightarrow> apply_entries sh kinds es (ings[i := p]) (Suc n) (max mx (we_revision e))))"

lemma replay_loop_entries:
  "replay_loop sh wc kinds r ings n mx =
     (case read_entries wc r of (es, err) \<Rightarrow>
        case apply_entries sh kinds es ings n mx of
          (Inl e, ings1) \<Rightarrow> (Inl e, ings1)
        | (Inr res, ings1) \<Rightarrow> (case err of None \<Rightarrow> (Inr res, ings1) | Some e \<Rightarrow> (Inl e, ings1)))"
proof (induction sh wc kinds r ings n mx rule: replay_loop.induct)
  case (1 sh wc kinds r ings n mx)
  obtain res r1 where nx: "next_entry wc r = (res, r1)" by fastforce
  show ?case
  proof (cases res)
    case (Inl e)
    then show ?thesis by (subst replay_loop.simps, subst read_entries.simps) (simp add: nx)
  next
    case (Inr o')
    show ?thesis
    proof (cases o')
      case None
      with Inr show ?thesis by (subst replay_loop.simps, subst read_entries.simps) (simp add: nx)
    next
      case (Some entry)
      show ?thesis
      proof (cases "tget kinds (we_kind_id entry)")
        case None
        with 1(1) [OF nx [symmetric] Inr Some None] Inr Some show ?thesis
          by (subst replay_loop.simps, subst read_entries.simps) (simp add: nx split: prod.split)
      next
        case i: (Some i)
        obtain a p where ap: "apply_operation sh entry (ings ! i) = (a, p)" by fastforce
        show ?thesis
        proof (cases a)
          case Inl': (Inl e)
          with i Inr Some ap show ?thesis
            by (subst replay_loop.simps, subst read_entries.simps) (simp add: nx split: prod.split)
        next
          case Inr': (Inr u)
          with 1(2) [OF nx [symmetric] Inr Some i ap [symmetric] Inr'] i Inr Some ap show ?thesis
            by (subst replay_loop.simps, subst read_entries.simps) (simp add: nx split: prod.split)
        qed
      qed
    qed
  qed
qed

lemma replay_wal_run:
  assumes "lawful (header_codec wc)" and "header_fits wc base" and "fs_faults fs = []"
    and "contents path fs = Some (log_header wc base @ bs)" and "current_revision rt = Revision base"
    and "read_entries wc \<lparr>wr_path = path, wr_rest = bs, wr_end = AtEof, wr_header = the_header base\<rparr> = (es, err)"
  shows "replay_wal sh wc path rt ings fs =
     (case apply_entries sh (by_kind ings) es ings 0 base of
        (Inl e, ings1) \<Rightarrow> (Inl e, rt, ings1, fs)
      | (Inr (n, mx), ings1) \<Rightarrow>
          (case err of
             Some e \<Rightarrow> (Inl e, rt, ings1, fs)
           | None \<Rightarrow> (Inr n, restore_all ings1 (if base < mx then set_current_revision (Revision mx) rt else rt), ings1, fs)))"
  using wal_open_ok [OF assms(1-4)] assms(3-6)
  by (simp add: replay_wal_def metadata_def the_header_def replay_loop_entries split: prod.split sum.split option.split)

text \<open>
  C37. A crash in the middle of an entry, after its length was written, makes the log unreplayable: the reader
  reports the cut entry as an error instead of the end of the log, and \<open>replay_wal\<close> returns that
  error after it has applied every complete entry before it, with the revision and the dependency
  graph still those of the snapshot.
\<close>

theorem torn_log_is_half_applied:
  assumes "lawful (header_codec wc)" and "lawful (entry_codec wc)" and "header_fits wc base"
    and "\<forall>e \<in> set es. entry_fits wc e" and "entry_fits wc e"
    and "4 \<le> n" and "n < length (entry_frame wc e)"
    and "fs_faults fs = []" and "current_revision rt = Revision base"
    and "contents path fs = Some (log_header wc base @ log_frames wc es @ take n (entry_frame wc e))"
    and "apply_entries sh (by_kind ings) es ings 0 base = (Inr res, ings1)"
  shows "replay_wal sh wc path rt ings fs = (Inl torn_error, rt, ings1, fs)"
proof -
  let ?r = "\<lparr>wr_path = path, wr_rest = log_frames wc es @ take n (entry_frame wc e), wr_end = AtEof, wr_header = the_header base\<rparr>"
  have "read_entries wc ?r = (es, Some torn_error)"
    by (rule read_entries_torn [OF assms(2,4-7)]) simp_all
  note run = replay_wal_run [OF assms(1,3,8,10,9) this]
  show ?thesis unfolding run assms(11) by (cases res) simp
qed


subsection \<open>The changes of one ingredient\<close>

fun pi_replay ::
  "hasher \<Rightarrow> (u64 \<times> bytes \<times> bytes option) list \<Rightarrow> ('k, 'v) ingredient_obj \<Rightarrow> unit PicanteResult \<times> ('k, 'v) ingredient_obj" where
  "pi_replay sh [] p = (Inr (), p)"
| "pi_replay sh ((rv, k, v) # cs) p =
     (case pi_apply_wal_entry sh rv k v p of
        (Inl e, p') \<Rightarrow> (Inl e, p')
      | (Inr _, p') \<Rightarrow> pi_replay sh cs p')"

text \<open>
  \<open>t'\<close> is the older \<open>t\<close> with everything that \<open>p\<close> changed after \<open>since\<close>. Interned values are not
  logged.
\<close>

fun caught_up :: "u64 \<Rightarrow> ('k, 'v) ingredient_obj \<Rightarrow> ('k, 'v) ingredient_obj \<Rightarrow> ('k, 'v) ingredient_obj \<Rightarrow> bool" where
  "caught_up since (InputObj _ s) (InputObj _ t) (InputObj _ t') \<longleftrightarrow>
     (\<forall>q. tget (inp_entries t') q =
        (case tget (inp_entries s) q of
           Some e \<Rightarrow> if since < rev_u64 (ie_changed_at e) then Some e else tget (inp_entries t) q
         | None \<Rightarrow> tget (inp_entries t) q))"
| "caught_up since (DerivedObj _ s) (DerivedObj _ t) (DerivedObj _ t') \<longleftrightarrow>
     (\<forall>q. ready_at t' q =
        (case ready_at s q of
           Some r \<Rightarrow> if since < rev_u64 (rr_changed_at r) then Some r else ready_at t q
         | None \<Rightarrow> ready_at t q))"
| "caught_up since (InternedObj _ _ s) (InternedObj _ _ t) (InternedObj _ _ t') \<longleftrightarrow> t' = t"
| "caught_up since _ _ _ \<longleftrightarrow> False"

lemma pi_replay_input:
  "input_replay sh cs changes t = (r, t') \<Longrightarrow> pi_replay sh changes (InputObj cs t) = (r, InputObj cs t')"
  by (induction sh cs changes t rule: input_replay.induct) (auto split: prod.splits sum.splits)

lemma tget_fold_filtered:
  assumes "twf es" and "\<And>q x. P (q, x) \<longleftrightarrow> Q x"
  shows "tget (fold (\<lambda>(q, x). tinsert q (f x)) (filter P es) acc) q =
     (case tget es q of Some x \<Rightarrow> if Q x then Some (f x) else tget acc q | None \<Rightarrow> tget acc q)"
proof -
  let ?es = "filter P es"
  have g: "fold (\<lambda>(q, x). tinsert q (f x)) ?es acc = fold (\<lambda>(q, y). tinsert q y) (map (\<lambda>(q, x). (q, f x)) ?es) acc"
    by (simp add: fold_map comp_def case_prod_unfold)
  have graph: "\<forall>(q, y) \<in> set (map (\<lambda>(q, x). (q, f x)) ?es). map_option f (tget es q) = Some y"
    by (auto simp: twf_tget_iff [OF assms(1)])
  have dom: "q \<in> fst ` set (map (\<lambda>(q, x). (q, f x)) ?es) \<longleftrightarrow> (\<exists>x. tget es q = Some x \<and> Q x)"
    using assms(2) by (force simp: twf_tget_iff [OF assms(1)] image_iff)
  show ?thesis unfolding g fold_tinsert_graph [OF graph] dom by (auto split: option.splits)
qed

lemma input_catches_up:
  assumes "input_good sh cs s" and "inp_kind s = inp_kind t" and "input_save_incremental_records cs since s = Inr changes"
  shows "\<exists>t'. pi_replay sh changes (InputObj cs t) = (Inr (), InputObj cs t') \<and> inp_kind t' = inp_kind t
     \<and> inp_kind_name t' = inp_kind_name t \<and> caught_up since (InputObj cs s) (InputObj cs t) (InputObj cs t')"
proof -
  let ?P = "\<lambda>(_ :: DynKey, entry). since < rev_u64 (ie_changed_at entry)"
  let ?es = "filter ?P (inp_entries s)"
  have law: "lawful_input cs" and wf: "input_wf sh (key_codec cs) s" using assms(1) by (auto simp: input_good_def)
  have twf: "twf (inp_entries s)" using wf by (simp add: input_wf_def)
  have "mapM (incremental_of cs) ?es = Inr changes"
    using assms(3) by (simp add: input_save_incremental_records_def incremental_of_def case_prod_unfold)
  then have "list_all2 (\<lambda>(q, e) c. incremental_of cs (q, e) = Inr c \<and> dk_kind q = inp_kind t
       \<and> (\<exists>k. encode_facet sh (key_codec cs) k = Inr (dk_key q))) ?es changes"
    unfolding mapM_Inr_iff
  proof (rule list.rel_mono_strong)
    fix x c assume x: "x \<in> set ?es" and i: "incremental_of cs x = Inr c"
    obtain q e where qe: "x = (q, e)" by (cases x)
    have "tget (inp_entries s) q = Some e" using x qe by (simp add: twf_tget_iff [OF twf])
    from input_wfD [OF wf this] i assms(2) qe
    show "(case x of (q, e) \<Rightarrow> \<lambda>c. incremental_of cs (q, e) = Inr c \<and> dk_kind q = inp_kind t
        \<and> (\<exists>k. encode_facet sh (key_codec cs) k = Inr (dk_key q))) c" by simp
  qed
  from pi_replay_input [OF input_replay_entries [OF law this]]
    tget_fold_filtered [OF twf, of ?P "\<lambda>e. since < rev_u64 (ie_changed_at e)" "\<lambda>e. e" "inp_entries t"]
  show ?thesis by simp
qed

lemma derived_entry_applied:
  assumes law: "lawful_derived cs" and q: "dk_kind q = de_kind t" "encode_facet sh (dkey_codec cs) k = Inr (dk_key q)"
    and deps: "\<forall>d \<in> set (rr_deps r). wf_key sh (dep_key d)"
    and enc: "encode_derived_incremental dbg cs name q r = Inr (kb, vb)"
  shows "pi_apply_wal_entry sh rv kb (Some vb) (DerivedObj cs t)
     = (Inr (), DerivedObj cs (t\<lparr>de_cells := tinsert q (new_ready r) (de_cells t)\<rparr>))"
proof -
  have L: "lawful (dkey_codec cs)" "lawful (drecord_codec cs)" using law by (auto simp: lawful_derived_def)
  have k: "decode_facet (dkey_codec cs) (dk_key q) = Inr k" by (rule decode_encode_facet [OF L(1) q(2)])
  then have e: "enc (dkey_codec cs) k = Inr kb" "enc (drecord_codec cs) (to_derived_record k r) = Inr vb"
    using enc by (auto simp: encode_derived_incremental_def split: sum.splits)
  from lawfulD [OF L(1) e(1)] lawfulD [OF L(2) e(2)] q of_to_derived_record [OF deps, of k]
  show ?thesis by (cases q) (simp add: derived_apply_wal_entry_def decode_derived_wal_entry_def)
qed


lemma derived_replay_entries:
  assumes law: "lawful_derived cs"
  shows "list_all2 (\<lambda>(q, r) c. (\<exists>kb vb. c = (rev_u64 (rr_changed_at r), kb, Some vb)
             \<and> encode_derived_incremental dbg cs name q r = Inr (kb, vb)) \<and> dk_kind q = de_kind t
             \<and> (\<exists>k. encode_facet sh (dkey_codec cs) k = Inr (dk_key q)) \<and> (\<forall>d \<in> set (rr_deps r). wf_key sh (dep_key d)))
           es changes \<Longrightarrow>
    pi_replay sh changes (DerivedObj cs t) =
      (Inr (), DerivedObj cs (t\<lparr>de_cells := fold (\<lambda>(q, r). tinsert q (new_ready r)) es (de_cells t)\<rparr>))"
proof (induction es arbitrary: changes t)
  case Nil
  then show ?case by simp
next
  case (Cons x es)
  obtain q r where x: "x = (q, r)" by (cases x)
  obtain kb vb rest k where c: "changes = (rev_u64 (rr_changed_at r), kb, Some vb) # rest"
      "encode_derived_incremental dbg cs name q r = Inr (kb, vb)" "dk_kind q = de_kind t"
      "encode_facet sh (dkey_codec cs) k = Inr (dk_key q)" "\<forall>d \<in> set (rr_deps r). wf_key sh (dep_key d)"
    using Cons.prems x by (auto simp: list_all2_Cons1)
  have "pi_replay sh rest (DerivedObj cs (t\<lparr>de_cells := tinsert q (new_ready r) (de_cells t)\<rparr>)) =
      (Inr (), DerivedObj cs (t\<lparr>de_cells := fold (\<lambda>(q, r). tinsert q (new_ready r)) (x # es) (de_cells t)\<rparr>))"
    using Cons.IH [of "t\<lparr>de_cells := tinsert q (new_ready r) (de_cells t)\<rparr>" rest] Cons.prems c(1) by (simp add: x)
  with derived_entry_applied [OF law c(3-5,2)] c(1) show ?case by simp
qed

lemma derived_catches_up:
  assumes "derived_good sh cs s" and "de_kind s = de_kind t" and "derived_save_incremental_records dbg cs since s = Inr changes"
  shows "\<exists>t'. pi_replay sh changes (DerivedObj cs t) = (Inr (), DerivedObj cs t') \<and> de_kind t' = de_kind t
     \<and> de_kind_name t' = de_kind_name t \<and> caught_up since (DerivedObj cs s) (DerivedObj cs t) (DerivedObj cs t')"
proof -
  let ?P = "\<lambda>(_ :: DynKey, r). \<not> rev_u64 (rr_changed_at r) \<le> since"
  let ?es = "filter ?P (ready_cells s)"
  have law: "lawful_derived cs" and wf: "derived_wf sh (dkey_codec cs) s" using assms(1) by (auto simp: derived_good_def)
  have twf: "twf (de_cells s)" using wf by (simp add: derived_wf_def)
  have twfr: "twf (ready_cells s)" using distinct_ready_cells [OF twf] by (simp add: twf_def)
  have "list_all2 (\<lambda>(q, r) c. (\<exists>kb vb. c = (rev_u64 (rr_changed_at r), kb, Some vb)
             \<and> encode_derived_incremental dbg cs (de_kind_name s) q r = Inr (kb, vb)) \<and> dk_kind q = de_kind t
             \<and> (\<exists>k. encode_facet sh (dkey_codec cs) k = Inr (dk_key q)) \<and> (\<forall>d \<in> set (rr_deps r). wf_key sh (dep_key d)))
           ?es changes"
    using assms(3) unfolding derived_save_incremental_records_def mapM_Inr_iff
  proof (rule list.rel_mono_strong)
    fix x c assume x: "x \<in> set ?es" and i: "(case x of (q, r) \<Rightarrow>
        case encode_derived_incremental dbg cs (de_kind_name s) q r of Inl e \<Rightarrow> Inl e
        | Inr (kbytes, vbytes) \<Rightarrow> Inr (rev_u64 (rr_changed_at r), kbytes, Some vbytes)) = Inr c"
    obtain q r where qr: "x = (q, r)" by (cases x)
    have "ready_at s q = Some r" using x qr set_ready_cells [OF twf] by simp
    note w = derived_wfD [OF wf this]
    show "(case x of (q, r) \<Rightarrow> \<lambda>c. (\<exists>kb vb. c = (rev_u64 (rr_changed_at r), kb, Some vb)
             \<and> encode_derived_incremental dbg cs (de_kind_name s) q r = Inr (kb, vb)) \<and> dk_kind q = de_kind t
             \<and> (\<exists>k. encode_facet sh (dkey_codec cs) k = Inr (dk_key q)) \<and> (\<forall>d \<in> set (rr_deps r). wf_key sh (dep_key d))) c"
      using i w assms(2) by (auto simp: qr split: sum.splits)
  qed
  from derived_replay_entries [OF law this]
  have run: "pi_replay sh changes (DerivedObj cs t) =
      (Inr (), DerivedObj cs (t\<lparr>de_cells := fold (\<lambda>(q, r). tinsert q (new_ready r)) ?es (de_cells t)\<rparr>))" .
  have cell: "tget (fold (\<lambda>(q, r). tinsert q (new_ready r)) ?es (de_cells t)) q =
      (case ready_at s q of Some r \<Rightarrow> if since < rev_u64 (rr_changed_at r) then Some (new_ready r) else tget (de_cells t) q
       | None \<Rightarrow> tget (de_cells t) q)" for q
    using tget_fold_filtered [OF twfr, of ?P "\<lambda>r. since < rev_u64 (rr_changed_at r)" new_ready "de_cells t" q]
    unfolding tget_ready_cells [OF twf] by (simp add: not_le)
  have "caught_up since (DerivedObj cs s) (DerivedObj cs t)
      (DerivedObj cs (t\<lparr>de_cells := fold (\<lambda>(q, r). tinsert q (new_ready r)) ?es (de_cells t)\<rparr>))"
    by (auto simp: ready_at_def [of "t\<lparr>de_cells := _\<rparr>"] ready_at_def [of t] cell split: option.splits)
  with run show ?thesis by simp
qed

lemma pi_catches_up:
  assumes "pi_good sh p" and "pi_compat p t" and "pi_save_incremental_records dbg since p = Inr changes"
  shows "\<exists>t'. pi_replay sh changes t = (Inr (), t') \<and> pi_compat p t' \<and> caught_up since p t t'"
  using assms(2)
proof (cases rule: pi_compatE)
  case (input cs a b)
  then show ?thesis using input_catches_up [of sh cs a b since changes] assms
    by (auto simp: pi_compat_def simp del: caught_up.simps)
next
  case (derived cs a b)
  then show ?thesis using derived_catches_up [of sh cs a b dbg since changes] assms
    by (auto simp: pi_compat_def simp del: caught_up.simps)
next
  case (interned vc rc a b)
  then have "changes = []" using assms(3) by (simp add: interned_save_incremental_records_def)
  with interned show ?thesis by (simp add: pi_compat_def)
qed


subsection \<open>The changes of a database\<close>

definition change_entry :: "u32 \<Rightarrow> u64 \<times> bytes \<times> bytes option \<Rightarrow> WalEntry" where
  "change_entry kind = (\<lambda>(rv, k, v). \<lparr>we_revision = rv, we_kind_id = kind,
     we_operation = (case v of Some v \<Rightarrow> WalSet k v | None \<Rightarrow> WalDelete k)\<rparr>)"

definition log_entries :: "('k, 'v) ingredient_obj list \<Rightarrow> (u64 \<times> bytes \<times> bytes option) list list \<Rightarrow> WalEntry list" where
  "log_entries ps css = concat (map2 (\<lambda>p. map (change_entry (as_u32 (pi_kind p)))) ps css)"

lemma append_changes_all:
  "append_changes wc kind changes n w fs =
     (case append_all wc (map (change_entry kind) changes) w fs of
        (Inl e, st) \<Rightarrow> (Inl e, st) | (Inr _, st) \<Rightarrow> (Inr (n + length changes), st))"
  by (induction wc kind changes n w fs rule: append_changes.induct)
    (auto simp: change_entry_def Let_def split: prod.split sum.split)

lemma append_all_append:
  "append_all wc (es @ es') w fs =
     (case append_all wc es w fs of (Inl e, w1, fs1) \<Rightarrow> (Inl e, w1, fs1) | (Inr _, w1, fs1) \<Rightarrow> append_all wc es' w1 fs1)"
  by (induction wc es w fs rule: append_all.induct) (auto split: prod.split sum.split)

lemma append_ingredients_all:
  assumes "mapM (pi_save_incremental_records dbg since) ps = Inr css"
  shows "append_ingredients dbg wc since ps n w fs =
     (case append_all wc (log_entries ps css) w fs of
        (Inl e, st) \<Rightarrow> (Inl e, st) | (Inr _, st) \<Rightarrow> (Inr (n + length (log_entries ps css)), st))"
  using assms
proof (induction ps arbitrary: css n w fs)
  case Nil
  then show ?case by (simp add: log_entries_def)
next
  case (Cons p ps)
  obtain cs css' where c: "pi_save_incremental_records dbg since p = Inr cs" "css = cs # css'"
      "mapM (pi_save_incremental_records dbg since) ps = Inr css'"
    using Cons.prems by (auto split: sum.splits)
  have "log_entries (p # ps) css = map (change_entry (as_u32 (pi_kind p))) cs @ log_entries ps css'"
    by (simp add: log_entries_def c(2))
  then show ?case
    using c Cons.IH [OF c(3)]
    by (simp add: append_changes_all append_all_append split: prod.split sum.split)
qed

lemma apply_change_entry: "apply_operation sh (change_entry kind (rv, k, v)) p = pi_apply_wal_entry sh rv k v p"
  by (cases v) (simp_all add: apply_operation_def change_entry_def)

lemma apply_changes:
  assumes "tget kinds kind = Some i" and "i < length ings" and "pi_replay sh changes (ings ! i) = (Inr (), p')"
  shows "apply_entries sh kinds (map (change_entry kind) changes @ es) ings n mx =
     apply_entries sh kinds es (ings[i := p']) (n + length changes) (fold (\<lambda>c mx. max mx (fst c)) changes mx)"
  using assms
proof (induction changes arbitrary: ings n mx)
  case Nil
  then have "ings ! i = p'" by simp
  then have "ings[i := p'] = ings" by (metis list_update_id)
  then show ?case by simp
next
  case (Cons c changes)
  obtain rv k v where c: "c = (rv, k, v)" by (cases c)
  obtain p1 where p1: "pi_apply_wal_entry sh rv k v (ings ! i) = (Inr (), p1)" "pi_replay sh changes p1 = (Inr (), p')"
    using Cons.prems(3) c by (auto split: prod.splits sum.splits)
  have k: "we_kind_id (change_entry kind c) = kind" "we_revision (change_entry kind c) = rv"
    by (simp_all add: change_entry_def c)
  have "apply_entries sh kinds (map (change_entry kind) changes @ es) (ings[i := p1]) (Suc n) (max mx rv) =
      apply_entries sh kinds es (ings[i := p']) (Suc n + length changes) (fold (\<lambda>c mx. max mx (fst c)) changes (max mx rv))"
    using Cons.IH [of "ings[i := p1]" "Suc n" "max mx rv"] Cons.prems p1(2) by simp
  then show ?case
    using Cons.prems(1) p1(1) k apply_change_entry [of sh kind rv k v "ings ! i"] by (simp add: c)
qed

lemma apply_log_entries:
  assumes "mapM (pi_save_incremental_records dbg since) ps = Inr css" and "list_all2 pi_compat ps ts"
    and "\<forall>p \<in> set ps. pi_good sh p"
    and "\<forall>i < length ts. tget kinds (as_u32 (pi_kind (ts ! i))) = Some (length done + i)"
  shows "\<exists>ts'. apply_entries sh kinds (log_entries ps css) (done @ ts) n mx
        = (Inr (n + length (log_entries ps css), fold (\<lambda>e mx. max mx (we_revision e)) (log_entries ps css) mx), done @ ts')
     \<and> list_all2 (\<lambda>(p, t) t'. caught_up since p t t') (zip ps ts) ts'"
  using assms
proof (induction ps arbitrary: css ts "done" n mx)
  case Nil
  then show ?case by (simp add: log_entries_def)
next
  case (Cons p ps)
  obtain cs css' where c: "pi_save_incremental_records dbg since p = Inr cs" "css = cs # css'"
      "mapM (pi_save_incremental_records dbg since) ps = Inr css'"
    using Cons.prems(1) by (auto split: sum.splits)
  obtain t ts1 where t: "ts = t # ts1" "pi_compat p t" "list_all2 pi_compat ps ts1"
    using Cons.prems(2) by (auto simp: list_all2_Cons1)
  have "pi_good sh p" using Cons.prems(3) by simp
  from pi_catches_up [OF this t(2) c(1)] obtain t' where
    t': "pi_replay sh cs t = (Inr (), t')" "caught_up since p t t'" by blast
  have k: "tget kinds (as_u32 (pi_kind p)) = Some (length done)"
    using Cons.prems(4) t(1,2) by (auto simp: pi_compat_def)
  let ?es = "map (change_entry (as_u32 (pi_kind p))) cs"
  have es: "log_entries (p # ps) css = ?es @ log_entries ps css'"
    by (simp add: log_entries_def c(2))
  have m: "fold (\<lambda>c mx. max mx (fst c)) cs mx = fold (\<lambda>e mx. max mx (we_revision e)) ?es mx"
    by (simp add: fold_map comp_def change_entry_def case_prod_unfold)
  have "\<forall>i < length ts1. tget kinds (as_u32 (pi_kind (ts1 ! i))) = Some (length (done @ [t']) + i)"
    using Cons.prems(4) t(1) by auto
  from Cons.IH [OF c(3) t(3) _ this, of "n + length cs" "fold (\<lambda>e mx. max mx (we_revision e)) ?es mx"] Cons.prems(3)
  obtain ts' where ts': "apply_entries sh kinds (log_entries ps css') (done @ t' # ts1) (n + length cs)
        (fold (\<lambda>e mx. max mx (we_revision e)) ?es mx) = (Inr (n + length cs + length (log_entries ps css'),
          fold (\<lambda>e mx. max mx (we_revision e)) (log_entries ps css') (fold (\<lambda>e mx. max mx (we_revision e)) ?es mx)),
        done @ t' # ts')" "list_all2 (\<lambda>(p, t) t'. caught_up since p t t') (zip ps ts1) ts'" by auto
  have "apply_entries sh kinds (log_entries (p # ps) css) (done @ ts) n mx =
      apply_entries sh kinds (log_entries ps css') (done @ t' # ts1) (n + length cs) (fold (\<lambda>e mx. max mx (we_revision e)) ?es mx)"
    using apply_changes [OF k, of "done @ ts" sh cs t' "log_entries ps css'" n mx] t'(1)
    unfolding es m by (simp add: t(1))
  with ts' t'(2) show ?case by (intro exI [of _ "t' # ts'"]) (simp add: es t(1))
qed


lemma compat_kinds: "list_all2 pi_compat ps ts \<Longrightarrow> map pi_kind ts = map pi_kind ps"
  by (induction rule: list_all2_induct) (auto simp: pi_compat_def)

lemma by_kind_of_compat:
  assumes "list_all2 pi_compat ps ts" and "ensure_unique_kinds ps = Inr ()"
  shows "\<forall>i < length ts. tget (by_kind ts) (as_u32 (pi_kind (ts ! i))) = Some (length [] + i)"
proof -
  have "map (as_u32 \<circ> pi_kind) ts = map (as_u32 \<circ> pi_kind) ps"
    using compat_kinds [OF assms(1)] by (metis map_map)
  then have "distinct (map (as_u32 \<circ> pi_kind) ts)" using assms(2) by (simp add: ensure_unique_kinds_iff)
  from by_kind_lookup [OF this] show ?thesis by simp
qed

lemma update_deps_keeps_revision: "current_revision (update_query_deps q ds rt) = current_revision rt"
  by (simp add: current_revision_def update_query_deps_def Let_def)

lemma restore_keeps_revision: "current_revision (restore_all ps rt) = current_revision rt"
proof (induction ps arbitrary: rt)
  case Nil
  then show ?case by (simp add: restore_all_def)
next
  case (Cons p ps)
  have "current_revision (fold (\<lambda>(q, r). update_query_deps q (rr_deps r)) es rt) = current_revision rt"
    for es :: "(DynKey \<times> 'b ReadyRecord) list"
    by (induction es arbitrary: rt) (auto simp: update_deps_keeps_revision)
  then have "current_revision (pi_restore_runtime_state p rt) = current_revision rt"
    by (cases p) (simp_all add: restore_runtime_state_def)
  with Cons show ?case by (simp add: restore_all_def)
qed

lemma wal_append_keeps_base: "wal_append wc e w fs = (r, w1, fs1) \<Longrightarrow> ww_base_revision w1 = ww_base_revision w"
  by (auto simp: wal_append_def wal_flush_def Let_def split: sum.splits prod.splits if_splits)

lemma append_all_keeps_base: "append_all wc es w fs = (r, w1, fs1) \<Longrightarrow> ww_base_revision w1 = ww_base_revision w"
  by (induction wc es w fs rule: append_all.induct) (auto split: prod.splits sum.splits dest: wal_append_keeps_base)

lemma append_keeps_base:
  assumes "mapM (pi_save_incremental_records dbg (ww_base_revision w)) ings = Inr css"
    and "append_to_wal dbg wc w ings fs = (r, w1, fs1)"
  shows "ww_base_revision w1 = ww_base_revision w"
proof -
  obtain r' w' fs' where a: "append_all wc (log_entries ings css) w fs = (r', w', fs')" using prod_cases3 by blast
  then have "w1 = w'"
    using assms(2) append_ingredients_all [OF assms(1), of wc 0 w fs] by (cases r') (auto simp: append_to_wal_def)
  with append_all_keeps_base [OF a] show ?thesis by simp
qed

lemma load_sections_append:
  "load_sections sh kinds (ss @ ss') ings =
     (case load_sections sh kinds ss ings of (Inl e, ings1) \<Rightarrow> (Inl e, ings1) | (Inr _, ings1) \<Rightarrow> load_sections sh kinds ss' ings1)"
  by (induction sh kinds ss ings rule: load_sections.induct) (auto split: prod.split sum.split)

text \<open>A log written by \<open>append_to_wal\<close>, read back.\<close>

lemma appended_log:
  assumes "writer_at wc hdr written w fs" and "ww_base_revision w = base"
    and "mapM (pi_save_incremental_records dbg base) ings = Inr css"
    and "\<forall>e \<in> set (log_entries ings css). entry_fits wc e"
  shows "\<exists>w1 fs1. append_to_wal dbg wc w ings fs = (Inr (length (log_entries ings css)), w1, fs1)
     \<and> writer_at wc hdr (written @ log_entries ings css) w1 fs1 \<and> ww_path w1 = ww_path w"
proof -
  obtain w1 fs1 where "append_all wc (log_entries ings css) w fs = (Inr (), w1, fs1)"
      "writer_at wc hdr (written @ log_entries ings css) w1 fs1" "ww_path w1 = ww_path w"
    using append_all_ok [OF assms(1), of "log_entries ings css"] assms(4) entry_fits_encodable by blast
  then show ?thesis
    using append_ingredients_all [OF assms(3), of wc 0 w fs] assms(2) by (simp add: append_to_wal_def)
qed

lemma read_whole_log:
  assumes "lawful (entry_codec wc)" and "\<forall>e \<in> set es. entry_fits wc e" and "wr_end r = AtEof"
    and "wr_rest r = log_frames wc es"
  shows "read_entries wc r = (es, None)"
  using read_entries_prefix [OF assms(1-3), of "length (log_frames wc es)"] assms(4) by (auto simp: whole_all)

text \<open>The log of a database's changes, replayed by a process that is at the base revision.\<close>

lemma replayed_log:
  assumes "lawful (header_codec wc)" and "lawful (entry_codec wc)" and "header_fits wc base"
    and "\<forall>p \<in> set ings. pi_good sh p" and "list_all2 pi_compat ings ings0" and "ensure_unique_kinds ings = Inr ()"
    and "mapM (pi_save_incremental_records dbg base) ings = Inr css"
    and "\<forall>e \<in> set (log_entries ings css). entry_fits wc e"
    and "fs_faults fs = []" and "current_revision rt = Revision base"
    and "contents path fs = Some (log_header wc base @ log_frames wc (log_entries ings css))"
  shows "\<exists>rt1 ings1. replay_wal sh wc path rt ings0 fs = (Inr (length (log_entries ings css)), rt1, ings1, fs)
     \<and> list_all2 (\<lambda>(p, t) t'. caught_up base p t t') (zip ings ings0) ings1
     \<and> current_revision rt1 = Revision (fold (\<lambda>e mx. max mx (we_revision e)) (log_entries ings css) base)"
proof -
  let ?es = "log_entries ings css"
  have read: "read_entries wc \<lparr>wr_path = path, wr_rest = log_frames wc ?es, wr_end = AtEof, wr_header = the_header base\<rparr>
      = (?es, None)"
    by (rule read_whole_log [OF assms(2,8)]) simp_all
  obtain ings1 where run: "apply_entries sh (by_kind ings0) ?es ings0 0 base
        = (Inr (length ?es, fold (\<lambda>e mx. max mx (we_revision e)) ?es base), ings1)"
      "list_all2 (\<lambda>(p, t) t'. caught_up base p t t') (zip ings ings0) ings1"
    using apply_log_entries [OF assms(7,5,4) by_kind_of_compat [OF assms(5,6)], of 0 base] by auto
  have grows: "base \<le> fold (\<lambda>e mx. max mx (we_revision e)) es base" for es and base :: u64
    by (induction es arbitrary: base) (auto intro: order.trans [OF max.cobounded1])
  show ?thesis
    using run(2) replay_wal_run [OF assms(1,3,9,11,10) read, of sh ings0] run(1) grows [of base ?es] assms(10)
    by (auto simp: restore_keeps_revision order.order_iff_strict)
qed



text \<open>
  Appending twice writes everything twice: the second call starts from the base revision again, so a log
  that is appended to regularly repeats every change since the snapshot each time.
\<close>

theorem append_repeats_all_changes:
  assumes "lawful (header_codec wc)" and "lawful (entry_codec wc)" and "header_fits wc base"
    and "mapM (pi_save_incremental_records dbg base) ings = Inr css"
    and "\<forall>e \<in> set (log_entries ings css). entry_fits wc e"
    and "fs_wf fs" and "fs_faults fs = []" and "wal_create wc path base fs = (Inr w, fs1)"
  shows "\<exists>n w1 fs2 w2 fs3 r. append_to_wal dbg wc w ings fs1 = (Inr n, w1, fs2)
     \<and> append_to_wal dbg wc w1 ings fs2 = (Inr n, w2, fs3)
     \<and> wal_open wc path (wal_drop w2 fs3) = (Inr r, wal_drop w2 fs3)
     \<and> read_entries wc r = (log_entries ings css @ log_entries ings css, None)"
proof -
  let ?es = "log_entries ings css"
  have 1: "writer_at wc (log_header wc base) [] w fs1" "ww_path w = path" "ww_base_revision w = base"
    using create_ok [OF assms(6,7,3), of path DEFAULT_AUTO_FLUSH_THRESHOLD] assms(8) by (auto simp: wal_create_def)
  obtain w1 fs2 where 2: "append_to_wal dbg wc w ings fs1 = (Inr (length ?es), w1, fs2)"
      "writer_at wc (log_header wc base) ?es w1 fs2" "ww_path w1 = path"
    using appended_log [OF 1(1,3) assms(4,5)] 1(2) by auto
  have base: "ww_base_revision w1 = base" using append_keeps_base [OF _ 2(1)] 1(3) assms(4) by simp
  obtain w2 fs3 where 3: "append_to_wal dbg wc w1 ings fs2 = (Inr (length ?es), w2, fs3)"
      "writer_at wc (log_header wc base) (?es @ ?es) w2 fs3" "ww_path w2 = path"
    using appended_log [OF 2(2) base assms(4,5)] 2(3) by auto
  note disk = wal_drop_ok [OF 3(2), unfolded 3(3)]
  let ?r = "\<lparr>wr_path = path, wr_rest = log_frames wc (?es @ ?es), wr_end = AtEof, wr_header = the_header base\<rparr>"
  have "read_entries wc ?r = (?es @ ?es, None)"
    using assms(5) by (intro read_whole_log [OF assms(2)]) auto
  then show ?thesis
    using 2(1) 3(1) wal_open_ok [OF assms(1,3) conjunct2 [OF disk] conjunct1 [OF disk]] by blast
qed

subsection \<open>What a failing load leaves behind\<close>

text \<open>
  C38. A load that is told to ignore corruption reports that there was no cache, but the ingredients whose
  sections came before the bad one keep what they loaded, the others are empty, and the revision is
  not that of the file.
\<close>

theorem ignored_load_leaves_contents:
  assumes "ensure_unique_kinds ings = Inr ()" and "fs_faults fs = []" and "contents path fs = Some bs"
    and "check_cache_bytes fc opts bs = Inr cache" and "cf_sections cache = ss @ bad # rest"
    and "load_sections sh (by_kind ings) ss (map pi_clear ings) = (Inr (), ings1)"
    and "load_section sh (by_kind ings) bad ings1 = (Inl e, ings2)" and "lo_on_corrupt opts = OnIgnore"
  shows "load_cache_with_options sh fc path opts rt ings fs = (Inr False, clear_dependency_graph rt, ings2, fs)
     \<and> current_revision (clear_dependency_graph rt) = current_revision rt"
proof -
  have "load_sections sh (by_kind ings) (ss @ bad # rest) (map pi_clear ings) = (Inl e, ings2)"
    using load_sections_append [of sh "by_kind ings" ss "bad # rest" "map pi_clear ings"] assms(6,7) by simp
  then show ?thesis
    using assms(1-5,8)
    by (simp add: load_cache_with_options_def load_cache_inner_def read_file_def install_cache_def Let_def
        current_revision_def clear_dependency_graph_def)
qed

subsection \<open>Compaction\<close>

lemma takeWhile_append_stop: "(\<forall>c \<in> set xs. P c) \<Longrightarrow> \<not> P y \<Longrightarrow> takeWhile P (xs @ y # ys) = xs"
  by (induction xs) auto

lemma dropWhile_append_stop: "(\<forall>c \<in> set xs. P c) \<Longrightarrow> \<not> P y \<Longrightarrow> dropWhile P (xs @ y # ys) = y # ys"
  by (induction xs) auto

lemma no_slash_in_name: "c \<in> set (file_name p) \<Longrightarrow> \<not> is_slash c"
  by (auto simp: file_name_def dest: set_takeWhileD)

lemma parts_of_renamed:
  assumes "\<forall>c \<in> set name. \<not> is_slash c"
  shows "file_name (with_file_name p name) = name" and "parent_prefix (with_file_name p name) = parent_prefix p"
proof -
  define d where "d = dropWhile (\<lambda>c. \<not> is_slash c) (rev p)"
  have "d = [] \<or> (\<exists>ys y. d = y # ys \<and> is_slash y)"
    by (cases d) (auto simp: d_def dropWhile_eq_Cons_conv)
  then have "takeWhile (\<lambda>c. \<not> is_slash c) (rev name @ d) = rev name \<and> dropWhile (\<lambda>c. \<not> is_slash c) (rev name @ d) = d"
    using assms by (auto simp: takeWhile_append_stop dropWhile_append_stop)
  then show "file_name (with_file_name p name) = name" and "parent_prefix (with_file_name p name) = parent_prefix p"
    by (simp_all add: file_name_def parent_prefix_def with_file_name_def d_def)
qed

text \<open>
  The temporary snapshot of a compaction is not distinct from the temporary file of the save that writes
  it: replacing the extension of \<open><name>.compact.tmp\<close> gives the same path back, so the save renames a
  file onto itself.
\<close>

theorem compact_tmp_collides:
  assumes "file_name p \<noteq> []"
  shows "tmp_path (compact_tmp_path pid p) = compact_tmp_path pid p"
proof -
  let ?name = "file_name p @ ''.compact.tmp''"
  have "\<forall>c \<in> set ?name. \<not> is_slash c" using no_slash_in_name [of _ p] by (auto simp: is_slash_def)
  note parts = parts_of_renamed [OF this, of p]
  have "file_stem ?name = file_name p @ ''.compact''"
    by (simp add: file_stem_def)
  then show ?thesis
    using assms parts by (simp add: tmp_path_def compact_tmp_path_def with_extension_def)
      (simp add: with_file_name_def)
qed


subsection \<open>The small database\<close>

definition demo_changes :: "(u64 \<times> bytes \<times> bytes option) list list" where
  "demo_changes = [[(1, [1], Some [5]), (3, [2], None)], [(1, [1], Some [1])], []]"

lemma demo_incremental: "mapM (pi_save_incremental_records (\<lambda>_. []) 0) demo_ings = Inr demo_changes"
  by (simp add: demo_ings_def demo_changes_def input_save_incremental_records_def demo_input_def encode_input_incremental_def
      byte_codecs_def demo_key_def decode_facet_def byte_codec_def derived_save_incremental_records_def ready_cells_def
      demo_derived_def demo_ready_def new_ready_def encode_derived_incremental_def demo_derived_codecs_def
      interned_save_incremental_records_def)

lemma demo_log:
  "log_entries demo_ings demo_changes =
     [\<lparr>we_revision = 1, we_kind_id = 1, we_operation = WalSet [1] [5]\<rparr>,
      \<lparr>we_revision = 3, we_kind_id = 1, we_operation = WalDelete [2]\<rparr>,
      \<lparr>we_revision = 1, we_kind_id = 3, we_operation = WalSet [1] [1]\<rparr>]"
  by (simp add: log_entries_def demo_changes_def demo_ings_def demo_names change_entry_def)

lemma demo_log_fits: "\<forall>e \<in> set (log_entries demo_ings demo_changes). entry_fits small_codecs e"
  by (simp add: demo_log entry_fits_def small_codecs_def small_entry_codec_def MAX_ENTRY_LEN_def)

lemma header_fits_0: "header_fits small_codecs 0"
  by (simp add: header_fits_def the_header_def small_codecs_def small_header_codec_def MAX_HEADER_LEN_def WAL_FORMAT_VERSION_def)


theorem append_repeats_all_changes_witness:
  "\<exists>w fs1 n w1 fs2 w2 fs3 r. wal_create small_codecs ''c.wal'' 0 no_files = (Inr w, fs1)
     \<and> append_to_wal (\<lambda>_. []) small_codecs w demo_ings fs1 = (Inr n, w1, fs2)
     \<and> append_to_wal (\<lambda>_. []) small_codecs w1 demo_ings fs2 = (Inr n, w2, fs3)
     \<and> wal_open small_codecs ''c.wal'' (wal_drop w2 fs3) = (Inr r, wal_drop w2 fs3)
     \<and> length (fst (read_entries small_codecs r)) = 6"
proof -
  obtain w fs1 where w: "wal_create small_codecs ''c.wal'' 0 no_files = (Inr w, fs1)"
    using create_ok [OF sample_fits(3,4) header_fits_0] unfolding wal_create_def by blast
  from append_repeats_all_changes [OF lawful_small header_fits_0 demo_incremental demo_log_fits sample_fits(3,4) w] w
  show ?thesis by (auto simp: demo_log)
qed

definition torn_files :: files where
  "torn_files = \<lparr>fs_dir = [(''c.wal'', 0)],
     fs_data = [log_header small_codecs 0 @ log_frames small_codecs [log_entries demo_ings demo_changes ! 0]
       @ take 5 (entry_frame small_codecs (log_entries demo_ings demo_changes ! 1))], fs_faults = []\<rparr>"

theorem torn_log_is_half_applied_witness:
  "\<exists>ings1. replay_wal (\<lambda>_. 0) small_codecs ''c.wal'' demo_runtime demo_fresh torn_files
       = (Inl torn_error, demo_runtime, ings1, torn_files)
     \<and> ings1 ! 0 \<noteq> demo_fresh ! 0"
proof -
  let ?es = "[log_entries demo_ings demo_changes ! 0]"
  have kinds: "by_kind demo_fresh = [(1, 0), (3, 1), (2, 2)]"
    by (simp add: by_kind_def demo_fresh_def upt_rec input_new_def derived_new_def interned_new_def tinsert_def)
  define p where "p = snd (apply_operation (\<lambda>_. 0) (log_entries demo_ings demo_changes ! 0) (demo_fresh ! 0))"
  have op: "apply_operation (\<lambda>_. 0) (log_entries demo_ings demo_changes ! 0) (demo_fresh ! 0) = (Inr (), p)"
    and p: "p \<noteq> demo_fresh ! 0"
    by (simp_all add: p_def demo_log apply_operation_def demo_fresh_def input_apply_wal_entry_def apply_input_wal_entry_def
        byte_codecs_def byte_codec_def encode_facet_def input_new_def tinsert_def)
  have entry: "we_kind_id (log_entries demo_ings demo_changes ! 0) = 1" "we_revision (log_entries demo_ings demo_changes ! 0) = 1"
    by (simp_all add: demo_log)
  have a: "apply_entries (\<lambda>_. 0) (by_kind demo_fresh) ?es demo_fresh 0 0 = (Inr (1, 1), demo_fresh[0 := p])"
    unfolding kinds by (simp add: entry op)
  have len: "0 < length demo_fresh" by (simp add: demo_fresh_def)
  have fits: "\<forall>e \<in> set ?es. entry_fits small_codecs e" "entry_fits small_codecs (log_entries demo_ings demo_changes ! 1)"
    using demo_log_fits by (simp_all add: demo_log)
  have long: "(4::nat) \<le> 5" "5 < length (entry_frame small_codecs (log_entries demo_ings demo_changes ! 1))"
    by (simp_all add: demo_log entry_frame_def frame_def small_codecs_def small_entry_codec_def)
  have disk: "fs_faults torn_files = []" "contents ''c.wal'' torn_files = Some (log_header small_codecs 0
      @ log_frames small_codecs ?es @ take 5 (entry_frame small_codecs (log_entries demo_ings demo_changes ! 1)))"
    by (simp_all add: torn_files_def contents_def)
  from torn_log_is_half_applied [OF lawful_small header_fits_0 fits long disk(1) demo_revision disk(2) a] p len
  show ?thesis by (intro exI [of _ "demo_fresh[0 := p]"]) simp
qed

theorem compact_tmp_collides_witness: "tmp_path (compact_tmp_path 7 ''dir/c.bin'') = ''dir/c.bin.compact.tmp''"
proof -
  have "file_name ''dir/c.bin'' \<noteq> []" by code_simp
  from compact_tmp_collides [OF this, of 7]
  have "tmp_path (compact_tmp_path 7 ''dir/c.bin'') = compact_tmp_path 7 ''dir/c.bin''" .
  also have "\<dots> = ''dir/c.bin.compact.tmp''" by code_simp
  finally show ?thesis .
qed


text \<open>A file whose second section has the wrong name.\<close>

definition misnamed_cache :: CacheFile where
  "misnamed_cache = demo_cache\<lparr>cf_sections := [cf_sections demo_cache ! 0,
     (cf_sections demo_cache ! 1)\<lparr>sec_kind_name := ''total''\<rparr>, cf_sections demo_cache ! 2]\<rparr>"

definition misnamed_codec :: "CacheFile codec" where
  "misnamed_codec = \<lparr>enc = (\<lambda>_. Inl ''read only''), dec = (\<lambda>_. Inr misnamed_cache)\<rparr>"

definition ignoring :: CacheLoadOptions where
  "ignoring = \<lparr>lo_max_bytes = None, lo_on_corrupt = OnIgnore\<rparr>"

definition cache_files :: files where
  "cache_files = \<lparr>fs_dir = [(''c.bin'', 0)], fs_data = [[42, 43]], fs_faults = []\<rparr>"

theorem ignored_load_leaves_contents_witness:
  "\<exists>rt1 ings1. load_cache_with_options (\<lambda>_. 0) misnamed_codec ''c.bin'' ignoring demo_runtime demo_fresh cache_files
       = (Inr False, rt1, ings1, cache_files)
     \<and> current_revision rt1 = Revision 0
     \<and> pi_obs (ings1 ! 0) = SeenInput (tget (inp_entries demo_input))"
proof -
  have kinds: "by_kind demo_fresh = [(1, 0), (3, 1), (2, 2)]"
    by (simp add: by_kind_def demo_fresh_def upt_rec input_new_def derived_new_def interned_new_def tinsert_def)
  have unique: "ensure_unique_kinds demo_fresh = Inr ()"
    by (simp add: ensure_unique_kinds_def demo_fresh_def input_new_def derived_new_def interned_new_def)
  have disk: "fs_faults cache_files = []" "contents ''c.bin'' cache_files = Some [42, 43]"
    by (simp_all add: cache_files_def contents_def)
  have ok: "check_cache_bytes misnamed_codec ignoring [42, 43] = Inr misnamed_cache"
    by (simp add: check_cache_bytes_def ignoring_def decode_cache_file_def misnamed_codec_def misnamed_cache_def demo_cache_def)
  let ?bad = "(cf_sections demo_cache ! 1)\<lparr>sec_kind_name := ''total''\<rparr>"
  have sections: "cf_sections misnamed_cache = [cf_sections demo_cache ! 0] @ ?bad # [cf_sections demo_cache ! 2]"
    by (simp add: misnamed_cache_def)
  define q where "q = InputObj byte_codecs ((input_new (QueryKindId 1) ''Item'')\<lparr>inp_entries := inp_entries demo_input\<rparr>)"
  define p0 where "p0 = InputObj byte_codecs (input_new (QueryKindId 1) ''Item'')"
  have "input_load_records (\<lambda>_. 0) byte_codecs [[1, 1, 5, 0], [2, 0, 0, 0, 0, 0]] (input_clear (input_new (QueryKindId 1) ''Item''))
      = (Inr (), (input_new (QueryKindId 1) ''Item'')\<lparr>inp_entries := inp_entries demo_input\<rparr>)"
    by (rule input_load_save) (simp_all add: input_good_def lawful_byte_codecs input_wf_demo_codecs demo_names input_new_def demo_saves)
  then have loaded: "pi_load_records (\<lambda>_. 0) [[1, 1, 5, 0], [2, 0, 0, 0, 0, 0]] (pi_clear p0) = (Inr (), q)"
    by (simp add: q_def p0_def)
  have names: "pi_kind_name p0 = ''Item''" "pi_section_type p0 = InputSection"
    by (simp_all add: p0_def input_new_def)
  have fresh: "demo_fresh = p0 # tl demo_fresh" by (simp add: demo_fresh_def p0_def)
  have first: "load_sections (\<lambda>_. 0) (by_kind demo_fresh) [cf_sections demo_cache ! 0] (map pi_clear demo_fresh)
      = (Inr (), q # map pi_clear (tl demo_fresh))"
    unfolding kinds by (subst fresh) (simp add: load_section_def demo_cache_def names loaded)
  have "fst (load_section (\<lambda>_. 0) (by_kind demo_fresh) ?bad (q # map pi_clear (tl demo_fresh))) \<noteq> Inr ()
      \<and> snd (load_section (\<lambda>_. 0) (by_kind demo_fresh) ?bad (q # map pi_clear (tl demo_fresh))) = q # map pi_clear (tl demo_fresh)"
    unfolding kinds by (simp add: load_section_def demo_cache_def demo_fresh_def derived_clear_def derived_new_def)
  then obtain e where second: "load_section (\<lambda>_. 0) (by_kind demo_fresh) ?bad (q # map pi_clear (tl demo_fresh))
      = (Inl e, q # map pi_clear (tl demo_fresh))"
    by (cases "load_section (\<lambda>_. 0) (by_kind demo_fresh) ?bad (q # map pi_clear (tl demo_fresh))";
        cases "fst (load_section (\<lambda>_. 0) (by_kind demo_fresh) ?bad (q # map pi_clear (tl demo_fresh)))") simp_all
  have opt: "lo_on_corrupt ignoring = OnIgnore" by (simp add: ignoring_def)
  from ignored_load_leaves_contents [OF unique disk ok sections first second opt, of demo_runtime]
  have "load_cache_with_options (\<lambda>_. 0) misnamed_codec ''c.bin'' ignoring demo_runtime demo_fresh cache_files
      = (Inr False, clear_dependency_graph demo_runtime, q # map pi_clear (tl demo_fresh), cache_files)"
    and "current_revision (clear_dependency_graph demo_runtime) = Revision 0"
    by (simp_all only: demo_revision)
  moreover have "pi_obs ((q # map pi_clear (tl demo_fresh)) ! 0) = SeenInput (tget (inp_entries demo_input))"
    by (simp add: q_def)
  ultimately show ?thesis by blast
qed

text \<open>
  A log writer that outlives a compaction writes to a file that has no name any more: it reports success
  for the append and the flush, and the log at its path stays empty.
\<close>

theorem stale_writer_loses_entries:
  "\<exists>w fs1 fs2 w1 fs3 w2 fs4 r.
     wal_create small_codecs ''c.wal'' 0 no_files = (Inr w, fs1)
     \<and> compact_wal (\<lambda>_. []) demo_file_codec small_codecs 7 ''c.bin'' ''c.wal'' demo_runtime demo_ings default_save_options True fs1
        = (Inr 0, fs2)
     \<and> wal_append small_codecs (log_entries demo_ings demo_changes ! 0) w fs2 = (Inr (), w1, fs3)
     \<and> wal_flush w1 fs3 = (Inr (), w2, fs4) \<and> ww_path w2 = ''c.wal''
     \<and> wal_open small_codecs ''c.wal'' fs4 = (Inr r, fs4) \<and> read_entries small_codecs r = ([], None)"
proof -
  let ?hdr = "log_header small_codecs 0"
  let ?w = "\<lambda>i. \<lparr>ww_path = ''c.wal'', ww_writer = \<lparr>bw_file = i, bw_buf = []\<rparr>, ww_base_revision = 0,
      ww_entries_since_flush = 0, ww_auto_flush_threshold = DEFAULT_AUTO_FLUSH_THRESHOLD\<rparr>"
  have create: "wal_create small_codecs ''c.wal'' 0 \<lparr>fs_dir = d, fs_data = ds, fs_faults = []\<rparr>
      = (Inr (?w (length ds)), \<lparr>fs_dir = d @ [(''c.wal'', length ds)], fs_data = ds @ [?hdr], fs_faults = []\<rparr>)"
    if "''c.wal'' \<notin> set (tkeys d)" "''c.wal'' \<notin> dom (tget d)" for d ds
  proof -
    have "tget d ''c.wal'' = None" using that by auto
    then show ?thesis
      by (simp add: wal_create_def create_with_threshold_def create_file_def write_header_def wal_write_def wal_flush_file_def
        small_codecs_def small_header_codec_def WAL_FORMAT_VERSION_def buf_write_all_def flush_buf_def bw_capacity_def
        WAL_MAGIC_def set_data_def log_header_def the_header_def frame_def tinsert_fresh [OF that(1)] Let_def)
  qed
  let ?fs1 = "\<lparr>fs_dir = [(''c.wal'', 0)], fs_data = [?hdr], fs_faults = []\<rparr>"
  let ?fs2 = "\<lparr>fs_dir = [(''c.bin'', 1), (''c.wal'', 2)], fs_data = [?hdr, [42, 43], ?hdr], fs_faults = []\<rparr>"
  have paths: "compact_tmp_path 7 ''c.bin'' = ''c.bin.compact.tmp''" "tmp_path ''c.bin.compact.tmp'' = ''c.bin.compact.tmp''"
    "path_parent ''c.bin.compact.tmp'' = Some []"
    by code_simp+
  have create1: "wal_create small_codecs ''c.wal'' 0 no_files = (Inr (?w 0), ?fs1)"
    using create [of "[]" "[]"] by (simp add: no_files_def)
  have saved: "save_cache_with_options (\<lambda>_. []) demo_file_codec ''c.bin.compact.tmp'' demo_runtime demo_ings default_save_options ?fs1
      = (Inr (), \<lparr>fs_dir = [(''c.wal'', 0), (''c.bin.compact.tmp'', 1)], fs_data = [?hdr, [42, 43]], fs_faults = []\<rparr>)"
    by (simp add: save_cache_with_options_def demo_build [OF demo_revision] encode_cache_file_def demo_file_codec_def
      create_parent_def paths fs_write_def create_file_def write_file_def set_data_def rename_file_def tinsert_def)
  have create2: "wal_create small_codecs ''c.wal'' 0 \<lparr>fs_dir = [(''c.bin'', 1)], fs_data = [?hdr, [42, 43]], fs_faults = []\<rparr>
      = (Inr (?w 2), ?fs2)"
    using create [of "[(''c.bin'', 1)]" "[?hdr, [42, 43]]"] by simp
  have compacted: "compact_wal (\<lambda>_. []) demo_file_codec small_codecs 7 ''c.bin'' ''c.wal'' demo_runtime demo_ings
      default_save_options True ?fs1 = (Inr 0, ?fs2)"
    by (simp add: compact_wal_def paths saved demo_revision rename_file_def path_exists_def metadata_def contents_def
      remove_file_def tinsert_def tremove_def create2 [simplified One_nat_def] wal_drop_def wal_flush_def wal_flush_file_def flush_buf_def
      drop_buf_def Let_def)
  obtain w1 fs3 w2 fs4 where appended:
    "wal_append small_codecs (log_entries demo_ings demo_changes ! 0) (?w 0) ?fs2 = (Inr (), w1, fs3)"
    "wal_flush w1 fs3 = (Inr (), w2, fs4)" "ww_path w2 = ''c.wal''"
    "fs_dir fs4 = fs_dir ?fs2" "fs_data fs4 ! 2 = ?hdr" "fs_faults fs4 = []"
    by (simp add: demo_log wal_append_def small_codecs_def small_entry_codec_def wal_write_def buf_write_all_def bw_capacity_def
      Let_def DEFAULT_AUTO_FLUSH_THRESHOLD_def wal_flush_def wal_flush_file_def flush_buf_def set_data_def)
  have "contents ''c.wal'' fs4 = Some (?hdr @ [])" using appended(4,5) by (simp add: contents_def)
  from wal_open_ok [OF lawful_small(1) header_fits_0 appended(6) this]
  have opened: "wal_open small_codecs ''c.wal'' fs4 = (Inr \<lparr>wr_path = ''c.wal'', wr_rest = [], wr_end = AtEof,
      wr_header = the_header 0\<rparr>, fs4)" .
  have "read_entries small_codecs \<lparr>wr_path = ''c.wal'', wr_rest = [], wr_end = AtEof, wr_header = the_header 0\<rparr> = ([], None)"
    by (subst read_entries.simps) (simp add: next_entry_def read_exact_def)
  then show ?thesis using create1 compacted appended(1-3) opened by blast
qed

end
