(* ===== verification/Recovery.thy ===== *)
theory Recovery
  imports LogReplay
begin

text \<open>
  Cache file and write-ahead log together: a snapshot is saved, a log is written next to it, and a new
  process loads the one and replays the other. The log writer touches no file but its own; what
  comes back is every input as the running process had it, and for interned values the
  snapshot's table, which the log does not bring up to date.
\<close>

subsection \<open>The writer touches its own file only\<close>

text \<open>From \<open>fs\<close> to \<open>fs'\<close> only the data of file \<open>i\<close> has changed; system calls may fail on the way.\<close>

definition others :: "nat \<Rightarrow> files \<Rightarrow> files \<Rightarrow> bool" where
  "others i fs fs' \<longleftrightarrow>
     fs_dir fs' = fs_dir fs \<and> length (fs_data fs') = length (fs_data fs) \<and> (\<forall>j. j \<noteq> i \<longrightarrow> fs_data fs' ! j = fs_data fs ! j)"

lemma others_refl [simp]: "others i fs fs"
  by (simp add: others_def)

lemma others_trans: "others i fs fs1 \<Longrightarrow> others i fs1 fs2 \<Longrightarrow> others i fs fs2"
  by (simp add: others_def)

lemma others_syscall: "syscall fs = (f, fs1) \<Longrightarrow> others i fs fs1"
  by (auto simp: others_def dest: syscall_fields)

lemma others_set_data [simp]: "others i fs (set_data i bs fs)"
  by (simp add: others_def)

lemmas others_step = others_trans [OF others_syscall others_set_data]

lemma others_contents:
  assumes "others i fs fs'" and "fs_wf fs" and "tget (fs_dir fs) p = Some i" and "q \<noteq> p"
  shows "contents q fs' = contents q fs"
proof (cases "tget (fs_dir fs) q")
  case None
  then show ?thesis using assms(1) by (simp add: others_def contents_def)
next
  case (Some j)
  then have "j \<noteq> i" using assms(2-4) by (auto simp: fs_wf_def)
  then show ?thesis using assms(1) Some by (simp add: others_def contents_def)
qed

text \<open>The same for a buffered writer: it stays on its file.\<close>

definition onto :: "bufw \<times> files \<Rightarrow> bufw \<times> files \<Rightarrow> bool" where
  "onto = (\<lambda>(b, fs) (b1, fs1). bw_file b1 = bw_file b \<and> others (bw_file b) fs fs1)"

lemma onto_refl [simp]: "onto st st"
  by (simp add: onto_def case_prod_unfold)

lemma onto_trans: "onto st st1 \<Longrightarrow> onto st1 st2 \<Longrightarrow> onto st st2"
  by (auto simp: onto_def intro: others_trans)

lemma onto_sbind:
  "onto st (snd m) \<Longrightarrow> (\<And>a. onto (snd m) (snd (k a (snd m)))) \<Longrightarrow> onto st (snd (sbind m k))"
  by (cases m; cases "fst m") (auto intro: onto_trans)

lemma onto_flush: "onto (b, fs) (snd (flush_buf b fs))"
  by (auto simp: flush_buf_def onto_def split: prod.split option.split dest: others_step)

lemma onto_write_file: "write_file (bw_file b) bs fs = (r, fs1) \<Longrightarrow> onto (b, fs) (b, fs1)"
  by (auto simp: write_file_def onto_def split: prod.splits option.splits dest: others_step)

lemma onto_buffer [simp]: "onto st (b\<lparr>bw_buf := x\<rparr>, fs) \<longleftrightarrow> onto st (b, fs)"
  by (simp add: onto_def case_prod_unfold)

lemma onto_buf_write: "onto (b, fs) (snd (buf_write_all bs b fs))"
  unfolding buf_write_all_def Let_def
  using onto_flush [of b fs] by (auto split: prod.split intro!: onto_sbind dest: onto_write_file)

lemma onto_wal_write: "onto st (snd (wal_write msg bs st))"
  using onto_buf_write by (cases st) (simp add: wal_write_def)

lemma onto_wal_flush_file: "onto st (snd (wal_flush_file msg st))"
  using onto_flush by (cases st) (simp add: wal_flush_file_def)

lemma onto_write_header: "onto st (snd (write_header cs rv st))"
  unfolding write_header_def
  by (intro onto_sbind onto_wal_write) (auto split: sum.split intro!: onto_sbind onto_wal_write onto_wal_flush_file)

text \<open>The same for the writer of a log.\<close>

definition log_onto :: "WalWriter \<times> files \<Rightarrow> WalWriter \<times> files \<Rightarrow> bool" where
  "log_onto = (\<lambda>(w, fs) (w1, fs1). onto (ww_writer w, fs) (ww_writer w1, fs1))"

lemma log_onto_refl [simp]: "log_onto st st"
  by (simp add: log_onto_def case_prod_unfold)

lemma log_onto_trans: "log_onto st st1 \<Longrightarrow> log_onto st1 st2 \<Longrightarrow> log_onto st st2"
  by (auto simp: log_onto_def intro: onto_trans)

lemma log_onto_flush: "log_onto (w, fs) (snd (wal_flush w fs))"
proof -
  obtain r b fs1 where f: "wal_flush_file ''Failed to flush WAL: '' (ww_writer w, fs) = (r, b, fs1)" using prod_cases3 by blast
  with onto_wal_flush_file [of "(ww_writer w, fs)" "''Failed to flush WAL: ''"] show ?thesis
    by (cases r) (simp_all add: wal_flush_def log_onto_def)
qed

lemma log_onto_append: "log_onto (w, fs) (snd (wal_append wc e w fs))"
proof (cases "enc (entry_codec wc) e")
  case (Inr bs)
  let ?m = "sbind (wal_write ''Failed to write WAL entry length: '' (len_prefix bs) (ww_writer w, fs))
                  (\<lambda>_ st. wal_write ''Failed to write WAL entry: '' bs st)"
  have on: "onto (ww_writer w, fs) (snd ?m)" by (intro onto_sbind onto_wal_write)
  obtain r b1 fs1 where m: "?m = (r, b1, fs1)" using prod_cases3 by blast
  let ?w1 = "w\<lparr>ww_writer := b1, ww_entries_since_flush := Suc (ww_entries_since_flush w)\<rparr>"
  have w1: "log_onto (w, fs) (?w1, fs1)" "log_onto (w, fs) (w\<lparr>ww_writer := b1\<rparr>, fs1)"
    using on m by (simp_all add: log_onto_def)
  then have "log_onto (w, fs) (snd (wal_flush ?w1 fs1))" using log_onto_flush log_onto_trans by blast
  with w1 Inr m show ?thesis by (cases r) (simp_all add: wal_append_def Let_def)
qed (simp add: wal_append_def)

lemma log_onto_append_all: "log_onto (w, fs) (snd (append_all wc es w fs))"
proof (induction es arbitrary: w fs)
  case (Cons e es)
  obtain r w1 fs1 where a: "wal_append wc e w fs = (r, w1, fs1)" using prod_cases3 by blast
  with log_onto_append [of w fs wc e] Cons.IH [of w1 fs1] show ?case
    by (cases r) (auto intro: log_onto_trans)
qed simp

lemma log_onto_append_to_wal:
  assumes "mapM (pi_save_incremental_records dbg (ww_base_revision w)) ings = Inr css"
  shows "log_onto (w, fs) (snd (append_to_wal dbg wc w ings fs))"
  using log_onto_append_all [of w fs wc "log_entries ings css"] append_ingredients_all [OF assms, of wc 0 w fs]
  by (auto simp: append_to_wal_def split: prod.splits sum.splits)

lemma log_onto_drop: "others (bw_file (ww_writer w)) fs (wal_drop w fs)"
proof -
  obtain r w1 fs1 where f: "wal_flush w fs = (r, w1, fs1)" using prod_cases3 by blast
  with log_onto_flush [of w fs] have 1: "onto (ww_writer w, fs) (ww_writer w1, fs1)" by (simp add: log_onto_def)
  have 2: "onto (ww_writer w1, fs1) (snd (flush_buf (ww_writer w1) fs1))" by (rule onto_flush)
  from onto_trans [OF this [THEN onto_trans [OF 1]] onto_refl] show ?thesis
    by (auto simp: wal_drop_def f drop_buf_def onto_def split: prod.splits)
qed

text \<open>Creating a log keeps all other files, and its writer is on the file of its path.\<close>

lemma wal_create_keeps:
  assumes "fs_wf fs" and "wal_create wc path rv fs = (Inr w, fs1)"
  shows "fs_wf fs1" and "tget (fs_dir fs1) path = Some (bw_file (ww_writer w))"
    and "q \<noteq> path \<Longrightarrow> contents q fs1 = contents q fs"
proof -
  obtain i fs0 u b where 0: "create_file path fs = (Inr i, fs0)"
      "write_header wc rv (\<lparr>bw_file = i, bw_buf = []\<rparr>, fs0) = (Inr u, b, fs1)" "ww_writer w = b"
    using assms(2) unfolding wal_create_def create_with_threshold_def by (auto split: prod.splits sum.splits)
  have made: "fs_wf fs0 \<and> tget (fs_dir fs0) path = Some i \<and> (q \<noteq> path \<longrightarrow> contents q fs0 = contents q fs)" for q
    using create_file_cases [OF assms(1) 0(1)] by simp
  have "onto (\<lparr>bw_file = i, bw_buf = []\<rparr>, fs0) (b, fs1)" using onto_write_header [of "(\<lparr>bw_file = i, bw_buf = []\<rparr>, fs0)" wc rv] 0(2) by simp
  then have on: "bw_file b = i" "others i fs0 fs1" by (auto simp: onto_def)
  show "fs_wf fs1" using made [of path] on(2) unfolding fs_wf_def others_def by simp
  show "tget (fs_dir fs1) path = Some (bw_file (ww_writer w))" using made [of path] on 0(3) unfolding others_def by simp
  show "q \<noteq> path \<Longrightarrow> contents q fs1 = contents q fs"
    using made [of q] others_contents [OF on(2), of path q] by simp
qed

subsection \<open>What changes after a snapshot\<close>

text \<open>
  An input after the revision \<open>base\<close> of the snapshot: every entry is stamped with a later revision or is the
  snapshot's, and no entry is gone.
\<close>

definition input_since :: "u64 \<Rightarrow> 'v Input \<Rightarrow> 'v Input \<Rightarrow> bool" where
  "input_since base s0 s \<longleftrightarrow>
     (\<forall>q. case tget (inp_entries s) q of
            Some e \<Rightarrow> base < rev_u64 (ie_changed_at e) \<or> tget (inp_entries s0) q = Some e
          | None \<Rightarrow> tget (inp_entries s0) q = None)"

lemma input_since_refl: "input_since base s s"
  by (simp add: input_since_def split: option.split)

lemma input_since_tinsert:
  "input_since base s0 s \<Longrightarrow> base < rev_u64 (ie_changed_at e) \<Longrightarrow>
   input_since base s0 (s\<lparr>inp_entries := tinsert q e (inp_entries s)\<rparr>)"
  by (simp add: input_since_def)

text \<open>Writes and removals keep it, as long as the counter does not wrap.\<close>

lemma input_since_write:
  assumes "input_since base s0 (db_input d)" and "base \<le> rt_revision (db_runtime d)"
    and "unat (rt_revision (db_runtime d)) + 1 < 2 ^ 64" and "write_begin d = (rv, d1)"
  shows "input_since base s0 (db_input (write_finish q x rv d1))"
    and "base \<le> rt_revision (db_runtime (write_finish q x rv d1))"
    and "unat (rt_revision (db_runtime (write_finish q x rv d1))) = unat (rt_revision (db_runtime d)) + 1"
proof -
  note w = write_spec [OF assms(4)]
  have later: "base < rt_revision (db_runtime d) + 1" "base \<le> rt_revision (db_runtime d) + 1"
    "unat (rt_revision (db_runtime d) + 1) = unat (rt_revision (db_runtime d)) + 1"
    using assms(2,3) by (simp_all add: word_less_nat_alt word_le_nat_alt unat_word_ariths)
  then show "base \<le> rt_revision (db_runtime (write_finish q x rv d1))"
    and "unat (rt_revision (db_runtime (write_finish q x rv d1))) = unat (rt_revision (db_runtime d)) + 1"
    unfolding w(2) by simp_all
  show "input_since base s0 (db_input (write_finish q x rv d1))"
    unfolding w(1) by (rule input_since_tinsert) (use assms(1) later w(3) in simp_all)
qed

lemma run_op_cases:
  obtains "run_op sh kc same op d = d"
  | q x rv d1 where "run_op sh kc same op d = write_finish q x rv d1" and "write_begin d = (rv, d1)"
proof -
  have "run_op sh kc same op d = d
      \<or> (\<exists>q x. run_op sh kc same op d = write_finish q x (fst (write_begin d)) (snd (write_begin d)))"
    by (cases op)
      (auto simp: input_set_def input_remove_def Let_def case_prod_unfold split: sum.split option.split)
  then show thesis using that by (metis prod.collapse)
qed

lemma input_since_runs:
  "input_since base s0 (db_input d) \<Longrightarrow> base \<le> rt_revision (db_runtime d) \<Longrightarrow>
   unat (rt_revision (db_runtime d)) + length ops < 2 ^ 64 \<Longrightarrow>
   input_since base s0 (db_input (fold (run_op sh kc same) ops d))"
proof (induction ops arbitrary: d)
  case (Cons op ops)
  show ?case
  proof (cases rule: run_op_cases [where sh = sh and kc = kc and same = same and op = op and d = d])
    case 1
    with Cons show ?thesis by simp
  next
    case (2 q x rv d1)
    have "unat (rt_revision (db_runtime d)) + 1 < 2 ^ 64" using Cons.prems(3) by simp
    note w = input_since_write [OF Cons.prems(1,2) this 2(2), of q x]
    show ?thesis using Cons.IH [OF w(1,2)] w(3) Cons.prems(3) 2(1) by simp
  qed
qed simp

fun changed_since :: "u64 \<Rightarrow> ('k, 'v) ingredient_obj \<Rightarrow> ('k, 'v) ingredient_obj \<Rightarrow> bool" where
  "changed_since base (InputObj _ s0) (InputObj _ s) \<longleftrightarrow> input_since base s0 s"
| "changed_since base _ _ \<longleftrightarrow> True"

subsection \<open>Load and replay\<close>

text \<open>
  What the new process has of the running process's \<open>p\<close> and the snapshot's \<open>p0\<close>: every input as it was
  running, the derived records that changed since and the snapshot's for the rest, the interned values of
  the snapshot.
\<close>

fun recovered :: "u64 \<Rightarrow> ('k, 'v) ingredient_obj \<Rightarrow> ('k, 'v) ingredient_obj \<Rightarrow> ('k, 'v) ingredient_obj \<Rightarrow> bool" where
  "recovered base (InputObj _ s0) (InputObj _ s) (InputObj _ t) \<longleftrightarrow> tget (inp_entries t) = tget (inp_entries s)"
| "recovered base (DerivedObj _ s0) (DerivedObj _ s) (DerivedObj _ t) \<longleftrightarrow>
     (\<forall>q. ready_at t q =
        (case ready_at s q of
           Some r \<Rightarrow> if base < rev_u64 (rr_changed_at r) then Some r else ready_at s0 q
         | None \<Rightarrow> ready_at s0 q))"
| "recovered base (InternedObj _ _ s0) (InternedObj _ _ s) (InternedObj _ _ t) \<longleftrightarrow> interned_obs t = interned_obs s0"
| "recovered base _ _ _ \<longleftrightarrow> False"

lemma caught_up_recovered:
  assumes "caught_up base p t0 t" and "pi_obs t0 = pi_obs p0" and "changed_since base p0 p" and "pi_compat p0 p"
  shows "recovered base p0 p t"
  using assms(4)
proof (cases rule: pi_compatE)
  case (input cs a b)
  with assms obtain c u c' u' where t: "t0 = InputObj c u" "t = InputObj c' u'" by (cases t0; cases t) auto
  have "tget (inp_entries u') q = tget (inp_entries b) q" for q
    using assms(1-3) input t by (cases "tget (inp_entries b) q") (auto simp: input_since_def dest: spec [of _ q])
  with t input show ?thesis by (simp add: fun_eq_iff)
next
  case (derived cs a b)
  with assms obtain c u c' u' where "t0 = DerivedObj c u" "t = DerivedObj c' u'" by (cases t0; cases t) auto
  then show ?thesis using assms derived by (auto split: option.splits)
next
  case (interned vc rc a b)
  with assms obtain c d u c' d' u' where "t0 = InternedObj c d u" "t = InternedObj c' d' u'" by (cases t0; cases t) auto
  then show ?thesis using assms interned by auto
qed

lemma pi_compat_euclid: "pi_compat p q \<Longrightarrow> pi_compat p r \<Longrightarrow> pi_compat q r"
  by (cases p; cases q; cases r) (auto simp: pi_compat_def)

lemma all_recovered:
  "list_all2 pi_compat ps0 ps \<Longrightarrow> list_all2 (changed_since base) ps0 ps \<Longrightarrow> list_all2 (restored sh) ps0 ts0 \<Longrightarrow>
   list_all2 (\<lambda>(p, t) t'. caught_up base p t t') (zip ps ts0) ts \<Longrightarrow>
   list_all2 (\<lambda>(p0, p) t. recovered base p0 p t) (zip ps0 ps) ts"
proof (induction ps0 arbitrary: ps ts0 ts)
  case (Cons p0 ps0)
  then obtain p ps' t0 ts0' t ts' where eqs: "ps = p # ps'" "ts0 = t0 # ts0'" "ts = t # ts'"
    by (auto simp: list_all2_Cons1)
  have "recovered base p0 p t"
    by (rule caught_up_recovered [of base p t0 t p0]) (use Cons.prems eqs in \<open>auto simp: restored_def\<close>)
  with Cons eqs show ?case by auto
qed simp

lemma load_then_replay:
  assumes "lawful fc" and "lawful (header_codec wc)" and "lawful (entry_codec wc)" and "header_fits wc base"
    and "\<forall>p \<in> set ings0. pi_good sh p" and "\<forall>p \<in> set ings. pi_good sh p"
    and "list_all2 pi_compat ings0 ings" and "list_all2 pi_compat ings0 fresh" and "list_all2 (changed_since base) ings0 ings"
    and "fs_wf fs" and "path \<noteq> tmp_path path" and "wal \<noteq> path"
    and "current_revision rt = Revision base" and "save_cache dbg fc path rt ings0 fs = (Inr (), fs1)" and "fs_faults fs1 = []"
    and "mapM (pi_save_incremental_records dbg base) ings = Inr css" and "\<forall>e \<in> set (log_entries ings css). entry_fits wc e"
  shows "\<exists>w fs2 n w1 fs3 rt1 ings1 rt2 ings2.
     wal_create wc wal base fs1 = (Inr w, fs2) \<and> append_to_wal dbg wc w ings fs2 = (Inr n, w1, fs3)
     \<and> load_cache sh fc path rt' fresh (wal_drop w1 fs3) = (Inr True, rt1, ings1, wal_drop w1 fs3)
     \<and> replay_wal sh wc wal rt1 ings1 (wal_drop w1 fs3) = (Inr n, rt2, ings2, wal_drop w1 fs3)
     \<and> list_all2 (restored sh) ings0 ings1 \<and> list_all2 (\<lambda>(p, t) t'. caught_up base p t t') (zip ings ings1) ings2
     \<and> list_all2 (\<lambda>(p0, p) t. recovered base p0 p t) (zip ings0 ings) ings2
     \<and> current_revision rt2 = Revision (fold (\<lambda>e mx. max mx (we_revision e)) (log_entries ings css) base)"
proof -
  let ?es = "log_entries ings css"
  obtain cache bs where c: "build_cache dbg fc default_save_options rt ings0 = Inr cache"
      "encode_cache_file fc cache = Inr bs" "contents path fs1 = Some bs" and wf1: "fs_wf fs1"
    using save_outcome [OF assms(10,11) assms(14) [unfolded save_cache_def]] by auto
  have unique0: "ensure_unique_kinds ings0 = Inr ()" using build_cache_default [OF c(1)] by blast
  have "map (as_u32 \<circ> pi_kind) ings = map (as_u32 \<circ> pi_kind) ings0"
    using compat_kinds [OF assms(7)] by (metis map_map)
  then have unique: "ensure_unique_kinds ings = Inr ()" using unique0 by (simp add: ensure_unique_kinds_iff)
  obtain w fs2 where 1: "wal_create wc wal base fs1 = (Inr w, fs2)" "writer_at wc (log_header wc base) [] w fs2"
      "ww_path w = wal" "ww_base_revision w = base"
    using create_ok [OF wf1 assms(15,4)] unfolding wal_create_def by blast
  note made = wal_create_keeps [OF wf1 1(1)]
  obtain w1 fs3 where 2: "append_to_wal dbg wc w ings fs2 = (Inr (length ?es), w1, fs3)"
      "writer_at wc (log_header wc base) ?es w1 fs3" "ww_path w1 = wal"
    using appended_log [OF 1(2,4) assms(16,17)] 1(3) by auto
  have "mapM (pi_save_incremental_records dbg (ww_base_revision w)) ings = Inr css" using assms(16) 1(4) by simp
  from log_onto_append_to_wal [OF this, of fs2 wc] 2(1)
  have "bw_file (ww_writer w1) = bw_file (ww_writer w)" "others (bw_file (ww_writer w)) fs2 fs3"
    by (simp_all add: log_onto_def onto_def)
  with log_onto_drop [of w1 fs3] have "others (bw_file (ww_writer w)) fs2 (wal_drop w1 fs3)"
    by (auto intro: others_trans)
  from others_contents [OF this made(1,2), of path] made(3) [of path] c(3) assms(12)
  have cache: "contents path (wal_drop w1 fs3) = Some bs" by simp
  have log: "contents wal (wal_drop w1 fs3) = Some (log_header wc base @ log_frames wc ?es)"
    and ok: "fs_faults (wal_drop w1 fs3) = []"
    using wal_drop_ok [OF 2(2)] 2(3) by simp_all
  obtain rt1 ings1 where load: "load_cache sh fc path rt' fresh (wal_drop w1 fs3) = (Inr True, rt1, ings1, wal_drop w1 fs3)"
      "list_all2 (restored sh) ings0 ings1" "current_revision rt1 = Revision base"
    using load_cache_ok [OF assms(1,5,8) c(1,2) cache ok, of rt'] assms(13) by auto
  have "list_all2 pi_compat ings ings1"
    using assms(7) load(2) pi_compat_euclid unfolding list_all2_conv_all_nth restored_def by metis
  from replayed_log [OF assms(2-4,6) this unique assms(16,17) ok load(3) log] obtain rt2 ings2 where
    "replay_wal sh wc wal rt1 ings1 (wal_drop w1 fs3) = (Inr (length ?es), rt2, ings2, wal_drop w1 fs3)"
    "list_all2 (\<lambda>(p, t) t'. caught_up base p t t') (zip ings ings1) ings2"
    "current_revision rt2 = Revision (fold (\<lambda>e mx. max mx (we_revision e)) ?es base)" by blast
  with all_recovered [OF assms(7,9) load(2)] load 1(1) 2(1) show ?thesis by blast
qed

subsection \<open>Ids after a replay\<close>

text \<open>A load hands out ids from the largest loaded one on.\<close>

fun counts_from_largest :: "('k, 'v) ingredient_obj \<Rightarrow> bool" where
  "counts_from_largest (InternedObj _ _ s) \<longleftrightarrow>
     in_by_id s = [] \<or> (\<exists>m. in_next_id s = saturating_succ32 m \<and> tget (in_by_id s) (InternId m) \<noteq> None)"
| "counts_from_largest _ \<longleftrightarrow> True"

lemma interned_load_loop_max:
  "interned_load_loop sh vc rc bss m s = (Inr m', s') \<Longrightarrow>
   tget (in_by_id s) (InternId m) \<noteq> None \<or> m = 0 \<and> in_by_id s = [] \<Longrightarrow>
   tget (in_by_id s') (InternId m') \<noteq> None \<or> in_by_id s' = []"
proof (induction sh vc rc bss m s rule: interned_load_loop.induct)
  case (2 sh vc rc bs rest m s)
  obtain rec where d: "dec rc bs = Inr rec" using 2(2) by (auto split: sum.splits)
  let ?i = "InternId (ir_id rec)"
  have fresh: "tget (in_by_id s) ?i = None" using 2(2) d by (auto simp: Let_def split: if_splits)
  obtain key where e: "encode_facet sh vc (ir_value rec) = Inr key" using 2(2) d fresh by (auto simp: Let_def split: sum.splits)
  have n: "tget (in_by_value s) key = None" using 2(2) d fresh e by (auto simp: Let_def split: option.splits)
  show ?case
    by (rule 2(1) [OF d refl refl _ e refl n]) (use 2(2,3) d fresh e n in \<open>auto simp: Let_def max_def\<close>)
qed auto

lemma pi_load_counts:
  assumes "pi_load_records sh rs p = (Inr u, p')" shows "counts_from_largest p'"
proof (cases p)
  case (InternedObj vc rc s)
  then obtain m s' where "interned_load_loop sh vc rc rs 0 (interned_clear s) = (Inr m, s')"
    "p' = InternedObj vc rc (s'\<lparr>in_next_id := saturating_succ32 m\<rparr>)"
    using assms by (auto simp: interned_load_records_def split: prod.splits sum.splits)
  with interned_load_loop_max [of sh vc rc rs 0 "interned_clear s" m s'] show ?thesis
    by (auto simp: interned_clear_def)
qed (use assms in \<open>auto split: prod.splits\<close>)

lemma load_sections_count:
  "load_sections sh kinds ss ings = (Inr u, ings') \<Longrightarrow> \<forall>p \<in> set ings. counts_from_largest p \<Longrightarrow>
   \<forall>p \<in> set ings'. counts_from_largest p"
proof (induction sh kinds ss ings rule: load_sections.induct)
  case (2 sh kinds s ss ings)
  obtain u1 ings1 where 1: "load_section sh kinds s ings = (Inr u1, ings1)" "load_sections sh kinds ss ings1 = (Inr u, ings')"
    using 2(2) by (auto split: prod.splits sum.splits)
  have "\<forall>p \<in> set ings1. counts_from_largest p"
    using 1(1) 2(3) pi_load_counts
    by (auto simp: load_section_def split: option.splits if_splits prod.splits dest!: subsetD [OF set_update_subset_insert])
  with 2(1) 1 show ?case by auto
qed auto

lemma counts_clear: "counts_from_largest (pi_clear p)"
  by (cases p) (simp_all add: interned_clear_def)

lemma load_cache_counts:
  assumes "load_cache sh fc path rt ings fs = (Inr True, rt1, ings1, fs1)"
  shows "\<forall>p \<in> set ings1. counts_from_largest p"
proof -
  have "load_cache_inner sh fc path default_load_options rt ings fs = (Inr True, rt1, ings1, fs1)"
    using assms by (auto simp: load_cache_def load_cache_with_options_def split: prod.splits sum.splits OnCorruptCache.splits)
  then obtain cache where "install_cache sh cache rt ings = (Inr True, rt1, ings1)"
    by (auto simp: load_cache_inner_def split: sum.splits prod.splits io_error.splits)
  then obtain u where "load_sections sh (by_kind ings) (cf_sections cache) (map pi_clear ings) = (Inr u, ings1)"
    by (auto simp: install_cache_def Let_def split: prod.splits sum.splits)
  moreover have "\<forall>p \<in> set (map pi_clear ings). counts_from_largest p"
    using counts_clear by auto
  ultimately show ?thesis by (rule load_sections_count)
qed

text \<open>The interner a load gives back hands out the id after the snapshot's last one.\<close>

lemma next_id_restored:
  assumes "restored sh (InternedObj vc rc s0) p" and "counts_from_largest p" and "intern_inv sh vc s0"
    and "tget (in_by_id s0) (InternId m) = Some v" and "in_next_id s0 = m + 1" and "m + 1 \<noteq> 0"
  obtains t where "p = InternedObj vc rc t" and "interned_obs t = interned_obs s0" and "in_next_id t = m + 1"
    and "in_kind t = in_kind s0"
proof -
  obtain t where p: "p = InternedObj vc rc t" "interned_obs t = interned_obs s0" "in_kind t = in_kind s0" "intern_inv sh vc t"
    using assms(1) by (cases p) (auto simp: restored_def pi_compat_def interned_good_def)
  then have ids: "tget (in_by_id t) = tget (in_by_id s0)" by (simp add: interned_obs_def)
  then obtain m' where m': "in_next_id t = saturating_succ32 m'" "tget (in_by_id s0) (InternId m') \<noteq> None"
    using assms(2,4) p(1) by (metis counts_from_largest.simps(1) map_of.simps(1) option.distinct(1))
  have top: "m \<noteq> - 1" using assms(6) by auto
  have "m' < m + 1" using m'(2) intern_invD(2) [OF assms(3), of "InternId m'"] assms(5) by auto
  then have le: "m' \<le> m" by (simp add: less_word_succ [OF top])
  have "m < saturating_succ32 m'" using intern_invD(2) [OF p(4), of "InternId m"] assms(4) ids m'(1) by simp
  with le have "m' = m"
    by (cases "m' = - 1") (auto simp: saturating_succ32_def less_word_succ word_order.extremum_unique)
  with m'(1) top have "in_next_id t = m + 1" by (simp add: saturating_succ32_def)
  with p that show ?thesis by blast
qed

text \<open>
  C21. The log does not carry interned values, and the ids they had are handed out again. Let a value \<open>x\<close> be
  interned after the snapshot under the id \<open>i\<close>, and let a memo record \<open>r\<close> that changed since be keyed or computed
  with \<open>i\<close>. After the new process has loaded the snapshot and replayed the log, \<open>r\<close> is back while \<open>i\<close> stands for
  nothing; the first new value \<open>y\<close> that the process interns gets \<open>i\<close>, and the touch that revalidation makes of \<open>i\<close>
  answers revision 0, so whatever was computed for \<open>x\<close> is served for \<open>y\<close>.
\<close>

theorem replay_reassigns_ids:
  assumes "lawful fc" and "lawful (header_codec wc)" and "lawful (entry_codec wc)" and "header_fits wc base"
    and "\<forall>p \<in> set ings0. pi_good sh p" and "\<forall>p \<in> set ings. pi_good sh p"
    and "list_all2 pi_compat ings0 ings" and "list_all2 pi_compat ings0 fresh" and "list_all2 (changed_since base) ings0 ings"
    and "fs_wf fs" and "path \<noteq> tmp_path path" and "wal \<noteq> path"
    and "current_revision rt = Revision base" and "save_cache dbg fc path rt ings0 fs = (Inr (), fs1)" and "fs_faults fs1 = []"
    and "mapM (pi_save_incremental_records dbg base) ings = Inr css" and "\<forall>e \<in> set (log_entries ings css). entry_fits wc e"
    and "k < length ings0" and "ings0 ! k = InternedObj vc rc s0" and "ings ! k = InternedObj vc rc s"
    and "tget (in_by_id s0) (InternId m) = Some v" and "in_next_id s0 = m + 1" and "m + 1 \<noteq> 0"
    and "tget (in_by_id s) (InternId (m + 1)) = Some x"
    and "j < length ings0" and "ings0 ! j = DerivedObj cs d0" and "ings ! j = DerivedObj cs d"
    and "ready_at d q = Some r" and "base < rev_u64 (rr_changed_at r)"
    and "encode_facet sh vc y = Inr ykey" and "tget (in_by_value s0) ykey = None"
    and "lawful idc" and "encode_facet sh idc (InternId (m + 1)) = Inr idkey"
  shows "\<exists>w fs2 n w1 fs3 rt1 ings1 rt2 ings2 vc1 rc1 t t1 cs1 d1.
     wal_create wc wal base fs1 = (Inr w, fs2) \<and> append_to_wal dbg wc w ings fs2 = (Inr n, w1, fs3)
     \<and> load_cache sh fc path rt' fresh (wal_drop w1 fs3) = (Inr True, rt1, ings1, wal_drop w1 fs3)
     \<and> replay_wal sh wc wal rt1 ings1 (wal_drop w1 fs3) = (Inr n, rt2, ings2, wal_drop w1 fs3)
     \<and> ings2 ! j = DerivedObj cs1 d1 \<and> ready_at d1 q = Some r
     \<and> ings2 ! k = InternedObj vc1 rc1 t
     \<and> fst (interned_get sh idc (InternId (m + 1)) t task) = Inl (MissingInternedValue (in_kind s0) (m + 1))
     \<and> intern sh vc y t = (Inr (InternId (m + 1)), t1)
     \<and> fst (interned_get sh idc (InternId (m + 1)) t1 task) = Inr y
     \<and> interned_touch idc idkey t1 = Inr (Revision 0)"
proof -
  from load_then_replay [OF assms(1-17), of rt'] obtain w fs2 n w1 fs3 rt1 ings1 rt2 ings2 where
    flow: "wal_create wc wal base fs1 = (Inr w, fs2)" "append_to_wal dbg wc w ings fs2 = (Inr n, w1, fs3)"
      "load_cache sh fc path rt' fresh (wal_drop w1 fs3) = (Inr True, rt1, ings1, wal_drop w1 fs3)"
      "replay_wal sh wc wal rt1 ings1 (wal_drop w1 fs3) = (Inr n, rt2, ings2, wal_drop w1 fs3)"
    and loaded: "list_all2 (restored sh) ings0 ings1"
    and caught: "list_all2 (\<lambda>(p, t) t'. caught_up base p t t') (zip ings ings1) ings2"
    by blast
  have len: "length ings = length ings0" "length ings1 = length ings0"
    using list_all2_lengthD [OF assms(7)] list_all2_lengthD [OF loaded] by simp_all
  have inv: "intern_inv sh vc s0" using assms(5,18,19) nth_mem by (fastforce simp: interned_good_def)
  have "restored sh (InternedObj vc rc s0) (ings1 ! k)" "counts_from_largest (ings1 ! k)"
    using list_all2_nthD [OF loaded assms(18)] load_cache_counts [OF flow(3)] assms(18,19) len by auto
  from next_id_restored [OF this inv assms(21-23)] obtain t where
    t: "ings1 ! k = InternedObj vc rc t" "interned_obs t = interned_obs s0" "in_next_id t = m + 1" "in_kind t = in_kind s0" .
  have at: "caught_up base (ings ! i) (ings1 ! i) (ings2 ! i)" if "i < length ings0" for i
    using list_all2_nthD [OF caught, of i] that len by simp
  obtain vc1 rc1 where k: "ings2 ! k = InternedObj vc1 rc1 t"
    using at [OF assms(18)] assms(20) t(1) by (cases "ings2 ! k") auto
  have "restored sh (DerivedObj cs d0) (ings1 ! j)" using list_all2_nthD [OF loaded assms(25)] assms(26) by simp
  then obtain u where u: "ings1 ! j = DerivedObj cs u" by (cases "ings1 ! j") (auto simp: restored_def pi_compat_def)
  then obtain cs1 d1 where j: "ings2 ! j = DerivedObj cs1 d1" "ready_at d1 q = Some r"
    using at [OF assms(25)] assms(27-29) by (cases "ings2 ! j") (auto dest: spec [of _ q])
  have "tget (in_by_value t) ykey = None" using t(2) assms(31) by (simp add: interned_obs_def)
  then obtain t1 where y: "intern sh vc y t = (Inr (InternId (m + 1)), t1)" "tget (in_by_id t1) (InternId (m + 1)) = Some y"
    using assms(30) t(3) by (auto simp: intern_def Let_def)
  have "tget (in_by_id s0) (InternId (m + 1)) = None"
    using intern_invD(2) [OF inv, of "InternId (m + 1)"] assms(22) by (cases "tget (in_by_id s0) (InternId (m + 1))") auto
  then have "tget (in_by_id t) (InternId (m + 1)) = None" using t(2) by (simp add: interned_obs_def)
  then have "fst (interned_get sh idc (InternId (m + 1)) t task) = Inl (MissingInternedValue (in_kind s0) (m + 1))"
    using t(4) assms(33) by (simp add: interned_get_def Let_def)
  moreover have "fst (interned_get sh idc (InternId (m + 1)) t1 task) = Inr y"
    using y(2) assms(33) by (simp add: interned_get_def Let_def)
  moreover have "interned_touch idc idkey t1 = Inr (Revision 0)"
    using y(2) decode_encode_facet [OF assms(32,33)] by (simp add: interned_touch_def)
  ultimately show ?thesis using flow j k y(1) by blast
qed

subsection \<open>A snapshot of the small database before its first writes\<close>

definition start_interned :: "u8 Interned" where
  "start_interned = \<lparr>in_kind = QueryKindId 2, in_kind_name = ''Name'', in_next_id = 1,
     in_by_value = [(from_bytes (\<lambda>_. 0) [7], InternId 0)], in_by_id = [(InternId 0, 7)]\<rparr>"

definition start_ings :: "(u8, u8) ingredient_obj list" where
  "start_ings = [InputObj byte_codecs (input_new (QueryKindId 1) ''Item''),
     DerivedObj demo_derived_codecs (derived_new (QueryKindId 3) ''sum''),
     InternedObj byte_codec unary_codec start_interned]"

definition start_cache :: CacheFile where
  "start_cache = \<lparr>cf_format_version = FORMAT_VERSION, cf_current_revision = 0, cf_sections =
     [\<lparr>sec_kind_id = 1, sec_kind_name = ''Item'', sec_type = InputSection, sec_records = []\<rparr>,
      \<lparr>sec_kind_id = 3, sec_kind_name = ''sum'', sec_type = DerivedSection, sec_records = []\<rparr>,
      \<lparr>sec_kind_id = 2, sec_kind_name = ''Name'', sec_type = InternedSection, sec_records = [[7]]\<rparr>]\<rparr>"

definition start_file_codec :: "CacheFile codec" where
  "start_file_codec = \<lparr>enc = (\<lambda>c. if c = start_cache then Inr [42] else Inl ''unknown''),
     dec = (\<lambda>bs. if bs = [42] then Inr start_cache else Inl ''unknown'')\<rparr>"

lemma start_good: "\<forall>p \<in> set start_ings. pi_good (\<lambda>_. 0) p"
  and start_compat: "list_all2 pi_compat start_ings demo_ings" "list_all2 pi_compat start_ings demo_fresh"
  and start_since: "list_all2 (changed_since 0) start_ings demo_ings"
proof -
  have "lawful_derived demo_derived_codecs"
    by (simp add: lawful_derived_def demo_derived_codecs_def lawful_def byte_codec_def)
  moreover have "intern_inv (\<lambda>_. 0) byte_codec start_interned"
    by (auto simp: start_interned_def intern_inv_def twf_def encode_facet_def byte_codec_def split: if_splits)
  ultimately show "\<forall>p \<in> set start_ings. pi_good (\<lambda>_. 0) p"
    by (simp add: start_ings_def input_good_def derived_good_def interned_good_def lawful_byte_codecs input_wf_def
        derived_wf_def input_new_def derived_new_def)
  show "list_all2 pi_compat start_ings demo_ings" "list_all2 pi_compat start_ings demo_fresh"
    by (simp_all add: start_ings_def demo_ings_def demo_fresh_def pi_compat_def demo_names start_interned_def
        input_new_def derived_new_def interned_new_def)
  show "list_all2 (changed_since 0) start_ings demo_ings"
    by (simp add: start_ings_def demo_ings_def input_since_def input_new_def demo_input_def demo_key_def)
qed

lemma start_save:
  "save_cache dbg start_file_codec ''c.bin'' demo_runtime start_ings no_files =
     (Inr (), \<lparr>fs_dir = [(''c.bin'', 0)], fs_data = [[42]], fs_faults = []\<rparr>)"
proof -
  have sections: "mapM (collect_section dbg \<lparr>so_max_bytes = mb, so_max_records_per_section = mr, so_max_record_bytes = None\<rparr>) start_ings
      = Inr (cf_sections start_cache)" for mb mr
    by (simp add: start_ings_def start_cache_def collect_section_def start_interned_def input_new_def derived_new_def
        input_save_records_def derived_save_records_def ready_cells_def interned_save_records_def unary_codec_def)
  have unique: "ensure_unique_kinds start_ings = Inr ()"
    by (simp add: ensure_unique_kinds_def start_ings_def start_interned_def input_new_def derived_new_def)
  have "build_cache dbg fc default_save_options demo_runtime start_ings = Inr start_cache" for fc
    using sections [of None None] demo_revision
    by (simp add: build_cache_def unique default_save_options_def truncate_sections_def start_cache_def Let_def)
  then show ?thesis
    by (simp add: save_cache_def save_cache_with_options_def encode_cache_file_def start_file_codec_def
        create_parent_def demo_path fs_write_def create_file_def no_files_def write_file_def set_data_def rename_file_def
        tinsert_def tremove_def)
qed

theorem replay_reassigns_ids_witness:
  "\<exists>rt1 ings1 fs3 n rt2 ings2 vc1 rc1 t cs1 d1.
     load_cache (\<lambda>_. 0) start_file_codec ''c.bin'' demo_runtime demo_fresh fs3 = (Inr True, rt1, ings1, fs3)
     \<and> replay_wal (\<lambda>_. 0) small_codecs ''c.wal'' rt1 ings1 fs3 = (Inr n, rt2, ings2, fs3)
     \<and> ings2 ! 1 = DerivedObj cs1 d1 \<and> ready_at d1 (demo_key 3 1) = Some demo_ready
     \<and> ings2 ! 2 = InternedObj vc1 rc1 t \<and> fst (intern (\<lambda>_. 0) byte_codec 11 t) = Inr (InternId 1)"
proof -
  let ?s = "demo_interned\<lparr>in_kind := QueryKindId 2\<rparr>" and ?fs1 = "\<lparr>fs_dir = [(''c.bin'', 0)], fs_data = [[42]], fs_faults = []\<rparr>"
  have law: "lawful start_file_codec" by (simp add: lawful_def start_file_codec_def)
  have paths: "''c.wal'' \<noteq> ''c.bin''" "fs_faults ?fs1 = []" by simp_all
  have k: "2 < length start_ings" "start_ings ! 2 = InternedObj byte_codec unary_codec start_interned"
    "demo_ings ! 2 = InternedObj byte_codec unary_codec ?s"
    by (simp_all add: start_ings_def demo_ings_def)
  have ids: "tget (in_by_id start_interned) (InternId 0) = Some 7" "in_next_id start_interned = 0 + 1" "(0 :: u32) + 1 \<noteq> 0"
    "tget (in_by_id ?s) (InternId (0 + 1)) = Some 9"
    by (simp_all add: start_interned_def demo_interned_state)
  have j: "1 < length start_ings" "start_ings ! 1 = DerivedObj demo_derived_codecs (derived_new (QueryKindId 3) ''sum'')"
    "demo_ings ! 1 = DerivedObj demo_derived_codecs demo_derived"
    "ready_at demo_derived (demo_key 3 1) = Some demo_ready" "0 < rev_u64 (rr_changed_at demo_ready)"
    by (simp_all add: start_ings_def demo_ings_def demo_derived_def ready_at_def demo_ready_def)
  have y: "encode_facet (\<lambda>_. 0) byte_codec 11 = Inr (from_bytes (\<lambda>_. 0) [11])"
    "tget (in_by_value start_interned) (from_bytes (\<lambda>_. 0) [11]) = None"
    by (simp_all add: encode_byte start_interned_def)
  obtain idkey where idkey: "encode_facet (\<lambda>_. 0) id_codec (InternId (0 + 1)) = Inr idkey"
    using encode_facet_total [OF id_codec_good(2)] by blast
  from replay_reassigns_ids [OF law lawful_small header_fits_0 start_good demo_good start_compat start_since
      sample_fits(3) demo_path(1) paths(1) demo_revision start_save paths(2) demo_incremental demo_log_fits
      k ids j y id_codec_good(1) idkey, of demo_runtime]
  show ?thesis by (metis fst_conv add_0)
qed

end
