(* ===== verification/Debug.thy ===== *)
theory Debug
  imports RuntimeProps Files
begin

text \<open>
  \<open>debug.rs\<close>: the exported dependency graph (DOT text, root and leaf queries, path search), the cache
  statistics, the trace collector behind the runtime's event channel and the analysis of a trace.

  The depth-first search is modelled with its explicit state (current path, visited set, results)
  and its depth limit. The event channel is the tokio library's: what its \<open>recv\<close> returns, and the
  instant at which it does, is the input of the collector.

  The theorems: the search finds exactly the simple paths of fewer than 1000 edges, so that it
  explains the invalidations of the runtime on graphs of that size; the statistics are consistent with
  one another; the analysis of what a single write sends counts the queries that depend on the input;
  \<open>leaf_queries\<close> returns the root queries; and the collector ends at its first lag.
\<close>

subsection \<open>The graph\<close>

record DependencyGraph =
  dg_forward_deps :: "(DynKey, Dep list) table"
  dg_reverse_deps :: "(DynKey, DynKey list) table"

definition from_runtime :: "Runtime \<Rightarrow> DependencyGraph" where
  "from_runtime rt =
     \<lparr>dg_forward_deps = map (\<lambda>(key, deps). (key, deps)) (deps_by_query_snapshot rt),
      dg_reverse_deps = map (\<lambda>(key, dependents). (key, dependents)) (reverse_deps_snapshot rt)\<rparr>"

lemma from_runtime_fields [simp]:
  "dg_forward_deps (from_runtime rt) = deps_by_query rt"
  "dg_reverse_deps (from_runtime rt) = reverse_deps rt"
  by (simp_all add: from_runtime_def deps_by_query_snapshot_def reverse_deps_snapshot_def)

subsection \<open>DOT\<close>

definition node_id :: "DynKey \<Rightarrow> string" where
  "node_id q = show_nat (unat (as_u32 (dk_kind q))) @ ''_'' @ show_hex (unat (key_hash (dk_key q)))"

definition node_label :: "DynKey \<Rightarrow> string" where
  "node_label q = ''kind_'' @ show_nat (unat (as_u32 (dk_kind q))) @ [CHR 0x5C] @ ''nkey_''
     @ show_hex (unat (key_hash (dk_key q)))"

definition node_line :: "DynKey \<Rightarrow> string" where
  "node_line q = ''  '' @ node_id q @ '' [label='' @ [CHR 0x22] @ node_label q @ [CHR 0x22] @ ''];''"

definition edge_line :: "DynKey \<Rightarrow> Dep \<Rightarrow> string" where
  "edge_line q d = ''  '' @ node_id q @ '' -> '' @ node_id (dep_dyn d) @ '';''"

definition all_nodes :: "DependencyGraph \<Rightarrow> DynKey list" where
  "all_nodes g =
     fold (\<lambda>(q, deps) nodes. fold (\<lambda>d. sinsert (dep_dyn d)) deps (sinsert q nodes)) (dg_forward_deps g) []"

text \<open>One entry per \<open>writeln!\<close>.\<close>

definition dot_lines :: "DependencyGraph \<Rightarrow> string list" where
  "dot_lines g =
     [''digraph dependencies {'', ''  rankdir=LR;'', ''  node [shape=box];'', []]
     @ map node_line (all_nodes g)
     @ [[]]
     @ concat (map (\<lambda>(q, deps). map (edge_line q) deps) (dg_forward_deps g))
     @ [''}'']"

text \<open>The writer is any sink; its first error ends the function.\<close>

fun write_lines :: "(string \<Rightarrow> 'w \<Rightarrow> (string + unit) \<times> 'w) \<Rightarrow> string list \<Rightarrow> 'w \<Rightarrow> (string + unit) \<times> 'w" where
  "write_lines put [] w = (Inr (), w)"
| "write_lines put (l # ls) w = sbind (put (l @ [CHR 0x0A]) w) (\<lambda>_ w1. write_lines put ls w1)"

definition write_dot_to ::
  "(string \<Rightarrow> 'w \<Rightarrow> (string + unit) \<times> 'w) \<Rightarrow> DependencyGraph \<Rightarrow> 'w \<Rightarrow> (string + unit) \<times> 'w" where
  "write_dot_to put g w = write_lines put (dot_lines g) w"

definition write_dot :: "DependencyGraph \<Rightarrow> path \<Rightarrow> files \<Rightarrow> (string + unit) \<times> files" where
  "write_dot g path fs =
     (case create_file path fs of
        (Inl e, fs1) \<Rightarrow> (Inl (io_text e), fs1)
      | (Inr i, fs1) \<Rightarrow> write_dot_to (\<lambda>s. write_file i (as_bytes s)) g fs1)"

subsection \<open>Roots and leaves\<close>

definition root_queries :: "DependencyGraph \<Rightarrow> DynKey list" where
  "root_queries g = map fst (filter (\<lambda>(q, deps). deps = []) (dg_forward_deps g))"

definition leaf_queries :: "DependencyGraph \<Rightarrow> DynKey list" where
  "leaf_queries g =
     fold (\<lambda>(_, dependents) qs. fold (\<lambda>d. filter (\<lambda>q. q \<noteq> d)) dependents qs) (dg_reverse_deps g)
       (map fst (dg_forward_deps g))"

subsection \<open>Path search\<close>

definition MAX_DEPTH :: nat where
  "MAX_DEPTH = 1000"

text \<open>What the recursion mutates: the current path, the visited set, the results.\<close>

record search =
  s_path :: "Dep list"
  s_visited :: "DynKey list"
  s_results :: "Dep list list"

function find_paths_recursive :: "DependencyGraph \<Rightarrow> DynKey \<Rightarrow> DynKey \<Rightarrow> search \<Rightarrow> nat \<Rightarrow> search"
  and find_paths_deps :: "DependencyGraph \<Rightarrow> Dep list \<Rightarrow> DynKey \<Rightarrow> search \<Rightarrow> nat \<Rightarrow> search" where
  "find_paths_recursive g current target s depth =
     (if MAX_DEPTH \<le> depth then s
      else if current = target then s\<lparr>s_results := s_results s @ [s_path s]\<rparr>
      else if current \<in> set (s_visited s) then s
      else (let s1 = s\<lparr>s_visited := sinsert current (s_visited s)\<rparr>;
                s2 = (case tget (dg_forward_deps g) current of
                        Some deps \<Rightarrow> find_paths_deps g deps target s1 depth
                      | None \<Rightarrow> s1)
            in s2\<lparr>s_visited := filter (\<lambda>q. q \<noteq> current) (s_visited s2)\<rparr>))"
| "find_paths_deps g [] target s depth = s"
| "find_paths_deps g (dep # deps) target s depth =
     (let s1 = find_paths_recursive g (dep_dyn dep) target (s\<lparr>s_path := s_path s @ [dep]\<rparr>) (depth + 1)
      in find_paths_deps g deps target (s1\<lparr>s_path := butlast (s_path s1)\<rparr>) depth)"
  by pat_completeness auto
termination
  by (relation "measures [\<lambda>x. case x of Inl (g, c, e, s, d) \<Rightarrow> 2 * (MAX_DEPTH - d)
                                    | Inr (g, ds, e, s, d) \<Rightarrow> max 1 (2 * (MAX_DEPTH - d) - 1),
                          \<lambda>x. case x of Inl _ \<Rightarrow> 0 | Inr (g, ds, e, s, d) \<Rightarrow> length ds]") auto

declare find_paths_recursive.simps [simp del] find_paths_deps.simps(2) [simp del]

definition find_paths :: "DependencyGraph \<Rightarrow> DynKey \<Rightarrow> DynKey \<Rightarrow> Dep list list" where
  "find_paths g start target =
     s_results (find_paths_recursive g start target \<lparr>s_path = [], s_visited = [], s_results = []\<rparr> 0)"

subsection \<open>What the search finds\<close>

fun dep_path :: "DependencyGraph \<Rightarrow> DynKey \<Rightarrow> Dep list \<Rightarrow> DynKey \<Rightarrow> bool" where
  "dep_path g q [] t \<longleftrightarrow> q = t"
| "dep_path g q (d # p) t \<longleftrightarrow>
     (\<exists>deps. tget (dg_forward_deps g) q = Some deps \<and> d \<in> set deps) \<and> dep_path g (dep_dyn d) p t"

text \<open>The nodes a path visits, from its start on.\<close>

definition path_nodes :: "DynKey \<Rightarrow> Dep list \<Rightarrow> DynKey list" where
  "path_nodes q p = q # map dep_dyn p"

definition paths_avoiding :: "DependencyGraph \<Rightarrow> DynKey \<Rightarrow> DynKey \<Rightarrow> DynKey set \<Rightarrow> nat \<Rightarrow> Dep list set" where
  "paths_avoiding g q t V k =
     {p. dep_path g q p t \<and> distinct (path_nodes q p) \<and> set (path_nodes q p) \<inter> V = {} \<and> k + length p < MAX_DEPTH}"

definition duplicate_free :: "DependencyGraph \<Rightarrow> bool" where
  "duplicate_free g \<longleftrightarrow> (\<forall>q deps. tget (dg_forward_deps g) q = Some deps \<longrightarrow> distinct deps)"

text \<open>A call restores the path and the visited set, and appends the paths \<open>R\<close>, each behind the current path.\<close>

definition search_adds :: "bool \<Rightarrow> Dep list set \<Rightarrow> search \<Rightarrow> search \<Rightarrow> bool" where
  "search_adds once R s s' \<longleftrightarrow>
     (\<exists>rs. s' = s\<lparr>s_results := s_results s @ map (\<lambda>p. s_path s @ p) rs\<rparr> \<and> set rs = R \<and> (once \<longrightarrow> distinct rs))"

lemma search_adds_nothing: "search_adds once {} s s"
  by (auto simp: search_adds_def intro!: exI [of _ "[]"])

lemma search_adds_seq:
  assumes "search_adds once A s s1" "search_adds once B s1 s2" "A \<inter> B = {}"
  shows "search_adds once (A \<union> B) s s2"
proof -
  obtain as where a: "s1 = s\<lparr>s_results := s_results s @ map (\<lambda>p. s_path s @ p) as\<rparr>" "set as = A" "once \<longrightarrow> distinct as"
    using assms(1) by (auto simp: search_adds_def)
  obtain bs where b: "s2 = s1\<lparr>s_results := s_results s1 @ map (\<lambda>p. s_path s1 @ p) bs\<rparr>" "set bs = B" "once \<longrightarrow> distinct bs"
    using assms(2) by (auto simp: search_adds_def)
  show ?thesis
    unfolding search_adds_def by (rule exI [of _ "as @ bs"]) (use a b assms(3) in auto)
qed

lemma search_adds_below:
  assumes "search_adds once R (s\<lparr>s_path := s_path s @ [d]\<rparr>) s1"
  shows "search_adds once ((#) d ` R) s (s1\<lparr>s_path := butlast (s_path s1)\<rparr>)"
proof -
  obtain rs where rs: "s1 = s\<lparr>s_path := s_path s @ [d], s_results := s_results s @ map (\<lambda>p. (s_path s @ [d]) @ p) rs\<rparr>"
    "set rs = R" "once \<longrightarrow> distinct rs"
    using assms by (auto simp: search_adds_def)
  show ?thesis
    unfolding search_adds_def by (rule exI [of _ "map ((#) d) rs"]) (use rs in \<open>auto simp: distinct_map\<close>)
qed

lemma search_adds_visited:
  assumes "search_adds once R (s\<lparr>s_visited := sinsert c (s_visited s)\<rparr>) s1" "c \<notin> set (s_visited s)"
  shows "search_adds once R s (s1\<lparr>s_visited := filter (\<lambda>q. q \<noteq> c) (s_visited s1)\<rparr>)"
proof -
  have "filter (\<lambda>q. q \<noteq> c) (sinsert c (s_visited s)) = s_visited s"
    using assms(2) by (auto simp: sinsert_def filter_id_conv)
  with assms(1) show ?thesis by (auto simp: search_adds_def)
qed

lemma paths_avoiding_here: "t \<notin> V \<Longrightarrow> k < MAX_DEPTH \<Longrightarrow> paths_avoiding g t t V k = {[]}"
proof -
  assume "t \<notin> V" "k < MAX_DEPTH"
  moreover have "p = []" if "dep_path g t p t" "distinct (path_nodes t p)" for p
  proof (cases p rule: rev_cases)
    case (snoc ys y)
    have "dep_path g q (ys @ [y]) t \<Longrightarrow> dep_dyn y = t" for q
      by (induction ys arbitrary: q) auto
    with that snoc show ?thesis by (auto simp: path_nodes_def)
  qed simp
  ultimately show ?thesis by (auto simp: paths_avoiding_def path_nodes_def)
qed

lemma paths_avoiding_step:
  assumes "c \<noteq> t" "c \<notin> V"
  shows "paths_avoiding g c t V k =
    (\<Union>d \<in> (case tget (dg_forward_deps g) c of None \<Rightarrow> {} | Some deps \<Rightarrow> set deps).
       (#) d ` paths_avoiding g (dep_dyn d) t (insert c V) (k + 1))"
proof (rule set_eqI)
  fix p
  show "p \<in> paths_avoiding g c t V k \<longleftrightarrow> p \<in> (\<Union>d \<in> (case tget (dg_forward_deps g) c of None \<Rightarrow> {} | Some deps \<Rightarrow> set deps).
       (#) d ` paths_avoiding g (dep_dyn d) t (insert c V) (k + 1))"
  proof (cases p)
    case Nil
    then show ?thesis using assms(1) by (auto simp: paths_avoiding_def)
  next
    case (Cons d p')
    then show ?thesis using assms(2)
      by (auto simp: paths_avoiding_def path_nodes_def image_iff split: option.splits)
  qed
qed

lemma paths_avoiding_none: "MAX_DEPTH \<le> k \<or> c \<in> V \<Longrightarrow> paths_avoiding g c t V k = {}"
  by (auto simp: paths_avoiding_def path_nodes_def)

lemma find_paths_adds:
  "t \<notin> set (s_visited s) \<Longrightarrow>
   search_adds (duplicate_free g) (paths_avoiding g c t (set (s_visited s)) k) s (find_paths_recursive g c t s k)"
  "t \<notin> set (s_visited s) \<Longrightarrow>
   search_adds (duplicate_free g \<and> distinct ds)
     (\<Union>d \<in> set ds. (#) d ` paths_avoiding g (dep_dyn d) t (set (s_visited s)) (k + 1)) s (find_paths_deps g ds t s k)"
proof (induction g c t s k and g ds t s k rule: find_paths_recursive_find_paths_deps.induct)
  case (1 g c t s k)
  consider "MAX_DEPTH \<le> k" | "k < MAX_DEPTH" "c = t" | "k < MAX_DEPTH" "c \<noteq> t" "c \<in> set (s_visited s)"
    | "k < MAX_DEPTH" "c \<noteq> t" "c \<notin> set (s_visited s)" by force
  then show ?case
  proof cases
    case 1
    then show ?thesis
      by (subst find_paths_recursive.simps) (simp add: paths_avoiding_none search_adds_nothing)
  next
    case 2
    then show ?thesis using "1.prems"
      by (subst find_paths_recursive.simps)
         (auto simp: paths_avoiding_here search_adds_def intro!: exI [of _ "[[]]"])
  next
    case 3
    then show ?thesis
      by (subst find_paths_recursive.simps) (simp add: paths_avoiding_none search_adds_nothing)
  next
    case 4
    let ?s1 = "s\<lparr>s_visited := sinsert c (s_visited s)\<rparr>"
    show ?thesis
    proof (cases "tget (dg_forward_deps g) c")
      case None
      have "search_adds (duplicate_free g) {} s (?s1\<lparr>s_visited := filter (\<lambda>q. q \<noteq> c) (s_visited ?s1)\<rparr>)"
        by (rule search_adds_visited) (use 4 search_adds_nothing in auto)
      then show ?thesis
        using 4 None by (subst find_paths_recursive.simps) (simp add: Let_def paths_avoiding_step)
    next
      case (Some ds)
      have "search_adds (duplicate_free g \<and> distinct ds)
          (\<Union>d \<in> set ds. (#) d ` paths_avoiding g (dep_dyn d) t (set (s_visited ?s1)) (k + 1)) ?s1
          (find_paths_deps g ds t ?s1 k)"
        by (rule "1.IH") (use 4 Some "1.prems" in auto)
      moreover have "duplicate_free g \<and> distinct ds \<longleftrightarrow> duplicate_free g"
        using Some by (auto simp: duplicate_free_def)
      ultimately have "search_adds (duplicate_free g) (paths_avoiding g c t (set (s_visited s)) k) ?s1
          (find_paths_deps g ds t ?s1 k)"
        using 4 Some by (simp add: paths_avoiding_step)
      from search_adds_visited [OF this] 4 Some show ?thesis
        by (subst find_paths_recursive.simps) (simp add: Let_def)
    qed
  qed
next
  case (2 g t s k)
  then show ?case by (simp add: search_adds_def)
next
  case (3 g d ds t s k)
  define P where "P e = (#) e ` paths_avoiding g (dep_dyn e) t (set (s_visited s)) (k + 1)" for e
  define s1 where "s1 = find_paths_recursive g (dep_dyn d) t (s\<lparr>s_path := s_path s @ [d]\<rparr>) (k + 1)"
  define s2 where "s2 = s1\<lparr>s_path := butlast (s_path s1)\<rparr>"
  have "search_adds (duplicate_free g) (paths_avoiding g (dep_dyn d) t (set (s_visited s)) (k + 1))
      (s\<lparr>s_path := s_path s @ [d]\<rparr>) s1"
    using "3.IH"(1) "3.prems" by (simp add: s1_def)
  from search_adds_below [OF this] have first: "search_adds (duplicate_free g) (P d) s s2"
    by (simp add: P_def s2_def)
  then have V: "s_visited s2 = s_visited s" by (auto simp: search_adds_def)
  have rest: "search_adds (duplicate_free g \<and> distinct ds) (\<Union>e \<in> set ds. P e) s2 (find_paths_deps g ds t s2 k)"
    using "3.IH"(2) [OF s1_def] "3.prems" V by (simp add: P_def s2_def)
  have eq: "find_paths_deps g (d # ds) t s k = find_paths_deps g ds t s2 k"
    by (subst find_paths_deps.simps) (simp add: s1_def s2_def Let_def)
  obtain as where a: "s2 = s\<lparr>s_results := s_results s @ map (\<lambda>p. s_path s @ p) as\<rparr>" "set as = P d"
      "duplicate_free g \<longrightarrow> distinct as"
    using first by (auto simp: search_adds_def)
  obtain bs where b: "find_paths_deps g ds t s2 k = s2\<lparr>s_results := s_results s2 @ map (\<lambda>p. s_path s2 @ p) bs\<rparr>"
      "set bs = (\<Union>e \<in> set ds. P e)" "duplicate_free g \<and> distinct ds \<longrightarrow> distinct bs"
    using rest by (auto simp: search_adds_def)
  have "set as \<inter> set bs = {}" if "d \<notin> set ds"
    using that a(2) b(2) by (auto simp: P_def)
  then have "search_adds (duplicate_free g \<and> distinct (d # ds)) (\<Union>e \<in> set (d # ds). P e) s (find_paths_deps g (d # ds) t s k)"
    unfolding search_adds_def eq by (intro exI [of _ "as @ bs"]) (use a b in auto)
  then show ?case by (simp add: P_def)
qed


lemma find_paths_adds_all:
  "search_adds (duplicate_free g) (paths_avoiding g start target {} 0) \<lparr>s_path = [], s_visited = [], s_results = []\<rparr>
     (find_paths_recursive g start target \<lparr>s_path = [], s_visited = [], s_results = []\<rparr> 0)"
  using find_paths_adds(1) [of target "\<lparr>s_path = [], s_visited = [], s_results = []\<rparr>" g start 0] by simp

lemma find_paths_results:
  "set (find_paths g start target) = paths_avoiding g start target {} 0
   \<and> (duplicate_free g \<longrightarrow> distinct (find_paths g start target))"
proof -
  obtain rs where rs: "find_paths_recursive g start target \<lparr>s_path = [], s_visited = [], s_results = []\<rparr> 0
      = \<lparr>s_path = [], s_visited = [], s_results = rs\<rparr>"
    "set rs = paths_avoiding g start target {} 0" "duplicate_free g \<longrightarrow> distinct rs"
    using find_paths_adds_all [of g start target] unfolding search_adds_def by (auto simp: map_idI)
  then show ?thesis by (simp only: find_paths_def search.select_convs)
qed

lemmas set_find_paths = find_paths_results [THEN conjunct1]
lemmas distinct_find_paths = find_paths_results [THEN conjunct2, rule_format]

text \<open>
  C32. The path search returns exactly the dependency paths from the start to the end that visit no
  query twice and have fewer than 1000 edges. Each of them is returned once if no query lists a dependency
  twice; a query that reads an input twice does list it twice, and then paths through it are repeated.
\<close>
theorem find_paths_exact:
  "set (find_paths g start target) =
     {p. dep_path g start p target \<and> distinct (start # map dep_dyn p) \<and> length p < 1000}
   \<and> (duplicate_free g \<longrightarrow> distinct (find_paths g start target))"
  by (auto simp: set_find_paths distinct_find_paths paths_avoiding_def path_nodes_def MAX_DEPTH_def)

text \<open>Two ways from the query 4 to the input 1, through the queries 2 and 3.\<close>

definition demo_runtime :: Runtime where
  "demo_runtime =
     update_query_deps (demo_key 4 0) [dyn_dep (demo_key 2 0), dyn_dep (demo_key 3 0)]
       (update_query_deps (demo_key 3 0) [dyn_dep (demo_key 1 0)]
         (update_query_deps (demo_key 2 0) [dyn_dep (demo_key 1 0)] (new_for_snapshot (RuntimeId 1))))"

lemma demo_runtime_inv [simp]: "graph_inv demo_runtime"
  by (simp add: demo_runtime_def graph_inv_update)

lemma demo_runtime_deps:
  "deps_by_query demo_runtime =
     [(demo_key 2 0, [dyn_dep (demo_key 1 0)]), (demo_key 3 0, [dyn_dep (demo_key 1 0)]),
      (demo_key 4 0, [dyn_dep (demo_key 2 0), dyn_dep (demo_key 3 0)])]"
  by (simp add: demo_runtime_def update_query_deps_def Let_def new_for_snapshot_def tinsert_def)

lemma demo_runtime_reverse:
  "reverse_deps demo_runtime =
     [(demo_key 1 0, [demo_key 2 0, demo_key 3 0]), (demo_key 2 0, [demo_key 4 0]), (demo_key 3 0, [demo_key 4 0])]"
  by (simp add: demo_runtime_def update_query_deps_def link_dep_def sinsert_def Let_def new_for_snapshot_def tinsert_def)

theorem find_paths_exact_witness:
  "distinct (find_paths (from_runtime demo_runtime) (demo_key 4 0) (demo_key 1 0))
   \<and> [dyn_dep (demo_key 3 0), dyn_dep (demo_key 1 0)]
       \<in> set (find_paths (from_runtime demo_runtime) (demo_key 4 0) (demo_key 1 0))"
proof -
  have "duplicate_free (from_runtime demo_runtime)"
    by (auto simp: duplicate_free_def demo_runtime_deps split: if_splits)
  with find_paths_exact [of "from_runtime demo_runtime" "demo_key 4 0" "demo_key 1 0"] show ?thesis
    by (simp add: demo_runtime_deps)
qed

subsection \<open>Paths explain invalidations\<close>

lemma dep_path_from:
  "m \<in> set (path_nodes q p) \<Longrightarrow> dep_path g q p t \<Longrightarrow> distinct (path_nodes q p) \<Longrightarrow>
   \<exists>p'. dep_path g m p' t \<and> distinct (path_nodes m p')"
proof (induction p arbitrary: q)
  case Nil
  then show ?case by (auto simp: path_nodes_def intro!: exI [of _ "[]"])
next
  case (Cons d p)
  show ?case
  proof (cases "m = q")
    case True
    with Cons.prems show ?thesis by blast
  next
    case False
    then show ?thesis using Cons.IH [of "dep_dyn d"] Cons.prems by (auto simp: path_nodes_def)
  qed
qed

lemma simple_path_iff:
  "(\<exists>p. dep_path (from_runtime rt) q p t \<and> distinct (path_nodes q p)) \<longleftrightarrow> (q, t) \<in> {(x, y). y \<in> forward_of rt x}\<^sup>*"
proof
  assume "\<exists>p. dep_path (from_runtime rt) q p t \<and> distinct (path_nodes q p)"
  then obtain p where "dep_path (from_runtime rt) q p t" by blast
  then show "(q, t) \<in> {(x, y). y \<in> forward_of rt x}\<^sup>*"
  proof (induction p arbitrary: q)
    case (Cons d p)
    then have "(q, dep_dyn d) \<in> {(x, y). y \<in> forward_of rt x}" by (auto simp: forward_of_def)
    with Cons show ?case by (auto intro: converse_rtrancl_into_rtrancl)
  qed simp
next
  assume "(q, t) \<in> {(x, y). y \<in> forward_of rt x}\<^sup>*"
  then show "\<exists>p. dep_path (from_runtime rt) q p t \<and> distinct (path_nodes q p)"
  proof (induction rule: converse_rtrancl_induct)
    case base
    show ?case by (auto simp: path_nodes_def intro!: exI [of _ "[]"])
  next
    case (step q m)
    then obtain p where p: "dep_path (from_runtime rt) m p t" "distinct (path_nodes m p)" by blast
    from step obtain deps d where d: "tget (deps_by_query rt) q = Some deps" "d \<in> set deps" "m = dep_dyn d"
      by (auto simp: forward_of_def split: option.splits)
    show ?case
    proof (cases "q \<in> set (path_nodes m p)")
      case True
      from dep_path_from [OF this p] show ?thesis .
    next
      case False
      with p d show ?thesis by (intro exI [of _ "d # p"]) (auto simp: path_nodes_def)
    qed
  qed
qed

lemma set_add_nodes: "set (fold (\<lambda>d. sinsert (dep_dyn d)) ds ns) = set ns \<union> dep_dyn ` set ds"
  by (induction ds arbitrary: ns) auto

lemma set_all_nodes: "set (all_nodes g) = (\<Union>(q, deps) \<in> set (dg_forward_deps g). insert q (dep_dyn ` set deps))"
proof -
  have "set (fold (\<lambda>(q, deps) nodes. fold (\<lambda>d. sinsert (dep_dyn d)) deps (sinsert q nodes)) fw ns)
      = set ns \<union> (\<Union>(q, deps) \<in> set fw. insert q (dep_dyn ` set deps))" for fw and ns :: "DynKey list"
    by (induction fw arbitrary: ns) (auto simp: set_add_nodes)
  then show ?thesis by (simp add: all_nodes_def)
qed

lemma path_nodes_known: "dep_path g q p t \<Longrightarrow> p \<noteq> [] \<Longrightarrow> set (path_nodes q p) \<subseteq> set (all_nodes g)"
proof (induction p arbitrary: q)
  case (Cons d p)
  then obtain deps where "(q, deps) \<in> set (dg_forward_deps g)" "d \<in> set deps" by (auto dest: map_of_SomeD)
  then have "q \<in> set (all_nodes g)" "dep_dyn d \<in> set (all_nodes g)"
    unfolding set_all_nodes by (auto intro!: bexI [of _ "(q, deps)"])
  with Cons show ?case by (cases p) (auto simp: path_nodes_def)
qed simp

lemma find_paths_some_iff:
  assumes "card (set (all_nodes (from_runtime rt))) \<le> MAX_DEPTH"
  shows "find_paths (from_runtime rt) q t \<noteq> [] \<longleftrightarrow> (q, t) \<in> {(x, y). y \<in> forward_of rt x}\<^sup>*"
proof -
  have short: "length p < MAX_DEPTH" if "dep_path (from_runtime rt) q p t" "distinct (path_nodes q p)" for p
  proof (cases "p = []")
    case False
    have "length (path_nodes q p) = card (set (path_nodes q p))" using that(2) by (simp add: distinct_card)
    also have "\<dots> \<le> card (set (all_nodes (from_runtime rt)))"
      by (rule card_mono) (use path_nodes_known [OF that(1) False] in auto)
    finally show ?thesis using assms by (simp add: path_nodes_def)
  qed (simp add: MAX_DEPTH_def)
  have "find_paths (from_runtime rt) q t \<noteq> [] \<longleftrightarrow> paths_avoiding (from_runtime rt) q t {} 0 \<noteq> {}"
    by (simp flip: set_find_paths)
  also have "\<dots> \<longleftrightarrow> (\<exists>p. dep_path (from_runtime rt) q p t \<and> distinct (path_nodes q p))"
    using short by (auto simp: paths_avoiding_def)
  finally show ?thesis unfolding simple_path_iff .
qed

lemma invalidated_event_inj [simp]: "invalidated_event r s q = invalidated_event r s q' \<longleftrightarrow> q = q'"
  by (cases q; cases q') (auto simp: invalidated_event_def)

text \<open>
  C33. On a graph of at most 1000 nodes, captured from a runtime whose edges mirror each other, the path search explains the invalidations: a
  change of an input announces the invalidation of a query other than the input itself exactly when the
  search finds a path from that query to the input.
\<close>
theorem find_paths_explains_invalidation:
  assumes "graph_inv rt" and "card (set (all_nodes (from_runtime rt))) \<le> 1000" and "q \<noteq> source"
  shows "find_paths (from_runtime rt) q source \<noteq> []
     \<longleftrightarrow> invalidated_event r source q \<in> set (drop (length (events rt)) (events (propagate_invalidation r source rt)))"
proof -
  define qs where "qs = invalidation_loop (reverse_deps rt) [source] [source] []"
  have qs: "events (propagate_invalidation r source rt) = events rt @ map (invalidated_event r source) qs"
    "set qs = {q. (q, source) \<in> {(x, y). y \<in> forward_of rt x}\<^sup>+} - {source}"
    using invalidated_queries(2) [OF assms(1), of source]
    by (simp_all add: propagate_invalidation_def qs_def del: invalidation_loop.simps)
  have "find_paths (from_runtime rt) q source \<noteq> [] \<longleftrightarrow> (q, source) \<in> {(x, y). y \<in> forward_of rt x}\<^sup>*"
    using assms(2) by (intro find_paths_some_iff) (simp add: MAX_DEPTH_def)
  also have "\<dots> \<longleftrightarrow> q \<in> set qs" using assms(3) qs(2) by (auto simp: rtrancl_eq_or_trancl)
  finally show ?thesis using qs(1) by auto
qed

theorem find_paths_explains_invalidation_witness:
  "invalidated_event (Revision 7) (demo_key 1 0) (demo_key 4 0) \<in> set (events (propagate_invalidation (Revision 7) (demo_key 1 0) demo_runtime))"
proof -
  have small: "card (set (all_nodes (from_runtime demo_runtime))) \<le> 1000"
    by (simp add: set_all_nodes demo_runtime_deps card_insert_if)
  have "[dyn_dep (demo_key 3 0), dyn_dep (demo_key 1 0)] \<in> set (find_paths (from_runtime demo_runtime) (demo_key 4 0) (demo_key 1 0))"
    by (simp add: set_find_paths paths_avoiding_def path_nodes_def demo_runtime_deps MAX_DEPTH_def)
  then have "find_paths (from_runtime demo_runtime) (demo_key 4 0) (demo_key 1 0) \<noteq> []" by auto
  with find_paths_explains_invalidation [OF demo_runtime_inv small, of "demo_key 4 0" "demo_key 1 0" "Revision 7"]
  show ?thesis by (simp add: in_set_dropD)
qed

subsection \<open>Roots, leaves and their confusion\<close>

lemma set_remove_all:
  "set (fold (\<lambda>(_, dependents) qs. fold (\<lambda>d. filter (\<lambda>q. q \<noteq> d)) dependents qs) rv qs) = set qs - \<Union> (set ` snd ` set rv)"
proof -
  have inner: "set (fold (\<lambda>d. filter (\<lambda>q. q \<noteq> d)) ds qs) = set qs - set ds" for ds and qs :: "'a list"
    by (induction ds arbitrary: qs) auto
  show ?thesis by (induction rv arbitrary: qs) (auto simp: inner)
qed

lemma set_leaf_queries:
  "set (leaf_queries g) = fst ` set (dg_forward_deps g) - \<Union> (set ` snd ` set (dg_reverse_deps g))"
  by (simp add: leaf_queries_def set_remove_all)

lemma listed_dependents:
  assumes "graph_inv rt"
  shows "\<Union> (set ` snd ` set (reverse_deps rt)) = {q. forward_of rt q \<noteq> {}}"
proof -
  have wf: "rev_wf (reverse_deps rt)" and conv: "q \<in> rev_get (reverse_deps rt) d \<longleftrightarrow> d \<in> forward_of rt q" for q d
    using assms by (auto simp: graph_inv_alt)
  have "twf (reverse_deps rt)" using wf by (simp add: rev_wf_def)
  then have get: "(d, qs) \<in> set (reverse_deps rt) \<longleftrightarrow> tget (reverse_deps rt) d = Some qs" for d qs
    by (simp add: twf_tget_iff)
  have "q \<in> rev_get (reverse_deps rt) d \<longleftrightarrow> (\<exists>qs. (d, qs) \<in> set (reverse_deps rt) \<and> q \<in> set qs)" for q d
    by (auto simp: rev_get_def get split: option.splits)
  then have "q \<in> \<Union> (set ` snd ` set (reverse_deps rt)) \<longleftrightarrow> (\<exists>d. q \<in> rev_get (reverse_deps rt) d)" for q
    by force
  then show ?thesis using conv by auto
qed

text \<open>
  \<open>leaf_queries\<close>, documented as the queries that nothing depends on, returns the queries that
  depend on nothing: on every graph of a runtime it is the same set as \<open>root_queries\<close>.
\<close>
theorem leaf_queries_are_roots:
  assumes "graph_inv rt"
  shows "set (leaf_queries (from_runtime rt)) = set (root_queries (from_runtime rt))"
proof -
  have wf: "twf (deps_by_query rt)" using assms by (simp add: graph_inv_def)
  have "set (leaf_queries (from_runtime rt)) = {q \<in> fst ` set (deps_by_query rt). forward_of rt q = {}}"
    unfolding set_leaf_queries from_runtime_fields listed_dependents [OF assms] by blast
  also have "\<dots> = set (root_queries (from_runtime rt))"
  proof -
    have "forward_of rt q = {} \<longleftrightarrow> ds = []" if "(q, ds) \<in> set (deps_by_query rt)" for q ds
      using that wf by (simp add: forward_of_def flip: twf_tget_iff)
    then show ?thesis by (force simp: root_queries_def)
  qed
  finally show ?thesis .
qed

theorem leaf_queries_are_roots_witness:
  "let rt = update_query_deps (demo_key 1 0) [] demo_runtime
   in set (leaf_queries (from_runtime rt)) = {demo_key 1 0} \<and> dependents_of rt (demo_key 4 0) = []
      \<and> dependents_of rt (demo_key 1 0) = [demo_key 2 0, demo_key 3 0]"
proof -
  let ?rt = "update_query_deps (demo_key 1 0) [] demo_runtime"
  have "graph_inv ?rt" by (simp add: graph_inv_update)
  from leaf_queries_are_roots [OF this]
  have "set (leaf_queries (from_runtime ?rt)) = {demo_key 1 0}"
    by (simp add: root_queries_def update_query_deps_def demo_runtime_deps tinsert_def)
  moreover have "reverse_deps ?rt = reverse_deps demo_runtime"
    by (simp add: update_query_deps_def demo_runtime_deps)
  ultimately show ?thesis by (simp add: Let_def dependents_of_def demo_runtime_reverse)
qed

subsection \<open>Cache statistics\<close>

record CacheStats =
  cs_forward_deps_count :: nat
  cs_reverse_deps_count :: nat
  cs_total_dependency_edges :: nat
  cs_root_query_count :: nat
  cs_dep_count_histogram :: "(nat, nat) table"

text \<open>\<open>*map.entry(k).or_insert(0) += 1\<close>.\<close>

definition count_in :: "'k \<Rightarrow> ('k, nat) table \<Rightarrow> ('k, nat) table" where
  "count_in k t = tinsert k (Suc (case tget t k of None \<Rightarrow> 0 | Some n \<Rightarrow> n)) t"

definition stats_collect :: "Runtime \<Rightarrow> CacheStats" where
  "stats_collect rt =
     (let forward = deps_by_query_snapshot rt; reverse = reverse_deps_snapshot rt
      in \<lparr>cs_forward_deps_count = length forward,
          cs_reverse_deps_count = length reverse,
          cs_total_dependency_edges = sum_list (map (length \<circ> snd) forward),
          cs_root_query_count = length (filter (\<lambda>deps. deps = []) (map snd forward)),
          cs_dep_count_histogram = fold (\<lambda>deps. count_in (length deps)) (map snd forward) []\<rparr>)"

definition stats_format :: "CacheStats \<Rightarrow> string" where
  "stats_format s =
     ''Cache Statistics:'' @ [CHR 0x0A]
     @ ''  Forward deps: '' @ show_nat (cs_forward_deps_count s) @ [CHR 0x0A]
     @ ''  Reverse deps: '' @ show_nat (cs_reverse_deps_count s) @ [CHR 0x0A]
     @ ''  Total edges: '' @ show_nat (cs_total_dependency_edges s) @ [CHR 0x0A]
     @ ''  Root queries: '' @ show_nat (cs_root_query_count s) @ [CHR 0x0A]
     @ (if cs_dep_count_histogram s = [] then []
        else [CHR 0x0A] @ ''  Dependency count distribution:'' @ [CHR 0x0A]
             @ concat (map (\<lambda>(count, queries). ''    '' @ show_nat count @ '' deps: '' @ show_nat queries @ '' queries'' @ [CHR 0x0A])
                 (sort_key fst (cs_dep_count_histogram s))))"

lemma count_table:
  "twf t \<Longrightarrow> twf (fold count_in ks t)
     \<and> (\<forall>k. (case tget (fold count_in ks t) k of None \<Rightarrow> 0 | Some n \<Rightarrow> n)
          = (case tget t k of None \<Rightarrow> 0 | Some n \<Rightarrow> n) + count_list ks k)"
proof (induction ks arbitrary: t)
  case (Cons k ks)
  have "twf (count_in k t)" using Cons.prems by (simp add: count_in_def)
  from Cons.IH [OF this] show ?case by (auto simp: count_in_def)
qed simp

lemma count_in_sum:
  fixes f :: "'k \<Rightarrow> nat"
  assumes "twf t"
  shows "sum_list (map (\<lambda>(k, n). f k * n) (count_in k t)) = f k + sum_list (map (\<lambda>(k, n). f k * n) t)"
proof -
  have "sum_list (map (\<lambda>(k, n). f k * n) (AList.update k v t)) + (case map_of t k of None \<Rightarrow> 0 | Some n \<Rightarrow> f k * n)
      = f k * v + sum_list (map (\<lambda>(k, n). f k * n) t)" if "twf t" for v and t :: "('k, nat) table"
    using that
  proof (induction t)
    case (Cons e t)
    then have "map_of t (fst e) = None" by (cases e) (auto simp: twf_def map_of_eq_None_iff)
    with Cons show ?case by (cases e) (auto simp: twf_def)
  qed simp
  from this [OF assms, of "Suc (case tget t k of None \<Rightarrow> 0 | Some n \<Rightarrow> n)"] show ?thesis
    by (auto simp: count_in_def tinsert_def split: option.splits)
qed

lemma count_table_sum:
  fixes f :: "'k \<Rightarrow> nat"
  shows "twf t \<Longrightarrow> sum_list (map (\<lambda>(k, n). f k * n) (fold count_in ks t))
     = sum_list (map f ks) + sum_list (map (\<lambda>(k, n). f k * n) t)"
proof (induction ks arbitrary: t)
  case (Cons k ks)
  have "twf (count_in k t)" using Cons.prems by (simp add: count_in_def)
  from Cons.IH [OF this] count_in_sum [OF Cons.prems, of f k] show ?case by simp
qed simp

lemma sum_lengths_card:
  "twf t \<Longrightarrow> (\<And>k xs. (k, xs) \<in> set t \<Longrightarrow> distinct xs) \<Longrightarrow>
   sum_list (map (length \<circ> snd) t) = card {(k, x). \<exists>xs. tget t k = Some xs \<and> x \<in> set xs}"
proof (induction t)
  case (Cons e t)
  obtain k xs where e: "e = (k, xs)" by (cases e)
  have k: "map_of t k = None" using Cons.prems(1) e by (auto simp: twf_def map_of_eq_None_iff)
  have fin: "finite {(k, x). \<exists>xs. tget u k = Some xs \<and> x \<in> set xs}" for u :: "('a, 'b list) table"
    by (rule finite_subset [of _ "(\<lambda>(k, x). (k, x)) ` (\<Union>(k, xs) \<in> set u. {k} \<times> set xs)"]) (auto dest!: map_of_SomeD intro: rev_image_eqI)
  have "{(k, x). \<exists>xs. tget (e # t) k = Some xs \<and> x \<in> set xs}
      = {k} \<times> set xs \<union> {(k, x). \<exists>xs. tget t k = Some xs \<and> x \<in> set xs}"
    using k e by (auto split: if_splits)
  moreover have "({k} \<times> set xs) \<inter> {(k, x). \<exists>xs. tget t k = Some xs \<and> x \<in> set xs} = {}" using k by auto
  moreover have "card ({k} \<times> set xs) = length xs"
    using Cons.prems(2) [of k xs] e by (simp add: card_cartesian_product distinct_card)
  moreover have "sum_list (map (length \<circ> snd) t) = card {(k, x). \<exists>xs. tget t k = Some xs \<and> x \<in> set xs}"
    by (rule Cons.IH) (use Cons.prems in \<open>auto simp: twf_def\<close>)
  ultimately show ?case
    using e fin [of t] by (simp add: card_Un_disjoint comp_def)
qed simp

text \<open>
  The statistics agree with one another and with both directions of the graph: the histogram
  counts every query once and every edge once, its entry for zero is the number of root
  queries, and the edges counted forwards are those counted backwards.
\<close>
theorem stats_consistent:
  assumes "graph_inv rt" and "duplicate_free (from_runtime rt)"
  shows "let s = stats_collect rt; h = cs_dep_count_histogram s in
     sum_list (map snd h) = cs_forward_deps_count s
     \<and> sum_list (map (\<lambda>(n, c). n * c) h) = cs_total_dependency_edges s
     \<and> (case tget h 0 of None \<Rightarrow> 0 | Some c \<Rightarrow> c) = cs_root_query_count s
     \<and> cs_root_query_count s = length (root_queries (from_runtime rt))
     \<and> cs_total_dependency_edges s = sum_list (map (length \<circ> snd) (reverse_deps rt))"
proof -
  let ?fw = "deps_by_query rt" and ?rv = "reverse_deps rt"
  define h where "h = fold (\<lambda>deps. count_in (length deps)) (map snd ?fw) []"
  have hm: "h = fold count_in (map (length \<circ> snd) ?fw) []" by (simp add: h_def fold_map comp_def)
  have stats: "stats_collect rt = \<lparr>cs_forward_deps_count = length ?fw, cs_reverse_deps_count = length ?rv,
      cs_total_dependency_edges = sum_list (map (length \<circ> snd) ?fw),
      cs_root_query_count = length (filter (\<lambda>e. snd e = []) ?fw), cs_dep_count_histogram = h\<rparr>"
    by (simp add: stats_collect_def h_def deps_by_query_snapshot_def reverse_deps_snapshot_def Let_def filter_map comp_def)
  have wf: "twf ?fw" "twf ?rv" and dist: "\<And>d qs. tget ?rv d = Some qs \<longrightarrow> qs \<noteq> [] \<and> distinct qs"
    and conv: "\<And>q d. q \<in> set (dependents_of rt d) \<longleftrightarrow> d \<in> forward_of rt q"
    using assms(1) unfolding graph_inv_def by blast+
  have rdist: "(d, qs) \<in> set ?rv \<Longrightarrow> distinct qs" for d qs
    using dist [of d qs] wf(2) by (simp add: twf_tget_iff)
  have one: "sum_list (map snd h) = length ?fw"
    using count_table_sum [of "[]" "\<lambda>_. 1" "map (length \<circ> snd) ?fw"] by (simp add: hm case_prod_beta' comp_def sum_list_triv)
  have edges: "sum_list (map (\<lambda>(n, c). n * c) h) = sum_list (map (length \<circ> snd) ?fw)"
    using count_table_sum [of "[]" "\<lambda>n. n" "map (length \<circ> snd) ?fw"] by (simp add: hm)
  have "count_list (map (length \<circ> snd) fw) 0 = length (filter (\<lambda>e. snd e = []) fw)" for fw :: "(DynKey, Dep list) table"
    by (induction fw) auto
  then have roots: "(case tget h 0 of None \<Rightarrow> 0 | Some c \<Rightarrow> c) = length (filter (\<lambda>e. snd e = []) ?fw)"
    using count_table [of "[]" "map (length \<circ> snd) ?fw"] by (simp add: hm)
  have fdist: "(q, ds) \<in> set ?fw \<Longrightarrow> distinct ds" for q ds
    using assms(2) wf(1) by (auto simp: duplicate_free_def twf_tget_iff)
  have "sum_list (map (length \<circ> snd) ?fw) = card {(q, d). \<exists>ds. tget ?fw q = Some ds \<and> d \<in> set ds}"
    by (rule sum_lengths_card [OF wf(1) fdist])
  also have "\<dots> = card ((\<lambda>(q, d). (dep_dyn d, q)) ` {(q, d). \<exists>ds. tget ?fw q = Some ds \<and> d \<in> set ds})"
    by (rule sym, rule card_image) (auto simp: inj_on_def)
  also have "(\<lambda>(q, d). (dep_dyn d, q)) ` {(q, d). \<exists>ds. tget ?fw q = Some ds \<and> d \<in> set ds} = {(x, q). x \<in> forward_of rt q}"
    by (auto simp: forward_of_def image_iff split: option.splits)
  also have "\<dots> = {(x, q). q \<in> set (dependents_of rt x)}" unfolding conv ..
  also have "\<dots> = {(x, q). \<exists>qs. tget ?rv x = Some qs \<and> q \<in> set qs}"
  proof -
    have "q \<in> set (dependents_of rt x) \<longleftrightarrow> (\<exists>qs. tget ?rv x = Some qs \<and> q \<in> set qs)" for q x
      by (cases "tget ?rv x") (simp_all add: dependents_of_def)
    then show ?thesis by simp
  qed
  also have "card \<dots> = sum_list (map (length \<circ> snd) ?rv)"
    by (rule sum_lengths_card [symmetric, OF wf(2) rdist])
  finally have "sum_list (map (length \<circ> snd) ?fw) = sum_list (map (length \<circ> snd) ?rv)" .
  then show ?thesis
    using one edges roots unfolding stats Let_def by (simp add: root_queries_def case_prod_beta')
qed

theorem stats_consistent_witness:
  "cs_total_dependency_edges (stats_collect demo_runtime) = 4
   \<and> sum_list (map (length \<circ> snd) (reverse_deps demo_runtime)) = 4"
proof -
  have "duplicate_free (from_runtime demo_runtime)"
    by (auto simp: duplicate_free_def demo_runtime_deps split: if_splits)
  from stats_consistent [OF demo_runtime_inv this] show ?thesis
    by (simp add: Let_def stats_collect_def deps_by_query_snapshot_def demo_runtime_deps)
qed

subsection \<open>Traces\<close>

text \<open>An \<open>Instant\<close> is a number of nanoseconds on the monotonic clock.\<close>

type_synonym instant = nat

datatype TraceEvent =
    is_TraceRevisionBumped: TraceRevisionBumped (tr_revision: Revision) (tr_timestamp: instant)
  | is_TraceInputSet: TraceInputSet (tr_revision: Revision) QueryKindId u64 (tr_timestamp: instant)
  | is_TraceInputRemoved: TraceInputRemoved (tr_revision: Revision) QueryKindId u64 (tr_timestamp: instant)
  | is_TraceQueryInvalidated: TraceQueryInvalidated (tr_revision: Revision) QueryKindId u64 QueryKindId u64 (tr_timestamp: instant)
  | is_TraceQueryChanged: TraceQueryChanged (tr_revision: Revision) QueryKindId u64 (tr_timestamp: instant)

text \<open>The \<open>match\<close> in the loop; \<open>None\<close> is its \<open>continue\<close>.\<close>

fun trace_event :: "instant \<Rightarrow> RuntimeEvent \<Rightarrow> TraceEvent option" where
  "trace_event ts (RevisionBumped r) = Some (TraceRevisionBumped r ts)"
| "trace_event ts (RevisionSet r) = None"
| "trace_event ts (InputSet r kind h key) = Some (TraceInputSet r kind h ts)"
| "trace_event ts (InputRemoved r kind h key) = Some (TraceInputRemoved r kind h ts)"
| "trace_event ts (QueryInvalidated r kind h key by_kind by_h by_key) = Some (TraceQueryInvalidated r kind h by_kind by_h ts)"
| "trace_event ts (QueryChanged r kind h key) = Some (TraceQueryChanged r kind h ts)"

text \<open>What one \<open>recv\<close> on the broadcast channel returns: an event, or one of its two errors.\<close>

datatype received = Received RuntimeEvent | Lagged u64 | Closed

text \<open>
  The \<open>while let Ok(event)\<close> loop on the results of \<open>recv\<close> so far, each with the instant of its return;
  the second argument is the mutex-protected vector.
\<close>

fun collect_loop :: "(received \<times> instant) list \<Rightarrow> TraceEvent list \<Rightarrow> TraceEvent list" where
  "collect_loop [] recorded = recorded"
| "collect_loop ((Received event, ts) # rs) recorded =
     (case trace_event ts event of
        None \<Rightarrow> collect_loop rs recorded
      | Some e \<Rightarrow> collect_loop rs (recorded @ [e]))"
| "collect_loop ((Lagged n, ts) # rs) recorded = recorded"
| "collect_loop ((Closed, ts) # rs) recorded = recorded"

text \<open>\<open>stop\<close> and \<open>snapshot\<close> return a copy of what is recorded at that time.\<close>

definition collector_snapshot :: "(received \<times> instant) list \<Rightarrow> TraceEvent list" where
  "collector_snapshot rs = collect_loop rs []"

record TraceAnalysis =
  ta_total_events :: nat
  ta_input_changes :: nat
  ta_invalidations :: nat
  ta_recomputations :: nat
  ta_duration :: nat
  ta_events_by_revision :: "(Revision, nat) table"

text \<open>The body of the loop over the trace.\<close>

definition analyze_event :: "TraceEvent \<Rightarrow> TraceAnalysis \<Rightarrow> TraceAnalysis" where
  "analyze_event e a =
     (let a1 = a\<lparr>ta_events_by_revision := count_in (tr_revision e) (ta_events_by_revision a)\<rparr>
      in case e of
           TraceInputSet _ _ _ _ \<Rightarrow> a1\<lparr>ta_input_changes := ta_input_changes a1 + 1\<rparr>
         | TraceInputRemoved _ _ _ _ \<Rightarrow> a1\<lparr>ta_input_changes := ta_input_changes a1 + 1\<rparr>
         | TraceQueryInvalidated _ _ _ _ _ _ \<Rightarrow> a1\<lparr>ta_invalidations := ta_invalidations a1 + 1\<rparr>
         | TraceQueryChanged _ _ _ _ \<Rightarrow> a1\<lparr>ta_recomputations := ta_recomputations a1 + 1\<rparr>
         | TraceRevisionBumped _ _ \<Rightarrow> a1)"

text \<open>\<open>duration_since\<close> is zero for an earlier instant, like the subtraction of naturals.\<close>

definition from_trace :: "TraceEvent list \<Rightarrow> TraceAnalysis" where
  "from_trace trace =
     (let empty_analysis = \<lparr>ta_total_events = 0, ta_input_changes = 0, ta_invalidations = 0, ta_recomputations = 0,
            ta_duration = 0, ta_events_by_revision = []\<rparr>
      in if trace = [] then empty_analysis
         else (fold analyze_event trace empty_analysis)
                \<lparr>ta_total_events := length trace,
                 ta_duration := tr_timestamp (last trace) - tr_timestamp (hd trace)\<rparr>)"

text \<open>\<open>dbg\<close> is the standard library's \<open>Debug\<close> text of a \<open>Duration\<close>.\<close>

definition analysis_format :: "(nat \<Rightarrow> string) \<Rightarrow> TraceAnalysis \<Rightarrow> string" where
  "analysis_format dbg a =
     ''Trace Analysis:'' @ [CHR 0x0A]
     @ ''  Total events: '' @ show_nat (ta_total_events a) @ [CHR 0x0A]
     @ ''  Input changes: '' @ show_nat (ta_input_changes a) @ [CHR 0x0A]
     @ ''  Invalidations: '' @ show_nat (ta_invalidations a) @ [CHR 0x0A]
     @ ''  Recomputations: '' @ show_nat (ta_recomputations a) @ [CHR 0x0A]
     @ ''  Duration: '' @ dbg (ta_duration a) @ [CHR 0x0A]
     @ (if ta_events_by_revision a = [] then []
        else [CHR 0x0A] @ ''  Events by revision:'' @ [CHR 0x0A]
             @ concat (map (\<lambda>(revision, count). ''    r'' @ show_nat (unat (rev_u64 revision)) @ '': '' @ show_nat count @ '' events'' @ [CHR 0x0A])
                 (sort_key (rev_u64 \<circ> fst) (ta_events_by_revision a))))"

lemma collect_received:
  "collect_loop (zip (map Received evs) tss @ rs) recorded
     = collect_loop rs (recorded @ List.map_filter (\<lambda>(e, ts). trace_event ts e) (zip evs tss))"
proof (induction evs arbitrary: tss recorded)
  case (Cons e evs)
  then show ?case by (cases tss) (auto simp: List.map_filter_simps split: option.split)
qed (simp add: List.map_filter_simps)

text \<open>
  The collector ends at its first lag: once the channel has dropped events that the
  collector was too slow to receive, nothing that happens later is ever recorded.
\<close>
theorem collector_ends_at_lag:
  "collector_snapshot (before @ (Lagged n, ts) # later) = collector_snapshot before"
proof -
  have "collect_loop (before @ (Lagged n, ts) # later) recorded = collect_loop before recorded" for recorded
    by (induction before recorded rule: collect_loop.induct) (auto split: option.split)
  then show ?thesis by (simp add: collector_snapshot_def)
qed

text \<open>The counters of the loop, in one pass over the trace each.\<close>

lemma analyze_fold:
  "fold analyze_event es a =
     a\<lparr>ta_input_changes := ta_input_changes a + length (filter (\<lambda>e. is_TraceInputSet e \<or> is_TraceInputRemoved e) es),
       ta_invalidations := ta_invalidations a + length (filter is_TraceQueryInvalidated es),
       ta_recomputations := ta_recomputations a + length (filter is_TraceQueryChanged es),
       ta_events_by_revision := fold count_in (map tr_revision es) (ta_events_by_revision a)\<rparr>"
proof (induction es arbitrary: a)
  case (Cons e es)
  then show ?case by (cases e) (simp_all add: analyze_event_def)
qed simp

lemma count_one_key: "fold count_in (replicate (Suc n) k) [] = [(k, Suc n)]"
proof -
  have "fold count_in (replicate n k) [(k, m)] = [(k, m + n)]" for m
    by (induction n arbitrary: m) (simp_all add: count_in_def tinsert_def)
  then show ?thesis by (simp add: count_in_def tinsert_def)
qed

text \<open>
  The trace of one write to an input, collected without a lag, is analysed as one input change
  and one invalidation for every query that depends on the input, directly or through other queries,
  all in the revision of the write, over the time from the first event to the last.
\<close>
theorem trace_of_write:
  assumes "graph_inv rt" and "\<lparr>dk_kind = kind, dk_key = key\<rparr> = source"
    and "evs = drop (length (events rt)) (events (notify_input_set r kind key rt))" and "length tss = length evs"
  shows "let a = from_trace (collector_snapshot (zip (map Received evs) tss));
             n = card ({q. (q, source) \<in> {(x, y). y \<in> forward_of rt x}\<^sup>+} - {source})
         in ta_total_events a = n + 1 \<and> ta_input_changes a = 1 \<and> ta_invalidations a = n \<and> ta_recomputations a = 0
            \<and> ta_events_by_revision a = [(r, n + 1)] \<and> ta_duration a = last tss - hd tss"
proof -
  define qs where "qs = invalidation_loop (reverse_deps rt) [source] [source] []"
  define n where "n = card ({q. (q, source) \<in> {(x, y). y \<in> forward_of rt x}\<^sup>+} - {source})"
  have n: "length qs = n"
    using invalidated_queries [OF assms(1), of source] by (simp add: n_def qs_def flip: distinct_card del: invalidation_loop.simps)
  have evs: "evs = InputSet r kind (key_hash key) key # map (invalidated_event r source) qs"
    by (simp add: assms(3) notify_input_set_def propagate_invalidation_def send_event_def assms(2) qs_def del: invalidation_loop.simps)
  obtain t0 ts where tss: "tss = t0 # ts" "length ts = n" using assms(4) evs n by (cases tss) auto
  define es where "es = map (\<lambda>(q, ts). TraceQueryInvalidated r (dk_kind q) (key_hash (dk_key q)) (dk_kind source) (key_hash (dk_key source)) ts) (zip qs ts)"
  have "List.map_filter (\<lambda>(e, ts). trace_event ts e) (zip (map (invalidated_event r source) qs) ts)
      = map (\<lambda>(q, ts). TraceQueryInvalidated r (dk_kind q) (key_hash (dk_key q)) (dk_kind source) (key_hash (dk_key source)) ts) (zip qs ts)"
    for qs and ts :: "nat list"
  proof (induction qs arbitrary: ts)
    case (Cons q qs)
    then show ?case by (cases ts) (simp_all add: List.map_filter_simps invalidated_event_def)
  qed (simp add: List.map_filter_simps)
  then have trace: "collector_snapshot (zip (map Received evs) tss) = TraceInputSet r kind (key_hash key) t0 # es"
    using collect_received [of evs tss "[]" "[]"] by (simp add: collector_snapshot_def evs tss(1) List.map_filter_simps es_def)
  have es: "length es = n" "filter is_TraceQueryInvalidated es = es" "filter is_TraceQueryChanged es = []"
    "filter (\<lambda>e. is_TraceInputSet e \<or> is_TraceInputRemoved e) es = []"
    using n tss(2) by (auto simp: es_def filter_id_conv filter_empty_conv)
  have rev: "map tr_revision es = replicate n r"
    by (rule replicate_eqI) (use n tss(2) in \<open>auto simp: es_def\<close>)
  have "tr_timestamp (last (TraceInputSet r kind (key_hash key) t0 # es)) = last tss"
    using n tss by (auto simp: es_def last_map last_zip split: prod.split) 
  then show ?thesis
    using es rev count_one_key [of n r] unfolding trace n_def [symmetric] Let_def
    by (simp add: from_trace_def analyze_fold analyze_event_def tss(1) Let_def)
qed

theorem trace_of_write_witness:
  "ta_invalidations (from_trace (collector_snapshot
      (zip (map Received (drop (length (events demo_runtime)) (events (notify_input_set (Revision 9) (QueryKindId 1) (dk_key (demo_key 1 0)) demo_runtime))))
        [10, 20, 30, 40]))) = 3"
proof -
  let ?src = "demo_key 1 0"
  have src: "\<lparr>dk_kind = QueryKindId 1, dk_key = dk_key ?src\<rparr> = ?src" by (simp add: demo_key_def)
  have qs: "invalidation_loop (reverse_deps demo_runtime) [?src] [?src] [] = [demo_key 2 0, demo_key 3 0, demo_key 4 0]"
    by (simp add: demo_runtime_reverse)
  have "length (drop (length (events demo_runtime))
      (events (notify_input_set (Revision 9) (QueryKindId 1) (dk_key ?src) demo_runtime))) = 4"
    unfolding notify_input_set_def propagate_invalidation_def src send_event_def by (simp add: qs del: invalidation_loop.simps)
  moreover have "card ({q. (q, ?src) \<in> {(x, y). y \<in> forward_of demo_runtime x}\<^sup>+} - {?src}) = 3"
    unfolding invalidated_queries(2) [OF demo_runtime_inv, symmetric] qs by simp
  ultimately show ?thesis
    using trace_of_write [OF demo_runtime_inv src refl, of "[10, 20, 30, 40]" "Revision 9"] by (simp add: Let_def)
qed

end
