(* ===== verification/FacetEq.thy ===== *)
theory FacetEq
  imports Inputs "HOL-Library.FSet"
begin

text \<open>
  \<open>facet_eq.rs\<close>: structural equality of reflected values, which decides whether a write to an input
  or a recomputation changed anything.

  The reflection library is not part of the repository. A value is modelled as what the library
  shows of it (\<open>peek\<close>): its shape and, by the shape's definition, its parts. Four functions of the
  library are parameters: the \<open>PartialEq\<close> entry of a shape's vtable, the native lookup of a map
  and of a set, and whether \<open>into_list\<close> accepts arrays and slices.

  The theorems compare the function with equality of denotations, in which maps and sets are
  finite sets of entries and the metadata fields of a struct are gone.
\<close>

subsection \<open>Reflected values\<close>

text \<open>Two shapes are the same when they describe the same type.\<close>

type_synonym shape = nat

datatype StructKind = UnitKind | TupleKind | TupleStructKind | StructStructKind

text \<open>
  Struct fields carry their name and whether they are metadata; an enum value its active variant,
  the variant's kind and its fields by name.
\<close>

datatype 'x peek =
    POption shape "'x peek option"
  | PResult shape "'x peek + 'x peek"
  | PStruct shape "(string \<times> bool \<times> 'x peek) list"
  | PEnum shape string StructKind "(string \<times> 'x peek) list"
  | PList shape "'x peek list"
  | PArray shape "'x peek list"
  | PMap shape "('x peek \<times> 'x peek) list"
  | PSet shape "'x peek list"
  | PScalar shape 'x

fun peek_shape :: "'x peek \<Rightarrow> shape" where
  "peek_shape (POption s _) = s"
| "peek_shape (PResult s _) = s"
| "peek_shape (PStruct s _) = s"
| "peek_shape (PEnum s _ _ _) = s"
| "peek_shape (PList s _) = s"
| "peek_shape (PArray s _) = s"
| "peek_shape (PMap s _) = s"
| "peek_shape (PSet s _) = s"
| "peek_shape (PScalar s _) = s"

text \<open>\<open>rf_eq\<close> is \<open>None\<close> for a shape without \<open>PartialEq\<close>.\<close>

record 'x reflection =
  rf_eq :: "shape \<Rightarrow> 'x \<Rightarrow> 'x \<Rightarrow> bool option"
  rf_get :: "('x peek \<times> 'x peek) list \<Rightarrow> 'x peek \<Rightarrow> 'x peek option"
  rf_contains :: "'x peek list \<Rightarrow> 'x peek \<Rightarrow> bool"
  rf_array_is_list :: bool

lemma size_snd: "(n, v) \<in> set fs \<Longrightarrow> size v \<le> size_list (size_prod f size) fs"
  by (erule size_list_estimation') simp

lemma size_snd_snd: "(n, m, v) \<in> set fs \<Longrightarrow> size v \<le> size_list (size_prod f (size_prod g size)) fs"
  by (erule size_list_estimation') simp

lemma size_elem: "v \<in> set vs \<Longrightarrow> size v \<le> size_list size vs"
  by (erule size_list_estimation') simp

lemma size_part_less [termination_simp]:
  "(n, v) \<in> set fs \<Longrightarrow> size v < Suc (size_list (size_prod f size) fs)"
  "(n, m, v) \<in> set fs' \<Longrightarrow> size v < Suc (size_list (size_prod f (size_prod g size)) fs')"
  by (simp_all add: less_Suc_eq_le size_snd size_snd_snd)

lemmas size_parts = size_snd size_snd_snd size_elem size_snd [OF map_of_SomeD]

text \<open>
  The arms of the comparison, one per form of value, over the comparison \<open>eq\<close> of the parts. Each congruence
  rule says which parts an arm compares.
\<close>

definition options_equal :: "('x peek \<Rightarrow> 'x peek \<Rightarrow> bool) \<Rightarrow> 'x peek option \<Rightarrow> 'x peek option \<Rightarrow> bool" where
  "options_equal eq opt_a opt_b =
     (case opt_a of
        Some inner_a \<Rightarrow> (case opt_b of Some inner_b \<Rightarrow> eq inner_a inner_b | None \<Rightarrow> False)
      | None \<Rightarrow> opt_b = None)"

definition results_equal ::
  "('x peek \<Rightarrow> 'x peek \<Rightarrow> bool) \<Rightarrow> 'x peek + 'x peek \<Rightarrow> 'x peek + 'x peek \<Rightarrow> bool" where
  "results_equal eq result_a result_b =
     (case result_a of
        Inr ok_a \<Rightarrow> (case result_b of Inr ok_b \<Rightarrow> eq ok_a ok_b | Inl _ \<Rightarrow> False)
      | Inl err_a \<Rightarrow> (case result_b of Inl err_b \<Rightarrow> eq err_a err_b | Inr _ \<Rightarrow> False))"

definition structs_equal ::
  "('x peek \<Rightarrow> 'x peek \<Rightarrow> bool) \<Rightarrow> (string \<times> bool \<times> 'x peek) list \<Rightarrow> (string \<times> bool \<times> 'x peek) list \<Rightarrow> bool" where
  "structs_equal eq struct_a struct_b =
     (let fields_a = filter (\<lambda>(_, metadata, _). \<not> metadata) struct_a;
          fields_b = filter (\<lambda>(_, metadata, _). \<not> metadata) struct_b
      in length fields_a = length fields_b
         \<and> list_all (\<lambda>((name_a, _, peek_a), (name_b, _, peek_b)). name_a = name_b \<and> eq peek_a peek_b)
              (zip fields_a fields_b))"

definition variants_equal ::
  "('x peek \<Rightarrow> 'x peek \<Rightarrow> bool) \<Rightarrow> StructKind \<Rightarrow> (string \<times> 'x peek) list \<Rightarrow> (string \<times> 'x peek) list \<Rightarrow> bool" where
  "variants_equal eq kind_a data_a data_b =
     (case kind_a of
        UnitKind \<Rightarrow> True
      | StructStructKind \<Rightarrow>
          list_all (\<lambda>(name, _). case map_of data_a name of
              None \<Rightarrow> False
            | Some field_a \<Rightarrow> (case map_of data_b name of None \<Rightarrow> False | Some field_b \<Rightarrow> eq field_a field_b))
            data_a
      | _ \<Rightarrow>
          length data_a = length data_b
          \<and> list_all (\<lambda>((_, field_a), (_, field_b)). eq field_a field_b) (zip data_a data_b))"

definition lists_equal :: "('x peek \<Rightarrow> 'x peek \<Rightarrow> bool) \<Rightarrow> 'x peek list \<Rightarrow> 'x peek list \<Rightarrow> bool" where
  "lists_equal eq list_a list_b =
     (length list_a = length list_b \<and> list_all (\<lambda>(elem_a, elem_b). eq elem_a elem_b) (zip list_a list_b))"

definition maps_equal ::
  "('x peek \<Rightarrow> 'x peek \<Rightarrow> bool) \<Rightarrow> 'x reflection \<Rightarrow> ('x peek \<times> 'x peek) list \<Rightarrow> ('x peek \<times> 'x peek) list \<Rightarrow> bool" where
  "maps_equal eq rf map_a map_b =
     (length map_a = length map_b
      \<and> list_all (\<lambda>(key_a, value_a). case rf_get rf map_b key_a of
            None \<Rightarrow> False
          | Some value_b \<Rightarrow> eq value_a value_b) map_a)"

definition sets_equal :: "'x reflection \<Rightarrow> 'x peek list \<Rightarrow> 'x peek list \<Rightarrow> bool" where
  "sets_equal rf set_a set_b = (length set_a = length set_b \<and> list_all (rf_contains rf set_b) set_a)"

definition scalars_equal :: "'x reflection \<Rightarrow> shape \<Rightarrow> 'x \<Rightarrow> 'x \<Rightarrow> bool" where
  "scalars_equal rf sh x y = (case rf_eq rf sh x y of Some result \<Rightarrow> result | None \<Rightarrow> False)"

lemmas arms_equal =
  options_equal_def results_equal_def structs_equal_def variants_equal_def lists_equal_def maps_equal_def
  sets_equal_def scalars_equal_def

lemma options_equal_cong [fundef_cong]:
  "a = a' \<Longrightarrow> b = b' \<Longrightarrow> (\<And>x y. a' = Some x \<Longrightarrow> f x y = g x y) \<Longrightarrow> options_equal f a b = options_equal g a' b'"
  by (simp add: options_equal_def split: option.split)

lemma results_equal_cong [fundef_cong]:
  "a = a' \<Longrightarrow> b = b' \<Longrightarrow> (\<And>x y. a' = Inl x \<or> a' = Inr x \<Longrightarrow> f x y = g x y) \<Longrightarrow>
   results_equal f a b = results_equal g a' b'"
  by (simp add: results_equal_def split: sum.split)

lemma list_all_zip_cong:
  "(\<And>x y. x \<in> set xs \<Longrightarrow> P (x, y) = Q (x, y)) \<Longrightarrow> list_all P (zip xs ys) = list_all Q (zip xs ys)"
  by (rule list.pred_cong) (auto dest: set_zip_leftD)

lemma structs_equal_cong [fundef_cong]:
  "a = a' \<Longrightarrow> b = b' \<Longrightarrow> (\<And>n m x y. (n, m, x) \<in> set a' \<Longrightarrow> f x y = g x y) \<Longrightarrow>
   structs_equal f a b = structs_equal g a' b'"
  unfolding structs_equal_def Let_def by (hypsubst, intro conj_cong refl list_all_zip_cong) auto

lemma variants_equal_cong [fundef_cong]:
  assumes "k = k'" "a = a'" "b = b'" and same: "\<And>n x y. (n, x) \<in> set a' \<Longrightarrow> f x y = g x y"
  shows "variants_equal f k a b = variants_equal g k' a' b'"
proof -
  have "(case map_of a' n of None \<Rightarrow> False | Some x \<Rightarrow> (case map_of b' n of None \<Rightarrow> False | Some y \<Rightarrow> f x y))
      = (case map_of a' n of None \<Rightarrow> False | Some x \<Rightarrow> (case map_of b' n of None \<Rightarrow> False | Some y \<Rightarrow> g x y))" for n
    using same by (auto split: option.split dest: map_of_SomeD)
  then have named: "list_all (\<lambda>(n, _). case map_of a' n of None \<Rightarrow> False
        | Some x \<Rightarrow> (case map_of b' n of None \<Rightarrow> False | Some y \<Rightarrow> f x y)) a'
      = list_all (\<lambda>(n, _). case map_of a' n of None \<Rightarrow> False
        | Some x \<Rightarrow> (case map_of b' n of None \<Rightarrow> False | Some y \<Rightarrow> g x y)) a'"
    by simp
  have "list_all (\<lambda>((_, x), (_, y)). f x y) (zip a' b') = list_all (\<lambda>((_, x), (_, y)). g x y) (zip a' b')"
    by (rule list_all_zip_cong) (use same in auto)
  with named show ?thesis unfolding variants_equal_def assms(1-3) by (simp split: StructKind.split)
qed

lemma lists_equal_cong [fundef_cong]:
  "a = a' \<Longrightarrow> b = b' \<Longrightarrow> (\<And>x y. x \<in> set a' \<Longrightarrow> f x y = g x y) \<Longrightarrow> lists_equal f a b = lists_equal g a' b'"
  unfolding lists_equal_def by (hypsubst, intro conj_cong refl list_all_zip_cong) auto

lemma maps_equal_cong [fundef_cong]:
  "rf = rf' \<Longrightarrow> a = a' \<Longrightarrow> b = b' \<Longrightarrow> (\<And>k x y. (k, x) \<in> set a' \<Longrightarrow> f x y = g x y) \<Longrightarrow>
   maps_equal f rf a b = maps_equal g rf' a' b'"
  by (auto simp: maps_equal_def list_all_iff split: option.split)

function peek_eq :: "'x reflection \<Rightarrow> 'x peek \<Rightarrow> 'x peek \<Rightarrow> bool" where
  "peek_eq rf a b =
     (if peek_shape a \<noteq> peek_shape b then False
      else case a of
        POption _ opt_a \<Rightarrow> (case b of POption _ opt_b \<Rightarrow> options_equal (peek_eq rf) opt_a opt_b | _ \<Rightarrow> False)
      | PResult _ result_a \<Rightarrow> (case b of PResult _ result_b \<Rightarrow> results_equal (peek_eq rf) result_a result_b | _ \<Rightarrow> False)
      | PStruct _ struct_a \<Rightarrow> (case b of PStruct _ struct_b \<Rightarrow> structs_equal (peek_eq rf) struct_a struct_b | _ \<Rightarrow> False)
      | PEnum _ variant_a kind_a data_a \<Rightarrow>
          (case b of
             PEnum _ variant_b _ data_b \<Rightarrow> variant_a = variant_b \<and> variants_equal (peek_eq rf) kind_a data_a data_b
           | _ \<Rightarrow> False)
      | PList _ list_a \<Rightarrow> (case b of PList _ list_b \<Rightarrow> lists_equal (peek_eq rf) list_a list_b | _ \<Rightarrow> False)
      | PArray _ list_a \<Rightarrow>
          (if \<not> rf_array_is_list rf then False
           else case b of PArray _ list_b \<Rightarrow> lists_equal (peek_eq rf) list_a list_b | _ \<Rightarrow> False)
      | PMap _ map_a \<Rightarrow> (case b of PMap _ map_b \<Rightarrow> maps_equal (peek_eq rf) rf map_a map_b | _ \<Rightarrow> False)
      | PSet _ set_a \<Rightarrow> (case b of PSet _ set_b \<Rightarrow> sets_equal rf set_a set_b | _ \<Rightarrow> False)
      | PScalar _ x \<Rightarrow> (case b of PScalar _ y \<Rightarrow> scalars_equal rf (peek_shape a) x y | _ \<Rightarrow> False))"
  by pat_completeness auto
termination
  by (relation "measure (\<lambda>(rf, a, b). size a)") (auto simp: less_Suc_eq_le size_parts)

lemmas peek_eq_unfold = peek_eq.simps [unfolded arms_equal]

declare peek_eq.simps [simp del]

text \<open>The two entry points. A \<open>dyn Any\<close> is a value with its type id, which is its shape here.\<close>

definition facet_eq_direct :: "'x reflection \<Rightarrow> 'x peek \<Rightarrow> 'x peek \<Rightarrow> bool" where
  "facet_eq_direct rf a b = peek_eq rf a b"

definition downcast_ref :: "shape \<Rightarrow> 'x peek \<Rightarrow> 'x peek option" where
  "downcast_ref ty a = (if peek_shape a = ty then Some a else None)"

definition facet_eq :: "'x reflection \<Rightarrow> shape \<Rightarrow> 'x peek \<Rightarrow> 'x peek \<Rightarrow> bool" where
  "facet_eq rf ty a b =
     (case downcast_ref ty a of
        None \<Rightarrow> False
      | Some a' \<Rightarrow> (case downcast_ref ty b of None \<Rightarrow> False | Some b' \<Rightarrow> facet_eq_direct rf a' b'))"

subsection \<open>Denotations\<close>

datatype 'x den =
    DOption shape "'x den option"
  | DResult shape "'x den + 'x den"
  | DStruct shape "(string \<times> 'x den) list"
  | DEnum shape string "(string \<times> 'x den) list"
  | DList shape "'x den list"
  | DArray shape "'x den list"
  | DMap shape "('x den \<times> 'x den) fset"
  | DSet shape "'x den fset"
  | DScalar shape 'x

fun denote :: "'x peek \<Rightarrow> 'x den" where
  "denote (POption s v) = DOption s (map_option denote v)"
| "denote (PResult s (Inl e)) = DResult s (Inl (denote e))"
| "denote (PResult s (Inr v)) = DResult s (Inr (denote v))"
| "denote (PStruct s fs) = DStruct s (map (\<lambda>(n, m, v). (n, denote v)) (filter (\<lambda>(n, m, v). \<not> m) fs))"
| "denote (PEnum s variant k fs) = DEnum s variant (map (\<lambda>(n, v). (n, denote v)) fs)"
| "denote (PList s vs) = DList s (map denote vs)"
| "denote (PArray s vs) = DArray s (map denote vs)"
| "denote (PMap s es) = DMap s (fset_of_list (map (\<lambda>(k, v). (denote k, denote v)) es))"
| "denote (PSet s vs) = DSet s (fset_of_list (map denote vs))"
| "denote (PScalar s x) = DScalar s x"

lemma denote_wrapped [simp]:
  "denote (POption s v) = DOption s (map_option denote v)"
  "denote (PResult s r) = DResult s (map_sum denote denote r)"
  by (cases v; simp) (cases r; simp)

text \<open>
  Values as the type system makes them: the fields of a variant are those its type declares, and a map
  or set holds no key twice.
\<close>

type_synonym schema = "shape \<Rightarrow> string \<Rightarrow> StructKind \<times> string list"

fun wf_peek :: "schema \<Rightarrow> 'x peek \<Rightarrow> bool" where
  "wf_peek sch (POption s None) \<longleftrightarrow> True"
| "wf_peek sch (POption s (Some v)) \<longleftrightarrow> wf_peek sch v"
| "wf_peek sch (PResult s (Inl e)) \<longleftrightarrow> wf_peek sch e"
| "wf_peek sch (PResult s (Inr v)) \<longleftrightarrow> wf_peek sch v"
| "wf_peek sch (PStruct s fs) \<longleftrightarrow> (\<forall>(n, m, v) \<in> set fs. wf_peek sch v)"
| "wf_peek sch (PEnum s variant k fs) \<longleftrightarrow>
     sch s variant = (k, map fst fs) \<and> distinct (map fst fs) \<and> (k = UnitKind \<longrightarrow> fs = []) \<and> (\<forall>(n, v) \<in> set fs. wf_peek sch v)"
| "wf_peek sch (PList s vs) \<longleftrightarrow> (\<forall>v \<in> set vs. wf_peek sch v)"
| "wf_peek sch (PArray s vs) \<longleftrightarrow> (\<forall>v \<in> set vs. wf_peek sch v)"
| "wf_peek sch (PMap s es) \<longleftrightarrow> distinct (map (denote \<circ> fst) es) \<and> (\<forall>(k, v) \<in> set es. wf_peek sch v)"
| "wf_peek sch (PSet s vs) \<longleftrightarrow> distinct (map denote vs)"
| "wf_peek sch (PScalar s x) \<longleftrightarrow> True"

text \<open>Whether the function can decide: outside of keys and set elements every scalar has \<open>PartialEq\<close>.\<close>

fun comparable :: "'x reflection \<Rightarrow> 'x peek \<Rightarrow> bool" where
  "comparable rf (POption s None) \<longleftrightarrow> True"
| "comparable rf (POption s (Some v)) \<longleftrightarrow> comparable rf v"
| "comparable rf (PResult s (Inl e)) \<longleftrightarrow> comparable rf e"
| "comparable rf (PResult s (Inr v)) \<longleftrightarrow> comparable rf v"
| "comparable rf (PStruct s fs) \<longleftrightarrow> (\<forall>(n, m, v) \<in> set fs. m \<or> comparable rf v)"
| "comparable rf (PEnum s variant k fs) \<longleftrightarrow> (\<forall>(n, v) \<in> set fs. comparable rf v)"
| "comparable rf (PList s vs) \<longleftrightarrow> (\<forall>v \<in> set vs. comparable rf v)"
| "comparable rf (PArray s vs) \<longleftrightarrow> rf_array_is_list rf \<and> (\<forall>v \<in> set vs. comparable rf v)"
| "comparable rf (PMap s es) \<longleftrightarrow> (\<forall>(k, v) \<in> set es. comparable rf v)"
| "comparable rf (PSet s vs) \<longleftrightarrow> True"
| "comparable rf (PScalar s x) \<longleftrightarrow> rf_eq rf s x x \<noteq> None"

text \<open>
  What is relied on: a \<open>PartialEq\<close> is equality, present or absent for a whole type, and the native
  lookups find the entry whose key is the given one.
\<close>

definition lawful_reflection :: "'x reflection \<Rightarrow> bool" where
  "lawful_reflection rf \<longleftrightarrow>
     (\<forall>s x y r. rf_eq rf s x y = Some r \<longrightarrow> r = (x = y))
     \<and> (\<forall>s x y. rf_eq rf s x y = None \<longleftrightarrow> rf_eq rf s x x = None)
     \<and> (\<forall>es k. distinct (map (denote \<circ> fst) es) \<longrightarrow>
          rf_get rf es k = map_of (map (\<lambda>(k, v). (denote k, v)) es) (denote k))
     \<and> (\<forall>vs k. distinct (map denote vs) \<longrightarrow> rf_contains rf vs k = (denote k \<in> denote ` set vs))"

lemma lawful_reflectionD:
  assumes "lawful_reflection rf"
  shows "rf_eq rf s x y = Some r \<Longrightarrow> r = (x = y)"
    and "rf_eq rf s x y = None \<longleftrightarrow> rf_eq rf s x x = None"
    and "distinct (map (denote \<circ> fst) es) \<Longrightarrow>
      rf_get rf es k = map_of (map (\<lambda>(k, v). (denote k, v)) es) (denote k)"
    and "distinct (map denote vs) \<Longrightarrow> rf_contains rf vs k = (denote k \<in> denote ` set vs)"
  using assms unfolding lawful_reflection_def by blast+

subsection \<open>Equality of denotations, container by container\<close>

lemma zip_all_iff: "length xs = length ys \<and> list_all (\<lambda>(x, y). P x y) (zip xs ys) \<longleftrightarrow> list_all2 P xs ys"
  by (auto simp: list_all2_iff list_all_iff)

lemma all2_denote:
  "(\<And>x y. x \<in> set xs \<Longrightarrow> y \<in> set ys \<Longrightarrow> P x y \<longleftrightarrow> f x = f y \<and> c x) \<Longrightarrow>
   list_all2 P xs ys \<longleftrightarrow> map f xs = map f ys \<and> (\<forall>x \<in> set xs. c x)"
proof (induction xs arbitrary: ys)
  case (Cons x xs)
  then show ?case by (cases ys) auto
qed simp

lemma tables_eq_iff:
  assumes "distinct (map fst xs)" "distinct (map fst ys)"
  shows "length xs = length ys \<and> (\<forall>(k, v) \<in> set xs. map_of ys k = Some v) \<longleftrightarrow> set xs = set ys"
proof -
  have card: "card (set xs) = length xs" "card (set ys) = length ys"
    using assms by (auto simp: distinct_map distinct_card)
  have "(\<forall>(k, v) \<in> set xs. map_of ys k = Some v) \<longleftrightarrow> set xs \<subseteq> set ys"
    using assms(2) by auto
  then show ?thesis using card card_subset_eq [of "set ys" "set xs"] by auto
qed

lemma fset_of_list_eq_iff: "fset_of_list xs = fset_of_list ys \<longleftrightarrow> set xs = set ys"
  by (metis fset_inject fset_of_list.rep_eq)

lemma lists_eq_iff:
  assumes "distinct xs" "distinct ys"
  shows "length xs = length ys \<and> set xs \<subseteq> set ys \<longleftrightarrow> set xs = set ys"
  using distinct_card [OF assms(1)] distinct_card [OF assms(2)] card_subset_eq [of "set ys" "set xs"] by auto

text \<open>The function decides a value: it answers as the equality of denotations, and only if it can.\<close>

definition decides :: "schema \<Rightarrow> 'x reflection \<Rightarrow> 'x peek \<Rightarrow> bool" where
  "decides sch rf a \<longleftrightarrow>
     (\<forall>b. wf_peek sch b \<longrightarrow> (peek_eq rf a b \<longleftrightarrow> denote a = denote b \<and> comparable rf a))"

lemma decidesD: "decides sch rf a \<Longrightarrow> wf_peek sch b \<Longrightarrow> peek_eq rf a b \<longleftrightarrow> denote a = denote b \<and> comparable rf a"
  by (simp add: decides_def)

lemma decidesI:
  "(\<And>b. wf_peek sch b \<Longrightarrow> peek_eq rf a b \<longleftrightarrow> denote a = denote b \<and> comparable rf a) \<Longrightarrow> decides sch rf a"
  by (simp add: decides_def)

lemma decides_option:
  assumes "\<And>v. opt = Some v \<Longrightarrow> decides sch rf v"
  shows "decides sch rf (POption s opt)"
proof (rule decidesI)
  fix b :: "'a peek" assume b: "wf_peek sch b"
  show "peek_eq rf (POption s opt) b \<longleftrightarrow> denote (POption s opt) = denote b \<and> comparable rf (POption s opt)"
  proof (cases b)
    case (POption s' o')
    then show ?thesis using assms b decidesD [of sch rf "the opt" "the o'"]
      by (subst peek_eq_unfold) (cases opt; cases o'; auto)
  qed (subst peek_eq_unfold, simp)+
qed

lemma decides_result:
  assumes "\<And>v. r = Inl v \<or> r = Inr v \<Longrightarrow> decides sch rf v"
  shows "decides sch rf (PResult s r)"
proof (rule decidesI)
  fix b :: "'a peek" assume b: "wf_peek sch b"
  show "peek_eq rf (PResult s r) b \<longleftrightarrow> denote (PResult s r) = denote b \<and> comparable rf (PResult s r)"
  proof (cases b)
    case (PResult s' r')
    then show ?thesis using assms b
      by (subst peek_eq_unfold) (cases r; cases r'; auto dest!: decidesD [where sch = sch and rf = rf])
  qed (subst peek_eq_unfold, cases r; simp)+
qed

lemma decides_struct:
  assumes "\<And>n m v. (n, m, v) \<in> set fs \<Longrightarrow> decides sch rf v"
  shows "decides sch rf (PStruct s fs)"
proof (rule decidesI)
  fix b :: "'a peek" assume b: "wf_peek sch b"
  show "peek_eq rf (PStruct s fs) b \<longleftrightarrow> denote (PStruct s fs) = denote b \<and> comparable rf (PStruct s fs)"
  proof (cases b)
    case (PStruct s' gs)
    let ?live = "filter (\<lambda>(n, m, v). \<not> m)" and ?d = "\<lambda>(n, m, v). (n, denote v)"
    have each: "peek_eq rf v w \<longleftrightarrow> denote v = denote w \<and> comparable rf v"
      if "(n, m, v) \<in> set fs" "(n', m', w) \<in> set gs" for n m v n' m' w
      using decidesD [OF assms [OF that(1)], of w] that(2) b PStruct by auto
    have "list_all2 (\<lambda>(n, _, x) (n', _, y). n = n' \<and> peek_eq rf x y) (?live fs) (?live gs)
        \<longleftrightarrow> map ?d (?live fs) = map ?d (?live gs) \<and> (\<forall>e \<in> set (?live fs). (\<lambda>(n, m, v). comparable rf v) e)"
      by (rule all2_denote) (auto simp: each)
    moreover have "(\<forall>e \<in> set (?live fs). (\<lambda>(n, m, v). comparable rf v) e) \<longleftrightarrow> comparable rf (PStruct s fs)" by force
    ultimately show ?thesis using PStruct
      by (subst peek_eq_unfold) (auto simp: Let_def zip_all_iff [symmetric] case_prod_beta' simp del: comparable.simps)
  qed (subst peek_eq_unfold, simp)+
qed

lemma named_fields_eq:
  "map fst fs = map fst gs \<Longrightarrow>
   map (\<lambda>(n, v). (n, f v)) fs = map (\<lambda>(n, v). (n, f v)) gs \<longleftrightarrow> map (\<lambda>e. f (snd e)) fs = map (\<lambda>e. f (snd e)) gs"
proof (induction fs arbitrary: gs)
  case (Cons e fs)
  then show ?case by (cases gs; cases e) auto
qed simp

lemma named_lookup_all2:
  assumes "map fst fs = map fst gs" "distinct (map fst gs)"
  shows "list_all (\<lambda>(name, _). case map_of fs name of None \<Rightarrow> False
           | Some x \<Rightarrow> (case map_of gs name of None \<Rightarrow> False | Some y \<Rightarrow> P x y)) fs
        \<longleftrightarrow> list_all2 (\<lambda>(n, v) (n', w). P v w) fs gs"
proof -
  have len: "length fs = length gs" using assms(1) by (metis length_map)
  have "fst (fs ! i) = fst (gs ! i)" if "i < length fs" for i
    using assms(1) that len by (metis nth_map)
  moreover have "map_of fs (fst (fs ! i)) = Some (snd (fs ! i))" "map_of gs (fst (gs ! i)) = Some (snd (gs ! i))"
    if "i < length fs" for i
    using assms that len by (auto simp: nth_mem)
  ultimately show ?thesis
    using len by (auto simp: list_all_length list_all2_conv_all_nth case_prod_beta')
qed

lemma decides_enum:
  assumes ih: "\<And>n v. (n, v) \<in> set fs \<Longrightarrow> decides sch rf v" and wf: "wf_peek sch (PEnum s variant k fs)"
  shows "decides sch rf (PEnum s variant k fs)"
proof (rule decidesI)
  fix b :: "'a peek" assume b: "wf_peek sch b"
  show "peek_eq rf (PEnum s variant k fs) b \<longleftrightarrow> denote (PEnum s variant k fs) = denote b \<and> comparable rf (PEnum s variant k fs)"
  proof (cases "\<exists>gs k'. b = PEnum s variant k' gs")
    case True
    then obtain gs k' where B: "b = PEnum s variant k' gs" by blast
    have names: "map fst fs = map fst gs" "k' = k" "distinct (map fst gs)" "k = UnitKind \<Longrightarrow> fs = [] \<and> gs = []"
      using wf b B by auto
    have each: "peek_eq rf v w \<longleftrightarrow> denote v = denote w \<and> comparable rf v"
      if "(n, v) \<in> set fs" "(n', w) \<in> set gs" for n v n' w
      using decidesD [OF ih [OF that(1)], of w] that(2) b B by auto
    let ?d = "\<lambda>(n, v). (n, denote v)"
    have all: "list_all2 (\<lambda>(n, v) (n', w). peek_eq rf v w) fs gs
        \<longleftrightarrow> map (\<lambda>e. denote (snd e)) fs = map (\<lambda>e. denote (snd e)) gs \<and> (\<forall>e \<in> set fs. comparable rf (snd e))"
      by (rule all2_denote) (auto simp: each)
    have den: "map ?d fs = map ?d gs \<longleftrightarrow> map (\<lambda>e. denote (snd e)) fs = map (\<lambda>e. denote (snd e)) gs"
      using named_fields_eq [OF names(1)] .
    have named: "list_all (\<lambda>(name, _). case map_of fs name of None \<Rightarrow> False
           | Some x \<Rightarrow> (case map_of gs name of None \<Rightarrow> False | Some y \<Rightarrow> peek_eq rf x y)) fs
        \<longleftrightarrow> list_all2 (\<lambda>(n, v) (n', w). peek_eq rf v w) fs gs"
      by (rule named_lookup_all2 [OF names(1,3)])
    show ?thesis
      using all den named names(2,4) B
      by (subst peek_eq_unfold) (cases k; auto simp flip: zip_all_iff)
  next
    case False
    then show ?thesis by (subst peek_eq_unfold) (cases b; auto)
  qed
qed

lemma decides_list:
  assumes "\<And>v. v \<in> set vs \<Longrightarrow> decides sch rf v"
  shows "decides sch rf (PList s vs)" and "decides sch rf (PArray s vs)"
proof -
  have all: "list_all2 (peek_eq rf) vs ws \<longleftrightarrow> map denote vs = map denote ws \<and> (\<forall>v \<in> set vs. comparable rf v)"
    if "\<forall>w \<in> set ws. wf_peek sch w" for ws
    by (rule all2_denote) (use assms that in \<open>auto simp: decides_def\<close>)
  show "decides sch rf (PList s vs)"
  proof (rule decidesI)
    fix b :: "'a peek" assume b: "wf_peek sch b"
    show "peek_eq rf (PList s vs) b \<longleftrightarrow> denote (PList s vs) = denote b \<and> comparable rf (PList s vs)"
    proof (cases b)
      case (PList s' ws)
      then show ?thesis using all [of ws] b by (subst peek_eq_unfold) (auto simp flip: zip_all_iff)
    qed (subst peek_eq_unfold, simp)+
  qed
  show "decides sch rf (PArray s vs)"
  proof (rule decidesI)
    fix b :: "'a peek" assume b: "wf_peek sch b"
    show "peek_eq rf (PArray s vs) b \<longleftrightarrow> denote (PArray s vs) = denote b \<and> comparable rf (PArray s vs)"
    proof (cases b)
      case (PArray s' ws)
      then show ?thesis using all [of ws] b by (subst peek_eq_unfold) (auto simp flip: zip_all_iff)
    qed (subst peek_eq_unfold, simp)+
  qed
qed

lemma decides_map:
  assumes law: "lawful_reflection rf" and ih: "\<And>k v. (k, v) \<in> set es \<Longrightarrow> decides sch rf v"
    and wf: "distinct (map (denote \<circ> fst) es)"
  shows "decides sch rf (PMap s es)"
proof (rule decidesI)
  fix b :: "'a peek" assume b: "wf_peek sch b"
  show "peek_eq rf (PMap s es) b \<longleftrightarrow> denote (PMap s es) = denote b \<and> comparable rf (PMap s es)"
  proof (cases b)
    case (PMap s' fs)
    let ?d = "\<lambda>(k, v). (denote k, denote v)"
    have keys: "distinct (map fst (map ?d es))" "distinct (map fst (map ?d fs))" and vals: "\<forall>(k, v) \<in> set fs. wf_peek sch v"
      using wf b PMap by (simp_all add: comp_def case_prod_beta')
    have get: "rf_get rf fs k = map_of (map (\<lambda>(k, v). (denote k, v)) fs) (denote k)" for k
      by (rule lawful_reflectionD(3) [OF law]) (use b PMap in simp)
    have den: "map_of (map ?d fs) x = map_option denote (map_of (map (\<lambda>(k, v). (denote k, v)) fs) x)" for x
      by (induction fs) auto
    have entry: "(case rf_get rf fs k of None \<Rightarrow> False | Some w \<Rightarrow> peek_eq rf v w)
        \<longleftrightarrow> map_of (map ?d fs) (denote k) = Some (denote v) \<and> comparable rf v" if "(k, v) \<in> set es" for k v
    proof (cases "rf_get rf fs k")
      case (Some w)
      then have "wf_peek sch w" using vals by (auto simp: get dest!: map_of_SomeD)
      from decidesD [OF ih [OF that] this] Some show ?thesis by (auto simp: den get)
    qed (simp add: den get)
    have "(\<forall>(k, v) \<in> set es. map_of (map ?d fs) (denote k) = Some (denote v))
        \<longleftrightarrow> (\<forall>(k, v) \<in> set (map ?d es). map_of (map ?d fs) k = Some v)" by auto
    then have "peek_eq rf (PMap s es) b \<longleftrightarrow> s = s' \<and> length (map ?d es) = length (map ?d fs)
        \<and> (\<forall>(k, v) \<in> set (map ?d es). map_of (map ?d fs) k = Some v) \<and> (\<forall>(k, v) \<in> set es. comparable rf v)"
      using entry PMap by (subst peek_eq_unfold) (auto simp: list_all_iff)
    also have "\<dots> \<longleftrightarrow> s = s' \<and> set (map ?d es) = set (map ?d fs) \<and> (\<forall>(k, v) \<in> set es. comparable rf v)"
      unfolding tables_eq_iff [OF keys, symmetric] by blast
    also have "\<dots> \<longleftrightarrow> denote (PMap s es) = denote b \<and> comparable rf (PMap s es)"
      using PMap by (simp add: fset_of_list_eq_iff del: fset_of_list_map)
    finally show ?thesis .
  qed (subst peek_eq_unfold, simp)+
qed

lemma decides_set:
  assumes law: "lawful_reflection rf" and wf: "distinct (map denote vs)"
  shows "decides sch rf (PSet s vs)"
proof (rule decidesI)
  fix b :: "'a peek" assume b: "wf_peek sch b"
  show "peek_eq rf (PSet s vs) b \<longleftrightarrow> denote (PSet s vs) = denote b \<and> comparable rf (PSet s vs)"
  proof (cases b)
    case (PSet s' ws)
    then have ws: "distinct (map denote ws)" using b by simp
    have "length vs = length ws \<and> list_all (rf_contains rf ws) vs \<longleftrightarrow> denote ` set vs = denote ` set ws"
      using lists_eq_iff [OF wf ws] lawful_reflectionD(4) [OF law ws] by (auto simp: list_all_iff)
    then show ?thesis using PSet
      by (subst peek_eq_unfold) (simp add: fset_of_list_eq_iff del: fset_of_list_map)
  qed (subst peek_eq_unfold, simp)+
qed

lemma peek_eq_exact:
  assumes law: "lawful_reflection rf" and "wf_peek sch a" "wf_peek sch b"
  shows "peek_eq rf a b \<longleftrightarrow> denote a = denote b \<and> comparable rf a"
proof -
  have "decides sch rf a" using assms(2)
  proof (induction a rule: measure_induct_rule [of size])
    case (less a)
    show ?case
    proof (cases a)
      case (POption s v)
      show ?thesis unfolding POption by (rule decides_option) (use less POption in auto)
    next
      case (PResult s r)
      show ?thesis unfolding PResult by (rule decides_result) (use less PResult in auto)
    next
      case (PStruct s fs)
      show ?thesis unfolding PStruct
        by (rule decides_struct, rule less.IH)
           (use less.prems PStruct in \<open>auto simp: less_Suc_eq_le intro: size_snd_snd\<close>)
    next
      case (PEnum s v k fs)
      show ?thesis unfolding PEnum
        by (rule decides_enum) (use less PEnum in \<open>auto simp: less_Suc_eq_le intro: size_parts\<close>)
    next
      case (PList s vs)
      show ?thesis unfolding PList
        by (rule decides_list) (use less PList in \<open>auto simp: less_Suc_eq_le intro: size_parts\<close>)
    next
      case (PArray s vs)
      show ?thesis unfolding PArray
        by (rule decides_list) (use less PArray in \<open>auto simp: less_Suc_eq_le intro: size_parts\<close>)
    next
      case (PMap s es)
      show ?thesis unfolding PMap
        by (rule decides_map [OF law]) (use less PMap in \<open>auto simp: less_Suc_eq_le intro: size_parts\<close>)
    next
      case (PSet s vs)
      show ?thesis unfolding PSet by (rule decides_set [OF law]) (use less PSet in simp)
    next
      case (PScalar s x)
      show ?thesis unfolding PScalar
      proof (rule decidesI)
        fix b :: "'a peek"
        show "peek_eq rf (PScalar s x) b \<longleftrightarrow> denote (PScalar s x) = denote b \<and> comparable rf (PScalar s x)"
        proof (cases b)
          case (PScalar s' y)
          then show ?thesis using lawful_reflectionD(1,2) [OF law, of s x y]
            by (subst peek_eq_unfold) (auto split: option.split)
        qed (subst peek_eq_unfold, simp)+
      qed
    qed
  qed
  then show ?thesis using assms(3) by (rule decidesD)
qed

lemma peek_shape_denote: "denote a = denote b \<Longrightarrow> peek_shape a = peek_shape b"
  by (cases a; cases b) auto

text \<open>
  C30. Let a \<open>PartialEq\<close> that a shape has decide equality of its values (so no floats with \<open>NaN\<close> or a negative zero), let a
  type have it for all its values or for none, and let the native lookups of maps and sets find a key exactly when an equal one is
  there. Then, on well-formed values of its type, \<open>facet_eq\<close> is equality of denotations, where the order of maps and sets and
  the metadata fields of structs do not matter and everything else does, provided the value is comparable: every part outside of keys and set elements
  has a structure or \<open>PartialEq\<close>, and arrays occur only if the reflection library views them as
  lists. A value that is not comparable is equal to nothing, not even to itself.
\<close>
theorem facet_eq_exact:
  assumes "lawful_reflection rf" and "wf_peek sch a" and "wf_peek sch b"
  shows "facet_eq rf ty a b \<longleftrightarrow> peek_shape a = ty \<and> denote a = denote b \<and> comparable rf a"
  using peek_eq_exact [OF assms] peek_shape_denote [of a b]
  by (auto simp: facet_eq_def downcast_ref_def facet_eq_direct_def)

text \<open>A library for bytes in which the type 9 has no \<open>PartialEq\<close>, and two values of a map type.\<close>

definition demo_reflection :: "u8 reflection" where
  "demo_reflection =
     \<lparr>rf_eq = (\<lambda>s x y. if s = 9 then None else Some (x = y)),
      rf_get = (\<lambda>es k. map_of (map (\<lambda>(k, v). (denote k, v)) es) (denote k)),
      rf_contains = (\<lambda>vs k. denote k \<in> denote ` set vs),
      rf_array_is_list = False\<rparr>"

lemma lawful_demo_reflection [simp]: "lawful_reflection demo_reflection"
  by (simp add: lawful_reflection_def demo_reflection_def)

definition demo_map :: "bool \<Rightarrow> u8 \<Rightarrow> u8 peek" where
  "demo_map flip note_byte =
     (let one = (PScalar 1 1, PStruct 2 [(''id'', False, PScalar 1 7), (''note'', True, PScalar 1 note_byte)]);
          two = (PScalar 1 2, PStruct 2 [(''id'', False, PScalar 1 8), (''note'', True, PScalar 1 note_byte)])
      in PMap 3 (if flip then [two, one] else [one, two]))"

lemma demo_map_facts [simp]:
  "denote (demo_map False x) = denote (demo_map True y)" "comparable demo_reflection (demo_map flip x)"
  "wf_peek (\<lambda>_ _. (UnitKind, [])) (demo_map flip x)" "peek_shape (demo_map flip x) = 3"
  by (auto simp: demo_map_def Let_def demo_reflection_def)

theorem facet_eq_exact_witness:
  "facet_eq demo_reflection 3 (demo_map False 5) (demo_map True 6)
   \<and> \<not> facet_eq demo_reflection 9 (PScalar 9 1) (PScalar 9 1)"
  using facet_eq_exact [of demo_reflection "\<lambda>_ _. (UnitKind, [])" "demo_map False 5" "demo_map True 6" 3]
    facet_eq_exact [of demo_reflection "\<lambda>_ _. (UnitKind, [])" "PScalar 9 1" "PScalar 9 1" 9]
  by (simp add: demo_reflection_def [THEN arg_cong, of rf_eq])

subsection \<open>Writes of equal values\<close>

lemma write_bumps:
  "rt_revision (db_runtime (write_finish q x rv (snd (write_begin d)))) = rt_revision (db_runtime d) + 1"
  by (simp add: write_begin_def write_finish_def bump_revision_def mark_divergent_def send_event_def Let_def
      notify_input_set_def notify_input_removed_def propagate_invalidation_def case_prod_beta')

text \<open>
  C31. A write to an input that holds a value leaves the database as it is exactly when the new value
  has the denotation of the old one and the values can be compared: then the old value stays, with its
  metadata, and its revision is returned; otherwise the write is a new revision.
\<close>
theorem equal_write_changes_nothing:
  assumes law: "lawful_reflection rf" and wf: "wf_peek sch old" "wf_peek sch new"
    and key: "encode_facet sh kc key = Inr encoded"
    and old: "tget (inp_entries (db_input d)) \<lparr>dk_kind = inp_kind (db_input d), dk_key = encoded\<rparr>
              = Some \<lparr>ie_value = Some old, ie_changed_at = r\<rparr>"
  shows "if denote old = denote new \<and> comparable rf old
         then input_set sh kc (facet_eq_direct rf) key new d = (r, d)
         else rt_revision (db_runtime (snd (input_set sh kc (facet_eq_direct rf) key new d))) = rt_revision (db_runtime d) + 1"
  using peek_eq_exact [OF law wf] key old
  by (simp add: input_set_def facet_eq_direct_def Let_def case_prod_beta' write_bumps)

theorem equal_write_changes_nothing_witness:
  "let key = \<lparr>dk_kind = QueryKindId 1, dk_key = from_bytes (\<lambda>_. 0) [4]\<rparr>;
       d = \<lparr>db_input = (input_new (QueryKindId 1) ''in'')\<lparr>inp_entries := [(key, \<lparr>ie_value = Some (demo_map False 5), ie_changed_at = Revision 3\<rparr>)]\<rparr>,
            db_runtime = new_for_snapshot (RuntimeId 1), db_counter = 2\<rparr>
   in input_set (\<lambda>_. 0) \<lparr>enc = Inr, dec = Inr\<rparr> (facet_eq_direct demo_reflection) [4] (demo_map True 6) d = (Revision 3, d)"
proof -
  let ?key = "\<lparr>dk_kind = QueryKindId 1, dk_key = from_bytes (\<lambda>_. 0) [4]\<rparr>"
  let ?d = "\<lparr>db_input = (input_new (QueryKindId 1) ''in'')\<lparr>inp_entries := [(?key, \<lparr>ie_value = Some (demo_map False 5), ie_changed_at = Revision 3\<rparr>)]\<rparr>,
            db_runtime = new_for_snapshot (RuntimeId 1), db_counter = 2\<rparr>"
  have "encode_facet (\<lambda>_. 0) \<lparr>enc = Inr, dec = Inr\<rparr> [4] = Inr (from_bytes (\<lambda>_. 0) [4])"
    by (simp add: encode_facet_def)
  from equal_write_changes_nothing [OF lawful_demo_reflection demo_map_facts(3) demo_map_facts(3) this, of ?d False 5 "Revision 3" True 6]
  show ?thesis by (simp add: Let_def input_new_def)
qed

end
