(* ===== verification/MacroTokens.thy ===== *)
theory MacroTokens
  imports Prelude
begin

text \<open>
  The hand-written token processing of the macro crate (\<open>picante-macros/src/util.rs\<close>,
  \<open>struct_item.rs\<close>). A token stream is a list of token trees as \<open>proc_macro2\<close> has them; the grammar
  that cuts an item into attributes, generics, parameters and body is the \<open>unsynn\<close> library's, so
  these functions start from its parts. Angle brackets are plain punctuation and are matched by
  counting.

  The theorems: the reference type of the \<open>db\<close> parameter is recognised exactly; the counting of angle
  brackets finds the arguments of the outer type when the brackets are balanced; an arrow
  inside them counts as a closing bracket.
\<close>

subsection \<open>Token trees\<close>

datatype delimiter = Parenthesis | Brace | Bracket | NoDelimiter

datatype token =
    Ident string
  | Punct char
  | Group delimiter "token list"
  | Literal string

text \<open>The text of a stream, one space between tokens; the spacing is the library's own.\<close>

fun delimited :: "delimiter \<Rightarrow> string \<Rightarrow> string" where
  "delimited Parenthesis s = ''('' @ s @ '')''"
| "delimited Brace s = ''{'' @ s @ ''}''"
| "delimited Bracket s = ''['' @ s @ '']''"
| "delimited NoDelimiter s = s"

fun token_text :: "token \<Rightarrow> string" where
  "token_text (Ident s) = s"
| "token_text (Punct c) = [c]"
| "token_text (Group d ts) = delimited d (concat (map (\<lambda>t. token_text t @ '' '') ts))"
| "token_text (Literal s) = s"

definition is_whitespace :: "char \<Rightarrow> bool" where
  "is_whitespace c \<longleftrightarrow> c \<in> {CHR 0x20, CHR 0x09, CHR 0x0A, CHR 0x0B, CHR 0x0C, CHR 0x0D}"

definition normalize_tokens :: "token list \<Rightarrow> string" where
  "normalize_tokens ts = filter (\<lambda>c. \<not> is_whitespace c) (concat (map (\<lambda>t. token_text t @ '' '') ts))"

abbreviation lt :: token where "lt \<equiv> Punct CHR ''<''"
abbreviation gt :: token where "gt \<equiv> Punct CHR ''>''"
abbreviation comma :: token where "comma \<equiv> Punct CHR '',''"
abbreviation colon :: token where "colon \<equiv> Punct CHR '':''"
abbreviation ampersand :: token where "ampersand \<equiv> Punct CHR ''&''"
abbreviation quote_mark :: token where "quote_mark \<equiv> Punct CHR 0x27"

text \<open>The depth after a token: \<open>+= 1\<close> and \<open>saturating_sub(1)\<close>.\<close>

definition next_depth :: "nat \<Rightarrow> token \<Rightarrow> nat" where
  "next_depth depth t = (if t = lt then depth + 1 else if t = gt then depth - 1 else depth)"

subsection \<open>Case of identifiers\<close>

text \<open>\<open>heck\<close>'s conversions.\<close>

record case_conversions =
  to_snake_case :: "string \<Rightarrow> string"
  to_upper_camel_case :: "string \<Rightarrow> string"

definition snake_ident :: "case_conversions \<Rightarrow> string \<Rightarrow> string" where
  "snake_ident hk name = to_snake_case hk name"

definition pascal_ident :: "case_conversions \<Rightarrow> string \<Rightarrow> string" where
  "pascal_ident hk name = to_upper_camel_case hk name"

subsection \<open>Attributes\<close>

text \<open>The tokens inside the brackets of an attribute.\<close>

definition attr_is_doc :: "token list \<Rightarrow> bool" where
  "attr_is_doc items = (case items of Ident s # _ \<Rightarrow> s = ''doc'' | _ \<Rightarrow> False)"

definition attr_is_key :: "token list \<Rightarrow> bool" where
  "attr_is_key items = (case items of [Ident s] \<Rightarrow> s = ''key'' | _ \<Rightarrow> False)"

definition extract_parenthesis_content :: "token list \<Rightarrow> token list" where
  "extract_parenthesis_content ts = (case ts of Group _ inner # _ \<Rightarrow> inner | _ \<Rightarrow> [])"

subsection \<open>The generic parameter\<close>

text \<open>Whether a comma stands outside all angle brackets.\<close>

fun has_outer_comma :: "nat \<Rightarrow> token list \<Rightarrow> bool" where
  "has_outer_comma depth [] = False"
| "has_outer_comma depth (t # ts) =
     (if t = comma \<and> depth = 0 then True else has_outer_comma (next_depth depth t) ts)"

definition expected_db :: string where
  "expected_db = ''picante: expected `<DB: ...>`''"

text \<open>The loop over the bounds; the third argument is \<open>saw_colon\<close>.\<close>

fun generic_bounds :: "token list \<Rightarrow> nat \<Rightarrow> bool \<Rightarrow> token list \<Rightarrow> string + token list" where
  "generic_bounds [] depth saw_colon bounds = Inr bounds"
| "generic_bounds (t # ts) depth saw_colon bounds =
     (if t = colon \<and> depth = 0 \<and> \<not> saw_colon then generic_bounds ts depth True bounds
      else if \<not> saw_colon then Inl expected_db
      else generic_bounds ts (next_depth depth t) saw_colon (bounds @ [t]))"

definition parse_db_generic :: "token list \<Rightarrow> string + string \<times> token list" where
  "parse_db_generic generics =
     (if generics = [] then
        Inl ''picante: #[picante::tracked] requires a generic DB param, e.g. `fn foo<DB: ...>(db: &DB, ...)`''
      else if hd generics \<noteq> lt then Inl ''picante: failed to parse generics''
      else if last generics \<noteq> gt then Inl ''picante: failed to parse generics''
      else (let inner = butlast (tl generics)
            in if has_outer_comma 0 inner then
                 Inl ''picante: #[picante::tracked] currently supports exactly one type parameter (DB)''
               else (case inner of
                   [] \<Rightarrow> Inl expected_db
                 | first # rest \<Rightarrow>
                     if first = quote_mark then
                       Inl ''picante: lifetime generic params are not supported (use a type param `DB`)''
                     else (case first of
                         Ident db_ident \<Rightarrow>
                           (case generic_bounds rest 0 False [] of
                              Inl e \<Rightarrow> Inl e
                            | Inr bounds \<Rightarrow> Inr (db_ident, bounds))
                       | _ \<Rightarrow> Inl expected_db))))"

subsection \<open>The type of the \<open>db\<close> parameter\<close>

definition strip_ref_inner_ident :: "token list \<Rightarrow> string option" where
  "strip_ref_inner_ident ty =
     (case ty of
        [] \<Rightarrow> None
      | t # ts \<Rightarrow>
          if t \<noteq> ampersand then None
          else (let after_lifetime = (case ts of
                      q # us \<Rightarrow> if q = quote_mark then (case us of [] \<Rightarrow> None | _ # vs \<Rightarrow> Some vs) else Some ts
                    | [] \<Rightarrow> Some ts)
                in case after_lifetime of
                     Some (Ident i # rest) \<Rightarrow> if i = ''mut'' then None else if rest \<noteq> [] then None else Some i
                   | _ \<Rightarrow> None))"

subsection \<open>The return type\<close>

text \<open>The loop of \<open>split_outer_type\<close> over its state: head, args, depth, \<open>in_args\<close>.\<close>

fun split_outer_loop :: "token list \<Rightarrow> token list \<Rightarrow> token list \<Rightarrow> nat \<Rightarrow> bool \<Rightarrow> token list \<times> token list" where
  "split_outer_loop [] head args depth in_args = (head, args)"
| "split_outer_loop (t # ts) head args depth in_args =
     (let depth' = next_depth depth t
      in if t = lt \<and> depth' = 1 then split_outer_loop ts head args depth' True
         else if t = gt \<and> depth' = 0 \<and> in_args then split_outer_loop ts head args depth' False
         else if in_args then split_outer_loop ts head (args @ [t]) depth' in_args
         else split_outer_loop ts (head @ [t]) args depth' in_args)"

definition split_outer_type :: "token list \<Rightarrow> token list \<times> token list option" where
  "split_outer_type ret =
     (case split_outer_loop ret [] [] 0 False of
        (head, args) \<Rightarrow> (head, if args = [] then None else Some args))"

definition last_ident :: "token list \<Rightarrow> string option" where
  "last_ident ts =
     (case List.map_filter (\<lambda>t. case t of Ident s \<Rightarrow> Some s | _ \<Rightarrow> None) ts of
        [] \<Rightarrow> None
      | is \<Rightarrow> Some (last is))"

fun first_generic_loop :: "token list \<Rightarrow> nat \<Rightarrow> token list \<Rightarrow> token list" where
  "first_generic_loop [] depth out = out"
| "first_generic_loop (t # ts) depth out =
     (if t = comma \<and> depth = 0 then out else first_generic_loop ts (next_depth depth t) (out @ [t]))"

definition first_generic_arg :: "token list \<Rightarrow> string + token list" where
  "first_generic_arg tokens =
     (let out = first_generic_loop tokens 0 []
      in if out = [] then Inl ''picante: expected generic argument'' else Inr out)"

text \<open>The type on success, and whether the function returns a \<open>PicanteResult\<close>.\<close>

definition take_return_ok_type :: "token list \<Rightarrow> string + token list \<times> bool" where
  "take_return_ok_type ret =
     (case split_outer_type ret of
        (head, None) \<Rightarrow> Inr (ret, False)
      | (head, Some generic_args) \<Rightarrow>
          (case last_ident head of
             None \<Rightarrow> Inr (ret, False)
           | Some l \<Rightarrow>
               if l \<noteq> ''PicanteResult'' then Inr (ret, False)
               else (case first_generic_arg generic_args of Inl e \<Rightarrow> Inl e | Inr ok \<Rightarrow> Inr (ok, True))))"

subsection \<open>What the functions recognise\<close>

text \<open>
  The type of the \<open>db\<close> parameter is accepted exactly when it is a shared reference to a single
  identifier, with or without a lifetime, and then that identifier is returned.
\<close>
theorem strip_ref_exact:
  "strip_ref_inner_ident ty = Some i \<longleftrightarrow>
     i \<noteq> ''mut'' \<and> (ty = [ampersand, Ident i] \<or> (\<exists>l. ty = [ampersand, quote_mark, l, Ident i]))"
proof -
  have "strip_ref_inner_ident ty = Some i \<Longrightarrow>
     i \<noteq> ''mut'' \<and> (ty = [ampersand, Ident i] \<or> (\<exists>l. ty = [ampersand, quote_mark, l, Ident i]))"
    by (auto simp: strip_ref_inner_ident_def Let_def split: list.splits if_splits option.splits token.splits)
  moreover have "i \<noteq> ''mut'' \<and> (ty = [ampersand, Ident i] \<or> (\<exists>l. ty = [ampersand, quote_mark, l, Ident i]))
     \<Longrightarrow> strip_ref_inner_ident ty = Some i"
    by (auto simp: strip_ref_inner_ident_def)
  ultimately show ?thesis by blast
qed

text \<open>Every angle bracket of the stream has its partner, starting inside \<open>d\<close> open ones.\<close>

fun closes :: "nat \<Rightarrow> token list \<Rightarrow> bool" where
  "closes d [] \<longleftrightarrow> d = 0"
| "closes d (t # ts) \<longleftrightarrow> \<not> (t = gt \<and> d = 0) \<and> closes (next_depth d t) ts"

lemma closes_append: "closes d xs \<Longrightarrow> closes 0 ys \<Longrightarrow> closes d (xs @ ys)"
  by (induction d xs rule: closes.induct) auto

lemma split_outer_head:
  "lt \<notin> set hs \<Longrightarrow> gt \<notin> set hs \<Longrightarrow>
   split_outer_loop (hs @ ts) head args 0 False = split_outer_loop ts (head @ hs) args 0 False"
  by (induction hs arbitrary: head) (auto simp: next_depth_def)

lemma split_outer_args:
  "closes d ts \<Longrightarrow> split_outer_loop (ts @ gt # us) head args (Suc d) True = split_outer_loop us head (args @ ts) 0 False"
proof (induction d ts arbitrary: args rule: closes.induct)
  case (2 d t ts)
  then show ?case by (auto simp: next_depth_def Let_def split: if_splits)
qed (simp add: next_depth_def)

lemma first_generic_prefix:
  "closes d ts \<Longrightarrow> \<not> has_outer_comma d ts \<Longrightarrow> first_generic_loop (ts @ us) d out = first_generic_loop us 0 (out @ ts)"
  by (induction d ts arbitrary: out rule: closes.induct) (auto split: if_splits)

lemma last_ident_snoc [simp]: "last_ident (hs @ [Ident s]) = Some s"
  by (simp add: last_ident_def List.map_filter_def list.case_eq_if)

text \<open>
  In a return type with balanced angle brackets the success type is the first argument of the
  outer type if that is called \<open>PicanteResult\<close>, and the whole return type otherwise.
\<close>
theorem return_type_split:
  assumes "lt \<notin> set path" and "gt \<notin> set path" and "ok \<noteq> []" and "closes 0 ok" and "\<not> has_outer_comma 0 ok"
    and "closes 0 rest" and "rest = [] \<or> hd rest = comma"
  shows "take_return_ok_type (path @ [Ident name, lt] @ ok @ rest @ [gt]) =
     Inr (if name = ''PicanteResult'' then (ok, True) else (path @ [Ident name, lt] @ ok @ rest @ [gt], False))"
proof -
  have "closes 0 (ok @ rest)" by (rule closes_append [OF assms(4,6)])
  from split_outer_args [OF this, of "[]" "path @ [Ident name]" "[]"]
  have "split_outer_loop (path @ [Ident name, lt] @ ok @ rest @ [gt]) [] [] 0 False = (path @ [Ident name], ok @ rest)"
    using split_outer_head [of "path @ [Ident name]" "lt # ok @ rest @ [gt]" "[]" "[]"] assms(1,2)
    by (simp add: next_depth_def)
  then have split: "split_outer_type (path @ [Ident name, lt] @ ok @ rest @ [gt]) = (path @ [Ident name], Some (ok @ rest))"
    using assms(3) by (simp add: split_outer_type_def)
  have "first_generic_loop (ok @ rest) 0 [] = first_generic_loop rest 0 ok"
    using first_generic_prefix [OF assms(4,5), of rest "[]"] by simp
  also have "\<dots> = ok" using assms(7) by (cases rest) auto
  finally have "first_generic_arg (ok @ rest) = Inr ok" using assms(3) by (simp add: first_generic_arg_def)
  then show ?thesis by (simp only: take_return_ok_type_def split prod.case option.case last_ident_snoc) simp
qed

theorem return_type_split_witness:
  "take_return_ok_type [Ident ''picante'', colon, colon, Ident ''PicanteResult'', lt, Ident ''Vec'', lt, Ident ''u8'', gt, gt]
     = Inr ([Ident ''Vec'', lt, Ident ''u8'', gt], True)"
  using return_type_split [of "[Ident ''picante'', colon, colon]" "[Ident ''Vec'', lt, Ident ''u8'', gt]" "[]" "''PicanteResult''"]
  by (simp add: next_depth_def)

text \<open>
  An arrow inside the arguments counts as a closing bracket: of \<open>PicanteResult<Vec<fn(u8) -> u8>>\<close> the
  success type loses its last bracket.
\<close>
theorem arrow_closes_bracket:
  "take_return_ok_type [Ident ''PicanteResult'', lt, Ident ''Vec'', lt, Ident ''fn'', Group Parenthesis [Ident ''u8''],
       Punct CHR ''-'', gt, Ident ''u8'', gt, gt]
   = Inr ([Ident ''Vec'', lt, Ident ''fn'', Group Parenthesis [Ident ''u8''], Punct CHR ''-'', gt, Ident ''u8''], True)"
  by (simp add: take_return_ok_type_def split_outer_type_def next_depth_def last_ident_def first_generic_arg_def
      List.map_filter_simps)

end
