(* ===== verification/MacroGrammar.thy ===== *)
theory MacroGrammar
  imports MacroTokens
begin

text \<open>
  The declarations the macros parse, with the fields of the grammar in \<open>picante-macros/src/struct_item.rs\<close> and
  \<open>util.rs\<close>, and what \<open>StructItem::parse\<close> and \<open>FnItem::parse\<close> make of them. The parsers of the grammar are
  generated by the \<open>unsynn\<close> library from these declarations; they are parameters, a record of functions.
\<close>

subsection \<open>The grammar\<close>

text \<open>An attribute \<open>#[...]\<close>, by the tokens inside its brackets.\<close>

record Attribute =
  at_items :: "token list"

definition attribute_tokens :: "Attribute \<Rightarrow> token list" where
  "attribute_tokens a = [Punct CHR ''#'', Group Bracket (at_items a)]"

text \<open>The only visibility of the grammar is \<open>pub\<close>.\<close>

definition vis_tokens :: "bool \<Rightarrow> token list" where
  "vis_tokens is_pub = (if is_pub then [Ident ''pub''] else [])"

text \<open>\<open>GenericParams\<close>: the tokens between the angle brackets.\<close>

definition generics_tokens :: "token list option \<Rightarrow> token list" where
  "generics_tokens generics = (case generics of Some params \<Rightarrow> lt # params @ [gt] | None \<Rightarrow> [])"

record FieldDecl =
  fd_attributes :: "Attribute list option"
  fd_vis :: bool
  fd_name :: string
  fd_typ :: "token list"

record StructDecl =
  sd_attributes :: "Attribute list option"
  sd_vis :: bool
  sd_name :: string
  sd_generics :: "token list option"
  sd_fields :: "FieldDecl list"

record Parameter =
  pm_name :: string
  pm_type :: "token list"

text \<open>The parameters are the tokens inside the parentheses, the body those inside the braces.\<close>

record FnSignature =
  fs_attributes :: "Attribute list option"
  fs_vis :: bool
  fs_async :: bool
  fs_name :: string
  fs_generics :: "token list option"
  fs_params :: "token list"
  fs_return_type :: "token list option"
  fs_body :: "token list"

record grammar =
  parse_struct :: "token list \<Rightarrow> string + StructDecl"
  parse_fn :: "token list \<Rightarrow> string + FnSignature"
  parse_parameters :: "token list \<Rightarrow> string + Parameter list"

definition attributes_of :: "Attribute list option \<Rightarrow> Attribute list" where
  "attributes_of many = (case many of Some as \<Rightarrow> as | None \<Rightarrow> [])"

subsection \<open>Structs\<close>

record StructField =
  sf_name :: string
  sf_vis :: "token list"
  sf_ty :: "token list"
  sf_attrs :: "token list list"
  sf_is_key :: bool

text \<open>The loop over the attributes of a field: \<open>#[key]\<close> is taken out.\<close>

fun field_attrs :: "Attribute list \<Rightarrow> token list list \<Rightarrow> bool \<Rightarrow> token list list \<times> bool" where
  "field_attrs [] attrs is_key = (attrs, is_key)"
| "field_attrs (attr # rest) attrs is_key =
     (if attr_is_key (at_items attr) then field_attrs rest attrs True
      else field_attrs rest (attrs @ [attribute_tokens attr]) is_key)"

definition struct_field :: "FieldDecl \<Rightarrow> StructField" where
  "struct_field f =
     (case field_attrs (attributes_of (fd_attributes f)) [] False of
        (attrs, is_key) \<Rightarrow>
          \<lparr>sf_name = fd_name f, sf_vis = vis_tokens (fd_vis f), sf_ty = fd_typ f, sf_attrs = attrs, sf_is_key = is_key\<rparr>)"

text \<open>The documentation attributes; the struct's other attributes are dropped.\<close>

definition doc_attrs :: "Attribute list option \<Rightarrow> token list list" where
  "doc_attrs many = map attribute_tokens (filter (\<lambda>a. attr_is_doc (at_items a)) (attributes_of many))"

record StructItem =
  si_vis :: "token list"
  si_name :: string
  si_generics :: "token list"
  si_fields :: "StructField list"
  si_doc_attrs :: "token list list"

definition struct_item_parse :: "grammar \<Rightarrow> token list \<Rightarrow> string + StructItem" where
  "struct_item_parse g input =
     (case parse_struct g input of
        Inl e \<Rightarrow> Inl (''picante: failed to parse struct: '' @ e)
      | Inr decl \<Rightarrow>
          Inr \<lparr>si_vis = vis_tokens (sd_vis decl), si_name = sd_name decl,
               si_generics = generics_tokens (sd_generics decl),
               si_fields = map struct_field (sd_fields decl),
               si_doc_attrs = doc_attrs (sd_attributes decl)\<rparr>)"

subsection \<open>Functions\<close>

record Param =
  pa_name :: string
  pa_type :: "token list"

record FnItem =
  fi_vis :: "token list"
  fi_is_async :: bool
  fi_name :: string
  fi_generics :: "token list"
  fi_params :: "Param list"
  fi_return_type :: "token list"
  fi_body :: "token list"
  fi_doc_attrs :: "token list list"
  fi_other_attrs :: "token list list"

text \<open>Parameters that the grammar does not accept give an empty list.\<close>

definition parse_fn_parameters :: "grammar \<Rightarrow> token list \<Rightarrow> Param list" where
  "parse_fn_parameters g params_ts =
     (case parse_parameters g params_ts of
        Inr params \<Rightarrow> map (\<lambda>d. \<lparr>pa_name = pm_name d, pa_type = pm_type d\<rparr>) params
      | Inl _ \<Rightarrow> [])"

text \<open>The documentation and the other attributes.\<close>

definition split_doc_attrs :: "Attribute list option \<Rightarrow> token list list \<times> token list list" where
  "split_doc_attrs many =
     (let attrs = attributes_of many
      in (map attribute_tokens (filter (\<lambda>a. attr_is_doc (at_items a)) attrs),
          map attribute_tokens (filter (\<lambda>a. \<not> attr_is_doc (at_items a)) attrs)))"

definition fn_item_parse :: "grammar \<Rightarrow> token list \<Rightarrow> string + FnItem" where
  "fn_item_parse g input =
     (case parse_fn g input of
        Inl e \<Rightarrow> Inl (''picante: failed to parse function: '' @ e)
      | Inr sig \<Rightarrow>
          (let params_ts = extract_parenthesis_content [Group Parenthesis (fs_params sig)];
               (docs, others) = split_doc_attrs (fs_attributes sig)
           in Inr \<lparr>fi_vis = vis_tokens (fs_vis sig), fi_is_async = fs_async sig, fi_name = fs_name sig,
                fi_generics = generics_tokens (fs_generics sig),
                fi_params = parse_fn_parameters g params_ts,
                fi_return_type = (case fs_return_type sig of Some ret \<Rightarrow> ret | None \<Rightarrow> [Group Parenthesis []]),
                fi_body = [Group Brace (fs_body sig)],
                fi_doc_attrs = docs, fi_other_attrs = others\<rparr>))"

subsection \<open>What parsing keeps\<close>

lemma field_attrs_run:
  "field_attrs as attrs is_key =
     (attrs @ map attribute_tokens (filter (\<lambda>a. \<not> attr_is_key (at_items a)) as), is_key \<or> list_ex (\<lambda>a. attr_is_key (at_items a)) as)"
  by (induction as attrs is_key rule: field_attrs.induct) auto

lemma struct_field_simps [simp]:
  "sf_name (struct_field f) = fd_name f" "sf_ty (struct_field f) = fd_typ f"
  "sf_is_key (struct_field f) \<longleftrightarrow> (\<exists>a \<in> set (attributes_of (fd_attributes f)). attr_is_key (at_items a))"
  by (auto simp: struct_field_def field_attrs_run list_ex_iff split: prod.split)

lemma generics_tokens_empty [simp]: "generics_tokens g = [] \<longleftrightarrow> g = None"
  by (auto simp: generics_tokens_def split: option.split)

text \<open>The generics that the grammar hands on are always a pair of angle brackets, so only their inside is checked.\<close>

lemma parse_db_generic_some:
  "parse_db_generic (generics_tokens (Some params)) =
     (if has_outer_comma 0 params then
        Inl ''picante: #[picante::tracked] currently supports exactly one type parameter (DB)''
      else (case params of
          [] \<Rightarrow> Inl expected_db
        | first # rest \<Rightarrow>
            if first = quote_mark then
              Inl ''picante: lifetime generic params are not supported (use a type param `DB`)''
            else (case first of
                Ident db_ident \<Rightarrow>
                  (case generic_bounds rest 0 False [] of Inl e \<Rightarrow> Inl e | Inr bounds \<Rightarrow> Inr (db_ident, bounds))
              | _ \<Rightarrow> Inl expected_db)))"
  by (simp add: parse_db_generic_def generics_tokens_def butlast_append)

end
