(* ===== verification/MacroExpand.thy ===== *)
theory MacroExpand
  imports MacroGrammar
begin

text \<open>
  What \<open>#[picante::input]\<close>, \<open>#[picante::interned]\<close> and \<open>#[picante::tracked]\<close> generate
  (\<open>picante-macros/src/input.rs\<close>, \<open>interned.rs\<close>, \<open>tracked.rs\<close>): the plan of the generated items, or the error
  that is reported. A plan has the names, types, parameters and attributes that the quoted code splices in;
  the bodies of the generated methods are in \<open>MacroItems\<close>.

  The theorems: the exported names; which methods an item gets, and when two of them clash; a
  query's key carries exactly the arguments of the call to the function that computes it.
\<close>

subsection \<open>Pieces of generated code\<close>

definition picante_path :: "string \<Rightarrow> token list" where
  "picante_path name = [Ident ''picante'', colon, colon, Ident name]"

definition applied :: "token list \<Rightarrow> token list \<Rightarrow> token list" where
  "applied path args = path @ lt # args @ [gt]"

definition arc :: "token list \<Rightarrow> token list" where
  "arc ty = applied [colon, colon, Ident ''std'', colon, colon, Ident ''sync'', colon, colon, Ident ''Arc''] ty"

text \<open>\<open>to_uppercase\<close> on ASCII identifiers.\<close>

definition upper_char :: "char \<Rightarrow> char" where
  "upper_char c = (if 97 \<le> (of_char c :: nat) \<and> (of_char c :: nat) \<le> 122 then char_of ((of_char c :: nat) - 32) else c)"

definition to_uppercase :: "string \<Rightarrow> string" where
  "to_uppercase s = map upper_char s"

definition fn_kind_id_ident :: "string \<Rightarrow> string" where
  "fn_kind_id_ident name = to_uppercase name @ ''_KIND''"

text \<open>\<open>#(#attrs)* #vis #name: #ty\<close> and \<open>#name: #ty\<close>.\<close>

definition field_def :: "StructField \<Rightarrow> token list" where
  "field_def f = concat (sf_attrs f) @ sf_vis f @ [Ident (sf_name f), colon] @ sf_ty f"

definition typed_param :: "string \<Rightarrow> token list \<Rightarrow> token list" where
  "typed_param name ty = [Ident name, colon] @ ty"

text \<open>\<open>#(#xs),*\<close>: the streams with commas between them.\<close>

fun separated :: "token list list \<Rightarrow> token list" where
  "separated [] = []"
| "separated [ts] = ts"
| "separated (ts # tss) = ts @ comma # separated tss"

subsection \<open>The plan of an item\<close>

text \<open>
  An ingredient: its kind constant, the name its kind is made of, its type alias and what that stands for, its
  constructor and the accessor of the item's trait.
\<close>

record GenIngredient =
  gi_kind_const :: string
  gi_kind_name :: string
  gi_type :: string
  gi_target :: "token list"
  gi_make :: string
  gi_accessor :: string

text \<open>A method: its parameters after the receiver and the database, and the type inside \<open>PicanteResult\<close>.\<close>

record GenMethod =
  gm_name :: string
  gm_params :: "token list list"
  gm_result :: "token list"

record ItemPlan =
  pl_vis :: "token list"
  pl_docs :: "token list list"
  pl_name :: string
  pl_handle :: "token list"
  pl_ingredients :: "GenIngredient list"
  pl_key_assert :: "token list option"
  pl_field_asserts :: "token list list"
  pl_data :: string
  pl_data_fields :: "token list list"
  pl_trait :: string
  pl_methods :: "GenMethod list"

definition getter :: "(token list \<Rightarrow> token list) \<Rightarrow> StructField \<Rightarrow> GenMethod" where
  "getter result f = \<lparr>gm_name = sf_name f, gm_params = [], gm_result = result (sf_ty f)\<rparr>"

definition ctor_params :: "StructField list \<Rightarrow> token list list" where
  "ctor_params fs = map (\<lambda>f. typed_param (sf_name f) (sf_ty f)) fs"

definition handle :: "token list" where
  "handle = [Group Parenthesis (Ident ''pub'' # picante_path ''InternId'')]"

text \<open>The two ingredients of an input; a singleton interns the unit.\<close>

definition input_ingredients :: "case_conversions \<Rightarrow> string \<Rightarrow> token list \<Rightarrow> GenIngredient list" where
  "input_ingredients hk name key_ty =
     (let snake = snake_ident hk name; upper = to_uppercase snake; data_struct = name @ ''Data''
      in [\<lparr>gi_kind_const = upper @ ''_KEYS_KIND'', gi_kind_name = name @ ''::keys'', gi_type = name @ ''KeysIngredient'',
            gi_target = applied (picante_path ''InternedIngredient'') key_ty,
            gi_make = ''make_'' @ snake @ ''_keys'', gi_accessor = snake @ ''_keys''\<rparr>,
          \<lparr>gi_kind_const = upper @ ''_DATA_KIND'', gi_kind_name = name @ ''::data'', gi_type = name @ ''DataIngredient'',
            gi_target = applied (picante_path ''InputIngredient'') (picante_path ''InternId'' @ comma # arc [Ident data_struct]),
            gi_make = ''make_'' @ snake @ ''_data'', gi_accessor = snake @ ''_data''\<rparr>])"

definition expand_keyed :: "case_conversions \<Rightarrow> StructItem \<Rightarrow> StructField \<Rightarrow> StructField list \<Rightarrow> ItemPlan" where
  "expand_keyed hk parsed key_field non_key_fields =
     (let name = si_name parsed; data_struct = name @ ''Data''
      in \<lparr>pl_vis = si_vis parsed, pl_docs = si_doc_attrs parsed, pl_name = name, pl_handle = handle,
           pl_ingredients = input_ingredients hk name (sf_ty key_field),
           pl_key_assert = Some (sf_ty key_field), pl_field_asserts = map sf_ty non_key_fields,
           pl_data = data_struct, pl_data_fields = map field_def non_key_fields,
           pl_trait = ''Has'' @ name @ ''Ingredient'',
           pl_methods =
             [\<lparr>gm_name = ''new'',
               gm_params = typed_param (sf_name key_field) (sf_ty key_field) # ctor_params non_key_fields,
               gm_result = [Ident ''Self'']\<rparr>,
              \<lparr>gm_name = sf_name key_field, gm_params = [], gm_result = arc (sf_ty key_field)\<rparr>,
              \<lparr>gm_name = ''data'', gm_params = [], gm_result = arc [Ident data_struct]\<rparr>]
             @ map (getter id) non_key_fields\<rparr>)"

definition expand_singleton :: "case_conversions \<Rightarrow> StructItem \<Rightarrow> StructField list \<Rightarrow> ItemPlan" where
  "expand_singleton hk parsed fs =
     (let name = si_name parsed; data_struct = name @ ''Data''
      in \<lparr>pl_vis = si_vis parsed, pl_docs = si_doc_attrs parsed, pl_name = name, pl_handle = [],
           pl_ingredients = input_ingredients hk name [Group Parenthesis []],
           pl_key_assert = None, pl_field_asserts = map sf_ty fs,
           pl_data = data_struct, pl_data_fields = map field_def fs,
           pl_trait = ''Has'' @ name @ ''Ingredient'',
           pl_methods =
             [\<lparr>gm_name = ''set'', gm_params = ctor_params fs, gm_result = [Group Parenthesis []]\<rparr>,
              \<lparr>gm_name = ''get'', gm_params = [], gm_result = applied [Ident ''Option''] (arc [Ident data_struct])\<rparr>]
             @ map (getter (applied [Ident ''Option''])) fs\<rparr>)"

subsection \<open>Inputs\<close>

datatype key_field_result =
    Keyed StructField "StructField list"
  | Singleton "StructField list"
  | MultipleKeys

fun split_key_loop :: "StructField list \<Rightarrow> StructField option \<Rightarrow> StructField list \<Rightarrow> key_field_result" where
  "split_key_loop [] key rest = (case key of Some k \<Rightarrow> Keyed k rest | None \<Rightarrow> Singleton rest)"
| "split_key_loop (f # fs) key rest =
     (if sf_is_key f then (if key \<noteq> None then MultipleKeys else split_key_loop fs (Some f) rest)
      else split_key_loop fs key (rest @ [f]))"

definition split_key_field :: "StructField list \<Rightarrow> key_field_result" where
  "split_key_field fs = split_key_loop fs None []"

definition expand_input :: "grammar \<Rightarrow> case_conversions \<Rightarrow> token list \<Rightarrow> string + ItemPlan" where
  "expand_input g hk item =
     rbind (struct_item_parse g item) (\<lambda>parsed.
     if si_generics parsed \<noteq> [] then Inl ''picante: #[picante::input] does not support generics''
     else (case split_key_field (si_fields parsed) of
         Keyed key_field non_key_fields \<Rightarrow> Inr (expand_keyed hk parsed key_field non_key_fields)
       | Singleton fs \<Rightarrow> Inr (expand_singleton hk parsed fs)
       | MultipleKeys \<Rightarrow> Inl ''picante: #[picante::input] requires at most one #[key] field''))"

subsection \<open>Interned items\<close>

definition interned_plan :: "case_conversions \<Rightarrow> StructItem \<Rightarrow> ItemPlan" where
  "interned_plan hk parsed =
     (let name = si_name parsed; snake = snake_ident hk name; value_struct = name @ ''Data''
      in \<lparr>pl_vis = si_vis parsed, pl_docs = si_doc_attrs parsed, pl_name = name, pl_handle = handle,
           pl_ingredients =
             [\<lparr>gi_kind_const = to_uppercase snake @ ''_KIND'', gi_kind_name = name, gi_type = name @ ''Ingredient'',
               gi_target = applied (picante_path ''InternedIngredient'') [Ident value_struct],
               gi_make = ''make_'' @ snake @ ''_ingredient'', gi_accessor = snake @ ''_ingredient''\<rparr>],
           pl_key_assert = None, pl_field_asserts = map sf_ty (si_fields parsed),
           pl_data = value_struct, pl_data_fields = map field_def (si_fields parsed),
           pl_trait = ''Has'' @ name @ ''Ingredient'',
           pl_methods =
             [\<lparr>gm_name = ''new'', gm_params = ctor_params (si_fields parsed), gm_result = [Ident ''Self'']\<rparr>,
              \<lparr>gm_name = ''value'', gm_params = [], gm_result = arc [Ident value_struct]\<rparr>]
             @ map (getter id) (si_fields parsed)\<rparr>)"

definition expand_interned :: "grammar \<Rightarrow> case_conversions \<Rightarrow> token list \<Rightarrow> string + ItemPlan" where
  "expand_interned g hk item =
     rbind (struct_item_parse g item) (\<lambda>parsed.
     if si_generics parsed \<noteq> [] then Inl ''picante: #[picante::interned] does not support generics''
     else Inr (interned_plan hk parsed))"

subsection \<open>Tracked functions\<close>

text \<open>The key type, the key expression of the wrapper, and the statement that unpacks the key.\<close>

definition build_key :: "Param list \<Rightarrow> token list \<times> token list \<times> token list" where
  "build_key params =
     (case params of
        [] \<Rightarrow> ([Group Parenthesis []], [Group Parenthesis []], [])
      | [p] \<Rightarrow>
          (pa_type p, [Ident (pa_name p)],
           [Ident ''let'', Ident (pa_name p), Punct CHR ''='', Ident ''key'', Punct CHR '';''])
      | _ \<Rightarrow>
          (let names = [Group Parenthesis (separated (map (\<lambda>p. [Ident (pa_name p)]) params))]
           in ([Group Parenthesis (separated (map pa_type params))], names,
               Ident ''let'' # names @ [Punct CHR ''='', Ident ''key'', Punct CHR '';''])))"

definition build_call_impl :: "string \<Rightarrow> bool \<Rightarrow> Param list \<Rightarrow> token list" where
  "build_call_impl impl_name is_async params =
     [Ident impl_name, Group Parenthesis ([Ident ''db'', comma] @ separated (map (\<lambda>p. [Ident (pa_name p)]) params))]
     @ (if is_async then [Punct CHR ''.'', Ident ''await''] else [])"

definition plus :: token where "plus = Punct CHR ''+''"

text \<open>\<open>picante::IngredientLookup + Send + Sync + 'static\<close>.\<close>

definition supertraits :: "token list" where
  "supertraits = picante_path ''IngredientLookup'' @ [plus, Ident ''Send'', plus, Ident ''Sync'', plus, quote_mark, Ident ''static'']"

record TrackedPlan =
  tp_vis :: "token list"
  tp_docs :: "token list list"
  tp_name :: string
  tp_kind_const :: string
  tp_query_ty :: string
  tp_trait :: string
  tp_getter :: string
  tp_make :: string
  tp_make_bounds :: "token list"
  tp_output_ty :: "token list"
  tp_key_ty :: "token list"
  tp_key_expr :: "token list"
  tp_unpack_key :: "token list"
  tp_compute :: "token list"
  tp_wrapper_params :: "token list list"
  tp_impl_attrs :: "token list list"
  tp_impl_name :: string
  tp_impl_async :: "token list"
  tp_impl_db :: string
  tp_impl_params :: "token list list"
  tp_impl_where :: "token list"
  tp_return_ty :: "token list"
  tp_body :: "token list"

definition tracked_plan ::
  "case_conversions \<Rightarrow> FnItem \<Rightarrow> string \<Rightarrow> token list \<Rightarrow> token list \<Rightarrow> bool \<Rightarrow> TrackedPlan" where
  "tracked_plan hk parsed db_ident db_bounds output_ty returns_picante_result =
     (let name = fi_name parsed; pascal = pascal_ident hk name; snake = snake_ident hk name;
          impl_name = ''__picante_impl_'' @ name; params = tl (fi_params parsed);
          (key_ty, key_expr, unpack_key) = build_key params;
          call_impl = build_call_impl impl_name (fi_is_async parsed) params
      in \<lparr>tp_vis = fi_vis parsed, tp_docs = fi_doc_attrs parsed, tp_name = name,
           tp_kind_const = fn_kind_id_ident name, tp_query_ty = pascal @ ''Query'', tp_trait = ''Has'' @ pascal @ ''Query'',
           tp_getter = snake @ ''_query'', tp_make = ''make_'' @ snake @ ''_query'',
           tp_make_bounds = (if db_bounds = [] then supertraits else db_bounds @ plus # supertraits),
           tp_output_ty = output_ty, tp_key_ty = key_ty, tp_key_expr = key_expr, tp_unpack_key = unpack_key,
           tp_compute = (if returns_picante_result then call_impl else [Ident ''Ok'', Group Parenthesis call_impl]),
           tp_wrapper_params = map (\<lambda>p. typed_param (pa_name p) (pa_type p)) params,
           tp_impl_attrs = fi_other_attrs parsed, tp_impl_name = impl_name,
           tp_impl_async = (if fi_is_async parsed then [Ident ''async''] else []),
           tp_impl_db = db_ident,
           tp_impl_params = map (\<lambda>p. typed_param (pa_name p) (pa_type p)) (fi_params parsed),
           tp_impl_where = (if db_bounds = [] then [] else [Ident ''where'', Ident db_ident, colon] @ db_bounds),
           tp_return_ty = fi_return_type parsed, tp_body = fi_body parsed\<rparr>)"

definition expand_tracked :: "grammar \<Rightarrow> case_conversions \<Rightarrow> token list \<Rightarrow> string + TrackedPlan" where
  "expand_tracked g hk item =
     rbind (fn_item_parse g item) (\<lambda>parsed.
     case fi_params parsed of
       [] \<Rightarrow> Inl ''picante: #[picante::tracked] requires a `db` parameter''
     | db_param # _ \<Rightarrow>
         if pa_name db_param \<noteq> ''db'' then Inl ''picante: first parameter must be named `db`''
         else
           rbind (parse_db_generic (fi_generics parsed)) (\<lambda>(db_ident, db_bounds).
           case strip_ref_inner_ident (pa_type db_param) of
             None \<Rightarrow> Inl ''picante: `db` must be `&DB` (with `DB` as a generic type param)''
           | Some db_ty_ident \<Rightarrow>
               if db_ty_ident \<noteq> db_ident then Inl ''picante: `db` parameter type must be `&DB`''
               else
                 rbind (take_return_ok_type (fi_return_type parsed)) (\<lambda>(output_ty, returns_picante_result).
                 Inr (tracked_plan hk parsed db_ident db_bounds output_ty returns_picante_result))))"

subsection \<open>The names the macros export\<close>

text \<open>The type of an ingredient, its constructor, the accessor of the trait; and the trait of the item.\<close>

record IngredientItem =
  ii_type :: string
  ii_make :: string
  ii_method :: string

record Exports =
  ex_trait :: string
  ex_items :: "IngredientItem list"

definition input_exports :: "case_conversions \<Rightarrow> string \<Rightarrow> Exports" where
  "input_exports hk name =
     (let snake = snake_ident hk name
      in \<lparr>ex_trait = ''Has'' @ name @ ''Ingredient'',
           ex_items =
             [\<lparr>ii_type = name @ ''KeysIngredient'', ii_make = ''make_'' @ snake @ ''_keys'', ii_method = snake @ ''_keys''\<rparr>,
              \<lparr>ii_type = name @ ''DataIngredient'', ii_make = ''make_'' @ snake @ ''_data'', ii_method = snake @ ''_data''\<rparr>]\<rparr>)"

definition interned_exports :: "case_conversions \<Rightarrow> string \<Rightarrow> Exports" where
  "interned_exports hk name =
     (let snake = snake_ident hk name
      in \<lparr>ex_trait = ''Has'' @ name @ ''Ingredient'',
           ex_items = [\<lparr>ii_type = name @ ''Ingredient'', ii_make = ''make_'' @ snake @ ''_ingredient'',
                         ii_method = snake @ ''_ingredient''\<rparr>]\<rparr>)"

definition tracked_exports :: "case_conversions \<Rightarrow> string \<Rightarrow> Exports" where
  "tracked_exports hk name =
     (let pascal = pascal_ident hk name; snake = snake_ident hk name
      in \<lparr>ex_trait = ''Has'' @ pascal @ ''Query'',
           ex_items = [\<lparr>ii_type = pascal @ ''Query'', ii_make = ''make_'' @ snake @ ''_query'',
                         ii_method = snake @ ''_query''\<rparr>]\<rparr>)"

text \<open>Those of a plan.\<close>

definition plan_exports :: "ItemPlan \<Rightarrow> Exports" where
  "plan_exports p =
     \<lparr>ex_trait = pl_trait p,
      ex_items = map (\<lambda>i. \<lparr>ii_type = gi_type i, ii_make = gi_make i, ii_method = gi_accessor i\<rparr>) (pl_ingredients p)\<rparr>"

subsection \<open>What an item gets\<close>

lemma split_key_loop_run:
  "split_key_loop fs key rest =
     (case (case key of Some k \<Rightarrow> [k] | None \<Rightarrow> []) @ filter sf_is_key fs of
        [] \<Rightarrow> Singleton (rest @ filter (\<lambda>f. \<not> sf_is_key f) fs)
      | [k] \<Rightarrow> Keyed k (rest @ filter (\<lambda>f. \<not> sf_is_key f) fs)
      | _ \<Rightarrow> MultipleKeys)"
  by (induction fs key rest rule: split_key_loop.induct) (auto split: option.split list.split)

lemma split_key_field_exact:
  "split_key_field fs =
     (case filter sf_is_key fs of
        [] \<Rightarrow> Singleton (filter (\<lambda>f. \<not> sf_is_key f) fs)
      | [k] \<Rightarrow> Keyed k (filter (\<lambda>f. \<not> sf_is_key f) fs)
      | _ \<Rightarrow> MultipleKeys)"
  by (simp add: split_key_field_def split_key_loop_run split: list.split)

lemma expand_input_Inr:
  assumes "expand_input g hk item = Inr plan"
  obtains parsed k where "struct_item_parse g item = Inr parsed" and "filter sf_is_key (si_fields parsed) = [k]"
      and "plan = expand_keyed hk parsed k (filter (\<lambda>f. \<not> sf_is_key f) (si_fields parsed))"
    | parsed where "struct_item_parse g item = Inr parsed" and "filter sf_is_key (si_fields parsed) = []"
      and "plan = expand_singleton hk parsed (si_fields parsed)"
proof -
  obtain parsed where parsed: "struct_item_parse g item = Inr parsed" using assms by (auto simp: expand_input_def rbind_Inr)
  have all: "filter (\<lambda>f. \<not> sf_is_key f) fs = fs" if "filter sf_is_key fs = []" for fs
    using that by (auto simp: filter_empty_conv)
  show thesis
    using assms parsed that all [of "si_fields parsed"]
    by (auto simp: expand_input_def split_key_field_exact split: if_splits list.splits)
qed

lemma exports_of_plans:
  "expand_input g hk item = Inr p \<Longrightarrow> plan_exports p = input_exports hk (pl_name p)"
  "expand_interned g hk item = Inr p' \<Longrightarrow> plan_exports p' = interned_exports hk (pl_name p')"
  by (erule expand_input_Inr)
    (auto simp: expand_keyed_def expand_singleton_def expand_interned_def interned_plan_def plan_exports_def input_exports_def
      interned_exports_def input_ingredients_def Let_def rbind_Inr split: if_splits)

lemma methods_of_plans:
  "map gm_name (pl_methods (expand_keyed hk parsed k fs)) = [''new'', sf_name k, ''data''] @ map sf_name fs"
  "map gm_name (pl_methods (expand_singleton hk parsed fs)) = [''set'', ''get''] @ map sf_name fs"
  "map gm_name (pl_methods (interned_plan hk parsed)) = [''new'', ''value''] @ map sf_name (si_fields parsed)"
  by (simp_all add: expand_keyed_def expand_singleton_def interned_plan_def getter_def comp_def Let_def)

lemma distinct_filter_pair:
  "filter P xs = [k] \<Longrightarrow> distinct (map f xs) \<longleftrightarrow> f k \<notin> set (map f (filter (\<lambda>x. \<not> P x) xs)) \<and> distinct (map f (filter (\<lambda>x. \<not> P x) xs))"
proof (induction xs)
  case (Cons x xs)
  show ?case
  proof (cases "P x")
    case True
    then have k: "x = k" "filter P xs = []" using Cons.prems by auto
    then have "filter (\<lambda>x. \<not> P x) xs = xs" by (auto simp: filter_empty_conv)
    with True k show ?thesis by simp
  next
    case False
    then have xs: "filter P xs = [k]" using Cons.prems by simp
    have "set (map f xs) = insert (f k) (set (map f (filter (\<lambda>x. \<not> P x) xs)))"
      using arg_cong [OF xs, of set] by force
    with Cons.IH [OF xs] False show ?thesis by auto
  qed
qed simp

text \<open>
  The macros check no names: an accepted item gets methods of different names exactly when its fields differ and none
  is called like a method that every item of its form has.
\<close>

theorem accepted_methods_distinct:
  assumes "struct_item_parse g item = Inr parsed"
  shows "expand_input g hk item = Inr plan \<Longrightarrow>
      distinct (map gm_name (pl_methods plan)) \<longleftrightarrow>
      distinct (map sf_name (si_fields parsed))
      \<and> sf_name ` set (si_fields parsed) \<inter>
          (if \<exists>f \<in> set (si_fields parsed). sf_is_key f then {''new'', ''data''} else {''set'', ''get''}) = {}"
    and "expand_interned g hk item = Inr plan \<Longrightarrow>
      distinct (map gm_name (pl_methods plan)) \<longleftrightarrow>
      distinct (map sf_name (si_fields parsed)) \<and> sf_name ` set (si_fields parsed) \<inter> {''new'', ''value''} = {}"
proof -
  assume "expand_input g hk item = Inr plan"
  then show "distinct (map gm_name (pl_methods plan)) \<longleftrightarrow>
      distinct (map sf_name (si_fields parsed))
      \<and> sf_name ` set (si_fields parsed) \<inter>
          (if \<exists>f \<in> set (si_fields parsed). sf_is_key f then {''new'', ''data''} else {''set'', ''get''}) = {}"
  proof (cases rule: expand_input_Inr)
    case (1 parsed' k)
    then have same: "parsed' = parsed" using assms by simp
    let ?rest = "filter (\<lambda>f. \<not> sf_is_key f) (si_fields parsed)"
    have one: "filter sf_is_key (si_fields parsed) = [k]" using 1 same by simp
    have k: "k \<in> set (si_fields parsed)" "sf_is_key k" using arg_cong [OF one, of set] by auto
    have "set (si_fields parsed) = insert k (set ?rest)" using arg_cong [OF one, of set] by auto
    then have "sf_name ` set (si_fields parsed) = insert (sf_name k) (set (map sf_name ?rest))"
      by (simp only: image_insert set_map)
    moreover have "map gm_name (pl_methods plan) = [''new'', sf_name k, ''data''] @ map sf_name ?rest"
      using 1 same by (simp only: methods_of_plans)
    moreover have "\<exists>f \<in> set (si_fields parsed). sf_is_key f" using k by blast
    ultimately show ?thesis
      unfolding distinct_filter_pair [OF one, of sf_name] by (simp only: if_True) (fastforce simp del: set_map set_filter)
  next
    case (2 parsed')
    then show ?thesis using assms by (auto simp: methods_of_plans filter_empty_conv)
  qed
next
  assume "expand_interned g hk item = Inr plan"
  then have "plan = interned_plan hk parsed" using assms by (auto simp: expand_interned_def split: if_splits)
  then show "distinct (map gm_name (pl_methods plan)) \<longleftrightarrow>
      distinct (map sf_name (si_fields parsed)) \<and> sf_name ` set (si_fields parsed) \<inter> {''new'', ''value''} = {}"
    by (auto simp: methods_of_plans)
qed

subsection \<open>Running the generated key code\<close>

text \<open>
  The values of the few expressions and patterns that the wrapper of a tracked function and its query consist of:
  variables, tuples of variables, \<open>let\<close> with such a pattern, and a call with variables as arguments.
  One expression in parentheses is not a tuple.
\<close>

datatype 'v rust_value = Atom 'v | Tuple "'v rust_value list"

type_synonym 'v env = "string \<Rightarrow> 'v rust_value option"

text \<open>Identifiers with commas between them; one may follow the last.\<close>

fun comma_idents :: "token list \<Rightarrow> string list option" where
  "comma_idents [] = Some []"
| "comma_idents [Ident x] = Some [x]"
| "comma_idents (Ident x # t # ts) = (if t = comma then map_option ((#) x) (comma_idents ts) else None)"
| "comma_idents _ = None"

definition read_vars :: "'v env \<Rightarrow> string list \<Rightarrow> 'v rust_value list option" where
  "read_vars env xs = those (map env xs)"

definition eval_expr :: "'v env \<Rightarrow> token list \<Rightarrow> 'v rust_value option" where
  "eval_expr env ts =
     (case ts of
        [Ident x] \<Rightarrow> env x
      | [Group Parenthesis [Ident x]] \<Rightarrow> env x
      | [Group Parenthesis inner] \<Rightarrow> map_option Tuple (Option.bind (comma_idents inner) (read_vars env))
      | _ \<Rightarrow> None)"

definition bind_pattern :: "token \<Rightarrow> 'v rust_value \<Rightarrow> (string \<times> 'v rust_value) list option" where
  "bind_pattern p v =
     (case p of
        Ident x \<Rightarrow> Some [(x, v)]
      | Group Parenthesis [Ident x] \<Rightarrow> Some [(x, v)]
      | Group Parenthesis inner \<Rightarrow>
          (case comma_idents inner of
             Some xs \<Rightarrow> (case v of Tuple vs \<Rightarrow> if length xs = length vs then Some (zip xs vs) else None | Atom _ \<Rightarrow> None)
           | None \<Rightarrow> None)
      | _ \<Rightarrow> None)"

definition exec_let :: "'v env \<Rightarrow> token list \<Rightarrow> 'v env option" where
  "exec_let env stmt =
     (case stmt of
        [] \<Rightarrow> Some env
      | [Ident kw, p, Punct eq, Ident src, Punct semi] \<Rightarrow>
          if kw = ''let'' \<and> eq = CHR ''='' \<and> semi = CHR '';'' then
            Option.bind (env src) (\<lambda>v. map_option (\<lambda>bs. env ++ map_of bs) (bind_pattern p v))
          else None
      | _ \<Rightarrow> None)"

text \<open>The function called, whether the result is awaited, and the arguments.\<close>

definition eval_call :: "'v env \<Rightarrow> token list \<Rightarrow> (string \<times> bool \<times> 'v rust_value list) option" where
  "eval_call env ts =
     (case ts of
        Ident f # Group Parenthesis inner # suffix \<Rightarrow>
          if suffix = [] \<or> suffix = [Punct CHR ''.'', Ident ''await''] then
            map_option (\<lambda>vs. (f, suffix \<noteq> [], vs)) (Option.bind (comma_idents inner) (read_vars env))
          else None
      | _ \<Rightarrow> None)"

text \<open>The compute closure: it unpacks the key, calls the function, and wraps a result that is not a \<open>PicanteResult\<close>.\<close>

definition strip_ok :: "token list \<Rightarrow> token list" where
  "strip_ok ts =
     (case ts of [Ident n, Group Parenthesis inner] \<Rightarrow> if n = ''Ok'' then inner else ts | _ \<Rightarrow> ts)"

definition run_compute ::
  "TrackedPlan \<Rightarrow> 'v rust_value \<Rightarrow> 'v rust_value \<Rightarrow> (string \<times> bool \<times> 'v rust_value list) option" where
  "run_compute plan db key =
     Option.bind (exec_let [''db'' \<mapsto> db, ''key'' \<mapsto> key] (tp_unpack_key plan))
       (\<lambda>env. eval_call env (strip_ok (tp_compute plan)))"

definition wrapper_key :: "TrackedPlan \<Rightarrow> string list \<Rightarrow> 'v rust_value \<Rightarrow> 'v rust_value list \<Rightarrow> 'v rust_value option" where
  "wrapper_key plan names db args = eval_expr (map_of ((''db'', db) # zip names args)) (tp_key_expr plan)"

lemma comma_idents_separated: "comma_idents (separated (map (\<lambda>p. [Ident (pa_name p)]) ps)) = Some (map pa_name ps)"
proof (induction ps)
  case (Cons p ps)
  then show ?case by (cases ps) auto
qed simp

lemma comma_idents_db:
  "comma_idents ([Ident ''db'', comma] @ separated (map (\<lambda>p. [Ident (pa_name p)]) ps)) = Some (''db'' # map pa_name ps)"
  using comma_idents_separated [of ps] by simp

lemma those_Some: "those (map f xs) = Some ys \<longleftrightarrow> map f xs = map Some ys"
proof (induction xs arbitrary: ys)
  case (Cons x xs)
  then show ?case by (cases ys) (auto split: option.splits)
qed auto

lemma read_zip:
  assumes "distinct names" and "length args = length names" and "\<And>x. x \<in> set names \<Longrightarrow> env x = map_of (zip names args) x"
  shows "read_vars env names = Some args"
  unfolding read_vars_def those_Some
  by (rule nth_equalityI) (use assms in \<open>auto simp: map_of_zip_nth\<close>)

lemma strip_ok_compute:
  "strip_ok (if b then build_call_impl (''__picante_impl_'' @ n) a ps
             else [Ident ''Ok'', Group Parenthesis (build_call_impl (''__picante_impl_'' @ n) a ps)])
   = build_call_impl (''__picante_impl_'' @ n) a ps"
  by (auto simp: strip_ok_def build_call_impl_def split: list.split)

lemma eval_call_impl:
  "read_vars env (''db'' # map pa_name ps) = Some vs \<Longrightarrow> eval_call env (build_call_impl f a ps) = Some (f, a, vs)"
  using comma_idents_db [of ps] by (simp add: eval_call_def build_call_impl_def)

text \<open>The key of a call, and what unpacking it binds.\<close>

fun key_value :: "'v rust_value list \<Rightarrow> 'v rust_value" where
  "key_value [v] = v"
| "key_value vs = Tuple vs"

lemma key_value_inj: "length vs = length ws \<Longrightarrow> key_value vs = key_value ws \<Longrightarrow> vs = ws"
  by (cases vs rule: key_value.cases; cases ws rule: key_value.cases) auto

lemma separated_two: "separated (map (\<lambda>p. [Ident (pa_name p)]) (p # q # ps)) = Ident (pa_name p) # comma # separated (map (\<lambda>p. [Ident (pa_name p)]) (q # ps))"
  by simp

lemma key_expr_value:
  assumes "distinct (''db'' # map pa_name ps)" and "length args = length ps"
  shows "eval_expr (map_of ((''db'', db) # zip (map pa_name ps) args)) (fst (snd (build_key ps))) = Some (key_value args)"
proof -
  let ?env = "map_of ((''db'', db) # zip (map pa_name ps) args)"
  have "x \<noteq> ''db''" if "x \<in> set (map pa_name ps)" for x
    using that assms(1) by (metis distinct.simps(2))
  then have vars: "read_vars ?env (map pa_name ps) = Some args"
    by (intro read_zip) (use assms in auto)
  consider "ps = []" | p where "ps = [p]" | p q rest where "ps = p # q # rest" by (cases ps rule: remdups_adj.cases) auto
  then show ?thesis
  proof cases
    case 1
    then show ?thesis using assms by (simp add: build_key_def eval_expr_def read_vars_def)
  next
    case (2 p)
    then obtain v where "args = [v]" using assms(2) by (cases args) auto
    then show ?thesis using 2 assms by (simp add: build_key_def eval_expr_def)
  next
    case (3 p q rest)
    then obtain v w ws where args: "args = v # w # ws" using assms(2) by (cases args rule: remdups_adj.cases) auto
    have "fst (snd (build_key ps)) = [Group Parenthesis (separated (map (\<lambda>p. [Ident (pa_name p)]) ps))]"
      using 3 by (simp add: build_key_def Let_def)
    moreover have "comma_idents (separated (map (\<lambda>p. [Ident (pa_name p)]) ps)) = Some (map pa_name ps)"
      by (rule comma_idents_separated)
    ultimately show ?thesis using vars args 3 unfolding eval_expr_def by (simp del: comma_idents.simps map_of.simps)
  qed
qed

lemma unpack_binds:
  assumes "distinct (''db'' # map pa_name ps)" and "length args = length ps"
  obtains env where "exec_let [''db'' \<mapsto> db, ''key'' \<mapsto> key_value args] (snd (snd (build_key ps))) = Some env"
    and "read_vars env (''db'' # map pa_name ps) = Some (db # args)"
proof -
  consider "ps = []" | p where "ps = [p]" | p q rest where "ps = p # q # rest" by (cases ps rule: remdups_adj.cases) auto
  then show thesis
  proof cases
    case 1
    then show ?thesis using assms that by (simp add: build_key_def exec_let_def read_vars_def)
  next
    case (2 p)
    then obtain v where "args = [v]" using assms(2) by (cases args) auto
    then show ?thesis using 2 assms(1) that by (simp add: build_key_def exec_let_def bind_pattern_def read_vars_def)
  next
    case (3 p q rest)
    then obtain v w ws where args: "args = v # w # ws" using assms(2) by (cases args rule: remdups_adj.cases) auto
    let ?env = "[''db'' \<mapsto> db, ''key'' \<mapsto> key_value args] ++ map_of (zip (map pa_name ps) args)"
    have "snd (snd (build_key ps)) = [Ident ''let'', Group Parenthesis (separated (map (\<lambda>p. [Ident (pa_name p)]) ps)), Punct CHR ''='',
        Ident ''key'', Punct CHR '';'']"
      using 3 by (simp add: build_key_def Let_def)
    moreover have "bind_pattern (Group Parenthesis (separated (map (\<lambda>p. [Ident (pa_name p)]) ps))) (Tuple args)
        = Some (zip (map pa_name ps) args)"
      using comma_idents_separated [of ps] assms(2) 3 by (simp add: bind_pattern_def del: comma_idents.simps)
    ultimately have "exec_let [''db'' \<mapsto> db, ''key'' \<mapsto> key_value args] (snd (snd (build_key ps))) = Some ?env"
      using args by (simp add: exec_let_def)
    moreover have "read_vars ?env (map pa_name ps) = Some args"
      by (rule read_zip) (use assms(1,2) in \<open>auto simp: map_add_def split: option.split\<close>)
    moreover have "?env ''db'' = Some db"
      using assms(1,2) by (auto simp: map_add_def split: option.split dest: map_of_SomeD set_zip_leftD)
    ultimately show ?thesis using that by (simp add: read_vars_def)
  qed
qed

lemma expand_tracked_Inr:
  assumes "expand_tracked g hk item = Inr plan" and "fn_item_parse g item = Inr parsed"
  obtains p ps db_ident db_bounds ty b where "fi_params parsed = p # ps" and "pa_name p = ''db''"
    and "plan = tracked_plan hk parsed db_ident db_bounds ty b"
  using assms by (auto simp: expand_tracked_def rbind_Inr split: list.splits if_splits option.splits)

text \<open>
  C29. The query of a tracked function is called with the arguments of its wrapper: whatever its parameters, the wrapper
  makes a key of the arguments, and the closure that gets this key calls the user's function with the
  database and exactly these arguments. Different arguments make different keys.
\<close>

theorem query_key_carries_arguments:
  assumes "expand_tracked g hk item = Inr plan" and "fn_item_parse g item = Inr parsed"
    and "distinct (map pa_name (fi_params parsed))" and "length args = length (tl (fi_params parsed))"
  shows "\<exists>key. wrapper_key plan (map pa_name (tl (fi_params parsed))) db args = Some key
     \<and> run_compute plan db' key = Some (tp_impl_name plan, fi_is_async parsed, db' # args)
     \<and> (\<forall>args'. length args' = length args
          \<and> wrapper_key plan (map pa_name (tl (fi_params parsed))) db args' = Some key \<longrightarrow> args' = args)"
proof -
  from assms(1,2) obtain p ps db_ident db_bounds ty b where
    plan: "fi_params parsed = p # ps" "pa_name p = ''db''" "plan = tracked_plan hk parsed db_ident db_bounds ty b"
    by (rule expand_tracked_Inr)
  have names: "distinct (''db'' # map pa_name ps)" and len: "length args = length ps" using assms(3,4) plan by simp_all
  obtain kt ke up where key: "build_key ps = (kt, ke, up)" by (metis prod_cases3)
  have parts: "tp_key_expr plan = ke" "tp_unpack_key plan = up" "tp_impl_name plan = ''__picante_impl_'' @ fi_name parsed"
    "strip_ok (tp_compute plan) = build_call_impl (tp_impl_name plan) (fi_is_async parsed) ps"
    unfolding plan(1,3) tracked_plan_def Let_def list.sel key prod.case TrackedPlan.simps by (simp_all only: strip_ok_compute)
  have made: "wrapper_key plan (map pa_name (tl (fi_params parsed))) db as = Some (key_value as)" if "length as = length ps" for as
    unfolding wrapper_key_def parts using key_expr_value [OF names that] key plan(1) by simp
  from unpack_binds [OF names len, of db'] obtain env where
    "exec_let [''db'' \<mapsto> db', ''key'' \<mapsto> key_value args] up = Some env"
    "read_vars env (''db'' # map pa_name ps) = Some (db' # args)" unfolding key snd_conv .
  then have "run_compute plan db' (key_value args) = Some (tp_impl_name plan, fi_is_async parsed, db' # args)"
    unfolding run_compute_def parts(2,4) using eval_call_impl by simp
  with made [OF len] made key_value_inj len show ?thesis by (metis option.inject)
qed

subsection \<open>A sample query\<close>

text \<open>\<open>pub async fn find<DB: Db>(db: &DB, text: Text, key: u8) -> PicanteResult<u64>\<close>.\<close>

definition find_grammar :: grammar where
  "find_grammar =
     \<lparr>parse_struct = (\<lambda>_. Inl ''expected struct''),
      parse_fn = (\<lambda>_. Inr \<lparr>fs_attributes = None, fs_vis = True, fs_async = True, fs_name = ''find'',
        fs_generics = Some [Ident ''DB'', colon, Ident ''Db''], fs_params = [],
        fs_return_type = Some [Ident ''PicanteResult'', lt, Ident ''u64'', gt], fs_body = []\<rparr>),
      parse_parameters = (\<lambda>_. Inr [\<lparr>pm_name = ''db'', pm_type = [ampersand, Ident ''DB'']\<rparr>,
        \<lparr>pm_name = ''text'', pm_type = [Ident ''Text'']\<rparr>, \<lparr>pm_name = ''key'', pm_type = [Ident ''u8'']\<rparr>])\<rparr>"

definition find_case :: case_conversions where
  "find_case = \<lparr>to_snake_case = (\<lambda>s. s), to_upper_camel_case = (\<lambda>s. ''Find'')\<rparr>"

theorem query_key_carries_arguments_witness:
  "\<exists>plan key. expand_tracked find_grammar find_case [] = Inr plan
     \<and> wrapper_key plan [''text'', ''key''] (Atom 0) [Atom 1, Atom (2 :: nat)] = Some key
     \<and> run_compute plan (Atom 0) key = Some (''__picante_impl_find'', True, [Atom 0, Atom 1, Atom 2])"
proof -
  define parsed where "parsed = projr (fn_item_parse find_grammar [])"
  have parse: "fn_item_parse find_grammar [] = Inr parsed"
    by (simp add: parsed_def fn_item_parse_def find_grammar_def Let_def split_doc_attrs_def)
  have params: "fi_params parsed =
      [\<lparr>pa_name = ''db'', pa_type = [ampersand, Ident ''DB'']\<rparr>, \<lparr>pa_name = ''text'', pa_type = [Ident ''Text'']\<rparr>,
       \<lparr>pa_name = ''key'', pa_type = [Ident ''u8'']\<rparr>]"
    and gens: "fi_generics parsed = generics_tokens (Some [Ident ''DB'', colon, Ident ''Db''])"
    and ret: "fi_return_type parsed = [Ident ''PicanteResult'', lt, Ident ''u64'', gt]"
    and rest: "fi_is_async parsed" "fi_name parsed = ''find''"
    by (simp_all add: parsed_def fn_item_parse_def find_grammar_def Let_def split_doc_attrs_def parse_fn_parameters_def
        extract_parenthesis_content_def)
  have "take_return_ok_type (fi_return_type parsed) = Inr ([Ident ''u64''], True)"
    by (simp add: ret take_return_ok_type_def split_outer_type_def next_depth_def last_ident_def first_generic_arg_def
        List.map_filter_simps)
  moreover have "parse_db_generic (fi_generics parsed) = Inr (''DB'', [Ident ''Db''])"
    by (simp add: gens parse_db_generic_some next_depth_def)
  ultimately have plan: "expand_tracked find_grammar find_case [] = Inr (tracked_plan find_case parsed ''DB'' [Ident ''Db''] [Ident ''u64''] True)"
    by (simp add: expand_tracked_def parse params strip_ref_inner_ident_def)
  have "distinct (map pa_name (fi_params parsed))" "length [Atom 1, Atom (2 :: nat)] = length (tl (fi_params parsed))"
    by (simp_all add: params)
  from query_key_carries_arguments [OF plan parse this, of "Atom 0" "Atom 0"] plan rest show ?thesis
    by (auto simp: params tracked_plan_def Let_def build_key_def)
qed

end
