(* ===== verification/MacroItems.thy ===== *)
theory MacroItems
  imports MacroExpand Interned Inputs
begin

text \<open>
  The functions that \<open>#[picante::input]\<close> and \<open>#[picante::interned]\<close> generate (\<open>picante-macros/src/input.rs\<close>,
  \<open>interned.rs\<close>), as the bodies in the quoted code have them. An input is two ingredients, the interner of its
  keys and the input that stores its data by id.

  The theorems: a keyed input is a map from keys to values with stable ids; its fields read back as they were
  given, except one called \<open>id\<close>; a singleton holds its last value; a load of the source database
  invalidates the ids that a snapshot shares with it.
\<close>

subsection \<open>Kinds and constructors\<close>

text \<open>\<open>concat!(module_path!(), "::", stringify!(name), "::keys")\<close> and so on.\<close>

definition item_path :: "string \<Rightarrow> string \<Rightarrow> string" where
  "item_path module name = module @ ''::'' @ name"

definition keys_kind :: "string \<Rightarrow> string \<Rightarrow> QueryKindId" where
  "keys_kind module name = from_str (item_path module name @ ''::keys'')"

definition data_kind :: "string \<Rightarrow> string \<Rightarrow> QueryKindId" where
  "data_kind module name = from_str (item_path module name @ ''::data'')"

definition item_kind :: "string \<Rightarrow> string \<Rightarrow> QueryKindId" where
  "item_kind module name = from_str (item_path module name)"

definition make_keys :: "string \<Rightarrow> string \<Rightarrow> 'k Interned" where
  "make_keys module name = interned_new (keys_kind module name) (name @ ''::keys'')"

definition make_data :: "string \<Rightarrow> string \<Rightarrow> 'v Input" where
  "make_data module name = input_new (data_kind module name) (name @ ''::data'')"

definition make_interned :: "string \<Rightarrow> string \<Rightarrow> 'a Interned" where
  "make_interned module name = interned_new (item_kind module name) name"

subsection \<open>A keyed input\<close>

text \<open>The two ingredients of the input, the second with the runtime that its writes go through.\<close>

record ('k, 'v) entity_db =
  en_keys :: "'k Interned"
  en_data :: "'v input_db"

definition keyed_new ::
  "hasher \<Rightarrow> 'k codec \<Rightarrow> InternId codec \<Rightarrow> ('v \<Rightarrow> 'v \<Rightarrow> bool) \<Rightarrow> 'k \<Rightarrow> 'v \<Rightarrow> ('k, 'v) entity_db
   \<Rightarrow> InternId PicanteResult \<times> ('k, 'v) entity_db" where
  "keyed_new sh kc idc same key value db =
     (case intern sh kc key (en_keys db) of
        (Inl e, keys) \<Rightarrow> (Inl e, db\<lparr>en_keys := keys\<rparr>)
      | (Inr i, keys) \<Rightarrow>
          (Inr i, db\<lparr>en_keys := keys, en_data := snd (input_set sh idc same i value (en_data db))\<rparr>))"

definition keyed_key ::
  "hasher \<Rightarrow> InternId codec \<Rightarrow> InternId \<Rightarrow> ('k, 'v) entity_db \<Rightarrow> task \<Rightarrow> 'k PicanteResult \<times> task" where
  "keyed_key sh idc i db t = interned_get sh idc i (en_keys db) t"

definition keyed_data ::
  "hasher \<Rightarrow> InternId codec \<Rightarrow> InternId \<Rightarrow> ('k, 'v) entity_db \<Rightarrow> task \<Rightarrow> 'v PicanteResult \<times> task" where
  "keyed_data sh idc i db t =
     (case input_get sh idc i (db_input (en_data db)) t of
        (Inl e, t1) \<Rightarrow> (Inl e, t1)
      | (Inr (Some value), t1) \<Rightarrow> (Inr value, t1)
      | (Inr None, t1) \<Rightarrow>
          (case encode_facet sh idc i of
             Inl e \<Rightarrow> (Inl e, t1)
           | Inr key \<Rightarrow> (Inl (MissingInputValue (inp_kind (db_input (en_data db))) (key_hash key)), t1)))"

definition keyed_field ::
  "('v \<Rightarrow> 'f) \<Rightarrow> hasher \<Rightarrow> InternId codec \<Rightarrow> InternId \<Rightarrow> ('k, 'v) entity_db \<Rightarrow> task \<Rightarrow> 'f PicanteResult \<times> task" where
  "keyed_field field sh idc i db t =
     (case keyed_data sh idc i db t of (Inl e, t1) \<Rightarrow> (Inl e, t1) | (Inr value, t1) \<Rightarrow> (Inr (field value), t1))"

text \<open>
  The constructor with the fields one by one: its parameters are in scope, then \<open>id\<close> is bound to the interned id, and
  the data struct takes each field from the variable of its name.
\<close>

definition struct_literal :: "string list \<Rightarrow> (string \<Rightarrow> 'f option) \<Rightarrow> (string \<times> 'f) list" where
  "struct_literal names env = map (\<lambda>n. (n, the (env n))) names"

definition keyed_new_fields ::
  "hasher \<Rightarrow> 'k codec \<Rightarrow> InternId codec \<Rightarrow> ((string \<times> 'f) list \<Rightarrow> (string \<times> 'f) list \<Rightarrow> bool) \<Rightarrow> (InternId \<Rightarrow> 'f)
   \<Rightarrow> string list \<Rightarrow> 'k \<Rightarrow> 'f list \<Rightarrow> ('k, (string \<times> 'f) list) entity_db
   \<Rightarrow> InternId PicanteResult \<times> ('k, (string \<times> 'f) list) entity_db" where
  "keyed_new_fields sh kc idc same of_id names key args db =
     (let params = map_of (zip names args)
      in case intern sh kc key (en_keys db) of
        (Inl e, keys) \<Rightarrow> (Inl e, db\<lparr>en_keys := keys\<rparr>)
      | (Inr i, keys) \<Rightarrow>
          (let data = struct_literal names (params(''id'' \<mapsto> of_id i))
           in (Inr i, db\<lparr>en_keys := keys, en_data := snd (input_set sh idc same i data (en_data db))\<rparr>)))"

definition read_field :: "string \<Rightarrow> (string \<times> 'f) list \<Rightarrow> 'f" where
  "read_field name data = the (map_of data name)"

subsection \<open>A singleton input\<close>

definition singleton_set ::
  "hasher \<Rightarrow> unit codec \<Rightarrow> InternId codec \<Rightarrow> ('v \<Rightarrow> 'v \<Rightarrow> bool) \<Rightarrow> 'v \<Rightarrow> (unit, 'v) entity_db
   \<Rightarrow> unit PicanteResult \<times> (unit, 'v) entity_db" where
  "singleton_set sh uc idc same value db =
     (case intern sh uc () (en_keys db) of
        (Inl e, keys) \<Rightarrow> (Inl e, db\<lparr>en_keys := keys\<rparr>)
      | (Inr i, keys) \<Rightarrow>
          (Inr (), db\<lparr>en_keys := keys, en_data := snd (input_set sh idc same i value (en_data db))\<rparr>))"

definition singleton_get ::
  "hasher \<Rightarrow> unit codec \<Rightarrow> InternId codec \<Rightarrow> (unit, 'v) entity_db \<Rightarrow> task
   \<Rightarrow> 'v option PicanteResult \<times> (unit, 'v) entity_db \<times> task" where
  "singleton_get sh uc idc db t =
     (case intern sh uc () (en_keys db) of
        (Inl e, keys) \<Rightarrow> (Inl e, db\<lparr>en_keys := keys\<rparr>, t)
      | (Inr i, keys) \<Rightarrow>
          (case input_get sh idc i (db_input (en_data db)) t of
             (r, t1) \<Rightarrow> (r, db\<lparr>en_keys := keys\<rparr>, t1)))"

definition singleton_field ::
  "('v \<Rightarrow> 'f) \<Rightarrow> hasher \<Rightarrow> unit codec \<Rightarrow> InternId codec \<Rightarrow> (unit, 'v) entity_db \<Rightarrow> task
   \<Rightarrow> 'f option PicanteResult \<times> (unit, 'v) entity_db \<times> task" where
  "singleton_field field sh uc idc db t =
     (case singleton_get sh uc idc db t of
        (Inl e, db1, t1) \<Rightarrow> (Inl e, db1, t1)
      | (Inr value, db1, t1) \<Rightarrow> (Inr (map_option field value), db1, t1))"

text \<open>\<open>set\<close> with the fields one by one; it binds \<open>id\<close> in the same way.\<close>

definition singleton_set_fields ::
  "hasher \<Rightarrow> unit codec \<Rightarrow> InternId codec \<Rightarrow> ((string \<times> 'f) list \<Rightarrow> (string \<times> 'f) list \<Rightarrow> bool) \<Rightarrow> (InternId \<Rightarrow> 'f)
   \<Rightarrow> string list \<Rightarrow> 'f list \<Rightarrow> (unit, (string \<times> 'f) list) entity_db
   \<Rightarrow> unit PicanteResult \<times> (unit, (string \<times> 'f) list) entity_db" where
  "singleton_set_fields sh uc idc same of_id names args db =
     (let params = map_of (zip names args)
      in case intern sh uc () (en_keys db) of
        (Inl e, keys) \<Rightarrow> (Inl e, db\<lparr>en_keys := keys\<rparr>)
      | (Inr i, keys) \<Rightarrow>
          (let data = struct_literal names (params(''id'' \<mapsto> of_id i))
           in (Inr (), db\<lparr>en_keys := keys, en_data := snd (input_set sh idc same i data (en_data db))\<rparr>)))"

subsection \<open>An interned item\<close>

definition interned_item_new :: "hasher \<Rightarrow> 'a codec \<Rightarrow> 'a \<Rightarrow> 'a Interned \<Rightarrow> InternId PicanteResult \<times> 'a Interned" where
  "interned_item_new sh vc value s = intern sh vc value s"

text \<open>With the fields one by one; nothing is bound between the parameters and the struct.\<close>

definition interned_new_fields ::
  "hasher \<Rightarrow> (string \<times> 'f) list codec \<Rightarrow> string list \<Rightarrow> 'f list \<Rightarrow> (string \<times> 'f) list Interned
   \<Rightarrow> InternId PicanteResult \<times> (string \<times> 'f) list Interned" where
  "interned_new_fields sh vc names args s = intern sh vc (struct_literal names (map_of (zip names args))) s"

definition interned_item_value ::
  "hasher \<Rightarrow> InternId codec \<Rightarrow> InternId \<Rightarrow> 'a Interned \<Rightarrow> task \<Rightarrow> 'a PicanteResult \<times> task" where
  "interned_item_value sh idc i s t = interned_get sh idc i s t"

definition interned_item_field ::
  "('a \<Rightarrow> 'f) \<Rightarrow> hasher \<Rightarrow> InternId codec \<Rightarrow> InternId \<Rightarrow> 'a Interned \<Rightarrow> task \<Rightarrow> 'f PicanteResult \<times> task" where
  "interned_item_field field sh idc i s t =
     (case interned_item_value sh idc i s t of (Inl e, t1) \<Rightarrow> (Inl e, t1) | (Inr value, t1) \<Rightarrow> (Inr (field value), t1))"

subsection \<open>Keyed inputs are maps\<close>

text \<open>A client that creates records one after the other with \<open>?\<close> after each call.\<close>

fun keyed_create ::
  "hasher \<Rightarrow> 'k codec \<Rightarrow> InternId codec \<Rightarrow> ('v \<Rightarrow> 'v \<Rightarrow> bool) \<Rightarrow> ('k \<times> 'v) list \<Rightarrow> ('k, 'v) entity_db
   \<Rightarrow> InternId list PicanteResult \<times> ('k, 'v) entity_db" where
  "keyed_create sh kc idc same [] db = (Inr [], db)"
| "keyed_create sh kc idc same ((k, v) # kvs) db =
     (case keyed_new sh kc idc same k v db of
        (Inl e, db1) \<Rightarrow> (Inl e, db1)
      | (Inr i, db1) \<Rightarrow>
          (case keyed_create sh kc idc same kvs db1 of
             (Inl e, db2) \<Rightarrow> (Inl e, db2)
           | (Inr is, db2) \<Rightarrow> (Inr (i # is), db2)))"

lemma held_input_set:
  assumes e: "encode_facet sh idc i = Inr e" and same: "\<And>x y. same x y \<longleftrightarrow> x = y"
  shows "inp_kind (db_input (snd (input_set sh idc same i v d))) = inp_kind (db_input d)"
    and "held (db_input (snd (input_set sh idc same i v d))) q =
      (if q = \<lparr>dk_kind = inp_kind (db_input d), dk_key = e\<rparr> then Some v else held (db_input d) q)"
proof -
  let ?q = "\<lparr>dk_kind = inp_kind (db_input d), dk_key = e\<rparr>"
  obtain rv d1 where wb: "write_begin d = (rv, d1)" by fastforce
  have "snd (input_set sh idc same i v d) = write_finish ?q (Some v) rv d1
      \<or> snd (input_set sh idc same i v d) = d \<and> held (db_input d) ?q = Some v"
  proof (cases "tget (inp_entries (db_input d)) ?q")
    case (Some entry)
    then show ?thesis by (cases "ie_value entry") (simp_all add: input_set_def e same wb held_def Let_def)
  qed (simp add: input_set_def e wb Let_def)
  then show "inp_kind (db_input (snd (input_set sh idc same i v d))) = inp_kind (db_input d)"
    and "held (db_input (snd (input_set sh idc same i v d))) q = (if q = ?q then Some v else held (db_input d) q)"
    using write_spec(1) [OF wb, of ?q "Some v"] by (auto simp: held_def)
qed

lemma keyed_create_run:
  assumes idc: "lawful idc" "total_codec idc" and same: "\<And>x y. same x y \<longleftrightarrow> x = y"
  shows "keyed_create sh kc idc same kvs db = (Inr is, db') \<Longrightarrow>
    intern_all sh kc (map fst kvs) (en_keys db) = (Inr is, en_keys db') \<and> length is = length kvs
    \<and> inp_kind (db_input (en_data db')) = inp_kind (db_input (en_data db))
    \<and> (\<forall>j. held (db_input (en_data db')) (input_key sh idc (db_input (en_data db)) j) =
        (case map_of (rev (zip is (map snd kvs))) j of
           Some v \<Rightarrow> Some v | None \<Rightarrow> held (db_input (en_data db)) (input_key sh idc (db_input (en_data db)) j)))"
proof (induction kvs arbitrary: db "is")
  case Nil
  then show ?case by simp
next
  case (Cons kv kvs)
  obtain k v where kv: "kv = (k, v)" by (cases kv)
  obtain i keys where i: "intern sh kc k (en_keys db) = (Inr i, keys)"
    using Cons.prems kv by (auto simp: keyed_new_def split: prod.splits sum.splits)
  define db1 where "db1 = db\<lparr>en_keys := keys, en_data := snd (input_set sh idc same i v (en_data db))\<rparr>"
  have new: "keyed_new sh kc idc same k v db = (Inr i, db1)" by (simp add: keyed_new_def i db1_def)
  obtain is1 where rest: "keyed_create sh kc idc same kvs db1 = (Inr is1, db')" "is = i # is1"
    using Cons.prems kv new by (auto split: prod.splits sum.splits)
  note ih = Cons.IH [OF rest(1)]
  note set_i = held_input_set [OF encode_facet_total [OF idc(2)] same, of sh i v "en_data db"]
  have kind: "inp_kind (db_input (en_data db1)) = inp_kind (db_input (en_data db))" using set_i(1) by (simp add: db1_def)
  have "held (db_input (en_data db1)) (input_key sh idc (db_input (en_data db)) j) =
      (if j = i then Some v else held (db_input (en_data db)) (input_key sh idc (db_input (en_data db)) j))" for j
    using set_i(2) input_key_inj [OF idc, of sh "db_input (en_data db)" j i] by (simp add: db1_def input_key_def)
  then show ?case
    using ih kind rest(2) i kv by (auto simp: db1_def input_key_def map_of_append map_add_def split: option.split)
qed

lemma map_of_map_keys:
  "inj_on g (insert k (fst ` set xs)) \<Longrightarrow> map_of (map (\<lambda>(a, v). (g a, v)) xs) (g k) = map_of xs k"
  by (induction xs) (auto simp: inj_on_def)

lemma zip_keys: "zip (map g (map fst kvs)) (map snd kvs) = map (\<lambda>(k, v). (g k, v)) kvs"
  by (induction kvs) auto

lemma fst_keyed_data:
  assumes "encode_facet sh idc i = Inr e"
  shows "held (db_input (en_data db)) \<lparr>dk_kind = inp_kind (db_input (en_data db)), dk_key = e\<rparr> = Some v \<Longrightarrow>
    fst (keyed_data sh idc i db t) = Inr v"
  by (simp add: keyed_data_def input_get_def assms held_def Let_def)

text \<open>
  C27. A keyed input is a map: whatever records a client creates, two of them have the same id exactly when
  they have the same key, every id reads its key back, and its data is what was last stored for
  that key.
\<close>
theorem keyed_input_is_map:
  assumes inv: "intern_inv sh kc (en_keys db)" and kc: "lawful kc" and idc: "lawful idc" "total_codec idc"
    and same: "\<And>x y. same x y \<longleftrightarrow> x = y" and room: "unat (in_next_id (en_keys db)) + length kvs < 2 ^ 32"
    and run: "keyed_create sh kc idc same kvs db = (Inr is, db')" and a: "a < length kvs"
  shows "(\<forall>b < length kvs. is ! a = is ! b \<longleftrightarrow> fst (kvs ! a) = fst (kvs ! b))
     \<and> fst (keyed_key sh idc (is ! a) db' t) = Inr (fst (kvs ! a))
     \<and> fst (keyed_data sh idc (is ! a) db' t) = Inr (the (map_of (rev kvs) (fst (kvs ! a))))"
proof -
  note run' = keyed_create_run [OF idc same run]
  then have ids: "intern_all sh kc (map fst kvs) (en_keys db) = (Inr is, en_keys db')" and len: "length is = length kvs"
    by blast+
  have "unat (in_next_id (en_keys db)) + length (map fst kvs) < 2 ^ 32" using room by simp
  note look = intern_all_lookup [OF inv kc this ids]
  define g where "g k = the (tget (in_by_value (en_keys db')) (projr (encode_facet sh kc k)))" for k
  have nth: "is ! b = g (fst (kvs ! b))" "tget (in_by_id (en_keys db')) (is ! b) = Some (fst (kvs ! b))"
    if "b < length kvs" for b
  proof -
    have "b < length (map fst kvs)" using that by simp
    with look obtain k where "tget (in_by_id (en_keys db')) (is ! b) = Some (map fst kvs ! b)"
      "encode_facet sh kc (map fst kvs ! b) = Inr k" "tget (in_by_value (en_keys db')) k = Some (is ! b)"
      by blast
    with that show "is ! b = g (fst (kvs ! b))" "tget (in_by_id (en_keys db')) (is ! b) = Some (fst (kvs ! b))"
      by (simp_all add: g_def)
  qed
  have idmap: "is = map g (map fst kvs)" by (rule nth_equalityI) (use nth len in auto)
  have same_id: "is ! a = is ! b \<longleftrightarrow> fst (kvs ! a) = fst (kvs ! b)" if "b < length kvs" for b
    using nth [OF a] nth [OF that] by (metis option.inject)
  have inj: "inj_on g (insert (fst (kvs ! a)) (fst ` set (rev kvs)))"
  proof -
    have id_of: "tget (in_by_id (en_keys db')) (g k) = Some k" if k: "k \<in> fst ` set kvs" for k
    proof -
      obtain b where "b < length kvs" "k = fst (kvs ! b)" using k by (auto simp: in_set_conv_nth)
      with nth [of b] show ?thesis by simp
    qed
    have "k = k'" if "k \<in> fst ` set kvs" "k' \<in> fst ` set kvs" "g k = g k'" for k k'
      using id_of [OF that(1), unfolded that(3)] id_of [OF that(2)] by (metis option.inject)
    then show ?thesis using a by (auto simp: inj_on_def)
  qed
  have "map_of (rev (zip is (map snd kvs))) (is ! a) = map_of (map (\<lambda>(k, v). (g k, v)) (rev kvs)) (g (fst (kvs ! a)))"
    using a by (simp only: idmap zip_keys rev_map nth_map length_map)
  also have "\<dots> = map_of (rev kvs) (fst (kvs ! a))" by (rule map_of_map_keys [OF inj])
  finally have last_value: "map_of (rev (zip is (map snd kvs))) (is ! a) = map_of (rev kvs) (fst (kvs ! a))" .
  have "fst (kvs ! a) \<in> fst ` set (rev kvs)" using a by simp
  then obtain v where v: "map_of (rev kvs) (fst (kvs ! a)) = Some v" by (metis map_of_eq_None_iff not_None_eq)
  have enc: "encode_facet sh idc (is ! a) = Inr (projr (encode_facet sh idc (is ! a)))" by (rule encode_facet_total [OF idc(2)])
  have "held (db_input (en_data db')) (input_key sh idc (db_input (en_data db)) (is ! a)) = Some v"
    using run' last_value v by simp
  then have "fst (keyed_data sh idc (is ! a) db' t) = Inr v"
    by (intro fst_keyed_data [OF enc]) (use run' in \<open>simp add: input_key_def\<close>)
  moreover have "fst (keyed_key sh idc (is ! a) db' t) = Inr (fst (kvs ! a))"
    using nth(2) [OF a] enc by (auto simp: keyed_key_def interned_get_def Let_def split: sum.split)
  ultimately show ?thesis using same_id v by simp
qed

definition demo_entities :: "(u8, u8) entity_db" where
  "demo_entities = \<lparr>en_keys = make_keys ''m'' ''Text'',
     en_data = \<lparr>db_input = make_data ''m'' ''Text'', db_runtime = new_for_snapshot (RuntimeId 1), db_counter = 2\<rparr>\<rparr>"

theorem keyed_input_is_map_witness:
  "\<exists>i j db. keyed_create (\<lambda>_. 0) byte_codec id_codec (=) [(5, 10), (6, 20), (5, 30)] demo_entities = (Inr [i, j, i], db)
     \<and> fst (keyed_data (\<lambda>_. 0) id_codec i db task0) = Inr 30 \<and> fst (keyed_key (\<lambda>_. 0) id_codec j db task0) = Inr 6"
proof -
  let ?kvs = "[(5, 10), (6, 20), (5, 30)] :: (u8 \<times> u8) list"
  let ?run = "keyed_create (\<lambda>_. 0) byte_codec id_codec (=) ?kvs demo_entities"
  have "fst ?run = Inr [InternId 0, InternId 1, InternId 0]"
    by (simp add: keyed_new_def intern_def encode_facet_def byte_codec_def demo_entities_def make_keys_def interned_new_def
        tinsert_def Let_def)
  then obtain db where run: "?run = (Inr [InternId 0, InternId 1, InternId 0], db)" by (metis prod.collapse)
  have inv: "intern_inv (\<lambda>_. 0) byte_codec (en_keys demo_entities)" by (simp add: demo_entities_def make_keys_def)
  have room: "unat (in_next_id (en_keys demo_entities)) + length ?kvs < 2 ^ 32"
    by (simp add: demo_entities_def make_keys_def interned_new_def)
  note map = keyed_input_is_map [OF inv lawful_byte_codec id_codec_good refl room run]
  from map [of 0 task0] map [of 1 task0] run show ?thesis by auto
qed

subsection \<open>Fields read back\<close>

lemma struct_literal_get: "n \<in> set names \<Longrightarrow> map_of (struct_literal names env) n = Some (the (env n))"
  by (induction names) (auto simp: struct_literal_def)

lemma keyed_new_fields_new:
  assumes "''id'' \<notin> set names" and "distinct names" and "length args = length names"
  shows "keyed_new_fields sh kc idc same of_id names key args db = keyed_new sh kc idc same key (zip names args) db"
proof -
  have "struct_literal names ((map_of (zip names args))(''id'' \<mapsto> x)) = zip names args" for x
    by (rule nth_equalityI) (use assms in \<open>auto simp: struct_literal_def map_of_zip_nth in_set_conv_nth\<close>)
  then show ?thesis by (auto simp: keyed_new_fields_def keyed_new_def Let_def split: prod.split sum.split)
qed

text \<open>
  C28. What a keyed input is created with is what its getters return, with one exception: the constructor binds the new
  id to a variable \<open>id\<close> before it fills the struct, so a field called \<open>id\<close> gets the record's own id and
  its argument is lost.
\<close>

theorem keyed_fields_read_back:
  assumes "keyed_new_fields sh kc idc same of_id names key args db = (Inr i, db')" and "total_codec idc"
    and "\<And>x y. same x y \<longleftrightarrow> x = y" and "distinct names" and "length args = length names" and "j < length names"
  shows "fst (keyed_field (read_field (names ! j)) sh idc i db' t) = Inr (if names ! j = ''id'' then of_id i else args ! j)"
proof -
  let ?data = "struct_literal names ((map_of (zip names args))(''id'' \<mapsto> of_id i))"
  obtain keys where db': "db' = db\<lparr>en_keys := keys, en_data := snd (input_set sh idc same i ?data (en_data db))\<rparr>"
    using assms(1) by (auto simp: keyed_new_fields_def Let_def split: prod.splits sum.splits)
  obtain e where e: "encode_facet sh idc i = Inr e" using encode_facet_total [OF assms(2)] by blast
  note stored = held_input_set [OF e assms(3), of ?data "en_data db"]
  have "fst (keyed_data sh idc i db' t) = Inr ?data"
    by (rule fst_keyed_data [OF e]) (simp add: db' stored)
  moreover have "read_field (names ! j) ?data = (if names ! j = ''id'' then of_id i else args ! j)"
    using assms(4-6) by (simp add: read_field_def struct_literal_get map_of_zip_nth)
  ultimately show ?thesis by (auto simp: keyed_field_def split: prod.split)
qed

text \<open>Singletons lose a field called \<open>id\<close> in the same way; interned items, whose constructor binds nothing, keep all.\<close>

lemma singleton_fields_read_back:
  assumes "singleton_set_fields sh uc idc same of_id names args db = (Inr (), db')" and "total_codec uc" and "total_codec idc"
    and "\<And>x y. same x y \<longleftrightarrow> x = y" and "distinct names" and "length args = length names" and "j < length names"
  shows "\<exists>i. fst (singleton_field (read_field (names ! j)) sh uc idc db' t) = Inr (Some (if names ! j = ''id'' then of_id i else args ! j))"
proof -
  obtain i keys where i: "intern sh uc () (en_keys db) = (Inr i, keys)"
    using assms(1) by (auto simp: singleton_set_fields_def Let_def split: prod.splits sum.splits)
  let ?data = "struct_literal names ((map_of (zip names args))(''id'' \<mapsto> of_id i))"
  have db': "db' = db\<lparr>en_keys := keys, en_data := snd (input_set sh idc same i ?data (en_data db))\<rparr>"
    using assms(1) i by (simp add: singleton_set_fields_def Let_def)
  obtain e where e: "encode_facet sh idc i = Inr e" using encode_facet_total [OF assms(3)] by blast
  obtain u where u: "encode_facet sh uc () = Inr u" using encode_facet_total [OF assms(2)] by blast
  have "tget (in_by_value keys) u = Some i"
    using i u by (auto simp: intern_def Let_def split: option.splits if_splits)
  then have again: "intern sh uc () keys = (Inr i, keys)" using u by (simp add: intern_def)
  have "held (db_input (en_data db')) \<lparr>dk_kind = inp_kind (db_input (en_data db)), dk_key = e\<rparr> = Some ?data"
    "inp_kind (db_input (en_data db')) = inp_kind (db_input (en_data db))"
    using held_input_set [OF e assms(4), of ?data "en_data db"] by (simp_all add: db')
  then have "fst (input_get sh idc i (db_input (en_data db')) t) = Inr (Some ?data)"
    using e by (simp add: input_get_def held_def Let_def)
  moreover have "en_keys db' = keys" by (simp add: db')
  ultimately have "fst (singleton_get sh uc idc db' t) = Inr (Some ?data)"
    using again by (simp add: singleton_get_def case_prod_beta)
  moreover have "read_field (names ! j) ?data = (if names ! j = ''id'' then of_id i else args ! j)"
    using assms(5-7) by (simp add: read_field_def struct_literal_get map_of_zip_nth)
  ultimately show ?thesis by (intro exI [of _ i]) (auto simp: singleton_field_def split: prod.split)
qed

lemma interned_fields_read_back:
  assumes "interned_new_fields sh vc names args s = (Inr i, s')" and "intern_inv sh vc s" and "lawful vc"
    and "encode_facet sh idc i = Inr e" and "distinct names" and "length args = length names" and "j < length names"
    and "unat (in_next_id s) + 1 < 2 ^ 32"
  shows "fst (interned_item_field (read_field (names ! j)) sh idc i s' t) = Inr (args ! j)"
proof -
  let ?data = "struct_literal names (map_of (zip names args))"
  have "intern_all sh vc [?data] s = (Inr [i], s')"
    using assms(1) by (simp add: interned_new_fields_def)
  from intern_all_lookup [OF assms(2,3) _ this] assms(8) have "tget (in_by_id s') i = Some ?data" by auto
  then have "fst (interned_item_value sh idc i s' t) = Inr ?data"
    using assms(4) by (simp add: interned_item_value_def interned_get_def Let_def)
  moreover have "read_field (names ! j) ?data = args ! j"
    using assms(5-7) by (simp add: read_field_def struct_literal_get map_of_zip_nth)
  ultimately show ?thesis by (auto simp: interned_item_field_def split: prod.split)
qed

text \<open>A node with a label and the id of its parent, the parent called \<open>id\<close>.\<close>

theorem keyed_fields_read_back_witness:
  "\<exists>i db. keyed_new_fields (\<lambda>_. 0) byte_codec id_codec (=) (\<lambda>i. Inl i) [''label'', ''id''] 5 [Inr (3 :: nat), Inl (InternId 9)]
      \<lparr>en_keys = make_keys ''m'' ''Node'',
       en_data = \<lparr>db_input = make_data ''m'' ''Node'', db_runtime = new_for_snapshot (RuntimeId 1), db_counter = 2\<rparr>\<rparr> = (Inr i, db)
     \<and> fst (keyed_field (read_field ''label'') (\<lambda>_. 0) id_codec i db task0) = Inr (Inr 3)
     \<and> fst (keyed_field (read_field ''id'') (\<lambda>_. 0) id_codec i db task0) = Inr (Inl i) \<and> i = InternId 0"
proof -
  let ?db = "\<lparr>en_keys = make_keys ''m'' ''Node'',
       en_data = \<lparr>db_input = make_data ''m'' ''Node'', db_runtime = new_for_snapshot (RuntimeId 1), db_counter = 2\<rparr>\<rparr>
     :: (u8, (string \<times> (InternId + nat)) list) entity_db"
  let ?names = "[''label'', ''id'']" and ?args = "[Inr (3 :: nat), Inl (InternId 9)]"
  have "fst (keyed_new_fields (\<lambda>_. 0) byte_codec id_codec (=) (\<lambda>i. Inl i) ?names 5 ?args ?db) = Inr (InternId 0)"
    by (simp add: keyed_new_fields_def intern_def encode_facet_def byte_codec_def make_keys_def interned_new_def Let_def)
  then obtain db where run: "keyed_new_fields (\<lambda>_. 0) byte_codec id_codec (=) (\<lambda>i. Inl i) ?names 5 ?args ?db = (Inr (InternId 0), db)"
    by (metis prod.collapse)
  have good: "distinct ?names" "length ?args = length ?names" by simp_all
  note fields_read = keyed_fields_read_back [OF run id_codec_good(2) refl good]
  from fields_read [of 0 task0] fields_read [of 1 task0] run show ?thesis by simp
qed

subsection \<open>Singletons hold their last value\<close>

definition singleton_inv :: "hasher \<Rightarrow> unit codec \<Rightarrow> InternId codec \<Rightarrow> (unit, 'v) entity_db \<Rightarrow> 'v option \<Rightarrow> bool" where
  "singleton_inv sh uc idc db v \<longleftrightarrow>
     (in_by_value (en_keys db) = [] \<and> in_next_id (en_keys db) = 0
      \<or> tget (in_by_value (en_keys db)) (projr (encode_facet sh uc ())) = Some (InternId 0))
     \<and> held (db_input (en_data db)) (input_key sh idc (db_input (en_data db)) (InternId 0)) = v"

lemma singleton_intern:
  assumes "total_codec uc" "singleton_inv sh uc idc db v"
  obtains keys where "intern sh uc () (en_keys db) = (Inr (InternId 0), keys)"
    and "tget (in_by_value keys) (projr (encode_facet sh uc ())) = Some (InternId 0)"
proof -
  obtain e where e: "encode_facet sh uc () = Inr e" using encode_facet_total [OF assms(1)] by metis
  then show ?thesis
    using assms(2) that by (auto simp: singleton_inv_def intern_def Let_def)
qed

lemma singleton_set_inv:
  assumes "total_codec uc" "total_codec idc" "\<And>x y. same x y \<longleftrightarrow> x = y" "singleton_inv sh uc idc db v"
  shows "fst (singleton_set sh uc idc same x db) = Inr ()"
    and "singleton_inv sh uc idc (snd (singleton_set sh uc idc same x db)) (Some x)"
proof -
  obtain keys where k: "intern sh uc () (en_keys db) = (Inr (InternId 0), keys)"
    "tget (in_by_value keys) (projr (encode_facet sh uc ())) = Some (InternId 0)"
    using singleton_intern [OF assms(1,4)] by blast
  show "fst (singleton_set sh uc idc same x db) = Inr ()" by (simp add: singleton_set_def k(1))
  show "singleton_inv sh uc idc (snd (singleton_set sh uc idc same x db)) (Some x)"
    using k held_input_set [OF encode_facet_total [OF assms(2)] assms(3), of sh "InternId 0" x "en_data db"]
    by (simp add: singleton_set_def singleton_inv_def input_key_def)
qed

lemma singleton_get_inv:
  assumes "total_codec uc" and "total_codec idc" and after: "singleton_inv sh uc idc d v"
  shows "fst (singleton_get sh uc idc d t) = Inr v"
proof -
  from singleton_intern [OF assms(1) after] obtain keys where
    i: "intern sh uc () (en_keys d) = (Inr (InternId 0), keys)" by blast
  obtain e where e: "encode_facet sh idc (InternId 0) = Inr e" using encode_facet_total [OF assms(2)] by blast
  have "held (db_input (en_data d)) (input_key sh idc (db_input (en_data d)) (InternId 0)) = v"
    using after by (simp add: singleton_inv_def)
  then have "Option.bind (tget (inp_entries (db_input (en_data d))) \<lparr>dk_kind = inp_kind (db_input (en_data d)), dk_key = e\<rparr>) ie_value = v"
    by (simp add: held_def input_key_def e)
  then show ?thesis by (simp add: singleton_get_def i input_get_def e Let_def)
qed

text \<open>
  A singleton input holds its last value: after any sequence of \<open>set\<close> calls on a fresh database, each of
  which succeeds, \<open>get\<close> returns the value of the last call, and nothing before the first.
\<close>
theorem singleton_holds_last_value:
  assumes "total_codec uc" and "total_codec idc" and "\<And>x y. same x y \<longleftrightarrow> x = y"
    and "en_keys db = make_keys module name" and "db_input (en_data db) = make_data module name"
  shows "fst (singleton_get sh uc idc (fold (\<lambda>x db. snd (singleton_set sh uc idc same x db)) xs db) t)
           = Inr (if xs = [] then None else Some (last xs))"
proof -
  have inv: "singleton_inv sh uc idc db None"
    by (simp add: singleton_inv_def assms(4,5) make_keys_def make_data_def interned_new_def input_new_def held_def)
  have "singleton_inv sh uc idc (fold (\<lambda>x db. snd (singleton_set sh uc idc same x db)) xs d) (if xs = [] then v else Some (last xs))"
    if "singleton_inv sh uc idc d v" for d v
    using that
  proof (induction xs arbitrary: d v)
    case (Cons x xs)
    from Cons.IH [OF singleton_set_inv(2) [OF assms(1-3) Cons.prems]] show ?case by (cases xs) simp_all
  qed simp
  from this [OF inv] have after: "singleton_inv sh uc idc (fold (\<lambda>x db. snd (singleton_set sh uc idc same x db)) xs db)
      (if xs = [] then None else Some (last xs))" .
  from singleton_get_inv [OF assms(1,2) after] show ?thesis .
qed

subsection \<open>The key interner of a snapshot\<close>

text \<open>
  \<open>from_database\<close> clones the \<open>Arc\<close> of the key interner and copies the data: one table of keys, two inputs.
\<close>

record ('k, 'v) entity_views =
  ev_keys :: "'k Interned"
  ev_source :: "'v input_db"
  ev_snapshot :: "'v input_db"

definition snapshot_entity :: "hasher \<Rightarrow> InternId codec \<Rightarrow> ('k, 'v) entity_db \<Rightarrow> ('k, 'v) entity_views" where
  "snapshot_entity sh idc db =
     (let source = en_data db; s = db_input source
      in \<lparr>ev_keys = en_keys db, ev_source = source,
          ev_snapshot = source\<lparr>db_input := input_new_from_snapshot sh idc (inp_kind s) (inp_kind_name s) (input_snapshot idc s),
            db_runtime := set_current_revision (current_revision (db_runtime source)) (new_for_snapshot (rt_id (db_runtime source)))\<rparr>\<rparr>)"

definition snapshot_view :: "('k, 'v) entity_views \<Rightarrow> ('k, 'v) entity_db" where
  "snapshot_view v = \<lparr>en_keys = ev_keys v, en_data = ev_snapshot v\<rparr>"

text \<open>The load of the interner's section when the source database loads a cache.\<close>

definition source_load_keys ::
  "hasher \<Rightarrow> 'k codec \<Rightarrow> 'k InternedRecord codec \<Rightarrow> bytes list \<Rightarrow> ('k, 'v) entity_views
   \<Rightarrow> unit PicanteResult \<times> ('k, 'v) entity_views" where
  "source_load_keys sh kc rc records v =
     (case interned_load_records sh kc rc records (ev_keys v) of (r, keys) \<Rightarrow> (r, v\<lparr>ev_keys := keys\<rparr>))"

text \<open>What an interner answers for an id.\<close>

definition key_answer :: "'k Interned \<Rightarrow> InternId \<Rightarrow> 'k PicanteResult" where
  "key_answer s i =
     (case tget (in_by_id s) i of Some k \<Rightarrow> Inr k | None \<Rightarrow> Inl (MissingInternedValue (in_kind s) (intern_id i)))"

lemma keyed_key_answer: "total_codec idc \<Longrightarrow> fst (keyed_key sh idc i db t) = key_answer (en_keys db) i"
  using encode_facet_total [of idc sh i]
  by (auto simp: keyed_key_def interned_get_def key_answer_def Let_def split: option.split sum.split)

text \<open>
  C36. The table of keys that a snapshot shares is not append-only. A snapshot answers for the ids of its keys what the table of its
  source held when it was taken; when the source then loads a cache, whatever table of keys the cache
  was saved from, every id of the snapshot stands for the key that saved table had under it, or
  for none, and no longer for its own.
\<close>
theorem source_load_changes_snapshot_keys:
  assumes "lawful kc" and "lawful rc" and "total_codec idc" and "intern_inv sh kc saved"
    and "in_kind saved = in_kind (en_keys db)" and "interned_save_records rc saved = Inr records"
  shows "let taken = snapshot_entity sh idc db; (r, loaded) = source_load_keys sh kc rc records taken
     in (\<forall>i. fst (keyed_key sh idc i (snapshot_view taken) t) = key_answer (en_keys db) i) \<and> r = Inr ()
        \<and> (\<forall>i. fst (keyed_key sh idc i (snapshot_view loaded) t) = key_answer saved i)"
proof -
  let ?load = "interned_load_records sh kc rc records (en_keys db)"
  have good: "interned_good sh kc rc saved" using assms(1,2,4) by (simp add: interned_good_def)
  have "fst ?load = Inr ()" "tget (in_by_id (snd ?load)) = tget (in_by_id saved)"
    using interned_store.load_save [OF good assms(5,6)] by (simp_all add: interned_obs_def)
  moreover have "in_kind (snd ?load) = in_kind saved"
    using interned_store.compat_load [of saved "en_keys db" sh kc rc records] assms(5) by simp
  ultimately have "fst ?load = Inr ()" "key_answer (snd ?load) = key_answer saved"
    by (simp_all add: key_answer_def fun_eq_iff split: option.split)
  then show ?thesis
    by (simp add: keyed_key_answer [OF assms(3)] source_load_keys_def snapshot_entity_def snapshot_view_def Let_def case_prod_beta)
qed

theorem singleton_holds_last_value_witness:
  "fst (singleton_get (\<lambda>_. 0) \<lparr>enc = (\<lambda>_. Inr []), dec = (\<lambda>_. Inr ())\<rparr> id_codec
      (fold (\<lambda>x db. snd (singleton_set (\<lambda>_. 0) \<lparr>enc = (\<lambda>_. Inr []), dec = (\<lambda>_. Inr ())\<rparr> id_codec (=) x db)) [3 :: u8, 4]
        \<lparr>en_keys = make_keys ''m'' ''Config'',
         en_data = \<lparr>db_input = make_data ''m'' ''Config'', db_runtime = new_for_snapshot (RuntimeId 1), db_counter = 2\<rparr>\<rparr>) task0)
   = Inr (Some 4)"
proof -
  have "total_codec \<lparr>enc = (\<lambda>_. Inr []), dec = (\<lambda>_. Inr ())\<rparr>" by (simp add: total_codec_def)
  from singleton_holds_last_value [OF this id_codec_good(2) refl, where sh = "\<lambda>_. 0" and xs = "[3 :: u8, 4]" and t = task0
      and db = "\<lparr>en_keys = make_keys ''m'' ''Config'',
         en_data = \<lparr>db_input = make_data ''m'' ''Config'', db_runtime = new_for_snapshot (RuntimeId 1), db_counter = 2\<rparr>\<rparr>"
      and module = "''m''" and name = "''Config''"]
  show ?thesis by (simp only: entity_db.simps input_db.simps) simp
qed

text \<open>Id 0 of the snapshot stands for the key 9, and after the load for the key 7; id 1 for 8, then for none.\<close>

theorem source_load_changes_snapshot_keys_witness:
  "let db = snd (keyed_create (\<lambda>_. 0) byte_codec id_codec (=) [(9, 10), (8, 20)] demo_entities);
       taken = snapshot_entity (\<lambda>_. 0) id_codec db;
       loaded = snd (source_load_keys (\<lambda>_. 0) byte_codec unary_codec [[7]] taken)
   in map (\<lambda>i. fst (keyed_key (\<lambda>_. 0) id_codec (InternId i) (snapshot_view taken) task0)) [0, 1] = [Inr 9, Inr 8]
    \<and> map (\<lambda>i. fst (keyed_key (\<lambda>_. 0) id_codec (InternId i) (snapshot_view loaded) task0)) [0, 1]
        = [Inr 7, Inl (MissingInternedValue (keys_kind ''m'' ''Text'') 1)]"
proof -
  define db where "db = snd (keyed_create (\<lambda>_. 0) byte_codec id_codec (=) [(9, 10), (8, 20)] demo_entities)"
  let ?saved = "snd (intern (\<lambda>_. 0) byte_codec 7 (make_keys ''m'' ''Text''))"
  have saved: "?saved = (make_keys ''m'' ''Text'')\<lparr>in_next_id := 1, in_by_id := [(InternId 0, 7)],
      in_by_value := [(from_bytes (\<lambda>_. 0) [7], InternId 0)]\<rparr>"
    by (simp add: intern_def encode_facet_def byte_codec_def make_keys_def interned_new_def tinsert_def Let_def)
  have db: "in_kind (en_keys db) = keys_kind ''m'' ''Text''" "in_by_id (en_keys db) = [(InternId 0, 9), (InternId 1, 8)]"
    by (simp_all add: db_def keyed_new_def intern_def encode_facet_def byte_codec_def demo_entities_def make_keys_def
        interned_new_def tinsert_def Let_def)
  have inv: "intern_inv (\<lambda>_. 0) byte_codec ?saved"
    unfolding saved by (auto simp: intern_inv_def twf_def encode_facet_def byte_codec_def make_keys_def interned_new_def split: if_splits)
  have kind: "in_kind ?saved = in_kind (en_keys db)"
    unfolding saved db(1) by (simp add: make_keys_def interned_new_def)
  have save: "interned_save_records unary_codec ?saved = Inr [[7]]"
    unfolding saved by (simp add: interned_save_records_def unary_codec_def)
  from source_load_changes_snapshot_keys [OF lawful_byte_codec lawful_unary_codec id_codec_good(2) inv kind save, of task0]
  show ?thesis
    unfolding Let_def case_prod_beta db_def [symmetric]
    by (simp add: key_answer_def saved db) (simp add: make_keys_def interned_new_def)
qed

end
