(* ===== verification/MacroDb.thy ===== *)
theory MacroDb
  imports MacroItems
begin

text \<open>
  The \<open>#[picante::db]\<close> macro (\<open>picante-macros/src/db.rs\<close>): the parsing of its arguments and the plan of the
  code it generates, that is the fields of the database struct and of its snapshot, what is registered and
  what is persisted, or the error it reports. The text of the generated code is not modelled; what
  the generated functions do is in \<open>Access\<close>, \<open>Snapshots\<close> and \<open>MacroItems\<close>. The case conversions of the \<open>heck\<close>
  library and the parsed struct of the \<open>unsynn\<close> grammar are parameters.

  The theorems: an argument list is accepted exactly when its items are paths and differ as
  texts; the macro accepts a database exactly when all field names of the generated struct differ,
  and then every generated ingredient is registered, persisted and carried into the snapshot once.
\<close>

subsection \<open>Item paths\<close>

record ItemPath =
  ip_prefix :: "token list"
  ip_name :: string

fun is_path_token :: "token \<Rightarrow> bool" where
  "is_path_token (Ident _) = True"
| "is_path_token (Punct c) = (c = CHR '':'')"
| "is_path_token _ = False"

definition item_path_parse :: "token list \<Rightarrow> string + ItemPath" where
  "item_path_parse tokens =
     (if tokens = [] then Inl ''picante: expected an item path''
      else if \<not> list_all is_path_token tokens then Inl ''picante: expected a path like `foo::Bar` (no generics)''
      else (case last tokens of
          Ident name \<Rightarrow> Inr \<lparr>ip_prefix = butlast tokens, ip_name = name\<rparr>
        | _ \<Rightarrow> Inl ''picante: expected a path ending in an identifier''))"

definition qualify :: "ItemPath \<Rightarrow> string \<Rightarrow> token list" where
  "qualify p ident = ip_prefix p @ [Ident ident]"

subsection \<open>Lists of items\<close>

definition duplicate_item :: "string \<Rightarrow> string \<Rightarrow> string" where
  "duplicate_item normalized list_name =
     ''picante: duplicate item `'' @ normalized @ ''` in `'' @ list_name @ ''` list''"

text \<open>One item of the list, after a comma or at the end.\<close>

definition finish_item ::
  "string \<Rightarrow> token list \<Rightarrow> ItemPath list \<Rightarrow> string list \<Rightarrow> string + ItemPath list \<times> string list" where
  "finish_item list_name current out seen =
     (if current = [] then Inr (out, seen)
      else (let normalized = normalize_tokens current
            in if normalized \<in> set seen then Inl (duplicate_item normalized list_name)
               else (case item_path_parse current of
                   Inl e \<Rightarrow> Inl e
                 | Inr item \<Rightarrow> Inr (out @ [item], normalized # seen))))"

fun parse_list_loop ::
  "string \<Rightarrow> token list \<Rightarrow> token list \<Rightarrow> ItemPath list \<Rightarrow> string list \<Rightarrow> string + ItemPath list" where
  "parse_list_loop list_name [] current out seen =
     (case finish_item list_name current out seen of Inl e \<Rightarrow> Inl e | Inr (out', seen') \<Rightarrow> Inr out')"
| "parse_list_loop list_name (t # ts) current out seen =
     (if t = comma
      then (case finish_item list_name current out seen of
              Inl e \<Rightarrow> Inl e
            | Inr (out', seen') \<Rightarrow> parse_list_loop list_name ts [] out' seen')
      else parse_list_loop list_name ts (current @ [t]) out seen)"

definition parse_list :: "token list \<Rightarrow> string \<Rightarrow> string + ItemPath list" where
  "parse_list ts list_name = parse_list_loop list_name ts [] [] []"

subsection \<open>The arguments of the attribute\<close>

record DbArgs =
  da_inputs :: "ItemPath list"
  da_interned :: "ItemPath list"
  da_tracked :: "ItemPath list"
  da_db_trait :: "string option"

definition default_args :: DbArgs where
  "default_args = \<lparr>da_inputs = [], da_interned = [], da_tracked = [], da_db_trait = None\<rparr>"

definition add_items :: "string \<Rightarrow> ItemPath list \<Rightarrow> DbArgs \<Rightarrow> string + DbArgs" where
  "add_items key items args =
     (if key = ''inputs'' \<or> key = ''input'' then Inr (args\<lparr>da_inputs := da_inputs args @ items\<rparr>)
      else if key = ''interned'' then Inr (args\<lparr>da_interned := da_interned args @ items\<rparr>)
      else if key = ''tracked'' then Inr (args\<lparr>da_tracked := da_tracked args @ items\<rparr>)
      else if key = ''db_trait'' then
        (case items of
           [item] \<Rightarrow>
             if ip_prefix item \<noteq> [] then Inl ''picante: `db_trait(...)` expects a simple identifier, not a path''
             else if da_db_trait args \<noteq> None then Inl ''picante: `db_trait(...)` specified multiple times''
             else Inr (args\<lparr>da_db_trait := Some (ip_name item)\<rparr>)
         | _ \<Rightarrow> Inl ''picante: `db_trait(...)` expects exactly one identifier'')
      else Inl ''picante: unknown #[picante::db] key (expected `inputs`, `interned`, `tracked`, `db_trait`)'')"

definition skip_comma :: "token list \<Rightarrow> token list" where
  "skip_comma ts = (case ts of t # us \<Rightarrow> if t = comma then us else ts | [] \<Rightarrow> [])"

lemma length_skip_comma [termination_simp]: "length (skip_comma ts) \<le> length ts"
  by (simp add: skip_comma_def split: list.split)

definition expected_list :: string where
  "expected_list = ''picante: expected `inputs(...)`, `interned(...)`, or `tracked(...)`''"

function parse_args_loop :: "token list \<Rightarrow> DbArgs \<Rightarrow> string + DbArgs" where
  "parse_args_loop [] args = Inr args"
| "parse_args_loop (t # rest) args =
     (case t of
        Ident key \<Rightarrow>
          (case rest of
             Group d inner # rest' \<Rightarrow>
               if d \<noteq> Parenthesis then Inl ''picante: expected parentheses, e.g. `inputs(...)`''
               else (case parse_list inner key of
                   Inl e \<Rightarrow> Inl e
                 | Inr items \<Rightarrow>
                     (case add_items key items args of
                        Inl e \<Rightarrow> Inl e
                      | Inr args' \<Rightarrow> parse_args_loop (skip_comma rest') args'))
           | _ \<Rightarrow> Inl expected_list)
      | Punct c \<Rightarrow> if c = CHR '','' then parse_args_loop rest args else Inl expected_list
      | _ \<Rightarrow> Inl expected_list)"
  by pat_completeness auto
termination
  by (relation "measure (length \<circ> fst)") (auto simp: less_Suc_eq_le length_skip_comma le_SucI)

definition parse_args :: "token list \<Rightarrow> string + DbArgs" where
  "parse_args attr = (if attr = [] then Inr default_args else parse_args_loop attr default_args)"

subsection \<open>Names of the generated items\<close>

definition input_fields :: "case_conversions \<Rightarrow> ItemPath \<Rightarrow> string list" where
  "input_fields hk input =
     [snake_ident hk (ip_name input) @ ''_keys_ingredient'', snake_ident hk (ip_name input) @ ''_data_ingredient'']"

definition interned_field :: "case_conversions \<Rightarrow> ItemPath \<Rightarrow> string" where
  "interned_field hk interned = snake_ident hk (ip_name interned) @ ''_ingredient''"

definition tracked_field :: "case_conversions \<Rightarrow> ItemPath \<Rightarrow> string" where
  "tracked_field hk tracked = snake_ident hk (ip_name tracked)"

subsection \<open>The checks on field names\<close>

fun custom_fields :: "string list \<Rightarrow> string list \<Rightarrow> string + string list" where
  "custom_fields [] names = Inr names"
| "custom_fields (name # rest) names =
     (if name \<in> set names then Inl (''picante: duplicate field `'' @ name @ ''` in db struct'')
      else custom_fields rest (names @ [name]))"

fun reserved_check :: "string list \<Rightarrow> string list \<Rightarrow> string + unit" where
  "reserved_check [] names = Inr ()"
| "reserved_check (reserved # rest) names =
     (if reserved \<in> set names then Inl (''picante: db field name conflict: `'' @ reserved @ ''` is reserved'')
      else reserved_check rest names)"

text \<open>The names one item generates, against the custom fields and the names generated so far.\<close>

fun claim_names :: "string \<Rightarrow> string \<Rightarrow> string \<Rightarrow> string list \<Rightarrow> string list \<Rightarrow> string list \<Rightarrow> string + string list" where
  "claim_names what entity overlapping custom [] generated = Inr generated"
| "claim_names what entity overlapping custom (name # names) generated =
     (if name \<in> set custom then
        Inl (''picante: db field name conflict: `'' @ name @ ''` is a custom db field and also generated by ''
             @ what @ '' `'' @ entity @ ''`'')
      else if name \<in> set generated then
        Inl (''picante: db field name conflict: `'' @ name
             @ ''` is generated multiple times (check for duplicate/overlapping '' @ overlapping @ '')'')
      else claim_names what entity overlapping custom names (generated @ [name]))"

text \<open>One loop over the items of a list.\<close>

fun claim_items ::
  "string \<Rightarrow> string \<Rightarrow> (ItemPath \<Rightarrow> string list) \<Rightarrow> string list \<Rightarrow> ItemPath list \<Rightarrow> string list \<Rightarrow> string + string list" where
  "claim_items what overlapping names_of custom [] generated = Inr generated"
| "claim_items what overlapping names_of custom (item # items) generated =
     (case claim_names what (ip_name item) overlapping custom (names_of item) generated of
        Inl e \<Rightarrow> Inl e
      | Inr generated' \<Rightarrow> claim_items what overlapping names_of custom items generated')"

subsection \<open>The code generated for an item\<close>

text \<open>
  A field of the database: its name, the path of its type, the type its query type is applied to, the path of
  its constructor, and the accessor that the implementation of the item's trait returns it from.
\<close>

record GenField =
  gf_field :: string
  gf_type :: "token list"
  gf_param :: "string option"
  gf_make :: "token list"
  gf_method :: string

record GenEntity =
  ge_trait :: "token list"
  ge_fields :: "GenField list"

definition input_entity :: "case_conversions \<Rightarrow> ItemPath \<Rightarrow> GenEntity" where
  "input_entity hk input =
     (let entity = ip_name input; entity_snake = snake_ident hk entity
      in \<lparr>ge_trait = qualify input (''Has'' @ entity @ ''Ingredient''),
           ge_fields =
             [\<lparr>gf_field = entity_snake @ ''_keys_ingredient'', gf_type = qualify input (entity @ ''KeysIngredient''),
               gf_param = None, gf_make = qualify input (''make_'' @ entity_snake @ ''_keys''),
               gf_method = entity_snake @ ''_keys''\<rparr>,
              \<lparr>gf_field = entity_snake @ ''_data_ingredient'', gf_type = qualify input (entity @ ''DataIngredient''),
               gf_param = None, gf_make = qualify input (''make_'' @ entity_snake @ ''_data''),
               gf_method = entity_snake @ ''_data''\<rparr>]\<rparr>)"

definition interned_entity :: "case_conversions \<Rightarrow> ItemPath \<Rightarrow> GenEntity" where
  "interned_entity hk interned =
     (let entity = ip_name interned; entity_snake = snake_ident hk entity
      in \<lparr>ge_trait = qualify interned (''Has'' @ entity @ ''Ingredient''),
           ge_fields =
             [\<lparr>gf_field = entity_snake @ ''_ingredient'', gf_type = qualify interned (entity @ ''Ingredient''),
               gf_param = None, gf_make = qualify interned (''make_'' @ entity_snake @ ''_ingredient''),
               gf_method = entity_snake @ ''_ingredient''\<rparr>]\<rparr>)"

definition tracked_entity :: "case_conversions \<Rightarrow> string \<Rightarrow> ItemPath \<Rightarrow> GenEntity" where
  "tracked_entity hk db_name tracked =
     (let func = ip_name tracked; func_snake = snake_ident hk func; pascal = pascal_ident hk func
      in \<lparr>ge_trait = qualify tracked (''Has'' @ pascal @ ''Query''),
           ge_fields =
             [\<lparr>gf_field = func_snake, gf_type = qualify tracked (pascal @ ''Query''), gf_param = Some db_name,
               gf_make = qualify tracked (''make_'' @ func_snake @ ''_query''), gf_method = func_snake @ ''_query''\<rparr>]\<rparr>)"

text \<open>
  A field of the snapshot: the same \<open>Arc\<close>, the copied data, or the copied cells in a new ingredient
  from the constructor named.
\<close>

datatype snapshot_init = ShareArc | SnapshotData | DeepCells "token list"

record SnapField =
  sn_field :: string
  sn_type :: "token list"
  sn_param :: "string option"
  sn_init :: snapshot_init
  sn_method :: string

record SnapEntity =
  se_trait :: "token list"
  se_fields :: "SnapField list"

definition snapshot_input_entity :: "case_conversions \<Rightarrow> ItemPath \<Rightarrow> SnapEntity" where
  "snapshot_input_entity hk input =
     (let entity = ip_name input; entity_snake = snake_ident hk entity
      in \<lparr>se_trait = qualify input (''Has'' @ entity @ ''Ingredient''),
           se_fields =
             [\<lparr>sn_field = entity_snake @ ''_keys_ingredient'', sn_type = qualify input (entity @ ''KeysIngredient''),
               sn_param = None, sn_init = ShareArc, sn_method = entity_snake @ ''_keys''\<rparr>,
              \<lparr>sn_field = entity_snake @ ''_data_ingredient'', sn_type = qualify input (entity @ ''DataIngredient''),
               sn_param = None, sn_init = SnapshotData, sn_method = entity_snake @ ''_data''\<rparr>]\<rparr>)"

definition snapshot_interned_entity :: "case_conversions \<Rightarrow> ItemPath \<Rightarrow> SnapEntity" where
  "snapshot_interned_entity hk interned =
     (let entity = ip_name interned; entity_snake = snake_ident hk entity
      in \<lparr>se_trait = qualify interned (''Has'' @ entity @ ''Ingredient''),
           se_fields =
             [\<lparr>sn_field = entity_snake @ ''_ingredient'', sn_type = qualify interned (entity @ ''Ingredient''),
               sn_param = None, sn_init = ShareArc, sn_method = entity_snake @ ''_ingredient''\<rparr>]\<rparr>)"

definition snapshot_tracked_entity :: "case_conversions \<Rightarrow> string \<Rightarrow> ItemPath \<Rightarrow> SnapEntity" where
  "snapshot_tracked_entity hk snapshot_name tracked =
     (let func = ip_name tracked; func_snake = snake_ident hk func; pascal = pascal_ident hk func
      in \<lparr>se_trait = qualify tracked (''Has'' @ pascal @ ''Query''),
           se_fields =
             [\<lparr>sn_field = func_snake, sn_type = qualify tracked (pascal @ ''Query''), sn_param = Some snapshot_name,
               sn_init = DeepCells (qualify tracked (''make_'' @ func_snake @ ''_query'')),
               sn_method = func_snake @ ''_query''\<rparr>]\<rparr>)"

text \<open>The list that \<open>persistable_ingredients\<close> returns.\<close>

definition persistable_fields :: "case_conversions \<Rightarrow> DbArgs \<Rightarrow> string list" where
  "persistable_fields hk args =
     concat (map (input_fields hk) (da_inputs args))
     @ map (interned_field hk) (da_interned args) @ map (tracked_field hk) (da_tracked args)"

subsection \<open>The macro\<close>

text \<open>
  The plan of the generated code: the ingredients of the database (each a field, a local of \<open>new\<close>, a
  registration and an accessor, in this order), the fields of the struct, what is persisted, the combined
  trait with its bounds, and the ingredients of the snapshot. The custom fields are parameters of \<open>new\<close>.
\<close>

record DbPlan =
  dp_vis :: "token list"
  dp_attrs :: "token list list"
  dp_name :: string
  dp_custom :: "token list list"
  dp_ctor_params :: "token list list"
  dp_entities :: "GenEntity list"
  dp_fields :: "string list"
  dp_persistable :: "string list"
  dp_trait_bounds :: "token list list"
  dp_db_trait :: string
  dp_snapshot_name :: string
  dp_snapshot_entities :: "SnapEntity list"

definition db_entities :: "case_conversions \<Rightarrow> DbArgs \<Rightarrow> string \<Rightarrow> GenEntity list" where
  "db_entities hk args db_name =
     map (input_entity hk) (da_inputs args) @ map (interned_entity hk) (da_interned args)
     @ map (tracked_entity hk db_name) (da_tracked args)"

definition snapshot_entities :: "case_conversions \<Rightarrow> DbArgs \<Rightarrow> string \<Rightarrow> SnapEntity list" where
  "snapshot_entities hk args snapshot_name =
     map (snapshot_input_entity hk) (da_inputs args) @ map (snapshot_interned_entity hk) (da_interned args)
     @ map (snapshot_tracked_entity hk snapshot_name) (da_tracked args)"

definition entity_fields :: "GenEntity list \<Rightarrow> string list" where
  "entity_fields es = concat (map (\<lambda>e. map gf_field (ge_fields e)) es)"

definition snapshot_fields :: "SnapEntity list \<Rightarrow> string list" where
  "snapshot_fields es = concat (map (\<lambda>e. map sn_field (se_fields e)) es)"

text \<open>A field of the user's struct, with all its attributes.\<close>

definition custom_field :: "FieldDecl \<Rightarrow> StructField" where
  "custom_field f =
     \<lparr>sf_name = fd_name f, sf_vis = vis_tokens (fd_vis f), sf_ty = fd_typ f,
      sf_attrs = map attribute_tokens (attributes_of (fd_attributes f)), sf_is_key = False\<rparr>"

definition db_plan :: "case_conversions \<Rightarrow> DbArgs \<Rightarrow> StructDecl \<Rightarrow> DbPlan" where
  "db_plan hk args decl =
     (let db_name = sd_name decl; entities = db_entities hk args db_name; snapshot_name = db_name @ ''Snapshot'';
          custom = map custom_field (sd_fields decl)
      in \<lparr>dp_vis = vis_tokens (sd_vis decl), dp_attrs = map attribute_tokens (attributes_of (sd_attributes decl)),
           dp_name = db_name, dp_custom = map field_def custom,
           dp_ctor_params = map (\<lambda>f. typed_param (sf_name f) (sf_ty f)) custom,
           dp_entities = entities,
           dp_fields = [''runtime'', ''ingredients''] @ entity_fields entities @ map sf_name custom,
           dp_persistable = persistable_fields hk args,
           dp_trait_bounds = map ge_trait entities,
           dp_db_trait = (case da_db_trait args of Some t \<Rightarrow> t | None \<Rightarrow> db_name @ ''Trait''),
           dp_snapshot_name = snapshot_name,
           dp_snapshot_entities = snapshot_entities hk args snapshot_name\<rparr>)"

text \<open>\<open>decl\<close> is what the grammar makes of the item.\<close>

definition expand_db :: "case_conversions \<Rightarrow> token list \<Rightarrow> string + StructDecl \<Rightarrow> string + DbPlan" where
  "expand_db hk attr parsed =
     rbind (parse_args attr) (\<lambda>args.
     case parsed of
       Inl e \<Rightarrow> Inl (''picante: failed to parse db struct: '' @ e)
     | Inr decl \<Rightarrow>
         if sd_generics decl \<noteq> None then Inl ''picante: #[picante::db] does not support generics''
         else
           rbind (custom_fields (map fd_name (sd_fields decl)) []) (\<lambda>custom.
           rbind (reserved_check [''runtime'', ''ingredients''] custom) (\<lambda>_.
           rbind (claim_items ''input'' ''inputs'' (input_fields hk) custom (da_inputs args)
                    [''runtime'', ''ingredients'']) (\<lambda>generated1.
           rbind (claim_items ''interned'' ''interned items'' (\<lambda>i. [interned_field hk i]) custom
                    (da_interned args) generated1) (\<lambda>generated2.
           rbind (claim_items ''tracked'' ''tracked queries'' (\<lambda>i. [tracked_field hk i]) custom
                    (da_tracked args) generated2) (\<lambda>generated3.
           Inr (db_plan hk args decl)))))))"

subsection \<open>Lists are accepted exactly\<close>

text \<open>The items of a list: the maximal runs of tokens between commas, without the empty ones.\<close>

fun item_chunks :: "token list \<Rightarrow> token list \<Rightarrow> token list list" where
  "item_chunks [] current = (if current = [] then [] else [current])"
| "item_chunks (t # ts) current =
     (if t = comma then (if current = [] then [] else [current]) @ item_chunks ts []
      else item_chunks ts (current @ [t]))"

lemma parse_list_loop_ok:
  "parse_list_loop name ts current out seen = Inr items \<longleftrightarrow>
     distinct (map normalize_tokens (item_chunks ts current))
     \<and> set (map normalize_tokens (item_chunks ts current)) \<inter> set seen = {}
     \<and> (\<exists>parsed. items = out @ parsed \<and> list_all2 (\<lambda>c i. item_path_parse c = Inr i) (item_chunks ts current) parsed)"
proof (induction name ts current out seen rule: parse_list_loop.induct)
  case (1 name current out seen)
  then show ?case
    by (auto simp: finish_item_def Let_def list_all2_Cons1 split: sum.splits prod.splits)
next
  case (2 name t ts current out seen)
  show ?case
  proof (cases "t = comma \<and> current \<noteq> []")
    case False
    then show ?thesis using 2 by (auto simp: finish_item_def)
  next
    case True
    show ?thesis
    proof (cases "normalize_tokens current \<in> set seen \<or> (\<exists>e. item_path_parse current = Inl e)")
      case True
      then show ?thesis using \<open>t = comma \<and> current \<noteq> []\<close>
        by (auto simp: finish_item_def Let_def list_all2_Cons1)
    next
      case False
      then obtain item where item: "item_path_parse current = Inr item" by (cases "item_path_parse current") auto
      have "finish_item name current out seen = Inr (out @ [item], normalize_tokens current # seen)"
        using item False True by (simp add: finish_item_def Let_def)
      then show ?thesis using 2(1) [of "(out @ [item], normalize_tokens current # seen)" "out @ [item]" "normalize_tokens current # seen"]
          True False item
        by (auto simp: list_all2_Cons1)
    qed
  qed
qed

text \<open>
  A list of items is accepted exactly when its items, the runs of tokens between commas, are paths
  ending in an identifier and no two have the same text; then these paths are returned in order.
\<close>
theorem parse_list_exact:
  "parse_list ts name = Inr items \<longleftrightarrow>
     distinct (map normalize_tokens (item_chunks ts []))
     \<and> list_all2 (\<lambda>c i. item_path_parse c = Inr i) (item_chunks ts []) items"
  by (simp add: parse_list_def parse_list_loop_ok)

subsection \<open>Databases are accepted exactly\<close>

lemma custom_fields_ok: "distinct names \<Longrightarrow> custom_fields fs names = Inr names' \<longleftrightarrow> distinct (names @ fs) \<and> names' = names @ fs"
  by (induction fs arbitrary: names) auto

lemma reserved_check_ok: "reserved_check rs names = Inr u \<longleftrightarrow> set rs \<inter> set names = {}"
  by (induction rs) auto

lemma claim_names_ok:
  "claim_names what entity overlapping custom names generated = Inr generated' \<longleftrightarrow>
     generated' = generated @ names \<and> distinct names \<and> set names \<inter> (set generated \<union> set custom) = {}"
  by (induction names arbitrary: generated) auto

lemma claim_items_ok:
  "claim_items what overlapping names_of custom items generated = Inr generated' \<longleftrightarrow>
     generated' = generated @ concat (map names_of items) \<and> distinct (concat (map names_of items))
     \<and> set (concat (map names_of items)) \<inter> (set generated \<union> set custom) = {}"
proof (induction items arbitrary: generated)
  case (Cons item items)
  have "claim_items what overlapping names_of custom (item # items) generated = Inr generated' \<longleftrightarrow>
     (\<exists>g. claim_names what (ip_name item) overlapping custom (names_of item) generated = Inr g
       \<and> claim_items what overlapping names_of custom items g = Inr generated')"
    by (cases "claim_names what (ip_name item) overlapping custom (names_of item) generated") auto
  then show ?case unfolding claim_names_ok Cons.IH by auto
qed auto

lemma checks_then:
  "rbind (custom_fields fs []) k = Inr p \<longleftrightarrow> distinct fs \<and> k fs = Inr p"
  "rbind (reserved_check rs names) k' = Inr p \<longleftrightarrow> set rs \<inter> set names = {} \<and> k' () = Inr p"
  "rbind (claim_items what overlapping names_of custom items generated) k = Inr p \<longleftrightarrow>
     distinct (concat (map names_of items)) \<and> set (concat (map names_of items)) \<inter> (set generated \<union> set custom) = {}
     \<and> k (generated @ concat (map names_of items)) = Inr p"
  using custom_fields_ok [of "[]" fs] reserved_check_ok [of rs names] claim_items_ok [of what overlapping names_of custom items generated]
  by (auto simp: rbind_Inr)

lemma distinct_parts:
  "distinct rt \<Longrightarrow>
   distinct c \<and> set rt \<inter> set c = {} \<and> distinct i \<and> set i \<inter> (set rt \<union> set c) = {}
   \<and> distinct n \<and> set n \<inter> (set (rt @ i) \<union> set c) = {} \<and> distinct t \<and> set t \<inter> (set ((rt @ i) @ n) \<union> set c) = {}
   \<longleftrightarrow> distinct (rt @ (i @ n @ t) @ c)"
  by (simp only: distinct_append set_append) blast

lemma entity_fields_db:
  "entity_fields (db_entities hk args db_name) = persistable_fields hk args"
  by (simp add: entity_fields_def db_entities_def persistable_fields_def input_entity_def interned_entity_def
      tracked_entity_def input_fields_def [abs_def] interned_field_def [abs_def] tracked_field_def [abs_def] Let_def comp_def)

lemma snapshot_fields_db:
  "snapshot_fields (snapshot_entities hk args name) = persistable_fields hk args"
  by (simp add: snapshot_fields_def snapshot_entities_def persistable_fields_def snapshot_input_entity_def
      snapshot_interned_entity_def snapshot_tracked_entity_def input_fields_def [abs_def] interned_field_def [abs_def]
      tracked_field_def [abs_def] Let_def comp_def)

lemma db_plan_order:
  "dp_fields (db_plan hk args decl) = [''runtime'', ''ingredients''] @ persistable_fields hk args @ map fd_name (sd_fields decl)"
  "entity_fields (dp_entities (db_plan hk args decl)) = persistable_fields hk args"
  "dp_persistable (db_plan hk args decl) = persistable_fields hk args"
  "snapshot_fields (dp_snapshot_entities (db_plan hk args decl)) = persistable_fields hk args"
  by (simp_all add: db_plan_def entity_fields_db snapshot_fields_db custom_field_def comp_def Let_def)

lemma expand_db_accepts:
  assumes "parse_args attr = Inr args" and "sd_generics decl = None"
  shows "expand_db hk attr (Inr decl) = Inr p \<longleftrightarrow>
     distinct (dp_fields (db_plan hk args decl)) \<and> p = db_plan hk args decl"
proof -
  let ?i = "concat (map (input_fields hk) (da_inputs args))" and ?n = "map (interned_field hk) (da_interned args)"
    and ?t = "map (tracked_field hk) (da_tracked args)" and ?rt = "[''runtime'', ''ingredients'']" and ?c = "map fd_name (sd_fields decl)"
  have regs: "persistable_fields hk args = ?i @ ?n @ ?t" by (simp add: persistable_fields_def)
  have single: "concat (map (\<lambda>i. [f i]) xs) = map f xs" for f :: "ItemPath \<Rightarrow> string" and xs by simp
  have run: "expand_db hk attr (Inr decl) = Inr p \<longleftrightarrow> distinct ?c \<and> set ?rt \<inter> set ?c = {}
      \<and> distinct ?i \<and> set ?i \<inter> (set ?rt \<union> set ?c) = {}
      \<and> distinct ?n \<and> set ?n \<inter> (set (?rt @ ?i) \<union> set ?c) = {}
      \<and> distinct ?t \<and> set ?t \<inter> (set ((?rt @ ?i) @ ?n) \<union> set ?c) = {}
      \<and> Inr (db_plan hk args decl) = (Inr p :: string + DbPlan)"
    using assms(2) by (simp only: expand_db_def assms(1) rbind_simps sum.case checks_then single if_False conj_assoc refl not_True_eq_False)
  have "distinct ?rt" by simp
  note parts = distinct_parts [OF this, of ?c ?i ?n ?t, symmetric]
  show ?thesis unfolding run db_plan_order regs parts sum.inject by blast
qed

lemma expand_db_plan:
  assumes "expand_db hk attr (Inr decl) = Inr p"
  obtains args where "parse_args attr = Inr args" and "p = db_plan hk args decl" and "distinct (dp_fields p)"
proof -
  obtain args where args: "parse_args attr = Inr args" using assms by (auto simp: expand_db_def rbind_Inr)
  moreover have "sd_generics decl = None" using assms args by (auto simp: expand_db_def split: if_splits)
  ultimately show ?thesis using assms that by (auto simp: expand_db_accepts)
qed

text \<open>
  C34. For a struct without generics and arguments that parse, the macro accepts the database exactly when
  all fields of the struct it generates have different names. Then the ingredients it constructs and
  registers are those it persists and those of the snapshot, in one order, each of them once.
\<close>
theorem db_accepted_iff_fields_distinct:
  assumes "parse_args attr = Inr args" and "sd_generics decl = None"
  shows "if distinct (dp_fields (db_plan hk args decl))
         then expand_db hk attr (Inr decl) = Inr (db_plan hk args decl)
              \<and> distinct (dp_persistable (db_plan hk args decl))
              \<and> entity_fields (dp_entities (db_plan hk args decl)) = dp_persistable (db_plan hk args decl)
              \<and> snapshot_fields (dp_snapshot_entities (db_plan hk args decl)) = dp_persistable (db_plan hk args decl)
         else (\<exists>e. expand_db hk attr (Inr decl) = Inl e)"
proof (cases "distinct (dp_fields (db_plan hk args decl))")
  case True
  then have "distinct (persistable_fields hk args)" unfolding db_plan_order by (simp only: distinct_append)
  with True show ?thesis by (simp only: db_plan_order expand_db_accepts [OF assms] if_True simp_thms)
next
  case False
  then have "expand_db hk attr (Inr decl) \<noteq> Inr p" for p unfolding expand_db_accepts [OF assms] by blast
  then have "\<exists>e. expand_db hk attr (Inr decl) = Inl e" by (cases "expand_db hk attr (Inr decl)") auto
  with False show ?thesis by (simp only: if_False)
qed

subsection \<open>The generated database refers to what the other macros generate\<close>

text \<open>The names of the exports in the module of the item's path.\<close>

definition refers_to :: "ItemPath \<Rightarrow> Exports \<Rightarrow> GenEntity \<Rightarrow> bool" where
  "refers_to i ex e \<longleftrightarrow>
     ge_trait e = qualify i (ex_trait ex)
     \<and> list_all2 (\<lambda>x f. gf_type f = qualify i (ii_type x) \<and> gf_make f = qualify i (ii_make x) \<and> gf_method f = ii_method x)
         (ex_items ex) (ge_fields e)"

text \<open>The snapshot has, for an entity of the database, the same trait, types and accessors.\<close>

definition mirrors :: "GenEntity \<Rightarrow> SnapEntity \<Rightarrow> bool" where
  "mirrors e s \<longleftrightarrow>
     ge_trait e = se_trait s
     \<and> list_all2 (\<lambda>f g. gf_field f = sn_field g \<and> gf_type f = sn_type g \<and> gf_method f = sn_method g
          \<and> (case sn_init g of DeepCells mk \<Rightarrow> mk = gf_make f | _ \<Rightarrow> gf_param f = None))
         (ge_fields e) (se_fields s)"

lemma entities_refer:
  "refers_to i (input_exports hk (ip_name i)) (input_entity hk i)"
  "refers_to i (interned_exports hk (ip_name i)) (interned_entity hk i)"
  "refers_to i (tracked_exports hk (ip_name i)) (tracked_entity hk db_name i)"
  by (simp_all add: refers_to_def input_exports_def interned_exports_def tracked_exports_def input_entity_def
      interned_entity_def tracked_entity_def Let_def)

lemma entities_mirror:
  "mirrors (input_entity hk i) (snapshot_input_entity hk i)"
  "mirrors (interned_entity hk i) (snapshot_interned_entity hk i)"
  "mirrors (tracked_entity hk db_name i) (snapshot_tracked_entity hk name i)"
  by (simp_all add: mirrors_def input_entity_def interned_entity_def tracked_entity_def snapshot_input_entity_def
      snapshot_interned_entity_def snapshot_tracked_entity_def Let_def)

text \<open>
  C35. The database and its snapshot fit what the item macros generate: every ingredient of the plan names the
  trait, the type, the constructor and the accessor that the input, interned or tracked macro exports for the
  item, under the path of the item; and the snapshot implements every bound of the combined trait, with
  the same accessors and types, so a query written against the trait runs on both.
\<close>
theorem db_refers_to_exports:
  "list_all2 (\<lambda>(i, ex) e. refers_to i ex e)
     (map (\<lambda>i. (i, input_exports hk (ip_name i))) (da_inputs args)
      @ map (\<lambda>i. (i, interned_exports hk (ip_name i))) (da_interned args)
      @ map (\<lambda>i. (i, tracked_exports hk (ip_name i))) (da_tracked args))
     (dp_entities (db_plan hk args decl))
   \<and> list_all2 mirrors (dp_entities (db_plan hk args decl)) (dp_snapshot_entities (db_plan hk args decl))
   \<and> dp_trait_bounds (db_plan hk args decl) = map se_trait (dp_snapshot_entities (db_plan hk args decl))"
proof -
  have traits: "list_all2 mirrors es ss \<Longrightarrow> map ge_trait es = map se_trait ss" for es ss
    by (induction rule: list_all2_induct) (simp_all add: mirrors_def)
  have mirror: "list_all2 mirrors (db_entities hk args n) (snapshot_entities hk args m)" for n m
    unfolding db_entities_def snapshot_entities_def
    by (intro list_all2_appendI) (simp_all add: list_all2_map1 list_all2_map2 list.rel_refl entities_mirror)
  then show ?thesis
    using traits [OF mirror, of "sd_name decl" "sd_name decl @ ''Snapshot''"]
    by (auto simp: db_plan_def Let_def db_entities_def list_all2_map1 list_all2_map2 entities_refer
        intro!: list_all2_appendI list.rel_refl)
qed

subsection \<open>A sample database\<close>

definition sample_case :: case_conversions where
  "sample_case = \<lparr>to_snake_case = (\<lambda>s. if s = ''Text'' then ''text'' else s), to_upper_camel_case = (\<lambda>s. s)\<rparr>"

definition sample_db :: "string list \<Rightarrow> StructDecl" where
  "sample_db fs = \<lparr>sd_attributes = None, sd_vis = True, sd_name = ''Db'', sd_generics = None,
     sd_fields = map (\<lambda>f. \<lparr>fd_attributes = None, fd_vis = False, fd_name = f, fd_typ = [Ident ''u8'']\<rparr>) fs\<rparr>"

text \<open>\<open>inputs(Text), tracked(len, text)\<close>, and a custom field that clashes with the second query.\<close>

theorem db_accepted_iff_fields_distinct_witness:
  "let attr = [Ident ''inputs'', Group Parenthesis [Ident ''Text''], comma,
               Ident ''tracked'', Group Parenthesis [Ident ''len'', comma, Ident ''text'']]
   in (\<exists>plan. expand_db sample_case attr (Inr (sample_db [''log''])) = Inr plan)
      \<and> (\<exists>e. expand_db sample_case attr (Inr (sample_db [''text''])) = Inl e)"
proof -
  let ?attr = "[Ident ''inputs'', Group Parenthesis [Ident ''Text''], comma,
               Ident ''tracked'', Group Parenthesis [Ident ''len'', comma, Ident ''text'']]"
  let ?args = "default_args\<lparr>da_inputs := [\<lparr>ip_prefix = [], ip_name = ''Text''\<rparr>],
      da_tracked := [\<lparr>ip_prefix = [], ip_name = ''len''\<rparr>, \<lparr>ip_prefix = [], ip_name = ''text''\<rparr>]\<rparr>"
  have args: "parse_args ?attr = Inr ?args"
    by (simp add: parse_args_def parse_list_def finish_item_def item_path_parse_def normalize_tokens_def is_whitespace_def
        add_items_def skip_comma_def default_args_def Let_def)
  note accepted = db_accepted_iff_fields_distinct [OF args, where hk = sample_case]
  have fields: "dp_fields (db_plan sample_case ?args (sample_db fs)) =
      [''runtime'', ''ingredients'', ''text_keys_ingredient'', ''text_data_ingredient'', ''len'', ''text''] @ fs" for fs
    by (simp add: db_plan_order persistable_fields_def input_fields_def tracked_field_def snake_ident_def sample_case_def
        sample_db_def default_args_def comp_def)
  show ?thesis
    using accepted [of "sample_db [''log'']"] accepted [of "sample_db [''text'']"]
    unfolding fields Let_def by (simp add: sample_db_def)
qed

end
