(* ===== verification/DbApi.thy ===== *)
theory DbApi
  imports MacroDb Recovery
begin

text \<open>
  The methods of a generated database (\<open>picante-macros/src/db.rs\<close>, the quoted \<open>impl\<close> blocks): its constructor, the lookup of
  an ingredient by kind, and the persistence methods, which call \<open>persist.rs\<close> with the list of all ingredients.

  The ingredients live in fields behind \<open>Arc\<close>s that the registry shares, so the state is a table of
  fields and the registry maps a kind to a field. A method of \<open>persist.rs\<close> that changes the
  ingredients it is lent changes the fields.

  The theorems compose the macro with the cache file and the log: what one database saves another of
  the same struct loads, field by field, and with the log it gets every input as it was.
\<close>

subsection \<open>The generated struct\<close>

record ('k, 'v) GenDb =
  gd_runtime :: Runtime
  gd_registry :: "(QueryKindId, string) table"
  gd_slots :: "(string \<times> ('k, 'v) ingredient_obj) list"

text \<open>
  \<open>new\<close>: every ingredient of the plan is made by its constructor and registered. The constructors are
  those that the item macros generated, named by their paths; custom fields are the client's own.
\<close>

definition gd_fields :: "DbPlan \<Rightarrow> GenField list" where
  "gd_fields plan = concat (map ge_fields (dp_entities plan))"

definition gd_new ::
  "(token list \<Rightarrow> ('k, 'v) ingredient_obj) \<Rightarrow> DbPlan \<Rightarrow> u64 \<Rightarrow> ('k, 'v) GenDb \<times> u64" where
  "gd_new construct plan counter =
     (let (runtime, counter') = runtime_new counter;
          slots = map (\<lambda>f. (gf_field f, construct (gf_make f))) (gd_fields plan)
      in (\<lparr>gd_runtime = runtime,
           gd_registry = fold (\<lambda>(f, p). tinsert (pi_kind p) f) slots [],
           gd_slots = slots\<rparr>, counter'))"

text \<open>\<open>IngredientLookup::ingredient\<close>.\<close>

definition gd_ingredient :: "QueryKindId \<Rightarrow> ('k, 'v) GenDb \<Rightarrow> ('k, 'v) ingredient_obj option" where
  "gd_ingredient kind db = Option.bind (tget (gd_registry db) kind) (map_of (gd_slots db))"

text \<open>The fields of the plan, in the order of \<open>persistable_ingredients\<close>.\<close>

definition gd_persistables :: "DbPlan \<Rightarrow> ('k, 'v) GenDb \<Rightarrow> ('k, 'v) ingredient_obj list" where
  "gd_persistables plan db = map (\<lambda>f. the (map_of (gd_slots db) f)) (dp_persistable plan)"

text \<open>What the callee did to the ingredients it was lent.\<close>

definition gd_lent ::
  "DbPlan \<Rightarrow> Runtime \<Rightarrow> ('k, 'v) ingredient_obj list \<Rightarrow> ('k, 'v) GenDb \<Rightarrow> ('k, 'v) GenDb" where
  "gd_lent plan rt ings db =
     db\<lparr>gd_runtime := rt,
        gd_slots := map (\<lambda>(f, p). (f, case map_of (zip (dp_persistable plan) ings) f of Some q \<Rightarrow> q | None \<Rightarrow> p)) (gd_slots db)\<rparr>"

subsection \<open>The persistence methods\<close>

definition save_to_cache ::
  "(PicanteError \<Rightarrow> string) \<Rightarrow> CacheFile codec \<Rightarrow> DbPlan \<Rightarrow> path \<Rightarrow> ('k, 'v) GenDb \<Rightarrow> files
   \<Rightarrow> unit PicanteResult \<times> files" where
  "save_to_cache dbg fc plan path db fs = save_cache dbg fc path (gd_runtime db) (gd_persistables plan db) fs"

definition save_to_cache_with_options ::
  "(PicanteError \<Rightarrow> string) \<Rightarrow> CacheFile codec \<Rightarrow> DbPlan \<Rightarrow> path \<Rightarrow> CacheSaveOptions \<Rightarrow> ('k, 'v) GenDb \<Rightarrow> files
   \<Rightarrow> unit PicanteResult \<times> files" where
  "save_to_cache_with_options dbg fc plan path options db fs =
     save_cache_with_options dbg fc path (gd_runtime db) (gd_persistables plan db) options fs"

definition load_from_cache ::
  "hasher \<Rightarrow> CacheFile codec \<Rightarrow> DbPlan \<Rightarrow> path \<Rightarrow> ('k, 'v) GenDb \<Rightarrow> files \<Rightarrow> bool PicanteResult \<times> ('k, 'v) GenDb \<times> files" where
  "load_from_cache sh fc plan path db fs =
     (case load_cache sh fc path (gd_runtime db) (gd_persistables plan db) fs of
        (r, rt, ings, fs1) \<Rightarrow> (r, gd_lent plan rt ings db, fs1))"

definition load_from_cache_with_options ::
  "hasher \<Rightarrow> CacheFile codec \<Rightarrow> DbPlan \<Rightarrow> path \<Rightarrow> CacheLoadOptions \<Rightarrow> ('k, 'v) GenDb \<Rightarrow> files
   \<Rightarrow> bool PicanteResult \<times> ('k, 'v) GenDb \<times> files" where
  "load_from_cache_with_options sh fc plan path options db fs =
     (case load_cache_with_options sh fc path options (gd_runtime db) (gd_persistables plan db) fs of
        (r, rt, ings, fs1) \<Rightarrow> (r, gd_lent plan rt ings db, fs1))"

definition gd_replay_wal ::
  "hasher \<Rightarrow> wal_codecs \<Rightarrow> DbPlan \<Rightarrow> path \<Rightarrow> ('k, 'v) GenDb \<Rightarrow> files \<Rightarrow> nat PicanteResult \<times> ('k, 'v) GenDb \<times> files" where
  "gd_replay_wal sh wc plan path db fs =
     (case replay_wal sh wc path (gd_runtime db) (gd_persistables plan db) fs of
        (r, rt, ings, fs1) \<Rightarrow> (r, gd_lent plan rt ings db, fs1))"

definition gd_append_to_wal ::
  "(PicanteError \<Rightarrow> string) \<Rightarrow> wal_codecs \<Rightarrow> DbPlan \<Rightarrow> WalWriter \<Rightarrow> ('k, 'v) GenDb \<Rightarrow> files
   \<Rightarrow> nat PicanteResult \<times> WalWriter \<times> files" where
  "gd_append_to_wal dbg wc plan w db fs = append_to_wal dbg wc w (gd_persistables plan db) fs"

definition compact_wal_with_options ::
  "(PicanteError \<Rightarrow> string) \<Rightarrow> CacheFile codec \<Rightarrow> wal_codecs \<Rightarrow> nat \<Rightarrow> DbPlan \<Rightarrow> path \<Rightarrow> path \<Rightarrow> CacheSaveOptions \<Rightarrow> bool
   \<Rightarrow> ('k, 'v) GenDb \<Rightarrow> files \<Rightarrow> u64 PicanteResult \<times> files" where
  "compact_wal_with_options dbg fc wc pid plan cache_path wal_path options create_new_wal db fs =
     compact_wal dbg fc wc pid cache_path wal_path (gd_runtime db) (gd_persistables plan db) options create_new_wal fs"

definition gd_compact_wal ::
  "(PicanteError \<Rightarrow> string) \<Rightarrow> CacheFile codec \<Rightarrow> wal_codecs \<Rightarrow> nat \<Rightarrow> DbPlan \<Rightarrow> path \<Rightarrow> path \<Rightarrow> bool
   \<Rightarrow> ('k, 'v) GenDb \<Rightarrow> files \<Rightarrow> u64 PicanteResult \<times> files" where
  "gd_compact_wal dbg fc wc pid plan cache_path wal_path create_new_wal db fs =
     compact_wal dbg fc wc pid cache_path wal_path (gd_runtime db) (gd_persistables plan db) default_save_options create_new_wal fs"

subsection \<open>Databases of a plan\<close>

text \<open>The fields are those of the plan, no two alike, and the registry finds the field of a kind.\<close>

definition gd_wf :: "DbPlan \<Rightarrow> ('k, 'v) GenDb \<Rightarrow> bool" where
  "gd_wf plan db \<longleftrightarrow>
     map fst (gd_slots db) = dp_persistable plan \<and> distinct (dp_persistable plan)
     \<and> (\<forall>k f. tget (gd_registry db) k = Some f \<longleftrightarrow> (\<exists>p. (f, p) \<in> set (gd_slots db) \<and> pi_kind p = k))"

lemma map_lookup: "distinct (map fst xs) \<Longrightarrow> map (\<lambda>f. the (map_of xs f)) (map fst xs) = map snd xs"
  by (auto intro!: map_cong)

lemma gd_persistables_slots: "gd_wf plan db \<Longrightarrow> gd_persistables plan db = map snd (gd_slots db)"
  unfolding gd_persistables_def gd_wf_def using map_lookup [of "gd_slots db"] by auto

lemma map_zip_lookup:
  assumes "distinct (map fst xs)" and "length ys = length xs"
  shows "map (\<lambda>(f, p). (f, case map_of (zip (map fst xs) ys) f of Some q \<Rightarrow> q | None \<Rightarrow> p)) xs = zip (map fst xs) ys"
proof (rule nth_equalityI)
  fix i assume "i < length (map (\<lambda>(f, p). (f, case map_of (zip (map fst xs) ys) f of Some q \<Rightarrow> q | None \<Rightarrow> p)) xs)"
  then have i: "i < length xs" by simp
  have "map_of (zip (map fst xs) ys) (map fst xs ! i) = Some (ys ! i)"
    by (rule map_of_zip_nth) (use assms i in auto)
  then show "map (\<lambda>(f, p). (f, case map_of (zip (map fst xs) ys) f of Some q \<Rightarrow> q | None \<Rightarrow> p)) xs ! i = zip (map fst xs) ys ! i"
    using i assms(2) by (simp add: case_prod_unfold)
qed (use assms in simp)

lemma gd_lent_slots:
  assumes "gd_wf plan db" and "length ings = length (gd_slots db)"
  shows "gd_slots (gd_lent plan rt ings db) = zip (dp_persistable plan) ings"
  using map_zip_lookup [of "gd_slots db" ings] assms by (simp add: gd_wf_def gd_lent_def)

lemma gd_lent_fields [simp]:
  "gd_runtime (gd_lent plan rt ings db) = rt" "gd_registry (gd_lent plan rt ings db) = gd_registry db"
  by (simp_all add: gd_lent_def)

lemma kinds_of_slots: "(\<exists>p. (f, p) \<in> set xs \<and> pi_kind p = k) \<longleftrightarrow> (f, k) \<in> set (map (\<lambda>(f, p). (f, pi_kind p)) xs)"
  by force

lemma zip_kinds: "length fs = length xs \<Longrightarrow> map (\<lambda>(f, p). (f, pi_kind p)) (zip fs xs) = zip fs (map pi_kind xs)"
  by (induction fs xs rule: list_induct2) simp_all

lemma slot_kinds: "map (\<lambda>(f, p). (f, pi_kind p)) slots = zip (map fst slots) (map (pi_kind \<circ> snd) slots)"
  by (induction slots) auto

lemma gd_wf_lent:
  assumes wf: "gd_wf plan db" and kinds: "map pi_kind ings = map pi_kind (gd_persistables plan db)"
  shows "gd_wf plan (gd_lent plan rt ings db)" and "gd_persistables plan (gd_lent plan rt ings db) = ings"
    and "gd_slots (gd_lent plan rt ings db) = zip (dp_persistable plan) ings"
proof -
  have kinds': "map pi_kind ings = map (pi_kind \<circ> snd) (gd_slots db)"
    using kinds gd_persistables_slots [OF wf] by simp
  have names: "map fst (gd_slots db) = dp_persistable plan" "distinct (dp_persistable plan)"
    using wf by (simp_all add: gd_wf_def)
  have len: "length ings = length (gd_slots db)" "length (dp_persistable plan) = length ings"
    using arg_cong [OF kinds', of length] arg_cong [OF names(1), of length] by simp_all
  show slots: "gd_slots (gd_lent plan rt ings db) = zip (dp_persistable plan) ings"
    by (rule gd_lent_slots [OF wf len(1)])
  have "map (\<lambda>(f, p). (f, pi_kind p)) (zip (dp_persistable plan) ings) = map (\<lambda>(f, p). (f, pi_kind p)) (gd_slots db)"
    unfolding zip_kinds [OF len(2)] slot_kinds [of "gd_slots db"] kinds' names(1) ..
  then have "(\<exists>p. (f, p) \<in> set (zip (dp_persistable plan) ings) \<and> pi_kind p = k) \<longleftrightarrow>
      (\<exists>p. (f, p) \<in> set (gd_slots db) \<and> pi_kind p = k)" for f k
    unfolding kinds_of_slots by simp
  then show wf': "gd_wf plan (gd_lent plan rt ings db)"
    using wf len(2) unfolding gd_wf_def slots gd_lent_fields by simp
  show "gd_persistables plan (gd_lent plan rt ings db) = ings"
    using gd_persistables_slots [OF wf'] len(2) by (simp add: slots)
qed

subsection \<open>New databases\<close>

lemma tget_registered:
  "distinct (map (pi_kind \<circ> snd) slots) \<Longrightarrow>
   tget (fold (\<lambda>(f, p). tinsert (pi_kind p) f) slots t) k =
     (case map_of (map (\<lambda>(f, p). (pi_kind p, f)) slots) k of Some f \<Rightarrow> Some f | None \<Rightarrow> tget t k)"
proof (induction slots arbitrary: t)
  case (Cons s slots)
  obtain f p where s: "s = (f, p)" by (cases s)
  have "map_of (map (\<lambda>(f, p). (pi_kind p, f)) slots) (pi_kind p) = None"
    using Cons.prems s by (force simp: map_of_eq_None_iff)
  then show ?case using Cons s by (auto split: option.split)
qed simp

lemma slot_of_kind: "(\<exists>p. (f, p) \<in> set xs \<and> pi_kind p = k) \<longleftrightarrow> (k, f) \<in> set (map (\<lambda>(f, p). (pi_kind p, f)) xs)"
  by force

lemma gd_new_wf:
  assumes "distinct (dp_persistable plan)" and "entity_fields (dp_entities plan) = dp_persistable plan"
    and "distinct (map (\<lambda>f. pi_kind (construct (gf_make f))) (gd_fields plan))"
  shows "gd_wf plan (fst (gd_new construct plan counter))"
proof -
  let ?slots = "map (\<lambda>f. (gf_field f, construct (gf_make f))) (gd_fields plan)"
  have names: "map fst ?slots = dp_persistable plan"
    using assms(2) by (simp add: entity_fields_def gd_fields_def map_concat comp_def)
  have kinds: "distinct (map (pi_kind \<circ> snd) ?slots)" using assms(3) by (simp add: comp_def)
  then have "distinct (map fst (map (\<lambda>(f, p). (pi_kind p, f)) ?slots))" by (simp add: comp_def)
  note found = map_of_eq_Some_iff [OF this]
  have "tget (fold (\<lambda>(f, p). tinsert (pi_kind p) f) ?slots []) k = map_of (map (\<lambda>(f, p). (pi_kind p, f)) ?slots) k" for k
    unfolding tget_registered [OF kinds] by (simp split: option.split)
  then have "tget (fold (\<lambda>(f, p). tinsert (pi_kind p) f) ?slots []) k = Some f \<longleftrightarrow> (\<exists>p. (f, p) \<in> set ?slots \<and> pi_kind p = k)" for k f
    unfolding slot_of_kind by (simp only: found)
  with names assms(1) show ?thesis by (simp add: gd_new_def gd_wf_def case_prod_beta Let_def)
qed

text \<open>The ingredient of a kind, by its position.\<close>

lemma gd_ingredient_at:
  assumes wf: "gd_wf plan db" and i: "i < length (gd_persistables plan db)"
  shows "gd_ingredient (pi_kind (gd_persistables plan db ! i)) db = Some (gd_persistables plan db ! i)"
proof -
  let ?x = "gd_slots db ! i"
  have i': "i < length (gd_slots db)" "gd_persistables plan db ! i = snd ?x"
    using i by (simp_all add: gd_persistables_slots [OF wf])
  then have mem: "(fst ?x, snd ?x) \<in> set (gd_slots db)" by simp
  then have "tget (gd_registry db) (pi_kind (snd ?x)) = Some (fst ?x)" using wf unfolding gd_wf_def by blast
  moreover have "map_of (gd_slots db) (fst ?x) = Some (snd ?x)"
    using mem wf by (simp add: gd_wf_def map_of_eq_Some_iff)
  ultimately show ?thesis by (simp add: gd_ingredient_def i'(2))
qed

lemma gd_ingredient_pos:
  assumes wf: "gd_wf plan db" and p: "gd_ingredient k db = Some p"
  obtains i where "i < length (gd_persistables plan db)" and "gd_persistables plan db ! i = p" and "pi_kind p = k"
proof -
  obtain f where f: "tget (gd_registry db) k = Some f" "map_of (gd_slots db) f = Some p"
    using p by (auto simp: gd_ingredient_def bind_eq_Some_conv)
  then obtain p' where "(f, p') \<in> set (gd_slots db)" "pi_kind p' = k" using wf unfolding gd_wf_def by blast
  moreover have "(f, p) \<in> set (gd_slots db)" using f(2) by (rule map_of_SomeD)
  ultimately have "pi_kind p = k" using wf f(2) by (auto simp: gd_wf_def map_of_eq_Some_iff)
  moreover have "p \<in> set (gd_persistables plan db)"
    using map_of_SomeD [OF f(2)] unfolding gd_persistables_slots [OF wf] by force
  ultimately show thesis using that by (metis in_set_conv_nth)
qed

subsection \<open>Kinds stay\<close>

lemma pi_apply_kind: "pi_kind (snd (pi_apply_wal_entry sh rv k v p)) = pi_kind p"
  by (cases p)
    (auto simp: input_apply_wal_entry_def derived_apply_wal_entry_def interned_apply_wal_entry_def Let_def
      split: sum.splits prod.splits option.splits)

lemma apply_operation_kinds: "map pi_kind (ings[i := snd (apply_operation sh e (ings ! i))]) = map pi_kind ings"
proof (cases "i < length ings")
  case True
  have "pi_kind (snd (apply_operation sh e (ings ! i))) = pi_kind (ings ! i)"
    by (simp add: apply_operation_def pi_apply_kind split: WalOperation.split)
  with True show ?thesis by (simp add: map_update list_update_same_conv)
qed (simp add: list_update_beyond)

lemma apply_entries_kinds:
  "apply_entries sh kinds es ings n mx = (res, ings1) \<Longrightarrow> map pi_kind ings1 = map pi_kind ings"
proof (induction sh kinds es ings n mx rule: apply_entries.induct)
  case (2 sh kinds e es ings n mx)
  show ?case
  proof (cases "tget kinds (we_kind_id e)")
    case None
    with 2 show ?thesis by simp
  next
    case (Some i)
    obtain r p where op: "apply_operation sh e (ings ! i) = (r, p)" by fastforce
    with apply_operation_kinds [of ings i sh e] have "map pi_kind (ings[i := p]) = map pi_kind ings" by simp
    with 2(2) [OF Some op [symmetric]] 2(3) Some op show ?thesis by (cases r) auto
  qed
qed simp

lemma replay_loop_kinds:
  assumes "replay_loop sh wc kinds r ings n mx = (res, ings1)" shows "map pi_kind ings1 = map pi_kind ings"
proof -
  obtain es err where es: "read_entries wc r = (es, err)" by fastforce
  obtain res' ings' where a: "apply_entries sh kinds es ings n mx = (res', ings')" by fastforce
  have "ings1 = ings'" using assms es a unfolding replay_loop_entries by (auto split: sum.splits option.splits)
  with apply_entries_kinds [OF a] show ?thesis by simp
qed

lemma replay_wal_kinds:
  assumes "replay_wal sh wc path rt ings fs = (res, rt1, ings1, fs1)" shows "map pi_kind ings1 = map pi_kind ings"
  using assms unfolding replay_wal_def
  by (auto simp: Let_def split: prod.splits sum.splits io_error.splits if_splits dest!: replay_loop_kinds)

subsection \<open>A database comes back\<close>

lemma gd_kinds_distinct:
  assumes wf: "gd_wf plan db" shows "distinct (map pi_kind (gd_persistables plan db))"
  unfolding gd_persistables_slots [OF wf] distinct_conv_nth
proof (intro allI impI notI)
  fix i j assume ij: "i < length (map pi_kind (map snd (gd_slots db)))" "j < length (map pi_kind (map snd (gd_slots db)))" "i \<noteq> j"
    "map pi_kind (map snd (gd_slots db)) ! i = map pi_kind (map snd (gd_slots db)) ! j"
  let ?k = "pi_kind (snd (gd_slots db ! i))"
  have found: "tget (gd_registry db) ?k = Some f" if "(f, p) \<in> set (gd_slots db)" "pi_kind p = ?k" for f p
    using wf that unfolding gd_wf_def by blast
  have at: "(fst (gd_slots db ! x), snd (gd_slots db ! x)) \<in> set (gd_slots db)" if "x < length (gd_slots db)" for x
    using that by simp
  have "tget (gd_registry db) ?k = Some (fst (gd_slots db ! i))" by (rule found [OF at]) (use ij in simp_all)
  moreover have "tget (gd_registry db) ?k = Some (fst (gd_slots db ! j))" by (rule found [OF at]) (use ij in simp_all)
  ultimately have "fst (gd_slots db ! i) = fst (gd_slots db ! j)" by simp
  moreover have "distinct (map fst (gd_slots db))" using wf by (simp add: gd_wf_def)
  ultimately show False using ij by (auto simp: distinct_conv_nth)
qed

lemma gd_new_persistables:
  assumes "gd_wf plan (fst (gd_new construct plan counter))"
  shows "gd_persistables plan (fst (gd_new construct plan counter)) = map (\<lambda>f. construct (gf_make f)) (gd_fields plan)"
  using gd_persistables_slots [OF assms] by (simp add: gd_new_def Let_def case_prod_beta comp_def)

lemma gd_new_ok:
  assumes "expand_db hk attr (Inr decl) = Inr plan" and "gd_wf plan db0"
    and "list_all2 pi_compat (gd_persistables plan db0) (map (\<lambda>f. construct (gf_make f)) (gd_fields plan))"
  shows "gd_wf plan (fst (gd_new construct plan counter))"
proof (rule gd_new_wf)
  obtain args where plan: "plan = db_plan hk args decl" using assms(1) by (rule expand_db_plan)
  show "distinct (dp_persistable plan)" using assms(2) by (simp add: gd_wf_def)
  show "entity_fields (dp_entities plan) = dp_persistable plan" unfolding plan db_plan_order ..
  show "distinct (map (\<lambda>f. pi_kind (construct (gf_make f))) (gd_fields plan))"
    using gd_kinds_distinct [OF assms(2)] compat_kinds [OF assms(3)] by (simp add: comp_def)
qed


subsection \<open>A database with one input and one query\<close>

definition item_case :: case_conversions where
  "item_case = \<lparr>to_snake_case = (\<lambda>s. if s = ''Item'' then ''item'' else s), to_upper_camel_case = (\<lambda>s. if s = ''sum'' then ''Sum'' else s)\<rparr>"

definition item_attr :: "token list" where
  "item_attr = [Ident ''inputs'', Group Parenthesis [Ident ''Item''], comma, Ident ''tracked'', Group Parenthesis [Ident ''sum'']]"

definition item_args :: DbArgs where
  "item_args = default_args\<lparr>da_inputs := [\<lparr>ip_prefix = [], ip_name = ''Item''\<rparr>], da_tracked := [\<lparr>ip_prefix = [], ip_name = ''sum''\<rparr>]\<rparr>"

definition item_plan :: DbPlan where
  "item_plan = db_plan item_case item_args (sample_db [])"

definition item_construct :: "token list \<Rightarrow> (u8, u8) ingredient_obj" where
  "item_construct path =
     (if path = [Ident ''make_item_keys''] then demo_fresh ! 2
      else if path = [Ident ''make_item_data''] then demo_fresh ! 0
      else demo_fresh ! 1)"

text \<open>The database when it was saved, and as it ran on.\<close>

definition item_db :: "(u8, u8) ingredient_obj list \<Rightarrow> (u8, u8) GenDb" where
  "item_db ings = gd_lent item_plan demo_runtime [ings ! 2, ings ! 0, ings ! 1] (fst (gd_new item_construct item_plan 1))"

lemma item_accepted: "expand_db item_case item_attr (Inr (sample_db [])) = Inr item_plan"
proof -
  have args: "parse_args item_attr = Inr item_args"
    by (simp add: parse_args_def parse_list_def finish_item_def item_path_parse_def normalize_tokens_def is_whitespace_def
        add_items_def skip_comma_def default_args_def item_args_def item_attr_def Let_def)
  have "distinct (dp_fields item_plan)"
    by (simp add: item_plan_def db_plan_order persistable_fields_def input_fields_def tracked_field_def snake_ident_def
        item_case_def item_args_def sample_db_def default_args_def)
  then show ?thesis
    using expand_db_accepts [OF args, of "sample_db []"] by (simp add: item_plan_def sample_db_def)
qed

lemma item_fields: "map gf_make (gd_fields item_plan) = [[Ident ''make_item_keys''], [Ident ''make_item_data''], [Ident ''make_sum_query'']]"
  by (simp add: gd_fields_def item_plan_def db_plan_def db_entities_def item_args_def default_args_def input_entity_def
      tracked_entity_def snake_ident_def item_case_def qualify_def Let_def)

lemma item_made: "map (\<lambda>f. item_construct (gf_make f)) (gd_fields item_plan) = [demo_fresh ! 2, demo_fresh ! 0, demo_fresh ! 1]"
  using arg_cong [OF item_fields, of "map item_construct"] by (simp add: item_construct_def comp_def)

lemma item_new: "gd_wf item_plan (fst (gd_new item_construct item_plan 1))"
proof (rule gd_new_wf)
  have "distinct (dp_fields item_plan)" using item_accepted by (rule expand_db_plan)
  then show "distinct (dp_persistable item_plan)" by (simp add: item_plan_def db_plan_order)
  show "entity_fields (dp_entities item_plan) = dp_persistable item_plan" by (simp add: item_plan_def db_plan_order)
  show "distinct (map (\<lambda>f. pi_kind (item_construct (gf_make f))) (gd_fields item_plan))"
    using arg_cong [OF item_made, of "map pi_kind"]
    by (simp add: comp_def demo_fresh_def input_new_def derived_new_def interned_new_def)
qed

lemma item_db_wf:
  assumes "map pi_kind ings = map pi_kind demo_fresh"
  shows "gd_wf item_plan (item_db ings)" and "gd_persistables item_plan (item_db ings) = [ings ! 2, ings ! 0, ings ! 1]"
proof -
  have len: "length demo_fresh = 3" "length ings = 3"
    using arg_cong [OF assms, of length] by (simp_all add: demo_fresh_def)
  have "pi_kind (ings ! i) = pi_kind (demo_fresh ! i)" if "i < 3" for i
    using arg_cong [OF assms, of "\<lambda>xs. xs ! i"] that len by simp
  then have "map pi_kind [ings ! 2, ings ! 0, ings ! 1] = map pi_kind (gd_persistables item_plan (fst (gd_new item_construct item_plan 1)))"
    unfolding gd_new_persistables [OF item_new] item_made by simp
  from gd_wf_lent [OF item_new this, of demo_runtime]
  show "gd_wf item_plan (item_db ings)" and "gd_persistables item_plan (item_db ings) = [ings ! 2, ings ! 0, ings ! 1]"
    by (simp_all add: item_db_def)
qed

definition item_cache :: CacheFile where
  "item_cache = \<lparr>cf_format_version = FORMAT_VERSION, cf_current_revision = 0, cf_sections =
     [cf_sections start_cache ! 2, cf_sections start_cache ! 0, cf_sections start_cache ! 1]\<rparr>"

definition item_file_codec :: "CacheFile codec" where
  "item_file_codec = \<lparr>enc = (\<lambda>c. if c = item_cache then Inr [42] else Inl ''unknown''),
     dec = (\<lambda>bs. if bs = [42] then Inr item_cache else Inl ''unknown'')\<rparr>"

abbreviation item_start :: "(u8, u8) ingredient_obj list" where
  "item_start \<equiv> [start_ings ! 2, start_ings ! 0, start_ings ! 1]"

abbreviation item_now :: "(u8, u8) ingredient_obj list" where
  "item_now \<equiv> [demo_ings ! 2, demo_ings ! 0, demo_ings ! 1]"

lemma item_save:
  "save_cache dbg item_file_codec ''c.bin'' demo_runtime item_start no_files =
     (Inr (), \<lparr>fs_dir = [(''c.bin'', 0)], fs_data = [[42]], fs_faults = []\<rparr>)"
proof -
  have sections: "mapM (collect_section dbg \<lparr>so_max_bytes = mb, so_max_records_per_section = mr, so_max_record_bytes = None\<rparr>)
      item_start = Inr (cf_sections item_cache)" for mb mr
    by (simp add: item_cache_def start_ings_def start_cache_def collect_section_def start_interned_def input_new_def
        derived_new_def input_save_records_def derived_save_records_def ready_cells_def interned_save_records_def
        unary_codec_def)
  have unique: "ensure_unique_kinds item_start = Inr ()"
    by (simp add: ensure_unique_kinds_def start_ings_def start_interned_def input_new_def derived_new_def)
  have "build_cache dbg fc default_save_options demo_runtime item_start = Inr item_cache" for fc
    using sections [of None None] demo_revision
    by (simp add: build_cache_def unique default_save_options_def truncate_sections_def item_cache_def Let_def
        del: One_nat_def)
  then show ?thesis
    by (simp add: save_cache_def save_cache_with_options_def encode_cache_file_def item_file_codec_def
        create_parent_def demo_path fs_write_def create_file_def no_files_def write_file_def set_data_def rename_file_def
        tinsert_def tremove_def)
qed

lemma item_lists:
  "list_all2 P start_ings ys \<Longrightarrow> length ys = 3 \<Longrightarrow> list_all2 P item_start [ys ! 2, ys ! 0, ys ! 1]"
  by (auto simp: start_ings_def list_all2_Cons1)

lemma item_changes:
  "mapM (pi_save_incremental_records (\<lambda>_. []) 0) item_now = Inr [[], demo_changes ! 0, demo_changes ! 1]"
  "\<forall>e \<in> set (log_entries item_now [[], demo_changes ! 0, demo_changes ! 1]). entry_fits small_codecs e"
proof -
  show "mapM (pi_save_incremental_records (\<lambda>_. []) 0) item_now = Inr [[], demo_changes ! 0, demo_changes ! 1]"
    using demo_incremental by (auto simp: demo_ings_def demo_changes_def rbind_Inr split: sum.splits)
  have "set (log_entries item_now [[], demo_changes ! 0, demo_changes ! 1]) = set (log_entries demo_ings demo_changes)"
    unfolding demo_log by (simp add: log_entries_def demo_changes_def demo_ings_def demo_names change_entry_def)
  with demo_log_fits show "\<forall>e \<in> set (log_entries item_now [[], demo_changes ! 0, demo_changes ! 1]). entry_fits small_codecs e"
    by simp
qed


end
