(* ===== verification/Termination.thy ===== *)
theory Termination
  imports Consistency
begin

text \<open>
  Every access ends: whatever the query functions do (fail, panic, call each other in cycles, change their mind),
  an access of a database with finitely many reachable queries returns a result or an error, or waits for a
  notification, after at most one round for each query. The loop of the code has no bound of its
  own; what bounds it is the cycle check against the stack of the task, and that a computation in
  progress is left alone by the accesses nested in it, so that a round never has to be repeated.
\<close>

subsection \<open>Finitely many queries\<close>

record 'v queries =
  qs_sys :: "'v system"
  qs_keys :: "DynKey set"
  qs_kinds :: "QueryKindId set"

text \<open>The function only calls queries of the set, and reads no memo cell as an input.\<close>

primrec calls_in :: "'v queries \<Rightarrow> 'v prog \<Rightarrow> bool" where
  "calls_in Q (Ret v) = True"
| "calls_in Q (Throw e) = True"
| "calls_in Q (PanicP m) = True"
| "calls_in Q (ReadInput q k) = (dk_kind q \<notin> qs_kinds Q \<and> (\<forall>x. calls_in Q (k x)))"
| "calls_in Q (Query q k) = (q \<in> qs_keys Q \<and> (\<forall>r. calls_in Q (k r)))"

definition closed_queries :: "'v queries \<Rightarrow> bool" where
  "closed_queries Q \<longleftrightarrow>
     finite (qs_keys Q)
     \<and> (\<forall>q \<in> qs_keys Q. dk_kind q \<in> qs_kinds Q \<and> calls_in Q (compute_of (qs_sys Q) q))"

definition deps_in :: "'v queries \<Rightarrow> Dep list \<Rightarrow> bool" where
  "deps_in Q ds \<longleftrightarrow> (\<forall>d \<in> set ds. dep_kind d \<in> qs_kinds Q \<longrightarrow> dep_dyn d \<in> qs_keys Q)"

lemma deps_in_simps [simp]:
  "deps_in Q []" "deps_in Q (d # ds) \<longleftrightarrow> (dep_kind d \<in> qs_kinds Q \<longrightarrow> dep_dyn d \<in> qs_keys Q) \<and> deps_in Q ds"
  "deps_in Q (ds @ es) \<longleftrightarrow> deps_in Q ds \<and> deps_in Q es"
  by (auto simp: deps_in_def)

subsection \<open>The invariant\<close>

text \<open>The registered ingredients, the memo cells and the cache records of the scope.\<close>

definition store_ok :: "'v queries \<Rightarrow> 'v world \<Rightarrow> bool" where
  "store_ok Q w \<longleftrightarrow>
     (\<forall>k. derived_reg w k \<longleftrightarrow> k \<in> qs_kinds Q)
     \<and> (\<forall>k d. ingredient (w_ingredients w) k = Some (DerivedI d) \<longrightarrow> de_kind d = k)
     \<and> (\<forall>q v va ca ds. get_cell q w = Some (Ready v va ca ds) \<longrightarrow> deps_in Q ds)
     \<and> (\<forall>q r. tget (sc_map (w_cache w)) (slot (w_rt w) q) = Some r \<longrightarrow> deps_in Q (sr_deps r))"

text \<open>What is registered as in flight for the scope is being computed.\<close>

definition leads_ok :: "RuntimeId \<Rightarrow> 'v registry \<Rightarrow> bool" where
  "leads_ok scope r \<longleftrightarrow>
     (\<forall>k e. if_runtime_id k = scope \<longrightarrow> tget (reg_map r) k = Some e \<longrightarrow>
        e < length (reg_entries r) \<and> ife_state (reg_entries r ! e) = IfRunning)"

definition reads_ok :: "'v queries \<Rightarrow> task \<Rightarrow> bool" where
  "reads_ok Q t \<longleftrightarrow> wf_task t \<and> (\<forall>f \<in> set (frames t). deps_in Q (fr_deps f))"

definition run_ok :: "'v queries \<Rightarrow> Revision \<Rightarrow> RuntimeId \<Rightarrow> 'v world \<Rightarrow> bool" where
  "run_ok Q rv scope w \<longleftrightarrow>
     store_ok Q w \<and> leads_ok scope (w_inflight w) \<and> reads_ok Q (w_task w)
     \<and> world_rev w = rv \<and> cache_scope_id (w_rt w) = scope"

text \<open>What a nested access leaves: the stack, the cells of \<open>X\<close>, and the in-flight keys.\<close>

definition task_grows :: "task \<Rightarrow> task \<Rightarrow> bool" where
  "task_grows t t' \<longleftrightarrow>
     active_stack t' = active_stack t \<and> length (frames t) \<le> length (frames t')
     \<and> (\<forall>i < length (frames t). fr_key (frames t' ! i) = fr_key (frames t ! i))"

definition leads_grow :: "RuntimeId \<Rightarrow> 'v registry \<Rightarrow> 'v registry \<Rightarrow> bool" where
  "leads_grow scope r r' \<longleftrightarrow>
     length (reg_entries r) \<le> length (reg_entries r')
     \<and> (\<forall>k e. if_runtime_id k = scope \<longrightarrow> tget (reg_map r') k = Some e \<longrightarrow>
          tget (reg_map r) k = Some e \<or> length (reg_entries r) \<le> e)"

definition goes :: "'v queries \<Rightarrow> Revision \<Rightarrow> RuntimeId \<Rightarrow> DynKey set \<Rightarrow> 'v world \<Rightarrow> 'v world \<Rightarrow> bool" where
  "goes Q rv scope X w w' \<longleftrightarrow>
     run_ok Q rv scope w' \<and> task_grows (w_task w) (w_task w') \<and> leads_grow scope (w_inflight w) (w_inflight w')
     \<and> (\<forall>p \<in> X. get_cell p w' = get_cell p w)"

lemma task_grows_refl [simp]: "task_grows t t"
  by (simp add: task_grows_def)

lemma leads_grow_refl [simp]: "leads_grow scope r r"
  by (simp add: leads_grow_def)

lemma goes_refl [simp]: "goes Q rv scope X w w \<longleftrightarrow> run_ok Q rv scope w"
  by (simp add: goes_def)

lemma leads_grow_trans: "leads_grow scope r1 r2 \<Longrightarrow> leads_grow scope r2 r3 \<Longrightarrow> leads_grow scope r1 r3"
  unfolding leads_grow_def by (intro conjI allI impI; elim conjE) (force dest: order_trans)+

lemma task_grows_trans: "task_grows t1 t2 \<Longrightarrow> task_grows t2 t3 \<Longrightarrow> task_grows t1 t3"
  by (auto simp: task_grows_def)

lemma goes_trans: "goes Q rv scope X w1 w2 \<Longrightarrow> goes Q rv scope X w2 w3 \<Longrightarrow> goes Q rv scope X w1 w3"
  unfolding goes_def using leads_grow_trans task_grows_trans by metis

lemma goes_sub: "goes Q rv scope X w w' \<Longrightarrow> Y \<subseteq> X \<Longrightarrow> goes Q rv scope Y w w'"
  by (auto simp: goes_def)

lemma task_grows_keys:
  assumes "task_grows t t'" "wf_task t"
  shows "stack_keys t' = stack_keys t"
proof (cases "active_stack t")
  case (Some s)
  have "\<forall>h \<in> set s. h < length (frames t)" using assms(2) Some by (simp add: wf_task_def)
  then have "\<forall>h \<in> set s. fr_key (frames t' ! h) = fr_key (frames t ! h)"
    using assms(1) unfolding task_grows_def by blast
  with assms(1) Some show ?thesis by (simp add: stack_keys_def task_grows_def)
qed (use assms(1) in \<open>simp add: stack_keys_def task_grows_def\<close>)

lemma goes_keys: "goes Q rv scope X w w' \<Longrightarrow> run_ok Q rv scope w \<Longrightarrow> stack_keys (w_task w') = stack_keys (w_task w)"
  by (auto simp: goes_def run_ok_def reads_ok_def intro: task_grows_keys)

subsection \<open>Runs that end\<close>

definition ends :: "'v queries \<Rightarrow> Revision \<Rightarrow> RuntimeId \<Rightarrow> DynKey set \<Rightarrow> 'v world \<Rightarrow> ('a, 'v) run \<Rightarrow> bool" where
  "ends Q rv scope X w out \<longleftrightarrow>
     (case out of (Finished a, w') \<Rightarrow> goes Q rv scope X w w' | (Blocked, _) \<Rightarrow> True | (OutOfFuel, _) \<Rightarrow> False)"

lemma ends_simps [simp]:
  "ends Q rv scope X w (Finished a, w') \<longleftrightarrow> goes Q rv scope X w w'"
  "ends Q rv scope X w (Blocked, w')"
  "\<not> ends Q rv scope X w (OutOfFuel, w')"
  by (simp_all add: ends_def)

lemma ends_then_run:
  assumes "ends Q rv scope X w m"
    and "\<And>a w1. m = (Finished a, w1) \<Longrightarrow> goes Q rv scope X w w1 \<Longrightarrow> ends Q rv scope Y w (k a w1)"
  shows "ends Q rv scope Y w (then_run m k)"
  using assms by (cases m; cases "fst m") (auto simp: then_run_def)

lemma ends_from: "goes Q rv scope X w w1 \<Longrightarrow> ends Q rv scope X w1 out \<Longrightarrow> ends Q rv scope X w out"
  by (auto simp: ends_def intro: goes_trans split: outcome.splits)

lemma ends_sub: "ends Q rv scope X w out \<Longrightarrow> Y \<subseteq> X \<Longrightarrow> ends Q rv scope Y w out"
  by (auto simp: ends_def intro: goes_sub split: outcome.splits)

text \<open>What is asked of an accessor with fuel for \<open>n\<close> more queries on the stack.\<close>

definition acc_ends :: "'v queries \<Rightarrow> Revision \<Rightarrow> RuntimeId \<Rightarrow> nat \<Rightarrow> 'v accessor \<Rightarrow> bool" where
  "acc_ends Q rv scope n acc \<longleftrightarrow>
     (\<forall>q want w. q \<in> qs_keys Q \<longrightarrow> run_ok Q rv scope w \<longrightarrow> active_stack (w_task w) \<noteq> None \<longrightarrow>
        card (qs_keys Q - set (stack_keys (w_task w))) \<le> n \<longrightarrow>
        ends Q rv scope (set (stack_keys (w_task w))) w (acc q want w))"

text \<open>The situation of a computation: room for \<open>n\<close> more queries above the stack \<open>X\<close>.\<close>

definition room :: "'v queries \<Rightarrow> Revision \<Rightarrow> RuntimeId \<Rightarrow> nat \<Rightarrow> DynKey set \<Rightarrow> 'v world \<Rightarrow> bool" where
  "room Q rv scope n X w \<longleftrightarrow>
     run_ok Q rv scope w \<and> active_stack (w_task w) \<noteq> None \<and> set (stack_keys (w_task w)) = X \<and> card (qs_keys Q - X) \<le> n"

lemma room_goes: "room Q rv scope n X w \<Longrightarrow> goes Q rv scope Y w w' \<Longrightarrow> room Q rv scope n X w'"
  using goes_keys [of Q rv scope Y w w'] by (simp add: room_def) (simp add: goes_def task_grows_def)

lemma acc_endsD:
  "acc_ends Q rv scope n acc \<Longrightarrow> room Q rv scope n X w \<Longrightarrow> q \<in> qs_keys Q \<Longrightarrow> ends Q rv scope X w (acc q want w)"
  by (auto simp: acc_ends_def room_def)

lemma room_scoped: "room Q rv scope n X w \<Longrightarrow> scoped acc q want w = acc q want w"
  by (simp add: room_def scoped_active)

lemma ends_get:
  assumes "acc_ends Q rv scope n acc" "room Q rv scope n X w" "q \<in> qs_keys Q"
  shows "ends Q rv scope X w (get_erased acc q w)" "ends Q rv scope X w (touch_erased acc q w)"
  unfolding get_erased_def touch_erased_def room_scoped [OF assms(2)]
  by (rule ends_then_run [OF acc_endsD [OF assms]], simp)+

subsection \<open>Revalidation\<close>

lemma ends_revalidate_deps:
  assumes acc: "acc_ends Q rv scope n acc"
  shows "room Q rv scope n X w \<Longrightarrow> deps_in Q ds \<Longrightarrow> ends Q rv scope X w (revalidate_deps acc ds ca w)"
proof (induction ds arbitrary: w)
  case (Cons d ds)
  have ok: "run_ok Q rv scope w" using Cons.prems(1) by (simp add: room_def)
  show ?case
  proof (cases "ingredient (w_ingredients w) (dep_kind d)")
    case None
    then show ?thesis using ok by simp
  next
    case (Some i)
    have "ends Q rv scope X w (touch acc i (dep_key d) w)"
    proof (cases i)
      case (InputI s)
      then show ?thesis using ok by (simp add: touch_def)
    next
      case (DerivedI c)
      have "de_kind c = dep_kind d" and "derived_reg w (dep_kind d)"
        using ok Some DerivedI by (auto simp: run_ok_def store_ok_def derived_reg_def)
      then have "dep_dyn d \<in> qs_keys Q" using Cons.prems(2) ok by (simp add: run_ok_def store_ok_def)
      then show ?thesis
        using ends_get(2) [OF acc Cons.prems(1)] \<open>de_kind c = dep_kind d\<close> DerivedI by (simp add: touch_def dep_dyn_def)
    qed
    then have "ends Q rv scope X w (then_run (touch acc i (dep_key d) w) (\<lambda>res w1.
            case res of
              Inl e \<Rightarrow> (Finished (Inl e), w1)
            | Inr changed_at \<Rightarrow>
                if ca < changed_at then (Finished (Inr False), w1) else revalidate_deps acc ds ca w1))"
    proof (rule ends_then_run)
      fix res w1 assume w1: "goes Q rv scope X w w1"
      have "ends Q rv scope X w (revalidate_deps acc ds ca w1)"
        using ends_from [OF w1 Cons.IH [OF room_goes [OF Cons.prems(1) w1]]] Cons.prems(2) by simp
      with w1 show "ends Q rv scope X w (case res of
              Inl e \<Rightarrow> (Finished (Inl e), w1)
            | Inr changed_at \<Rightarrow>
                if ca < changed_at then (Finished (Inr False), w1) else revalidate_deps acc ds ca w1)"
        by (simp split: sum.split)
    qed
    with Some show ?thesis by simp
  qed
qed (simp add: room_def)

subsection \<open>Under a frame\<close>

lemma store_ok_on_task [simp]: "store_ok Q (on_task f w) \<longleftrightarrow> store_ok Q w"
  by (simp add: store_ok_def) (simp add: on_task_def)

lemma world_rev_on_task [simp]: "world_rev (on_task f w) = world_rev w"
  by (simp add: world_rev_def)

lemma run_ok_task:
  "run_ok Q rv scope (on_task f w) \<longleftrightarrow>
     store_ok Q w \<and> leads_ok scope (w_inflight w) \<and> reads_ok Q (f (w_task w)) \<and> world_rev w = rv \<and> cache_scope_id (w_rt w) = scope"
  by (simp add: run_ok_def)

lemma pushed:
  assumes fn: "frame_new q r (w_task w) = (h, t)" and room: "room Q rv scope (Suc n) X w"
    and q: "q \<in> qs_keys Q" "q \<notin> X" and fin: "finite (qs_keys Q)"
  shows "room Q rv scope n (insert q X) (on_task (\<lambda>_. push_frame h t) w)"
    and "goes Q rv scope (insert q X) (on_task (\<lambda>_. push_frame h t) w) w1 \<Longrightarrow>
         goes Q rv scope (insert q X) w (on_task pop_frame w1)"
    and "goes Q rv scope (insert q X) (on_task (\<lambda>_. push_frame h t) w) w1 \<Longrightarrow>
         take_deps h (w_task w1) = (ds, t1) \<Longrightarrow>
         deps_in Q ds \<and> goes Q rv scope (insert q X) w (on_task (\<lambda>_. pop_frame t1) w1)"
proof -
  obtain s where s: "active_stack (w_task w) = Some s" using room by (auto simp: room_def)
  have wf: "wf_task (w_task w)" and reads: "\<forall>f \<in> set (frames (w_task w)). deps_in Q (fr_deps f)"
    using room by (simp_all add: room_def run_ok_def reads_ok_def)
  note p = pushed_frame [OF fn wf s]
  have h: "h = length (frames (w_task w))" "frames (push_frame h t) = frames (w_task w) @ [\<lparr>fr_key = q, fr_started = r, fr_deps = []\<rparr>]"
    using fn s by (auto simp: frame_new_def push_frame_def)
  have "qs_keys Q - insert q X \<subset> qs_keys Q - X" using q by blast
  then have "card (qs_keys Q - insert q X) < card (qs_keys Q - X)" using fin by (simp add: psubset_card_mono)
  with room show "room Q rv scope n (insert q X) (on_task (\<lambda>_. push_frame h t) w)"
    using p(1-3) reads by (auto simp: room_def run_ok_task reads_ok_def h(2) run_ok_def)
  have popped: "deps_in Q ds \<and> goes Q rv scope (insert q X) w (on_task (\<lambda>_. pop_frame t1) w1)"
    if g: "goes Q rv scope (insert q X) (on_task (\<lambda>_. push_frame h t) w) w1"
      and t1: "t1 = w_task w1 \<and> ds = [] \<or> take_deps h (w_task w1) = (ds, t1)" for t1 ds
  proof -
    have grow: "task_grows (push_frame h t) (w_task w1)" and ok: "run_ok Q rv scope w1"
      using g by (simp_all add: goes_def)
    have len: "h < length (frames (w_task w1))" using grow h by (simp add: task_grows_def)
    then have ds: "deps_in Q ds" using t1 ok by (auto simp: take_deps_def run_ok_def reads_ok_def)
    have same: "active_stack t1 = active_stack (w_task w1)" "length (frames t1) = length (frames (w_task w1))"
      "\<And>i. fr_key (frames t1 ! i) = fr_key (frames (w_task w1) ! i)"
      using t1 len by (auto simp: take_deps_def nth_list_update)
    have deps1: "\<forall>f \<in> set (frames t1). deps_in Q (fr_deps f)"
      using t1 ok len by (auto simp: take_deps_def run_ok_def reads_ok_def dest!: set_update_subset_insert [THEN subsetD])
    have st: "active_stack t1 = Some (s @ [h])" using same(1) grow p(2) by (simp add: task_grows_def)
    have pop: "active_stack (pop_frame t1) = Some s" "frames (pop_frame t1) = frames t1"
      using st by (simp_all add: drop_guard_def)
    have less: "length (frames (w_task w)) < length (frames (w_task w1))"
      and keys: "\<And>i. i < length (frames (w_task w)) \<Longrightarrow> fr_key (frames (w_task w1) ! i) = fr_key (frames (w_task w) ! i)"
      using grow h by (auto simp: task_grows_def nth_append)
    have "task_grows (w_task w) (pop_frame t1)"
      using s pop less keys same by (simp add: task_grows_def)
    moreover have "wf_task (pop_frame t1)" using wf s pop same(2) less by (auto simp: wf_task_def)
    ultimately show ?thesis
      using g ok ds deps1 pop by (simp add: goes_def run_ok_task reads_ok_def) (simp add: run_ok_def)
  qed
  show "goes Q rv scope (insert q X) w (on_task pop_frame w1)"
    if "goes Q rv scope (insert q X) (on_task (\<lambda>_. push_frame h t) w) w1"
    using popped [OF that, of "w_task w1" "[]"] by (simp add: on_task_def)
  show "deps_in Q ds \<and> goes Q rv scope (insert q X) w (on_task (\<lambda>_. pop_frame t1) w1)"
    if "goes Q rv scope (insert q X) (on_task (\<lambda>_. push_frame h t) w) w1" "take_deps h (w_task w1) = (ds, t1)"
    by (rule popped [OF that(1)]) (use that(2) in simp)
qed

lemma ends_try_revalidate:
  assumes acc: "acc_ends Q rv scope n acc" and room: "room Q rv scope (Suc n) X w"
    and q: "q \<in> qs_keys Q" "q \<notin> X" and fin: "finite (qs_keys Q)" and ds: "deps_in Q ds"
  shows "ends Q rv scope (insert q X) w (try_revalidate acc q r ds ca w)"
proof -
  obtain h t where fn: "frame_new q r (w_task w) = (h, t)" by fastforce
  note p = pushed [OF fn room q fin]
  have "ends Q rv scope (insert q X) (on_task (\<lambda>_. push_frame h t) w)
      (revalidate_deps acc ds ca (on_task (\<lambda>_. push_frame h t) w))"
    by (rule ends_revalidate_deps [OF acc p(1) ds])
  then show ?thesis
    by (cases "revalidate_deps acc ds ca (on_task (\<lambda>_. push_frame h t) w)"; cases "fst (revalidate_deps acc ds ca (on_task (\<lambda>_. push_frame h t) w))")
      (auto simp: try_revalidate_def fn intro: p(2))
qed

subsection \<open>Running a query\<close>

lemma run_ok_read:
  assumes ok: "run_ok Q rv scope w" and d: "deps_in Q [d]"
  shows "goes Q rv scope X w (on_task (record_dep d) w)"
proof -
  have wf: "wf_task (w_task w)" and reads: "\<forall>f \<in> set (frames (w_task w)). deps_in Q (fr_deps f)"
    using ok by (simp_all add: run_ok_def reads_ok_def)
  have "\<forall>f \<in> set (frames (record_dep d (w_task w))). deps_in Q (fr_deps f)"
  proof (cases "active_stack (w_task w)")
    case (Some s)
    then have "s \<noteq> [] \<Longrightarrow> last s < length (frames (w_task w))" using wf by (simp add: wf_task_def)
    then show ?thesis
      using Some reads d by (auto simp: record_dep_def add_dep_def dest!: set_update_subset_insert [THEN subsetD])
  qed (use reads in \<open>simp add: record_dep_def\<close>)
  moreover have "task_grows (w_task w) (record_dep d (w_task w))"
  proof (cases "active_stack (w_task w)")
    case (Some s)
    then have "s \<noteq> [] \<Longrightarrow> last s < length (frames (w_task w))" using wf by (simp add: wf_task_def)
    then show ?thesis using Some by (auto simp: task_grows_def record_dep_def)
  qed (simp add: record_dep_def)
  ultimately show ?thesis using ok wf by (simp add: goes_def run_ok_task reads_ok_def) (simp add: run_ok_def)
qed

lemma ends_run_prog:
  assumes acc: "acc_ends Q rv scope n acc"
  shows "room Q rv scope n X w \<Longrightarrow> calls_in Q p \<Longrightarrow> ends Q rv scope X w (run_prog acc p w)"
proof (induction p arbitrary: w)
  case (ReadInput q k)
  let ?w1 = "snd (read_input q w)"
  have "run_ok Q rv scope w" using ReadInput.prems(1) by (simp add: room_def)
  then have w1: "goes Q rv scope X w ?w1"
    using run_ok_read [of Q rv scope w "dyn_dep q" X] ReadInput.prems(2)
    by (simp add: read_input_def Let_def dyn_dep_def)
  have "calls_in Q (k (fst (read_input q w)))" using ReadInput.prems(2) by simp
  from ends_from [OF w1 ReadInput.IH [OF rangeI room_goes [OF ReadInput.prems(1) w1] this]]
  show ?case by (simp add: case_prod_beta)
next
  case (Query q k)
  have "ends Q rv scope X w (then_run (get_erased acc q w) (\<lambda>res w1. run_prog acc (k res) w1))"
  proof (rule ends_then_run [OF ends_get(1) [OF acc Query.prems(1)]])
    fix res w1 assume w1: "goes Q rv scope X w w1"
    show "ends Q rv scope X w (run_prog acc (k res) w1)"
      by (rule ends_from [OF w1 Query.IH [OF rangeI room_goes [OF Query.prems(1) w1]]]) (use Query.prems(2) in simp)
  qed (use Query.prems(2) in simp)
  then show ?case by simp
qed (simp_all add: room_def)

subsection \<open>The phases of a computation\<close>

definition state_in :: "'v queries \<Rightarrow> 'v ErasedState \<Rightarrow> bool" where
  "state_in Q st \<longleftrightarrow> (\<forall>v va ca ds. st = Ready v va ca ds \<longrightarrow> deps_in Q ds)"

lemma state_in_simps [simp]:
  "state_in Q (Running r)" "state_in Q Vacant" "state_in Q (Poisoned e r)" "state_in Q (Ready v va ca ds) \<longleftrightarrow> deps_in Q ds"
  "state_in Q (new_ready rec) \<longleftrightarrow> deps_in Q (rr_deps rec)"
  by (simp_all add: state_in_def new_ready_def)

lemma goes_set_cell:
  assumes ok: "run_ok Q rv scope w" and q: "dk_kind q \<in> qs_kinds Q" "q \<notin> X" and st: "state_in Q st"
  shows "goes Q rv scope X w (set_cell q st w)"
proof -
  have reg: "derived_reg w (dk_kind q)" using ok q by (simp add: run_ok_def store_ok_def)
  note cell = get_set_cell [OF reg]
  have "\<forall>k d. ingredient (w_ingredients (set_cell q st w)) k = Some (DerivedI d) \<longrightarrow> de_kind d = k"
    using ok by (auto simp: run_ok_def store_ok_def set_cell_def ingredient_def split: option.split ingredient.split if_splits)
  then have "store_ok Q (set_cell q st w)"
    using ok st by (auto simp: run_ok_def store_ok_def cell state_in_def)
  then show ?thesis using ok q by (auto simp: goes_def run_ok_def cell world_rev_def)
qed

lemma goes_on_rt:
  assumes ok: "run_ok Q rv scope w"
    and f: "rt_revision (f (w_rt w)) = rt_revision (w_rt w)" "cache_scope_id (f (w_rt w)) = cache_scope_id (w_rt w)"
  shows "goes Q rv scope X w (on_rt f w)"
proof -
  have "store_ok Q (on_rt f w)"
    using ok f by (simp add: run_ok_def store_ok_def slot_def) (simp add: on_rt_def)
  then show ?thesis using ok f by (simp add: goes_def run_ok_def world_rev_def current_revision_def)
qed

lemma goes_put_record:
  assumes ok: "run_ok Q rv scope w" and d: "deps_in Q (rr_deps r)"
  shows "goes Q rv scope X w (put_record q r w)"
proof -
  have "deps_in Q (sr_deps rec)" if "tget (sc_map (w_cache (put_record q r w))) (slot (w_rt w) p) = Some rec" for p rec
  proof (cases "p = q")
    case True
    then show ?thesis using that put_record_lookup(1) [of q r w] d by auto
  next
    case False
    then have "tget (sc_map (w_cache w)) (slot (w_rt w) p) = Some rec"
      using that put_record_lookup(2) [of "slot (w_rt w) p" w q r] by auto
    then show ?thesis using ok by (simp add: run_ok_def store_ok_def)
  qed
  moreover have "w_ingredients (put_record q r w) = w_ingredients w" by (simp add: put_record_def)
  ultimately have "store_ok Q (put_record q r w)" using ok by (simp add: run_ok_def store_ok_def)
  then show ?thesis using ok by (simp add: goes_def run_ok_def world_rev_def)
qed

lemma goes_inflight:
  assumes "run_ok Q rv scope w" and "leads_ok scope reg" and "leads_grow scope (w_inflight w) reg"
  shows "goes Q rv scope X w (w\<lparr>w_inflight := reg\<rparr>)"
  using assms by (simp add: goes_def run_ok_def store_ok_def world_rev_def)

text \<open>The entry a guard holds is registered under its key only.\<close>

definition sole_lead :: "RuntimeId \<Rightarrow> guard \<Rightarrow> 'v registry \<Rightarrow> bool" where
  "sole_lead scope g r \<longleftrightarrow>
     g_entry g < length (reg_entries r)
     \<and> (\<forall>k. if_runtime_id k = scope \<longrightarrow> tget (reg_map r) k = Some (g_entry g) \<longrightarrow> k = g_key g)"

lemma sole_lead_grow: "sole_lead scope g r \<Longrightarrow> leads_grow scope r r' \<Longrightarrow> sole_lead scope g r'"
  unfolding sole_lead_def leads_grow_def using linorder_not_le less_le_trans by blast

lemma sole_lead_settle:
  assumes g: "sole_lead scope g r" and ok: "leads_ok scope r"
  shows "leads_ok scope (guard_complete g v ds ca r)" "leads_grow scope r (guard_complete g v ds ca r)"
    "leads_ok scope (guard_fail g e r)" "leads_grow scope r (guard_fail g e r)"
  using g ok
  by (auto simp: sole_lead_def leads_ok_def leads_grow_def guard_complete_def guard_fail_def guard_drop_def unregister_def
      entry_complete_def entry_fail_def notify_entry_def set_state_def nth_list_update split: if_splits)

lemma take_sole_lead:
  assumes "leads_ok scope r" and "try_lead k r = (Leader g, r')" and "if_runtime_id k = scope"
  shows "leads_ok scope r'" "leads_grow scope r r'" "sole_lead scope g r'"
  using assms
  by (auto simp: try_lead_Leader leads_ok_def leads_grow_def sole_lead_def nth_append entry_new_def split: if_splits)

lemma ends_return:
  "goes Q rv scope X w w1 \<Longrightarrow> ends Q rv scope X w (return_if_current again rv res w1)"
  by (simp add: return_if_current_def) (simp add: goes_def run_ok_def)

lemma goes_ok: "goes Q rv scope X w w' \<Longrightarrow> run_ok Q rv scope w'"
  by (simp add: goes_def)

lemma goes_finalize_ok:
  assumes ok: "run_ok Q rv scope w" and q: "dk_kind q \<in> qs_kinds Q" "q \<notin> X" and ds: "deps_in Q ds"
    and g: "sole_lead scope g (w_inflight w)"
  shows "goes Q rv scope X w (finalize_ok eq q rv prev g ds out w)"
proof -
  define ca where "ca = finalize_changed_at eq prev rv out"
  define r where "r = \<lparr>rr_value = out, rr_verified_at = rv, rr_changed_at = ca, rr_deps = ds\<rparr>"
  define w1 where "w1 = on_rt (update_query_deps q ds) w"
  define w2 where "w2 = (if ca = rv then on_rt (notify_query_changed rv q) w1 else w1)"
  define w3 where "w3 = put_record q r (set_cell q (new_ready r) w2)"
  have 1: "goes Q rv scope X w w1" unfolding w1_def by (rule goes_on_rt [OF ok]) simp_all
  have 2: "goes Q rv scope X w1 w2" using goes_ok [OF 1] unfolding w2_def by (simp add: goes_on_rt)
  have 3: "goes Q rv scope X w2 (set_cell q (new_ready r) w2)"
    by (rule goes_set_cell [OF goes_ok [OF 2] q]) (simp add: r_def ds)
  have 4: "goes Q rv scope X (set_cell q (new_ready r) w2) w3"
    unfolding w3_def by (rule goes_put_record [OF goes_ok [OF 3]]) (simp add: r_def ds)
  note go = goes_trans [OF goes_trans [OF goes_trans [OF 1 2] 3] 4]
  have "sole_lead scope g (w_inflight w3)" and "leads_ok scope (w_inflight w3)"
    using go g sole_lead_grow by (auto simp: goes_def run_ok_def)
  note settle = sole_lead_settle [OF this]
  have "goes Q rv scope X w3 (w3\<lparr>w_inflight := guard_complete g out ds ca (w_inflight w3)\<rparr>)"
    by (rule goes_inflight [OF goes_ok [OF go] settle(1,2)])
  from goes_trans [OF go this] show ?thesis
    unfolding finalize_ok_def Let_def w3_def w2_def w1_def r_def ca_def .
qed

lemma goes_finalize_err:
  assumes ok: "run_ok Q rv scope w" and q: "dk_kind q \<in> qs_kinds Q" "q \<notin> X" and g: "sole_lead scope g (w_inflight w)"
  shows "goes Q rv scope X w (finalize_err q rv g e w)"
proof -
  let ?w1 = "set_cell q (Poisoned e rv) w"
  have 1: "goes Q rv scope X w ?w1" by (rule goes_set_cell [OF ok q]) simp
  have "sole_lead scope g (w_inflight ?w1)" "leads_ok scope (w_inflight ?w1)" using ok g by (simp_all add: run_ok_def)
  note settle = sole_lead_settle [OF this]
  from goes_trans [OF 1 goes_inflight [OF goes_ok [OF 1] settle(3,4)]] show ?thesis
    by (simp add: finalize_err_def Let_def)
qed

lemma set_cell_task: "on_task f (set_cell q st w) = set_cell q st (on_task f w)"
  by (simp add: set_cell_def on_task_def split: option.split ingredient.split)

lemma finalize_ok_task: "on_task f (finalize_ok eq q rv prev g ds out w) = finalize_ok eq q rv prev g ds out (on_task f w)"
  by (simp add: finalize_ok_def Let_def put_record_def set_cell_task [symmetric]) (simp add: on_rt_def on_task_def set_cell_def split: option.split ingredient.split)

lemma finalize_err_task: "on_task f (finalize_err q rv g e w) = finalize_err q rv g e (on_task f w)"
  by (simp add: finalize_err_def Let_def set_cell_task [symmetric]) (simp add: on_task_def)

lemma ends_lead_phase:
  assumes closed: "closed_queries Q" and acc: "acc_ends Q rv scope n acc" and room: "room Q rv scope (Suc n) X w"
    and q: "q \<in> qs_keys Q" "q \<notin> X" and g: "sole_lead scope g (w_inflight w)"
  shows "ends Q rv scope X w (lead_phase (qs_sys Q) acc again q want rv prev g w)"
proof -
  obtain h t where fn: "frame_new q rv (w_task w) = (h, t)" by fastforce
  let ?w0 = "on_task (\<lambda>_. push_frame h t) w" and ?p = "compute_of (qs_sys Q) q"
  have kind: "dk_kind q \<in> qs_kinds Q" and calls: "calls_in Q ?p" and fin: "finite (qs_keys Q)"
    using closed q(1) by (simp_all add: closed_queries_def)
  note p = pushed [OF fn room q fin]
  have run: "ends Q rv scope (insert q X) ?w0 (run_prog acc ?p ?w0)" by (rule ends_run_prog [OF acc p(1) calls])
  show ?thesis
  proof (cases "run_prog acc ?p ?w0")
    case (Pair out w1)
    show ?thesis
    proof (cases out)
      case (Finished result)
      obtain ds t1 where td: "take_deps h (w_task w1) = (ds, t1)" by fastforce
      from p(3) [OF _ td] run Pair Finished
      have ds: "deps_in Q ds" and popped: "goes Q rv scope (insert q X) w (on_task (\<lambda>_. pop_frame t1) w1)" by auto
      define w2 where "w2 = on_task (\<lambda>_. pop_frame t1) w1"
      have w2: "goes Q rv scope X w w2" using goes_sub [OF popped] unfolding w2_def by blast
      have g2: "sole_lead scope g (w_inflight w2)" using sole_lead_grow [OF g] w2 by (simp add: goes_def)
      have pop: "on_task pop_frame (f (on_task (\<lambda>_. t1) w1)) = f w2"
        if "\<And>tf w. on_task tf (f w) = f (on_task tf w)" for f
        unfolding that w2_def by (simp add: on_task_def)
      have okk: "on_task pop_frame (finalize_ok eq q rv prev g ds out (on_task (\<lambda>_. t1) w1)) = finalize_ok eq q rv prev g ds out w2" for eq out
        by (rule pop) (simp add: finalize_ok_task)
      have err: "on_task pop_frame (finalize_err q rv g e (on_task (\<lambda>_. t1) w1)) = finalize_err q rv g e w2" for e
        by (rule pop) (simp add: finalize_err_task)
      show ?thesis
        using goes_trans [OF w2 goes_finalize_ok [OF goes_ok [OF w2] kind q(2) ds g2]]
          goes_trans [OF w2 goes_finalize_err [OF goes_ok [OF w2] kind q(2) g2]]
        by (simp add: lead_phase_def Let_def fn Pair Finished td okk err ends_return split: caught.split sum.split)
    qed (use run Pair in \<open>simp_all add: lead_phase_def fn\<close>)
  qed
qed

lemma ends_inflight_phase:
  assumes closed: "closed_queries Q" and acc: "acc_ends Q rv scope n acc" and room: "room Q rv scope (Suc n) X w"
    and q: "q \<in> qs_keys Q" "q \<notin> X"
  shows "ends Q rv scope X w (inflight_phase (qs_sys Q) acc again q want rv prev w)"
proof -
  have ok: "run_ok Q rv scope w" using room by (simp add: room_def)
  let ?key = "\<lparr>if_runtime_id = cache_scope_id (w_rt w), if_revision = rv, if_kind = dk_kind q, if_key = dk_key q\<rparr>"
  have scope: "if_runtime_id ?key = scope" using ok by (simp add: run_ok_def)
  have leads: "leads_ok scope (w_inflight w)" using ok by (simp add: run_ok_def)
  obtain lead reg where tl: "try_lead ?key (w_inflight w) = (lead, reg)" by fastforce
  show ?thesis
  proof (cases lead)
    case (Leader g)
    note take = take_sole_lead [OF leads tl [unfolded Leader] scope]
    have w1: "goes Q rv scope X w (w\<lparr>w_inflight := reg\<rparr>)" by (rule goes_inflight [OF ok take(1,2)])
    have "ends Q rv scope X (w\<lparr>w_inflight := reg\<rparr>)
        (lead_phase (qs_sys Q) acc again q want rv prev g (w\<lparr>w_inflight := reg\<rparr>))"
      by (rule ends_lead_phase [OF closed acc room_goes [OF room w1] q]) (simp add: take(3))
    from ends_from [OF w1 this] show ?thesis by (simp add: inflight_phase_def Let_def tl Leader)
  next
    case (Follower e)
    have "ife_state (reg_entries reg ! e) = IfRunning"
      using leads tl scope unfolding Follower try_lead_Follower leads_ok_def by blast
    then show ?thesis by (simp add: inflight_phase_def Let_def tl Follower follow_phase_def)
  qed
qed

lemma goes_adopt_record:
  assumes ok: "run_ok Q rv scope w" and q: "dk_kind q \<in> qs_kinds Q" "q \<notin> X" and ds: "deps_in Q (sr_deps rec)"
  shows "goes Q rv scope X w (adopt_record q rv rec w)"
proof -
  define r where "r = \<lparr>rr_value = sr_value rec, rr_verified_at = rv, rr_changed_at = sr_changed_at rec, rr_deps = sr_deps rec\<rparr>"
  define w1 where "w1 = on_rt (update_query_deps q (sr_deps rec)) w"
  have 1: "goes Q rv scope X w w1" unfolding w1_def by (rule goes_on_rt [OF ok]) simp_all
  have 2: "goes Q rv scope X w1 (set_cell q (new_ready r) w1)"
    by (rule goes_set_cell [OF goes_ok [OF 1] q]) (simp add: r_def ds)
  have 3: "goes Q rv scope X (set_cell q (new_ready r) w1) (put_record q r (set_cell q (new_ready r) w1))"
    by (rule goes_put_record [OF goes_ok [OF 2]]) (simp add: r_def ds)
  from goes_trans [OF goes_trans [OF 1 2] 3] show ?thesis
    unfolding adopt_record_def Let_def w1_def r_def .
qed

lemma ends_compute_phase:
  assumes closed: "closed_queries Q" and acc: "acc_ends Q rv scope n acc" and room: "room Q rv scope (Suc n) X w"
    and q: "q \<in> qs_keys Q" "q \<notin> X" and start: "start_running rv (cell_state q w) = Some prev"
  shows "ends Q rv scope X w (compute_phase (qs_sys Q) acc again q want rv w)"
proof -
  have ok: "run_ok Q rv scope w" using room by (simp add: room_def)
  have kind: "dk_kind q \<in> qs_kinds Q" and fin: "finite (qs_keys Q)" using closed q(1) by (simp_all add: closed_queries_def)
  let ?w1 = "set_cell q (Running rv) w"
  have w1: "goes Q rv scope X w ?w1" by (rule goes_set_cell [OF ok kind q(2)]) simp
  note room1 = room_goes [OF room w1]
  have inflight: "ends Q rv scope X w (inflight_phase (qs_sys Q) acc again q want rv prev w2)"
    if w2: "goes Q rv scope X w w2" for w2
    by (rule ends_from [OF w2 ends_inflight_phase [OF closed acc room_goes [OF room w2] q]])
  show ?thesis
  proof (cases "shared_cache_get (cache_scope_id (w_rt ?w1)) (dk_kind q) (dk_key q) (w_cache ?w1)")
    case None
    then show ?thesis using inflight [OF w1] by (simp add: compute_phase_def start Let_def)
  next
    case (Some rec)
    then have "tget (sc_map (w_cache w)) (slot (w_rt w) q) = Some rec" by (simp add: shared_cache_get_def slot_def)
    then have ds: "deps_in Q (sr_deps rec)" using ok by (auto simp: run_ok_def store_ok_def)
    have adopt: "ends Q rv scope X w (return_if_current again rv res (adopt_record q rv rec w2))"
      if w2: "goes Q rv scope X w w2" for w2 res
      by (rule ends_return [OF goes_trans [OF w2 goes_adopt_record [OF goes_ok [OF w2] kind q(2) ds]]])
    have "ends Q rv scope X w (try_revalidate acc q rv (sr_deps rec) (sr_changed_at rec) ?w1)"
      by (rule ends_from [OF w1 ends_try_revalidate [OF acc room1 q fin ds, THEN ends_sub]]) blast
    then have check: "ends Q rv scope X w (if sr_verified_at rec = rv then (Finished (Inr True), ?w1)
                            else try_revalidate acc q rv (sr_deps rec) (sr_changed_at rec) ?w1)"
      using w1 by simp
    have "ends Q rv scope X w (then_run (if sr_verified_at rec = rv then (Finished (Inr True), ?w1)
                            else try_revalidate acc q rv (sr_deps rec) (sr_changed_at rec) ?w1)
                    (\<lambda>res w2. case res of
                       Inl e \<Rightarrow> (Finished (Inl e), w2)
                     | Inr False \<Rightarrow> inflight_phase (qs_sys Q) acc again q want rv prev w2
                     | Inr True \<Rightarrow>
                         return_if_current again rv
                           (Inr \<lparr>ar_value = (if want then Some (sr_value rec) else None), ar_changed_at = sr_changed_at rec\<rparr>)
                           (adopt_record q rv rec w2)))"
    proof (rule ends_then_run [OF check], goal_cases)
      case (1 res w2)
      show ?case
      proof (cases res)
        case (Inr b)
        then show ?thesis using adopt [OF 1(2)] inflight [OF 1(2)] by (cases b) simp_all
      qed (use 1(2) in simp)
    qed
    with Some start show ?thesis by (simp add: compute_phase_def Let_def)
  qed
qed

subsection \<open>Rounds\<close>

lemma ends_access_round:
  assumes closed: "closed_queries Q" and acc: "acc_ends Q rv scope n acc" and room: "room Q rv scope (Suc n) X w"
    and q: "q \<in> qs_keys Q" "q \<notin> X"
  shows "ends Q rv scope X w (access_round (qs_sys Q) acc again q want w)"
proof -
  have ok: "run_ok Q rv scope w" and rev: "world_rev w = rv" using room by (simp_all add: room_def run_ok_def)
  have kind: "dk_kind q \<in> qs_kinds Q" and fin: "finite (qs_keys Q)" using closed q(1) by (simp_all add: closed_queries_def)
  show ?thesis
  proof (cases "cell_state q w")
    case (Ready v va ca ds)
    show ?thesis
    proof (cases "va = rv")
      case True
      then show ?thesis using Ready ok by (simp add: access_round_def Let_def rev observe_def return_if_current_def)
    next
      case False
      have "deps_in Q ds"
        using ok Ready by (auto simp: run_ok_def store_ok_def cell_state_def split: option.splits)
      then have rv1: "ends Q rv scope (insert q X) w (try_revalidate acc q rv ds ca w)"
        by (rule ends_try_revalidate [OF acc room q fin])
      have "ends Q rv scope X w (then_run (try_revalidate acc q rv ds ca w) (\<lambda>res w1.
               case res of
                 Inl e \<Rightarrow> (Finished (Inl e), w1)
               | Inr True \<Rightarrow> revalidated again q want rv w1
               | Inr False \<Rightarrow> compute_phase (qs_sys Q) acc again q want rv w1))"
      proof (rule ends_then_run [OF rv1])
        fix res w1 assume full: "goes Q rv scope (insert q X) w w1"
        then have w1: "goes Q rv scope X w w1" by (rule goes_sub) blast
        have cell: "cell_state q w1 = Ready v va ca ds" using full Ready by (simp add: goes_def cell_state_def)
        have "ends Q rv scope X w (revalidated again q want rv w1)"
          unfolding revalidated_def cell ErasedState.case
          by (rule ends_return [OF goes_trans [OF w1 goes_set_cell [OF goes_ok [OF w1] kind q(2)]]]) (simp add: \<open>deps_in Q ds\<close>)
        moreover have "ends Q rv scope X w (compute_phase (qs_sys Q) acc again q want rv w1)"
          by (rule ends_from [OF w1 ends_compute_phase [OF closed acc room_goes [OF room w1] q]])
            (simp add: cell False start_running_def)
        ultimately show "ends Q rv scope X w (case res of
                 Inl e \<Rightarrow> (Finished (Inl e), w1)
               | Inr True \<Rightarrow> revalidated again q want rv w1
               | Inr False \<Rightarrow> compute_phase (qs_sys Q) acc again q want rv w1)"
          using w1 by (simp split: sum.split bool.split)
      qed
      then show ?thesis using False Ready by (simp add: access_round_def Let_def rev observe_def)
    qed
  next
    case (Poisoned e va)
    then show ?thesis
      using ends_compute_phase [OF closed acc room q, of None again want] ok
      by (simp add: access_round_def Let_def rev observe_def start_running_def return_if_current_def)
  next
    case Vacant
    then show ?thesis
      using ends_compute_phase [OF closed acc room q, of None again want]
      by (simp add: access_round_def Let_def rev observe_def start_running_def)
  qed (simp add: access_round_def Let_def rev observe_def)
qed

lemma ends_access_enter:
  assumes closed: "closed_queries Q"
    and loop: "\<And>w q want X. room Q rv scope n X w \<Longrightarrow> q \<in> qs_keys Q \<Longrightarrow> q \<notin> X \<Longrightarrow> ends Q rv scope X w (loop q want w)"
  shows "acc_ends Q rv scope n (access_enter loop)"
  unfolding acc_ends_def
proof (intro allI impI)
  fix q want w
  assume q: "q \<in> qs_keys Q" and ok: "run_ok Q rv scope w" and active: "active_stack (w_task w) \<noteq> None"
    and card: "card (qs_keys Q - set (stack_keys (w_task w))) \<le> n"
  let ?X = "set (stack_keys (w_task w))"
  have kind: "dk_kind q \<in> qs_kinds Q" using closed q by (simp add: closed_queries_def)
  show "ends Q rv scope ?X w (access_enter loop q want w)"
  proof (cases "q \<in> ?X")
    case True
    then have "find_cycle q (w_task w) = Some (stack_keys (w_task w))" by (simp add: find_cycle_Some)
    then show ?thesis using ok by (simp add: access_enter_def)
  next
    case False
    then have none: "find_cycle q (w_task w) = None" by (simp add: find_cycle_None)
    have w1: "goes Q rv scope ?X w (record_access q want w)"
      using run_ok_read [OF ok, of "dyn_dep q"] ok q by (simp add: record_access_def)
    have w2: "goes Q rv scope ?X (record_access q want w) (ensure_cell q (record_access q want w))"
      using goes_set_cell [OF goes_ok [OF w1] kind False] goes_ok [OF w1] by (simp add: ensure_cell_def split: option.split)
    have "room Q rv scope n ?X w" using ok active card by (simp add: room_def)
    from ends_from [OF goes_trans [OF w1 w2] loop [OF room_goes [OF this goes_trans [OF w1 w2]] q False]]
    show ?thesis by (simp add: access_enter_def none)
  qed
qed

text \<open>One unit of fuel for every query that is not on the stack.\<close>

lemma acc_ends_access:
  assumes "closed_queries Q"
  shows "acc_ends Q rv scope n (access n (qs_sys Q))"
proof (induction n)
  case 0
  have "q \<in> X" if "room Q rv scope 0 X w" "q \<in> qs_keys Q" for X w q
    using that assms by (auto simp: room_def closed_queries_def)
  then show ?case unfolding access_def by (intro ends_access_enter [OF assms]) blast
next
  case (Suc n)
  show ?case
    unfolding access_def [of "Suc n"]
  proof (rule ends_access_enter [OF assms])
    fix w q want X assume "room Q rv scope (Suc n) X w" "q \<in> qs_keys Q" "q \<notin> X"
    from ends_access_round [OF assms Suc this] show "ends Q rv scope X w (access_loop (Suc n) (qs_sys Q) q want w)"
      by (simp add: access_def)
  qed
qed

subsection \<open>More fuel changes nothing\<close>

definition more_defined :: "('a, 'v) run \<Rightarrow> ('a, 'v) run \<Rightarrow> bool" where
  "more_defined m m' \<longleftrightarrow> fst m \<noteq> OutOfFuel \<longrightarrow> m' = m"

definition acc_more :: "'v accessor \<Rightarrow> 'v accessor \<Rightarrow> bool" where
  "acc_more acc acc' \<longleftrightarrow> (\<forall>q want w. more_defined (acc q want w) (acc' q want w))"

lemma more_refl [simp, intro]: "more_defined m m"
  by (simp add: more_defined_def)

lemma more_trans: "more_defined m1 m2 \<Longrightarrow> more_defined m2 m3 \<Longrightarrow> more_defined m1 m3"
  by (auto simp: more_defined_def)

lemma more_then_run:
  assumes "more_defined m m'" and "\<And>a w. more_defined (k a w) (k' a w)"
  shows "more_defined (then_run m k) (then_run m' k')"
  using assms by (cases m; cases "fst m") (auto simp: more_defined_def then_run_def)

lemma more_scoped: "acc_more acc acc' \<Longrightarrow> acc_more (scoped acc) (scoped acc')"
  unfolding acc_more_def scoped_def more_defined_def by (simp add: case_prod_beta split: option.split)

lemma more_get:
  assumes "acc_more acc acc'"
  shows "more_defined (get_erased acc q w) (get_erased acc' q w)" "more_defined (touch_erased acc q w) (touch_erased acc' q w)"
  using more_scoped [OF assms] unfolding get_erased_def touch_erased_def acc_more_def by (simp_all add: more_then_run)

lemma more_run_prog: "acc_more acc acc' \<Longrightarrow> more_defined (run_prog acc p w) (run_prog acc' p w)"
proof (induction p arbitrary: w)
  case (Query q k)
  then show ?case by (simp add: more_then_run more_get)
qed (simp_all add: case_prod_beta)

lemma more_revalidate_deps:
  "acc_more acc acc' \<Longrightarrow> more_defined (revalidate_deps acc ds ca w) (revalidate_deps acc' ds ca w)"
proof (induction ds arbitrary: w)
  case (Cons d ds)
  have "more_defined (touch acc i key w) (touch acc' i key w)" for i key
    using more_get [OF Cons.prems] by (simp add: touch_def split: ingredient.split)
  with Cons show ?case by (simp split: option.split) (auto intro!: more_then_run split: sum.split)
qed simp

lemma more_try_revalidate:
  "acc_more acc acc' \<Longrightarrow> more_defined (try_revalidate acc q rv ds ca w) (try_revalidate acc' q rv ds ca w)"
  by (auto simp: try_revalidate_def intro!: more_then_run more_revalidate_deps split: prod.split)

definition again_more ::
  "('v world \<Rightarrow> ('a, 'v) run) \<Rightarrow> ('v world \<Rightarrow> ('a, 'v) run) \<Rightarrow> bool" where
  "again_more again again' \<longleftrightarrow> (\<forall>w. more_defined (again w) (again' w))"

lemma more_return: "again_more again again' \<Longrightarrow> more_defined (return_if_current again rv res w) (return_if_current again' rv res w)"
  by (simp add: return_if_current_def again_more_def)

lemma more_lead_phase:
  assumes "acc_more acc acc'" and "again_more again again'"
  shows "more_defined (lead_phase sys acc again q want rv prev g w) (lead_phase sys acc' again' q want rv prev g w)"
  unfolding lead_phase_def Let_def
  by (auto intro!: more_then_run more_run_prog more_return assms split: prod.split caught.split sum.split)

lemma more_inflight_phase:
  assumes "acc_more acc acc'" and "again_more again again'"
  shows "more_defined (inflight_phase sys acc again q want rv prev w) (inflight_phase sys acc' again' q want rv prev w)"
proof -
  have "more_defined (follow_phase again q want rv e w1) (follow_phase again' q want rv e w1)" for e w1
    using assms(2) more_return [OF assms(2)] by (simp add: follow_phase_def Let_def again_more_def split: InFlightState.split)
  then show ?thesis
    unfolding inflight_phase_def Let_def by (auto intro!: more_lead_phase assms split: prod.split TryLeadResult.split)
qed

lemma more_compute_phase:
  assumes "acc_more acc acc'" and "again_more again again'"
  shows "more_defined (compute_phase sys acc again q want rv w) (compute_phase sys acc' again' q want rv w)"
  unfolding compute_phase_def Let_def
  using assms(2)
  by (auto simp: again_more_def intro!: more_then_run more_try_revalidate more_inflight_phase more_return assms
      split: option.split sum.split bool.split)

lemma more_access_round:
  assumes "acc_more acc acc'" and "again_more again again'"
  shows "more_defined (access_round sys acc again q want w) (access_round sys acc' again' q want w)"
proof -
  have "more_defined (revalidated again q want rv w1) (revalidated again' q want rv w1)" for rv w1
    using assms(2) more_return [OF assms(2)] by (simp add: revalidated_def again_more_def split: ErasedState.split)
  then show ?thesis
    unfolding access_round_def Let_def
    by (auto intro!: more_then_run more_try_revalidate more_compute_phase more_return assms
        split: ErasedObserved.split sum.split bool.split)
qed

lemma more_enter: "acc_more loop loop' \<Longrightarrow> acc_more (access_enter loop) (access_enter loop')"
  by (simp add: acc_more_def access_enter_def split: option.split)

lemma more_loop: "acc_more (access_loop n sys) (access_loop (Suc n) sys)"
proof (induction n)
  case 0
  show ?case by (simp add: acc_more_def more_defined_def)
next
  case (Suc n)
  show ?case
    unfolding acc_more_def access_loop.simps(2) [of n] access_loop.simps(2) [of "Suc n"]
    by (intro allI more_access_round more_enter Suc) (use Suc in \<open>simp_all add: again_more_def acc_more_def\<close>)
qed

lemma more_access: "n \<le> m \<Longrightarrow> acc_more (access n sys) (access m sys)"
  unfolding access_def
proof (rule more_enter, induction rule: dec_induct)
  case (step m)
  then show ?case using more_loop [of m sys] unfolding acc_more_def by (blast intro: more_trans)
qed (simp add: acc_more_def)

subsection \<open>Runs of a database\<close>

definition settled :: "'v queries \<Rightarrow> 'v world \<Rightarrow> bool" where
  "settled Q w \<longleftrightarrow>
     store_ok Q w \<and> leads_ok (cache_scope_id (w_rt w)) (w_inflight w) \<and> reads_ok Q (w_task w)
     \<and> active_stack (w_task w) = None \<and> \<not> is_snapshot (w_rt w)"

text \<open>
  A database as \<open>new\<close> leaves it: empty ingredients of the kinds of the queries, and a scope that nothing in
  the process-wide cache and registry belongs to.
\<close>

definition new_database :: "'v queries \<Rightarrow> 'v world \<Rightarrow> bool" where
  "new_database Q w \<longleftrightarrow>
     \<not> is_snapshot (w_rt w) \<and> w_task w = task0
     \<and> (\<forall>k \<in> qs_kinds Q. \<exists>name. ingredient (w_ingredients w) k = Some (DerivedI (derived_new k name)))
     \<and> (\<forall>k d. ingredient (w_ingredients w) k = Some (DerivedI d) \<longrightarrow> k \<in> qs_kinds Q)
     \<and> (\<forall>k r. tget (sc_map (w_cache w)) k = Some r \<longrightarrow> sk_runtime_id k \<noteq> cache_scope_id (w_rt w))
     \<and> (\<forall>k e. tget (reg_map (w_inflight w)) k = Some e \<longrightarrow> if_runtime_id k \<noteq> cache_scope_id (w_rt w))"

lemma settled_new:
  assumes "new_database Q w"
  shows "settled Q w"
proof -
  note new = assms [unfolded new_database_def]
  have kind: "d = derived_new k (de_kind_name d)" if "ingredient (w_ingredients w) k = Some (DerivedI d)" for k d
  proof -
    from that new have "k \<in> qs_kinds Q" by blast
    with new that obtain name where "d = derived_new k name" by force
    then show ?thesis by (simp add: derived_new_def)
  qed
  have new_cells: "de_kind d = k \<and> de_cells d = []" if "ingredient (w_ingredients w) k = Some (DerivedI d)" for k d
    by (subst (1 2) kind [OF that]) (simp add: derived_new_def)
  then have cells: "get_cell q w = None" and kinds: "derived_reg w k \<longleftrightarrow> (\<exists>d. ingredient (w_ingredients w) k = Some (DerivedI d))" for q k
    by (auto simp: get_cell_def derived_reg_def split: option.split ingredient.split)
  have "sk_runtime_id (slot (w_rt w) q) = cache_scope_id (w_rt w)" for q by (simp add: slot_def)
  then have "tget (sc_map (w_cache w)) (slot (w_rt w) q) = None" for q
    using new by (metis option.exhaust)
  then have "store_ok Q w" unfolding store_ok_def kinds cells using new new_cells by auto
  then show ?thesis using new by (auto simp: settled_def leads_ok_def reads_ok_def task0_def wf_task_def)
qed

lemma settled_access:
  assumes closed: "closed_queries Q" and w: "settled Q w" and q: "q \<in> qs_keys Q" and n: "card (qs_keys Q) \<le> n"
  shows "case scoped (access n (qs_sys Q)) q want w of
      (Finished _, w') \<Rightarrow> settled Q w' \<or> is_snapshot (w_rt w') | (Blocked, _) \<Rightarrow> True | (OutOfFuel, _) \<Rightarrow> False"
proof -
  let ?w0 = "on_task (\<lambda>t. t\<lparr>active_stack := Some []\<rparr>) w"
  have none: "active_stack (w_task w) = None" using w by (simp add: settled_def)
  have "room Q (world_rev w) (cache_scope_id (w_rt w)) n {} ?w0"
    using w n by (simp add: settled_def room_def run_ok_task reads_ok_def wf_task_def stack_keys_def)
  from acc_endsD [OF acc_ends_access [OF closed] this q, of want]
  show ?thesis
    by (auto simp: scoped_def none ends_def goes_def run_ok_def settled_def reads_ok_def wf_task_def
        split: outcome.splits prod.splits)
qed

definition answers :: "'v queries \<Rightarrow> ('a, 'v) run \<Rightarrow> bool" where
  "answers Q out \<longleftrightarrow>
     (case out of (Finished _, w') \<Rightarrow> settled Q w' | (Blocked, _) \<Rightarrow> True | (OutOfFuel, _) \<Rightarrow> False)"

lemma answers_then_run:
  assumes "answers Q m" and "\<And>a w. settled Q w \<Longrightarrow> answers Q (k a w)"
  shows "answers Q (then_run m k)"
  using assms by (cases m; cases "fst m") (auto simp: answers_def then_run_def)

lemma answers_read:
  assumes closed: "closed_queries Q" and w: "settled Q w" and q: "q \<in> qs_keys Q" and n: "card (qs_keys Q) \<le> n"
  shows "answers Q (db_get n (qs_sys Q) q w)" "answers Q (db_touch n (qs_sys Q) q w)"
proof -
  have "\<not> is_snapshot (w_rt w)" and "reads_only w w" using w by (simp_all add: settled_def reads_only_def)
  then have live: "\<not> is_snapshot (w_rt (snd (db_get n (qs_sys Q) q w)))" "\<not> is_snapshot (w_rt (snd (db_touch n (qs_sys Q) q w)))"
    using reader.get_keeps [of w w n "qs_sys Q" q] reader.touch_keeps [of w w n "qs_sys Q" q] by (simp_all add: reads_only_def)
  from live(1) settled_access [OF closed w q n, of True] show "answers Q (db_get n (qs_sys Q) q w)"
    by (auto simp: answers_def db_get_def get_erased_def then_run_def split: outcome.splits prod.splits)
  from live(2) settled_access [OF closed w q n, of False] show "answers Q (db_touch n (qs_sys Q) q w)"
    by (auto simp: answers_def db_touch_def touch_erased_def then_run_def split: outcome.splits prod.splits)
qed

lemma settled_write:
  assumes w: "settled Q w"
    and f: "\<And>s d1. d1 = snd (f \<lparr>db_input = s, db_runtime = w_rt w, db_counter = w_counter w\<rparr>) \<Longrightarrow>
      \<not> is_snapshot (db_runtime d1) \<and> cache_scope_id (db_runtime d1) = cache_scope_id (w_rt w)"
  shows "settled Q (snd (on_input kind f w))"
proof (cases "\<exists>s. ingredient (w_ingredients w) kind = Some (InputI s)")
  case True
  then obtain s where s: "ingredient (w_ingredients w) kind = Some (InputI s)" by blast
  obtain rv1 d1 where fd: "f \<lparr>db_input = s, db_runtime = w_rt w, db_counter = w_counter w\<rparr> = (rv1, d1)" by fastforce
  let ?w = "w\<lparr>w_ingredients := tinsert kind (InputI (db_input d1)) (w_ingredients w), w_rt := db_runtime d1, w_counter := db_counter d1\<rparr>"
  have views: "derived_reg ?w k = derived_reg w k" "get_cell p ?w = get_cell p w"
    "ingredient (w_ingredients ?w) k = Some (DerivedI c) \<longleftrightarrow> ingredient (w_ingredients w) k = Some (DerivedI c)" for k p c
    using s by (auto simp: derived_reg_def get_cell_def ingredient_def)
  have rt: "\<not> is_snapshot (db_runtime d1)" "cache_scope_id (db_runtime d1) = cache_scope_id (w_rt w)"
    using f [of d1 s] fd by simp_all
  have "settled Q ?w" using w rt by (simp only: settled_def store_ok_def views) (simp add: slot_def)
  then show ?thesis by (simp add: on_input_def s fd)
qed (use w in \<open>auto simp: on_input_def split: option.split ingredient.split\<close>)

fun db_steps :: "hasher \<Rightarrow> nat \<Rightarrow> 'v system \<Rightarrow> 'v db_op list \<Rightarrow> 'v world \<Rightarrow> (unit, 'v) run" where
  "db_steps sh n sys [] w = (Finished (), w)"
| "db_steps sh n sys (OpSet kind key v # ops) w = db_steps sh n sys ops (db_set sh sys kind key v w)"
| "db_steps sh n sys (OpRemove kind key # ops) w = db_steps sh n sys ops (db_remove sh kind key w)"
| "db_steps sh n sys (OpGet q # ops) w = then_run (db_get n sys q w) (\<lambda>_. db_steps sh n sys ops)"
| "db_steps sh n sys (OpTouch q # ops) w = then_run (db_touch n sys q w) (\<lambda>_. db_steps sh n sys ops)"

fun op_in :: "'v queries \<Rightarrow> 'v db_op \<Rightarrow> bool" where
  "op_in Q (OpGet q) = (q \<in> qs_keys Q)"
| "op_in Q (OpTouch q) = (q \<in> qs_keys Q)"
| "op_in Q _ = True"

lemma settled_set_remove:
  assumes w: "settled Q w"
  shows "settled Q (db_set sh sys kind key v w)" "settled Q (db_remove sh kind key w)"
proof -
  have live: "\<not> is_snapshot (w_rt w)" using w by (simp add: settled_def)
  have frame: "\<not> is_snapshot (db_runtime (write_finish q x (fst wb) (snd wb)))
      \<and> cache_scope_id (db_runtime (write_finish q x (fst wb) (snd wb))) = cache_scope_id (w_rt w)"
    if "wb = write_begin \<lparr>db_input = s, db_runtime = w_rt w, db_counter = w_counter w\<rparr>" for s wb q x
    using write_runtime_frame [of "\<lparr>db_input = s, db_runtime = w_rt w, db_counter = w_counter w\<rparr>" "fst wb" "snd wb" q x] live that
    by simp
  note frame = frame [OF refl]
  show "settled Q (db_set sh sys kind key v w)"
    unfolding db_set_def
    by (rule settled_write [OF w])
      (simp add: input_set_def Let_def case_prod_beta frame live split: sum.split option.split)
  show "settled Q (db_remove sh kind key w)"
    unfolding db_remove_def
    by (rule settled_write [OF w])
      (simp add: input_remove_def Let_def case_prod_beta frame live split: sum.split option.split)
qed

lemma answers_steps:
  assumes closed: "closed_queries Q" and n: "card (qs_keys Q) \<le> n"
  shows "settled Q w \<Longrightarrow> \<forall>op \<in> set ops. op_in Q op \<Longrightarrow> answers Q (db_steps sh n (qs_sys Q) ops w)"
proof (induction ops arbitrary: w)
  case (Cons op ops)
  then show ?case
    by (cases op) (auto intro!: answers_then_run answers_read [OF closed _ _ n] simp: settled_set_remove)
qed (simp add: answers_def)

lemma more_steps: "n \<le> m \<Longrightarrow> more_defined (db_steps sh n sys ops w) (db_steps sh m sys ops w)"
proof (induction ops arbitrary: w)
  case (Cons op ops)
  note get = more_get [OF more_access [OF Cons.prems]]
  show ?case using Cons get by (cases op) (auto simp: db_get_def db_touch_def intro!: more_then_run)
qed simp

text \<open>
  C4. No run computes for ever. Take any query functions, also ones that fail, panic or call each
  other in cycles, of which finitely many keys are reachable. From a new database, any sequence of writes,
  removals, reads and revalidations either finishes or stops at a read that waits for a notification (which may never come:
  \<open>failed_adoption_blocks_for_ever\<close> in \<open>Findings\<close>); one unit of fuel for each reachable query decides
  which, and more fuel gives the same run.
\<close>
theorem runs_finish_or_wait:
  assumes "closed_queries Q" and "new_database Q w" and "\<forall>op \<in> set ops. op_in Q op" and "card (qs_keys Q) \<le> n"
  shows "(fst (db_steps sh n (qs_sys Q) ops w) = Finished () \<or> fst (db_steps sh n (qs_sys Q) ops w) = Blocked)
    \<and> db_steps sh n (qs_sys Q) ops w = db_steps sh (card (qs_keys Q)) (qs_sys Q) ops w"
proof -
  have "answers Q (db_steps sh (card (qs_keys Q)) (qs_sys Q) ops w)"
    by (rule answers_steps [OF assms(1) order_refl settled_new [OF assms(2)] assms(3)])
  then have "fst (db_steps sh (card (qs_keys Q)) (qs_sys Q) ops w) \<noteq> OutOfFuel" by (auto simp: answers_def)
  with more_steps [OF assms(4), of sh "qs_sys Q" ops w] show ?thesis
    by (cases "fst (db_steps sh n (qs_sys Q) ops w)") (auto simp: more_defined_def)
qed

text \<open>Two queries that call each other, and one that panics when the other fails.\<close>

definition cyclic_queries :: "u8 queries" where
  "cyclic_queries =
     \<lparr>qs_sys = \<lparr>sys_compute = (\<lambda>kd key.
          Query \<lparr>dk_kind = (if kd = QueryKindId 3 then QueryKindId 4 else QueryKindId 3), dk_key = key\<rparr>
            (\<lambda>r. case r of Inl e \<Rightarrow> (if kd = QueryKindId 3 then PanicP (StrPayload ''cycle'') else Throw e) | Inr v \<Rightarrow> Ret (v + 1))),
        sys_eq = (\<lambda>_ a b. a = b)\<rparr>,
      qs_keys = {\<lparr>dk_kind = QueryKindId 3, dk_key = from_bytes (\<lambda>_. 0) []\<rparr>, \<lparr>dk_kind = QueryKindId 4, dk_key = from_bytes (\<lambda>_. 0) []\<rparr>},
      qs_kinds = {QueryKindId 3, QueryKindId 4}\<rparr>"

theorem runs_finish_or_wait_witness:
  "fst (db_steps (\<lambda>_. 0) 2 (qs_sys cyclic_queries)
      [OpGet \<lparr>dk_kind = QueryKindId 3, dk_key = from_bytes (\<lambda>_. 0) []\<rparr>, OpSet (QueryKindId 1) [] 1,
       OpTouch \<lparr>dk_kind = QueryKindId 4, dk_key = from_bytes (\<lambda>_. 0) []\<rparr>] demo_world) \<noteq> OutOfFuel"
proof -
  have closed: "closed_queries cyclic_queries"
    by (auto simp: closed_queries_def cyclic_queries_def compute_of_def split: sum.split)
  have new: "new_database cyclic_queries demo_world"
    by (auto simp: new_database_def cyclic_queries_def demo_world_def runtime_new_def new_unique_def register_def
        ingredient_kind_def derived_new_def input_new_def ingredient_def shared_cache_init_def registry0_def split: if_splits)
  have card: "card (qs_keys cyclic_queries) \<le> 2" by (simp add: cyclic_queries_def card_insert_if)
  have ops: "\<forall>op \<in> set [OpGet \<lparr>dk_kind = QueryKindId 3, dk_key = from_bytes (\<lambda>_. 0) []\<rparr>, OpSet (QueryKindId 1) [] 1,
       OpTouch \<lparr>dk_kind = QueryKindId 4, dk_key = from_bytes (\<lambda>_. 0) []\<rparr>]. op_in cyclic_queries op"
    by (simp add: cyclic_queries_def)
  show ?thesis using runs_finish_or_wait [OF closed new ops card, of "\<lambda>_. 0"] by (elim conjE disjE) simp_all
qed

end
