(* ===== verification/Liveness.thy ===== *)
theory Liveness
  imports Inflight
begin

text \<open>
  Liveness of the in-flight registry: in every run in which a task that can act eventually acts, every
  request ends. A leader settles, notifies and removes its entry; a follower, asleep or about to sleep, is
  woken and finds the outcome. A leader that can act while it computes stands for a query function
  that ends or is cancelled.
\<close>

subsection \<open>Fair runs\<close>

text \<open>A run may stutter. The steps of \<open>reg_step\<close> change the program counter of exactly one task.\<close>

definition reg_run :: "(nat \<Rightarrow> 'v reg_state) \<Rightarrow> bool" where
  "reg_run \<sigma> \<longleftrightarrow> \<sigma> 0 = reg_init \<and> (\<forall>n. \<sigma> (Suc n) = \<sigma> n \<or> reg_step (\<sigma> n) (\<sigma> (Suc n)))"

definition pc :: "(nat \<Rightarrow> 'v reg_state) \<Rightarrow> nat \<Rightarrow> nat \<Rightarrow> reg_pc" where
  "pc \<sigma> i n = snd (\<sigma> n) i"

fun can_act :: "'v registry \<Rightarrow> reg_pc \<Rightarrow> bool" where
  "can_act r RIdle = False"
| "can_act r (Sleeping e ep) = (ep < ife_epoch (reg_entries r ! e))"
| "can_act r _ = True"

definition fair :: "(nat \<Rightarrow> 'v reg_state) \<Rightarrow> bool" where
  "fair \<sigma> \<longleftrightarrow>
     (\<forall>i n. (\<forall>m \<ge> n. can_act (fst (\<sigma> m)) (pc \<sigma> i m)) \<longrightarrow> (\<exists>m \<ge> n. pc \<sigma> i (Suc m) \<noteq> pc \<sigma> i m))"

lemma reg_run_reach: "reg_run \<sigma> \<Longrightarrow> reg_step\<^sup>*\<^sup>* reg_init (\<sigma> n)"
proof (induction n)
  case (Suc n)
  then show ?case unfolding reg_run_def by (metis rtranclp.rtrancl_into_rtrancl)
qed (simp add: reg_run_def)

lemma reg_run_inv: "reg_run \<sigma> \<Longrightarrow> reg_inv (\<sigma> n)"
  by (rule reg_inv_reachable [OF reg_run_reach])

text \<open>What a task can do next, by its program counter.\<close>

inductive task_step :: "'v registry \<Rightarrow> reg_pc \<Rightarrow> reg_pc \<Rightarrow> bool" for r where
  "task_step r RIdle x"
| "task_step r (Held Computing g) (Held StateSet g)"
| "task_step r (Held StateSet g) (Held Notified g)"
| "task_step r (Held Notified g) RIdle"
| "task_step r (Waiting e) (Armed e (ife_epoch (reg_entries r ! e)))"
| "ife_state (reg_entries r ! e) = IfRunning \<Longrightarrow> task_step r (Armed e ep) (Sleeping e ep)"
| "task_step r (Sleeping e ep) (Waiting e)"
| "x = Waiting e \<or> x = Armed e ep \<or> x = Sleeping e ep \<Longrightarrow> task_step r x RIdle"

inductive_cases task_stepE:
  "task_step r (Held Computing g) x" "task_step r (Held StateSet g) x" "task_step r (Held Notified g) x"
  "task_step r (Waiting e) x" "task_step r (Armed e ep) x" "task_step r (Sleeping e ep) x"

lemma reg_step_task: "reg_step s t \<Longrightarrow> snd t i \<noteq> snd s i \<Longrightarrow> task_step (fst s) (snd s i) (snd t i)"
proof (induction rule: reg_step.induct)
  case (lead p j k r g r')
  then show ?case by (cases "i = j") (auto intro: task_step.intros)
next
  case (follow p j k r e r')
  then show ?case by (cases "i = j") (auto intro: task_step.intros)
qed (auto intro: task_step.intros split: if_splits)

lemma pc_step:
  assumes "reg_run \<sigma>" and "pc \<sigma> i (Suc n) \<noteq> pc \<sigma> i n"
  shows "task_step (fst (\<sigma> n)) (pc \<sigma> i n) (pc \<sigma> i (Suc n))"
proof -
  have "reg_step (\<sigma> n) (\<sigma> (Suc n))" using assms unfolding reg_run_def pc_def by metis
  from reg_step_task [OF this] assms(2) show ?thesis by (simp add: pc_def)
qed

text \<open>A task that can act as long as its counter stays is found at its next counter.\<close>

lemma next_pc:
  assumes run: "reg_run \<sigma>" and fair: "fair \<sigma>" and x: "pc \<sigma> i n = x"
    and act: "\<And>m. n \<le> m \<Longrightarrow> pc \<sigma> i m = x \<Longrightarrow> can_act (fst (\<sigma> m)) x"
  shows "\<exists>m \<ge> n. pc \<sigma> i m = x \<and> pc \<sigma> i (Suc m) \<noteq> x \<and> task_step (fst (\<sigma> m)) x (pc \<sigma> i (Suc m))"
proof -
  have "\<exists>m \<ge> n. pc \<sigma> i (Suc m) \<noteq> x"
  proof (rule ccontr)
    assume "\<not> (\<exists>m \<ge> n. pc \<sigma> i (Suc m) \<noteq> x)"
    then have stay: "pc \<sigma> i m = x" if "n \<le> m" for m
      using that x by (cases m) (auto simp: le_Suc_eq)
    then have "\<forall>m \<ge> n. can_act (fst (\<sigma> m)) (pc \<sigma> i m)" using act by simp
    then obtain m where "n \<le> m" "pc \<sigma> i (Suc m) \<noteq> pc \<sigma> i m" using fair unfolding fair_def by blast
    then show False using stay [of m] stay [of "Suc m"] by simp
  qed
  then have ex: "\<exists>m. n \<le> m \<and> pc \<sigma> i (Suc m) \<noteq> x" by blast
  define m where "m = (LEAST m. n \<le> m \<and> pc \<sigma> i (Suc m) \<noteq> x)"
  have m: "n \<le> m \<and> pc \<sigma> i (Suc m) \<noteq> x" unfolding m_def by (rule LeastI_ex [OF ex])
  have least: "\<not> (n \<le> l \<and> pc \<sigma> i (Suc l) \<noteq> x)" if "l < m" for l
    using that unfolding m_def by (rule not_less_Least)
  have "pc \<sigma> i m = x"
  proof (cases "m = n")
    case False
    then obtain l where "m = Suc l" "n \<le> l" using m by (cases m) auto
    then show ?thesis using least [of l] by simp
  qed (use x in simp)
  moreover from this m have "task_step (fst (\<sigma> m)) (pc \<sigma> i m) (pc \<sigma> i (Suc m))" by (intro pc_step [OF run]) simp
  ultimately show ?thesis using m by auto
qed

subsection \<open>Leaders finish\<close>

lemma leader_finishes:
  assumes run: "reg_run \<sigma>" and fair: "fair \<sigma>" and held: "pc \<sigma> j n = Held ph g"
  shows "\<exists>m \<ge> n. pc \<sigma> j m = Held Notified g \<and> pc \<sigma> j (Suc m) = RIdle"
proof -
  have notified: "\<exists>m \<ge> n. pc \<sigma> j m = Held Notified g \<and> pc \<sigma> j (Suc m) = RIdle" if "pc \<sigma> j n = Held Notified g" for n
    using next_pc [OF run fair that] by (auto elim: task_stepE)
  have state_set: "\<exists>m \<ge> n. pc \<sigma> j m = Held Notified g" if "pc \<sigma> j n = Held StateSet g" for n
    using next_pc [OF run fair that] by (auto elim!: task_stepE intro: le_SucI)
  have computing: "\<exists>m \<ge> n. pc \<sigma> j m = Held StateSet g" if "pc \<sigma> j n = Held Computing g" for n
    using next_pc [OF run fair that] by (auto elim!: task_stepE intro: le_SucI)
  show ?thesis
    using held notified state_set computing by (cases ph) (meson order_trans)+
qed

text \<open>An entry that nobody is going to notify any more, and that stays so.\<close>

definition announced :: "'v reg_state \<Rightarrow> nat \<Rightarrow> bool" where
  "announced s e \<longleftrightarrow>
     e < length (reg_entries (fst s)) \<and> ife_state (reg_entries (fst s) ! e) \<noteq> IfRunning
     \<and> 0 < ife_epoch (reg_entries (fst s) ! e)"

lemma announced_step: "announced s e \<Longrightarrow> reg_inv s \<Longrightarrow> reg_step s t \<Longrightarrow> announced t e"
proof -
  assume a: "announced s e" "reg_inv s" "reg_step s t"
  have "ife_epoch (reg_entries (fst s) ! e) \<le> ife_epoch (reg_entries (fst t) ! e)"
    using a(3,1) unfolding announced_def
  proof (induction rule: reg_step.induct)
    case (settle p i g st r)
    then show ?case by (cases "e = g_entry g") (auto simp: set_state_def)
  next
    case (notify p i g r)
    then show ?case by (cases "e = g_entry g") (auto simp: notify_entry_def)
  qed (auto simp: try_lead_Leader try_lead_Follower unregister_def nth_append)
  then show "announced t e" using a reg_step_outcome_kept [of s t e] by (auto simp: announced_def)
qed

lemma announced_stays:
  assumes "reg_run \<sigma>" and "announced (\<sigma> n) e" and "n \<le> m"
  shows "announced (\<sigma> m) e"
  using assms(3)
proof (induction rule: dec_induct)
  case (step m)
  then show ?case using announced_step [OF _ reg_run_inv [OF assms(1)], of m e] assms(1)
    unfolding reg_run_def by metis
qed (rule assms(2))

lemma eventually_announced:
  assumes run: "reg_run \<sigma>" and fair: "fair \<sigma>" and e: "e < length (reg_entries (fst (\<sigma> n)))"
  shows "\<exists>m \<ge> n. announced (\<sigma> m) e"
proof -
  obtain r p where s: "\<sigma> n = (r, p)" by fastforce
  have inv: "reg_inv (r, p)" using reg_run_inv [OF run, of n] s by simp
  show ?thesis
  proof (cases "\<exists>j ph. held_by p j e ph")
    case True
    then obtain j ph g where "pc \<sigma> j n = Held ph g" and g: "g_entry g = e" by (auto simp: held_by_def pc_def s)
    from leader_finishes [OF run fair this(1)] obtain m where m: "n \<le> m" "pc \<sigma> j m = Held Notified g" by blast
    obtain r' p' where s': "\<sigma> m = (r', p')" by fastforce
    have "reg_inv (r', p')" using reg_run_inv [OF run, of m] s' by simp
    from reg_invD(2,3) [OF this, of j Notified g] m(2) g have "announced (\<sigma> m) e"
      by (simp add: announced_def pc_def s')
    with m(1) show ?thesis by blast
  next
    case False
    then have "announced (\<sigma> n) e" using reg_invD(6) [OF inv, of e] e by (simp add: announced_def s)
    then show ?thesis by blast
  qed
qed

subsection \<open>Followers finish\<close>

lemma follower_finishes:
  assumes run: "reg_run \<sigma>" and fair: "fair \<sigma>" and ann: "announced (\<sigma> n) e"
    and x: "pc \<sigma> i n = Waiting e \<or> pc \<sigma> i n = Armed e ep \<or> pc \<sigma> i n = Sleeping e ep"
  shows "\<exists>m \<ge> n. pc \<sigma> i m = RIdle"
proof -
  note later = announced_stays [OF run ann]
  have armed: "\<exists>m \<ge> l. pc \<sigma> i m = RIdle" if l: "n \<le> l" "pc \<sigma> i l = Armed e ep" for l ep
  proof -
    from next_pc [OF run fair l(2)] obtain m where m: "l \<le> m" "task_step (fst (\<sigma> m)) (Armed e ep) (pc \<sigma> i (Suc m))" by auto
    have "ife_state (reg_entries (fst (\<sigma> m)) ! e) \<noteq> IfRunning" using later [of m] l m by (simp add: announced_def)
    with m(2) have "pc \<sigma> i (Suc m) = RIdle" by (auto elim: task_stepE)
    with m(1) show ?thesis by (intro exI [of _ "Suc m"]) simp
  qed
  have waiting: "\<exists>m \<ge> l. pc \<sigma> i m = RIdle" if l: "n \<le> l" "pc \<sigma> i l = Waiting e" for l
  proof -
    from next_pc [OF run fair l(2)] obtain m where m: "l \<le> m" "task_step (fst (\<sigma> m)) (Waiting e) (pc \<sigma> i (Suc m))" by auto
    then consider ep where "pc \<sigma> i (Suc m) = Armed e ep" | "pc \<sigma> i (Suc m) = RIdle" by (auto elim: task_stepE)
    then show ?thesis
    proof cases
      case 1
      from armed [OF _ 1] l m show ?thesis by (meson le_SucI order_trans)
    qed (use m in \<open>auto intro: le_SucI\<close>)
  qed
  have sleeping: "\<exists>m \<ge> l. pc \<sigma> i m = RIdle" if l: "n \<le> l" "pc \<sigma> i l = Sleeping e ep" for l ep
  proof -
    have "can_act (fst (\<sigma> m)) (Sleeping e ep)" if m: "l \<le> m" "pc \<sigma> i m = Sleeping e ep" for m
    proof -
      obtain r p where s: "\<sigma> m = (r, p)" by fastforce
      have "reg_inv (r, p)" using reg_run_inv [OF run, of m] s by simp
      from reg_invD(7) [OF this, of i] m(2) have "ep = 0" by (simp add: pc_def s)
      then show ?thesis using later [of m] l m by (simp add: announced_def)
    qed
    from next_pc [OF run fair l(2) this] obtain m where m: "l \<le> m" "task_step (fst (\<sigma> m)) (Sleeping e ep) (pc \<sigma> i (Suc m))" by auto
    then consider "pc \<sigma> i (Suc m) = Waiting e" | "pc \<sigma> i (Suc m) = RIdle" by (auto elim: task_stepE)
    then show ?thesis
    proof cases
      case 1
      from waiting [OF _ 1] l m show ?thesis by (meson le_SucI order_trans)
    qed (use m in \<open>auto intro: le_SucI\<close>)
  qed
  show ?thesis using x armed waiting sleeping by blast
qed

text \<open>A follower stays with its entry until it is done.\<close>

fun follows :: "reg_pc \<Rightarrow> nat \<Rightarrow> bool" where
  "follows (Waiting e) e' = (e = e')"
| "follows (Armed e ep) e' = (e = e')"
| "follows (Sleeping e ep) e' = (e = e')"
| "follows _ e' = False"

lemma follows_iff: "follows x e \<longleftrightarrow> x = Waiting e \<or> (\<exists>ep. x = Armed e ep \<or> x = Sleeping e ep)"
  by (cases x) auto

lemma follows_step: "task_step r x y \<Longrightarrow> follows x e \<Longrightarrow> y = RIdle \<or> follows y e"
  by (induction rule: task_step.induct) auto

lemma follows_until:
  assumes run: "reg_run \<sigma>" and x: "follows (pc \<sigma> i n) e" and m: "n \<le> m"
  shows "follows (pc \<sigma> i m) e \<or> (\<exists>l \<ge> n. pc \<sigma> i l = RIdle)"
  using m
proof (induction rule: dec_induct)
  case (step m)
  show ?case
  proof (cases "pc \<sigma> i (Suc m) = pc \<sigma> i m")
    case False
    from follows_step [OF pc_step [OF run False]] step show ?thesis by (meson le_SucI)
  qed (use step in simp)
qed (use x in simp)

text \<open>
  C16. Every request ends. In a run in which every task that can act eventually does, a task that leads or
  follows a query, in whatever stage, is done at some later time, whether the leader completes,
  fails or is cancelled: no follower waits for ever.
\<close>
theorem every_request_ends:
  assumes "reg_run \<sigma>" and "fair \<sigma>"
  shows "\<exists>m \<ge> n. snd (\<sigma> m) i = RIdle"
proof -
  have "\<exists>m \<ge> n. pc \<sigma> i m = RIdle"
  proof (cases "\<exists>e. follows (pc \<sigma> i n) e")
    case True
    then obtain e where e: "follows (pc \<sigma> i n) e" by blast
    obtain r p where s: "\<sigma> n = (r, p)" by fastforce
    have "reg_inv (r, p)" using reg_run_inv [OF assms(1), of n] s by simp
    from reg_invD(7) [OF this, of i] e have "e < length (reg_entries (fst (\<sigma> n)))" by (auto simp: follows_iff pc_def s)
    from eventually_announced [OF assms this] obtain k where k: "n \<le> k" "announced (\<sigma> k) e" by blast
    from follows_until [OF assms(1) e k(1)] show ?thesis
      using follower_finishes [OF assms k(2), of i] k(1) unfolding follows_iff by (meson order_trans)
  next
    case False
    then show ?thesis
    proof (cases "pc \<sigma> i n")
      case (Held ph g)
      from leader_finishes [OF assms this] show ?thesis by (meson le_SucI)
    qed (use False in auto)
  qed
  then show ?thesis by (simp add: pc_def)
qed

text \<open>Task 0 leads, task 1 follows and goes to sleep, task 0 completes, task 1 wakes and adopts.\<close>

definition demo_states :: "u8 reg_state list" where
  "demo_states =
     (let r1 = \<lparr>reg_entries = [entry_new], reg_map = [(demo_inflight, 0)]\<rparr>;
          r2 = set_state 0 (IfDone 42 [] (Revision 1)) r1; r3 = notify_entry 0 r2; r4 = unregister demo_inflight r3;
          q = (\<lambda>a b. (\<lambda>_. RIdle)(0 := a, 1 := b)); g = demo_guard
      in [reg_init, (r1, q (Held Computing g) RIdle), (r1, q (Held Computing g) (Waiting 0)),
          (r1, q (Held Computing g) (Armed 0 0)), (r1, q (Held Computing g) (Sleeping 0 0)),
          (r2, q (Held StateSet g) (Sleeping 0 0)), (r3, q (Held Notified g) (Sleeping 0 0)),
          (r4, q RIdle (Sleeping 0 0)), (r4, q RIdle (Waiting 0)), (r4, q RIdle (Armed 0 1)), (r4, q RIdle RIdle)])"

definition demo_run :: "nat \<Rightarrow> u8 reg_state" where
  "demo_run n = demo_states ! min n 10"

lemma demo_steps:
  assumes "n < 10"
  shows "reg_step (demo_states ! n) (demo_states ! Suc n)"
proof -
  let ?r1 = "\<lparr>reg_entries = [entry_new], reg_map = [(demo_inflight, 0)]\<rparr> :: u8 registry" and ?g = demo_guard
  let ?q = "\<lambda>a b. (\<lambda>_ :: nat. RIdle)(0 := a, 1 := b)"
  let ?r2 = "set_state 0 (IfDone 42 [] (Revision 1)) ?r1" let ?r3 = "notify_entry 0 ?r2"
  let ?r4 = "unregister demo_inflight ?r3"
  have entry: "g_entry ?g = 0" "g_key ?g = demo_inflight" by (simp_all add: demo_guard_def)
  have states: "ife_epoch (reg_entries ?r1 ! 0) = 0" "ife_state (reg_entries ?r1 ! 0) = IfRunning"
    "ife_epoch (reg_entries ?r4 ! 0) = 1" "ife_state (reg_entries ?r4 ! 0) = IfDone 42 [] (Revision 1)"
    by (simp_all add: entry_new_def set_state_def notify_entry_def unregister_def)
  have q0: "?q x RIdle = (\<lambda>_. RIdle)(0 := x)" for x by (rule ext) simp
  have "reg_step reg_init (?r1, ?q (Held Computing ?g) RIdle)"
    unfolding q0 using lead [of "\<lambda>_. RIdle" 0 demo_inflight "registry0 :: u8 registry" ?g ?r1]
    by (simp add: reg_init_def try_lead_Leader registry0_def demo_guard_def tinsert_def)
  moreover have "reg_step (?r1, ?q (Held Computing ?g) RIdle) (?r1, ?q (Held Computing ?g) (Waiting 0))"
    using follow [of "?q (Held Computing ?g) RIdle" 1 demo_inflight ?r1 0 ?r1] by (simp add: try_lead_Follower)
  moreover have "reg_step (?r1, ?q (Held Computing ?g) (Waiting 0)) (?r1, ?q (Held Computing ?g) (Armed 0 0))"
    using arm [of "?q (Held Computing ?g) (Waiting 0)" 1 0 ?r1] states by simp
  moreover have "reg_step (?r1, ?q (Held Computing ?g) (Armed 0 0)) (?r1, ?q (Held Computing ?g) (Sleeping 0 0))"
    using sleep [of "?q (Held Computing ?g) (Armed 0 0)" 1 0 0 ?r1] states by simp
  moreover have "reg_step (?r1, ?q (Held Computing ?g) (Sleeping 0 0)) (?r2, ?q (Held StateSet ?g) (Sleeping 0 0))"
    using settle [of "?q (Held Computing ?g) (Sleeping 0 0)" 0 ?g "IfDone 42 [] (Revision 1)" ?r1] entry
    by (simp add: fun_upd_twist)
  moreover have "reg_step (?r2, ?q (Held StateSet ?g) (Sleeping 0 0)) (?r3, ?q (Held Notified ?g) (Sleeping 0 0))"
    using notify [of "?q (Held StateSet ?g) (Sleeping 0 0)" 0 ?g ?r2] entry by (simp add: fun_upd_twist)
  moreover have "reg_step (?r3, ?q (Held Notified ?g) (Sleeping 0 0)) (?r4, ?q RIdle (Sleeping 0 0))"
    using remove [of "?q (Held Notified ?g) (Sleeping 0 0)" 0 ?g ?r3] entry by (simp add: fun_upd_twist)
  moreover have "reg_step (?r4, ?q RIdle (Sleeping 0 0)) (?r4, ?q RIdle (Waiting 0))"
    using wake [of "?q RIdle (Sleeping 0 0)" 1 0 0 ?r4] states by simp
  moreover have "reg_step (?r4, ?q RIdle (Waiting 0)) (?r4, ?q RIdle (Armed 0 1))"
    using arm [of "?q RIdle (Waiting 0)" 1 0 ?r4] states by simp
  moreover have "reg_step (?r4, ?q RIdle (Armed 0 1)) (?r4, ?q RIdle RIdle)"
    using adopt [of "?q RIdle (Armed 0 1)" 1 0 1 ?r4] states by simp
  moreover have "n \<in> {0, 1, 2, 3, 4, 5, 6, 7, 8, 9}" using assms by auto
  ultimately show ?thesis by (auto simp: demo_states_def Let_def)
qed

theorem every_request_ends_witness:
  "snd (demo_run 4) 1 = Sleeping 0 0 \<and> (\<exists>m \<ge> 4. snd (demo_run m) 1 = RIdle)"
proof -
  have run: "reg_run demo_run"
    unfolding reg_run_def
  proof (intro conjI allI)
    show "demo_run 0 = reg_init" by (simp add: demo_run_def demo_states_def Let_def)
    fix n show "demo_run (Suc n) = demo_run n \<or> reg_step (demo_run n) (demo_run (Suc n))"
      using demo_steps [of n] by (cases "n < 10") (simp_all add: demo_run_def min_def)
  qed
  have idle: "pc demo_run i m = RIdle" if "10 \<le> m" for i m
    using that by (simp add: pc_def demo_run_def demo_states_def Let_def min_def)
  have fair: "fair demo_run"
    unfolding fair_def
  proof (intro allI impI)
    fix i n assume "\<forall>m \<ge> n. can_act (fst (demo_run m)) (pc demo_run i m)"
    then have "can_act (fst (demo_run (n + 10))) (pc demo_run i (n + 10))" by simp
    then show "\<exists>m \<ge> n. pc demo_run i (Suc m) \<noteq> pc demo_run i m" using idle [of "n + 10" i] by simp
  qed
  show ?thesis
    using every_request_ends [OF run fair, of 4 1] by (simp add: demo_run_def demo_states_def Let_def)
qed

end
