(* ===== verification/Erasure.thy ===== *)
theory Erasure
  imports Derived
begin

text \<open>
  The type-erased layer of \<open>ingredient/derived.rs\<close> and \<open>ingredient/input.rs\<close>: values are \<open>Arc<dyn Any>\<close>, the cores
  are compiled once and call function pointers that the generic constructors made for the key and value
  types; decoding goes through the reflection library in stages.

  \<open>Derived\<close> and \<open>Inputs\<close> model the same operations on typed values. The theorem is the refinement: a core that was
  made for a type and holds erased values of it behaves as the typed model, error for error, and no downcast
  of it fails.
\<close>

subsection \<open>Any\<close>

text \<open>A value behind \<open>dyn Any\<close>: the id of its type and the value in a universal type.\<close>

record 'u ArcAny =
  aa_type_id :: nat
  aa_value :: 'u

text \<open>A Rust type: its id, its name, and how its values lie in the universal type.\<close>

record ('u, 'v) rust_type =
  ty_id :: nat
  ty_name :: string
  ty_in :: "'v \<Rightarrow> 'u"
  ty_out :: "'u \<Rightarrow> 'v"

definition rust_type_ok :: "('u, 'v) rust_type \<Rightarrow> bool" where
  "rust_type_ok ty \<longleftrightarrow> (\<forall>v. ty_out ty (ty_in ty v) = v)"

text \<open>\<open>Arc::new(v) as ArcAny\<close> and \<open>downcast\<close>.\<close>

definition erase :: "('u, 'v) rust_type \<Rightarrow> 'v \<Rightarrow> 'u ArcAny" where
  "erase ty v = \<lparr>aa_type_id = ty_id ty, aa_value = ty_in ty v\<rparr>"

definition downcast :: "('u, 'v) rust_type \<Rightarrow> 'u ArcAny \<Rightarrow> 'v option" where
  "downcast ty a = (if aa_type_id a = ty_id ty then Some (ty_out ty (aa_value a)) else None)"

lemma downcast_erase [simp]: "rust_type_ok ty \<Longrightarrow> downcast ty (erase ty v) = Some v"
  by (simp add: rust_type_ok_def downcast_def erase_def)

subsection \<open>The reflection library\<close>

text \<open>
  Encoding through \<open>Peek\<close>; decoding allocates a partial value, fills it from the bytes, builds a heap value
  and moves that out.
\<close>

record ('p, 'h, 'r) heap_codec =
  hc_peek_to_vec :: "'r \<Rightarrow> string + bytes"
  hc_alloc :: "string + 'p"
  hc_from_slice :: "bytes \<Rightarrow> 'p \<Rightarrow> string + 'p"
  hc_build :: "'p \<Rightarrow> string + 'h"
  hc_materialize :: "'h \<Rightarrow> string + 'r"

definition encode_with_peek :: "('p, 'h, 'r) heap_codec \<Rightarrow> 'r \<Rightarrow> string \<Rightarrow> bytes PicanteResult" where
  "encode_with_peek hc peek what =
     (case hc_peek_to_vec hc peek of Inl e \<Rightarrow> Inl (Encode what e) | Inr bs \<Rightarrow> Inr bs)"

definition decode_to_heap_value :: "('p, 'h, 'r) heap_codec \<Rightarrow> bytes \<Rightarrow> string \<Rightarrow> 'h PicanteResult" where
  "decode_to_heap_value hc bs what =
     (case hc_alloc hc of
        Inl e \<Rightarrow> Inl (Decode what (''alloc failed: '' @ e))
      | Inr partial \<Rightarrow>
          (case hc_from_slice hc bs partial of
             Inl e \<Rightarrow> Inl (Decode what e)
           | Inr full \<Rightarrow>
               (case hc_build hc full of
                  Inl e \<Rightarrow> Inl (Decode what (''build failed: '' @ e))
                | Inr h \<Rightarrow> Inr h)))"

definition materialize :: "('p, 'h, 'r) heap_codec \<Rightarrow> 'h \<Rightarrow> string \<Rightarrow> 'r PicanteResult" where
  "materialize hc h what =
     (case hc_materialize hc h of Inl e \<Rightarrow> Inl (Decode (what @ '' (materialize)'') e) | Inr r \<Rightarrow> Inr r)"

text \<open>The same library as one codec.\<close>

definition heap_dec :: "('p, 'h, 'r) heap_codec \<Rightarrow> bytes \<Rightarrow> string + 'r" where
  "heap_dec hc bs =
     (case hc_alloc hc of
        Inl e \<Rightarrow> Inl (''alloc failed: '' @ e)
      | Inr partial \<Rightarrow>
          (case hc_from_slice hc bs partial of
             Inl e \<Rightarrow> Inl e
           | Inr full \<Rightarrow>
               (case hc_build hc full of
                  Inl e \<Rightarrow> Inl (''build failed: '' @ e)
                | Inr h \<Rightarrow> hc_materialize hc h)))"

definition codec_of :: "('p, 'h, 'r) heap_codec \<Rightarrow> 'r codec" where
  "codec_of hc = \<lparr>enc = hc_peek_to_vec hc, dec = heap_dec hc\<rparr>"

text \<open>A heap value of the right shape moves out.\<close>

definition materializes :: "('p, 'h, 'r) heap_codec \<Rightarrow> bool" where
  "materializes hc \<longleftrightarrow> (\<forall>h. \<exists>r. hc_materialize hc h = Inr r)"

lemma decode_then_materialize:
  assumes "materializes hc"
  shows "(case decode_to_heap_value hc bs what of Inl e \<Rightarrow> Inl e | Inr h \<Rightarrow> materialize hc h what') =
     (case dec (codec_of hc) bs of Inl m \<Rightarrow> Inl (Decode what m) | Inr r \<Rightarrow> Inr r)"
proof -
  have "hc_materialize hc h \<noteq> Inl e" for h e using assms unfolding materializes_def by (metis Inl_Inr_False)
  then show ?thesis
    by (simp add: decode_to_heap_value_def materialize_def codec_of_def heap_dec_def split: sum.split)
qed

subsection \<open>The callbacks of a derived ingredient\<close>

record 'u ErasedRecordData =
  erd_dyn_key :: DynKey
  erd_value :: "'u ArcAny"
  erd_verified_at :: Revision
  erd_changed_at :: Revision
  erd_deps :: "Dep list"

text \<open>The cell to insert; \<open>None\<close> is a deletion.\<close>

record 'u ApplyWalResult =
  awr_dyn_key :: DynKey
  awr_cell :: "'u ArcAny ErasedState option"

text \<open>The types of an ingredient as its constructors use them, and the \<open>Debug\<close> texts in their messages.\<close>

record ('k, 'v, 'p, 'h, 'u) derived_types =
  dt_value :: "('u, 'v) rust_type"
  dt_key_codec :: "'k codec"
  dt_key :: "('p, 'h, 'k) heap_codec"
  dt_record :: "('p, 'h, ('k, 'v) DerivedRecord) heap_codec"
  dt_dbg :: "PicanteError \<Rightarrow> string"
  dt_dbg_type :: "nat \<Rightarrow> string"

definition type_mismatch :: "('k, 'v, 'p, 'h, 'u) derived_types \<Rightarrow> string \<Rightarrow> string \<Rightarrow> 'u ArcAny \<Rightarrow> PicanteError" where
  "type_mismatch T what kind_name a =
     Panic (''[BUG] type mismatch in '' @ what @ '' for ingredient '' @ kind_name @ '': expected ''
            @ ty_name (dt_value T) @ '', got TypeId '' @ dt_dbg_type T (aa_type_id a))"

definition make_encode_record ::
  "('k, 'v, 'p, 'h, 'u) derived_types \<Rightarrow> string \<Rightarrow> DynKey \<Rightarrow> 'u ArcAny \<Rightarrow> Revision \<Rightarrow> Revision \<Rightarrow> Dep list
   \<Rightarrow> bytes PicanteResult" where
  "make_encode_record T kind_name dyn_key a verified_at changed_at deps =
     (case decode_facet (dt_key_codec T) (dk_key dyn_key) of
        Inl e \<Rightarrow> Inl (Panic (key_bug_message (dt_dbg T) kind_name ''save'' e))
      | Inr key \<Rightarrow>
          (case downcast (dt_value T) a of
             None \<Rightarrow> Inl (type_mismatch T ''save_records'' kind_name a)
           | Some typed_value \<Rightarrow>
               (let rec = \<lparr>der_key = key, der_value = typed_value, der_verified_at = rev_u64 verified_at,
                           der_changed_at = rev_u64 changed_at, der_deps = map dep_record deps\<rparr>
                in encode_with_peek (dt_record T) rec ''derived record'')))"

definition make_decode_record ::
  "hasher \<Rightarrow> ('k, 'v, 'p, 'h, 'u) derived_types \<Rightarrow> QueryKindId \<Rightarrow> bytes \<Rightarrow> 'u ErasedRecordData PicanteResult" where
  "make_decode_record sh T kind bs =
     rbind (decode_to_heap_value (dt_record T) bs ''derived record'') (\<lambda>heap_value.
     rbind (materialize (dt_record T) heap_value ''derived record'') (\<lambda>rec.
     let deps = map (record_dep_of sh) (der_deps rec) in
     rbind (encode_facet sh (dt_key_codec T) (der_key rec)) (\<lambda>key.
     Inr \<lparr>erd_dyn_key = \<lparr>dk_kind = kind, dk_key = key\<rparr>, erd_value = erase (dt_value T) (der_value rec),
          erd_verified_at = Revision (der_verified_at rec), erd_changed_at = Revision (der_changed_at rec),
          erd_deps = deps\<rparr>)))"

definition make_encode_incremental ::
  "('k, 'v, 'p, 'h, 'u) derived_types \<Rightarrow> string \<Rightarrow> DynKey \<Rightarrow> 'u ArcAny \<Rightarrow> Revision \<Rightarrow> Revision \<Rightarrow> Dep list
   \<Rightarrow> (bytes \<times> bytes) PicanteResult" where
  "make_encode_incremental T kind_name dyn_key a verified_at changed_at deps =
     (case decode_facet (dt_key_codec T) (dk_key dyn_key) of
        Inl e \<Rightarrow> Inl (Panic (key_bug_message (dt_dbg T) kind_name ''incremental save'' e))
      | Inr key \<Rightarrow>
          (case downcast (dt_value T) a of
             None \<Rightarrow> Inl (type_mismatch T ''save_incremental_records'' kind_name a)
           | Some typed_value \<Rightarrow>
               (let rec = \<lparr>der_key = key, der_value = typed_value, der_verified_at = rev_u64 verified_at,
                           der_changed_at = rev_u64 changed_at, der_deps = map dep_record deps\<rparr>
                in rbind (encode_with_peek (dt_key T) key ''derived key'') (\<lambda>key_bytes.
                   rbind (encode_with_peek (dt_record T) rec ''derived record'') (\<lambda>value_bytes.
                   Inr (key_bytes, value_bytes))))))"

definition make_apply_wal_entry ::
  "hasher \<Rightarrow> ('k, 'v, 'p, 'h, 'u) derived_types \<Rightarrow> QueryKindId \<Rightarrow> bytes \<Rightarrow> bytes option
   \<Rightarrow> 'u ApplyWalResult PicanteResult" where
  "make_apply_wal_entry sh T kind kbytes value_bytes =
     rbind (decode_to_heap_value (dt_key T) kbytes ''derived key from WAL'') (\<lambda>heap_value.
     rbind (materialize (dt_key T) heap_value ''derived key from WAL'') (\<lambda>key.
     rbind (encode_facet sh (dt_key_codec T) key) (\<lambda>encoded.
     let dyn_key = \<lparr>dk_kind = kind, dk_key = encoded\<rparr> in
     case value_bytes of
       Some vbytes \<Rightarrow>
         rbind (decode_to_heap_value (dt_record T) vbytes ''derived record from WAL'') (\<lambda>heap_value.
         rbind (materialize (dt_record T) heap_value ''derived record from WAL'') (\<lambda>rec.
         let deps = map (record_dep_of sh) (der_deps rec);
             cell = Ready (erase (dt_value T) (der_value rec)) (Revision (der_verified_at rec))
                      (Revision (der_changed_at rec)) deps
         in Inr \<lparr>awr_dyn_key = dyn_key, awr_cell = Some cell\<rparr>))
     | None \<Rightarrow> Inr \<lparr>awr_dyn_key = dyn_key, awr_cell = None\<rparr>)))"

subsection \<open>The core of a derived ingredient\<close>

text \<open>The function pointers.\<close>

type_synonym 'u EncodeRecordFn =
  "string \<Rightarrow> DynKey \<Rightarrow> 'u ArcAny \<Rightarrow> Revision \<Rightarrow> Revision \<Rightarrow> Dep list \<Rightarrow> bytes PicanteResult"
type_synonym 'u DecodeRecordFn = "QueryKindId \<Rightarrow> bytes \<Rightarrow> 'u ErasedRecordData PicanteResult"
type_synonym 'u EncodeIncrementalFn =
  "string \<Rightarrow> DynKey \<Rightarrow> 'u ArcAny \<Rightarrow> Revision \<Rightarrow> Revision \<Rightarrow> Dep list \<Rightarrow> (bytes \<times> bytes) PicanteResult"
type_synonym 'u ApplyWalEntryFn = "QueryKindId \<Rightarrow> bytes \<Rightarrow> bytes option \<Rightarrow> 'u ApplyWalResult PicanteResult"

record 'u DerivedCore =
  dc_kind :: QueryKindId
  dc_kind_name :: string
  dc_cells :: "(DynKey, 'u ArcAny ErasedState) table"
  dc_encode_record :: "'u EncodeRecordFn"
  dc_decode_record :: "'u DecodeRecordFn"
  dc_encode_incremental :: "'u EncodeIncrementalFn"
  dc_apply_wal_entry :: "'u ApplyWalEntryFn"

text \<open>\<open>DerivedIngredient::new\<close>: the callbacks are those of the types.\<close>

definition derived_core_new ::
  "hasher \<Rightarrow> ('k, 'v, 'p, 'h, 'u) derived_types \<Rightarrow> QueryKindId \<Rightarrow> string \<Rightarrow> 'u DerivedCore" where
  "derived_core_new sh T kind kind_name =
     \<lparr>dc_kind = kind, dc_kind_name = kind_name, dc_cells = [],
      dc_encode_record = make_encode_record T, dc_decode_record = make_decode_record sh T,
      dc_encode_incremental = make_encode_incremental T, dc_apply_wal_entry = make_apply_wal_entry sh T\<rparr>"

definition save_records_erased :: "'u DerivedCore \<Rightarrow> bytes list PicanteResult" where
  "save_records_erased core =
     mapM (\<lambda>(dyn_key, r). dc_encode_record core (dc_kind_name core) dyn_key (rr_value r) (rr_verified_at r)
                            (rr_changed_at r) (rr_deps r))
       (ready_list (dc_cells core))"

fun load_records_erased :: "bytes list \<Rightarrow> 'u DerivedCore \<Rightarrow> unit PicanteResult \<times> 'u DerivedCore" where
  "load_records_erased [] core = (Inr (), core)"
| "load_records_erased (bs # rest) core =
     (case dc_decode_record core (dc_kind core) bs of
        Inl e \<Rightarrow> (Inl e, core)
      | Inr data \<Rightarrow>
          (let cell = Ready (erd_value data) (erd_verified_at data) (erd_changed_at data) (erd_deps data)
           in load_records_erased rest (core\<lparr>dc_cells := tinsert (erd_dyn_key data) cell (dc_cells core)\<rparr>)))"

definition save_incremental_records_erased ::
  "u64 \<Rightarrow> 'u DerivedCore \<Rightarrow> (u64 \<times> bytes \<times> bytes option) list PicanteResult" where
  "save_incremental_records_erased since_revision core =
     mapM (\<lambda>(dyn_key, r).
             rbind (dc_encode_incremental core (dc_kind_name core) dyn_key (rr_value r) (rr_verified_at r)
                      (rr_changed_at r) (rr_deps r)) (\<lambda>(kbytes, vbytes).
             Inr (rev_u64 (rr_changed_at r), kbytes, Some vbytes)))
       (filter (\<lambda>(_, r). \<not> rev_u64 (rr_changed_at r) \<le> since_revision) (ready_list (dc_cells core)))"

definition apply_wal_entry_erased ::
  "u64 \<Rightarrow> bytes \<Rightarrow> bytes option \<Rightarrow> 'u DerivedCore \<Rightarrow> unit PicanteResult \<times> 'u DerivedCore" where
  "apply_wal_entry_erased revision kbytes vbytes core =
     (case dc_apply_wal_entry core (dc_kind core) kbytes vbytes of
        Inl e \<Rightarrow> (Inl e, core)
      | Inr result \<Rightarrow>
          (case awr_cell result of
             Some cell \<Rightarrow> (Inr (), core\<lparr>dc_cells := tinsert (awr_dyn_key result) cell (dc_cells core)\<rparr>)
           | None \<Rightarrow> (Inr (), core\<lparr>dc_cells := tremove (awr_dyn_key result) (dc_cells core)\<rparr>)))"

subsection \<open>Erasure is invisible\<close>

text \<open>The typed state behind a core.\<close>

definition erased_core :: "hasher \<Rightarrow> ('k, 'v, 'p, 'h, 'u) derived_types \<Rightarrow> 'v Derived \<Rightarrow> 'u DerivedCore" where
  "erased_core sh T s =
     (derived_core_new sh T (de_kind s) (de_kind_name s))
       \<lparr>dc_cells := map (\<lambda>(q, st). (q, map_ErasedState (erase (dt_value T)) st)) (de_cells s)\<rparr>"

definition typed_codecs :: "('k, 'v, 'p, 'h, 'u) derived_types \<Rightarrow> ('k, 'v) derived_codecs" where
  "typed_codecs T = \<lparr>dkey_codec = dt_key_codec T, drecord_codec = codec_of (dt_record T)\<rparr>"

text \<open>
  What the library documents: a value reads back as its type, a heap value of the requested shape moves out,
  and keys have one encoding, by value and by reflection.
\<close>

definition types_ok :: "('k, 'v, 'p, 'h, 'u) derived_types \<Rightarrow> bool" where
  "types_ok T \<longleftrightarrow> rust_type_ok (dt_value T) \<and> materializes (dt_key T) \<and> materializes (dt_record T)
     \<and> codec_of (dt_key T) = dt_key_codec T"

lemma map_ErasedState_ready:
  "map_ErasedState f (new_ready r) = Ready (f (rr_value r)) (rr_verified_at r) (rr_changed_at r) (rr_deps r)"
  by (simp add: new_ready_def)

lemma ready_record_map:
  "ready_record (map_ErasedState f st) =
     map_option (\<lambda>r. \<lparr>rr_value = f (rr_value r), rr_verified_at = rr_verified_at r, rr_changed_at = rr_changed_at r,
       rr_deps = rr_deps r\<rparr>) (ready_record st)"
  by (cases st) simp_all

lemma ready_list_map:
  "ready_list (map (\<lambda>(q, st). (q, map_ErasedState f st)) es) =
     map (\<lambda>(q, r). (q, \<lparr>rr_value = f (rr_value r), rr_verified_at = rr_verified_at r, rr_changed_at = rr_changed_at r,
       rr_deps = rr_deps r\<rparr>)) (ready_list es)"
  by (induction es rule: ready_list.induct) (auto simp: ready_record_map split: option.split)

lemma mapM_map: "mapM f (map g xs) = mapM (\<lambda>x. f (g x)) xs"
  by (induction xs) (simp_all split: sum.split)

lemma tinsert_map:
  "tinsert q (f st) (map (\<lambda>(q, st). (q, f st)) t) = map (\<lambda>(q, st). (q, f st)) (tinsert q st t)"
  by (induction t) (auto simp: tinsert_def)

lemma tremove_map: "tremove q (map (\<lambda>(q, st). (q, f st)) t) = map (\<lambda>(q, st). (q, f st)) (tremove q t)"
  by (induction t) (auto simp: tremove_def)

lemma heap_decode:
  assumes "materializes hc"
  shows "rbind (decode_to_heap_value hc bs what) (\<lambda>h. rbind (materialize hc h what') k) =
     (case dec (codec_of hc) bs of Inl m \<Rightarrow> Inl (Decode what m) | Inr r \<Rightarrow> k r)"
  using decode_then_materialize [OF assms, where bs = bs and what = what and what' = what'] by (auto split: sum.splits)

lemma erased_encode_record:
  assumes "types_ok T"
  shows "make_encode_record T name q (erase (dt_value T) (rr_value r)) (rr_verified_at r) (rr_changed_at r) (rr_deps r)
     = encode_derived_record (dt_dbg T) (typed_codecs T) name q r"
  using assms
  by (simp add: make_encode_record_def encode_derived_record_def typed_codecs_def types_ok_def to_derived_record_def
      encode_with_peek_def codec_of_def Let_def split: sum.split)

lemma erased_encode_incremental:
  assumes "types_ok T"
  shows "make_encode_incremental T name q (erase (dt_value T) (rr_value r)) (rr_verified_at r) (rr_changed_at r) (rr_deps r)
     = encode_derived_incremental (dt_dbg T) (typed_codecs T) name q r"
proof -
  have "enc (codec_of (dt_key T)) = hc_peek_to_vec (dt_key T)" by (simp add: codec_of_def)
  then have key: "hc_peek_to_vec (dt_key T) = enc (dt_key_codec T)" using assms by (simp add: types_ok_def)
  show ?thesis
    using assms
    by (simp add: make_encode_incremental_def encode_derived_incremental_def typed_codecs_def types_ok_def
        to_derived_record_def encode_with_peek_def key codec_of_def Let_def split: sum.split)
qed

lemma erased_decode_record:
  assumes "types_ok T"
  shows "make_decode_record sh T kind bs =
     rbind (decode_derived_record sh (typed_codecs T) kind bs) (\<lambda>(q, r).
       Inr \<lparr>erd_dyn_key = q, erd_value = erase (dt_value T) (rr_value r), erd_verified_at = rr_verified_at r,
            erd_changed_at = rr_changed_at r, erd_deps = rr_deps r\<rparr>)"
  using assms
  by (simp add: make_decode_record_def decode_derived_record_def typed_codecs_def types_ok_def of_derived_record_def
      heap_decode Let_def split: sum.split)

lemma erased_wal_entry:
  assumes "types_ok T"
  shows "make_apply_wal_entry sh T kind kbytes vbytes =
     rbind (decode_derived_wal_entry sh (typed_codecs T) kind kbytes vbytes) (\<lambda>(q, cell).
       Inr \<lparr>awr_dyn_key = q, awr_cell = map_option (map_ErasedState (erase (dt_value T))) cell\<rparr>)"
proof -
  have key: "codec_of (dt_key T) = dt_key_codec T" "materializes (dt_key T)" "materializes (dt_record T)"
    using assms by (simp_all add: types_ok_def)
  show ?thesis
    by (cases vbytes)
      (simp_all add: make_apply_wal_entry_def decode_derived_wal_entry_def typed_codecs_def of_derived_record_def
        heap_decode [OF key(2)] heap_decode [OF key(3)] key(1) map_ErasedState_ready Let_def split: sum.split)
qed

lemma erased_core_fields [simp]:
  "dc_kind (erased_core sh T s) = de_kind s" "dc_kind_name (erased_core sh T s) = de_kind_name s"
  "dc_cells (erased_core sh T s) = map (\<lambda>(q, st). (q, map_ErasedState (erase (dt_value T)) st)) (de_cells s)"
  "dc_encode_record (erased_core sh T s) = make_encode_record T"
  "dc_decode_record (erased_core sh T s) = make_decode_record sh T"
  "dc_encode_incremental (erased_core sh T s) = make_encode_incremental T"
  "dc_apply_wal_entry (erased_core sh T s) = make_apply_wal_entry sh T"
  by (simp_all add: erased_core_def derived_core_new_def)

lemma erased_core_tinsert:
  "(erased_core sh T s)\<lparr>dc_cells := tinsert q (map_ErasedState (erase (dt_value T)) st) (dc_cells (erased_core sh T s))\<rparr>
     = erased_core sh T (s\<lparr>de_cells := tinsert q st (de_cells s)\<rparr>)"
  unfolding erased_core_fields tinsert_map by (simp add: erased_core_def)

lemma erased_core_tremove:
  "(erased_core sh T s)\<lparr>dc_cells := tremove q (dc_cells (erased_core sh T s))\<rparr> = erased_core sh T (s\<lparr>de_cells := tremove q (de_cells s)\<rparr>)"
  unfolding erased_core_fields tremove_map by (simp add: erased_core_def)

lemma erased_load:
  assumes "types_ok T"
  shows "load_records_erased bss (erased_core sh T s) = map_prod id (erased_core sh T) (derived_load_records sh (typed_codecs T) bss s)"
proof (induction bss arbitrary: s)
  case (Cons bs bss)
  show ?case
  proof (cases "decode_derived_record sh (typed_codecs T) (de_kind s) bs")
    case (Inr x)
    obtain q r where x: "x = (q, r)" by (cases x)
    have "(erased_core sh T s)\<lparr>dc_cells := tinsert q
        (Ready (erase (dt_value T) (rr_value r)) (rr_verified_at r) (rr_changed_at r) (rr_deps r)) (dc_cells (erased_core sh T s))\<rparr>
        = erased_core sh T (s\<lparr>de_cells := tinsert q (new_ready r) (de_cells s)\<rparr>)"
      using erased_core_tinsert [where q = q and st = "new_ready r"] by (simp only: map_ErasedState_ready)
    then show ?thesis
      using Cons [of "s\<lparr>de_cells := tinsert q (new_ready r) (de_cells s)\<rparr>"] Inr x
      by (simp add: erased_decode_record [OF assms] Let_def del: erased_core_fields(3))
  qed (simp add: erased_decode_record [OF assms])
qed simp

lemma erased_wal:
  assumes "types_ok T"
  shows "apply_wal_entry_erased revision kbytes vbytes (erased_core sh T s) =
     map_prod id (erased_core sh T) (derived_apply_wal_entry sh (typed_codecs T) revision kbytes vbytes s)"
proof (cases "decode_derived_wal_entry sh (typed_codecs T) (de_kind s) kbytes vbytes")
  case (Inr x)
  obtain q cell where x: "x = (q, cell)" by (cases x)
  show ?thesis
    using Inr x
    by (cases cell)
      (simp_all add: apply_wal_entry_erased_def derived_apply_wal_entry_def erased_wal_entry [OF assms] erased_core_tinsert
        erased_core_tremove del: erased_core_fields(3))
qed (simp add: apply_wal_entry_erased_def derived_apply_wal_entry_def erased_wal_entry [OF assms])

lemma erased_save:
  assumes "types_ok T"
  shows "save_records_erased (erased_core sh T s) = derived_save_records (dt_dbg T) (typed_codecs T) s"
proof -
  have "(\<lambda>x. (\<lambda>(q, r). make_encode_record T (de_kind_name s) q (rr_value r) (rr_verified_at r) (rr_changed_at r) (rr_deps r))
      (case x of (q, r) \<Rightarrow> (q, \<lparr>rr_value = erase (dt_value T) (rr_value r), rr_verified_at = rr_verified_at r,
         rr_changed_at = rr_changed_at r, rr_deps = rr_deps r\<rparr>)))
    = (\<lambda>(q, r). encode_derived_record (dt_dbg T) (typed_codecs T) (de_kind_name s) q r)"
    by (auto simp: erased_encode_record [OF assms])
  then show ?thesis
    by (simp add: save_records_erased_def derived_save_records_def ready_cells_def ready_list_map mapM_map)
qed

lemma erased_incremental:
  assumes "types_ok T"
  shows "save_incremental_records_erased since (erased_core sh T s)
     = derived_save_incremental_records (dt_dbg T) (typed_codecs T) since s"
proof -
  let ?e = "\<lambda>(q, r). (q :: DynKey, \<lparr>rr_value = erase (dt_value T) (rr_value r), rr_verified_at = rr_verified_at r,
         rr_changed_at = rr_changed_at r, rr_deps = rr_deps r\<rparr>)"
  have keep: "filter (\<lambda>(_, r). \<not> rev_u64 (rr_changed_at r) \<le> since) (map ?e xs)
      = map ?e (filter (\<lambda>(_, r). \<not> rev_u64 (rr_changed_at r) \<le> since) xs)" for xs
    by (induction xs) auto
  have step: "(\<lambda>(q, r). rbind (make_encode_incremental T (de_kind_name s) q (rr_value r) (rr_verified_at r) (rr_changed_at r) (rr_deps r))
        (\<lambda>(kbytes, vbytes). Inr (rev_u64 (rr_changed_at r), kbytes, Some vbytes))) (?e x)
    = (\<lambda>(q, r). case encode_derived_incremental (dt_dbg T) (typed_codecs T) (de_kind_name s) q r of
                      Inl e \<Rightarrow> Inl e
                    | Inr (kbytes, vbytes) \<Rightarrow> Inr (rev_u64 (rr_changed_at r), kbytes, Some vbytes)) x" for x
    by (cases x) (simp add: erased_encode_incremental [OF assms] split: sum.split)
  show ?thesis
    unfolding save_incremental_records_erased_def derived_save_incremental_records_def ready_cells_def erased_core_fields
      ready_list_map keep mapM_map step ..
qed

subsection \<open>The callbacks and the core of an input\<close>

record 'u ErasedInputEntry =
  eie_value :: "'u ArcAny option"
  eie_changed_at :: Revision

record ('k, 'v, 'u) input_types =
  it_value :: "('u, 'v) rust_type"
  it_codecs :: "('k, 'v) input_codecs"

definition input_mismatch :: "('k, 'v, 'u) input_types \<Rightarrow> string \<Rightarrow> PicanteError" where
  "input_mismatch T what = Panic (''[BUG] type mismatch in input '' @ what @ '': expected '' @ ty_name (it_value T))"

definition make_encode_input_record ::
  "('k, 'v, 'u) input_types \<Rightarrow> DynKey \<Rightarrow> 'u ArcAny option \<Rightarrow> Revision \<Rightarrow> bytes PicanteResult" where
  "make_encode_input_record T dyn_key a changed_at =
     rbind (decode_facet (key_codec (it_codecs T)) (dk_key dyn_key)) (\<lambda>key.
     rbind (case a of
              Some arc_any \<Rightarrow>
                (case downcast (it_value T) arc_any of
                   None \<Rightarrow> Inl (input_mismatch T ''save_records'')
                 | Some v \<Rightarrow> Inr (Some v))
            | None \<Rightarrow> Inr None) (\<lambda>typed_value.
     case enc (record_codec (it_codecs T)) \<lparr>ipr_key = key, ipr_value = typed_value, ipr_changed_at = rev_u64 changed_at\<rparr> of
       Inl e \<Rightarrow> Inl (Encode ''input record'' e)
     | Inr bs \<Rightarrow> Inr bs))"

definition make_decode_input_record ::
  "hasher \<Rightarrow> ('k, 'v, 'u) input_types \<Rightarrow> QueryKindId \<Rightarrow> bytes \<Rightarrow> (DynKey \<times> 'u ErasedInputEntry) PicanteResult" where
  "make_decode_input_record sh T kind bs =
     (case dec (record_codec (it_codecs T)) bs of
        Inl e \<Rightarrow> Inl (Decode ''input record'' e)
      | Inr rec \<Rightarrow>
          rbind (encode_facet sh (key_codec (it_codecs T)) (ipr_key rec)) (\<lambda>key.
          Inr (\<lparr>dk_kind = kind, dk_key = key\<rparr>,
            \<lparr>eie_value = map_option (erase (it_value T)) (ipr_value rec), eie_changed_at = Revision (ipr_changed_at rec)\<rparr>)))"

definition make_encode_input_incremental ::
  "('k, 'v, 'u) input_types \<Rightarrow> DynKey \<Rightarrow> 'u ArcAny option \<Rightarrow> (bytes \<times> bytes option) PicanteResult" where
  "make_encode_input_incremental T dyn_key a =
     rbind (decode_facet (key_codec (it_codecs T)) (dk_key dyn_key)) (\<lambda>key.
     case enc (key_codec (it_codecs T)) key of
       Inl e \<Rightarrow> Inl (Encode ''input key'' e)
     | Inr kbytes \<Rightarrow>
         (case a of
            Some arc_any \<Rightarrow>
              (case downcast (it_value T) arc_any of
                 None \<Rightarrow> Inl (input_mismatch T ''save_incremental'')
               | Some v \<Rightarrow>
                   (case enc (value_codec (it_codecs T)) v of
                      Inl e \<Rightarrow> Inl (Encode ''input value'' e)
                    | Inr vbytes \<Rightarrow> Inr (kbytes, Some vbytes)))
          | None \<Rightarrow> Inr (kbytes, None)))"

definition make_apply_input_wal_entry ::
  "hasher \<Rightarrow> ('k, 'v, 'u) input_types \<Rightarrow> QueryKindId \<Rightarrow> bytes \<Rightarrow> bytes option \<Rightarrow> (DynKey \<times> 'u ErasedInputEntry) PicanteResult" where
  "make_apply_input_wal_entry sh T kind kbytes value_bytes =
     (case dec (key_codec (it_codecs T)) kbytes of
        Inl e \<Rightarrow> Inl (Decode ''input key from WAL'' e)
      | Inr key \<Rightarrow>
          rbind (case value_bytes of
                   Some bs \<Rightarrow>
                     (case dec (value_codec (it_codecs T)) bs of
                        Inl e \<Rightarrow> Inl (Decode ''input value from WAL'' e)
                      | Inr v \<Rightarrow> Inr (Some (erase (it_value T) v)))
                 | None \<Rightarrow> Inr None) (\<lambda>value.
          rbind (encode_facet sh (key_codec (it_codecs T)) key) (\<lambda>encoded.
          Inr (\<lparr>dk_kind = kind, dk_key = encoded\<rparr>, \<lparr>eie_value = value, eie_changed_at = Revision 0\<rparr>))))"

type_synonym 'u EncodeInputRecordFn = "DynKey \<Rightarrow> 'u ArcAny option \<Rightarrow> Revision \<Rightarrow> bytes PicanteResult"
type_synonym 'u DecodeInputRecordFn = "QueryKindId \<Rightarrow> bytes \<Rightarrow> (DynKey \<times> 'u ErasedInputEntry) PicanteResult"
type_synonym 'u EncodeInputIncrementalFn = "DynKey \<Rightarrow> 'u ArcAny option \<Rightarrow> (bytes \<times> bytes option) PicanteResult"
type_synonym 'u ApplyInputWalEntryFn =
  "QueryKindId \<Rightarrow> bytes \<Rightarrow> bytes option \<Rightarrow> (DynKey \<times> 'u ErasedInputEntry) PicanteResult"

record 'u InputCore =
  ic_kind :: QueryKindId
  ic_kind_name :: string
  ic_entries :: "(DynKey, 'u ErasedInputEntry) table"
  ic_encode_record :: "'u EncodeInputRecordFn"
  ic_decode_record :: "'u DecodeInputRecordFn"
  ic_encode_incremental :: "'u EncodeInputIncrementalFn"
  ic_apply_wal_entry :: "'u ApplyInputWalEntryFn"

definition input_core_new :: "hasher \<Rightarrow> ('k, 'v, 'u) input_types \<Rightarrow> QueryKindId \<Rightarrow> string \<Rightarrow> 'u InputCore" where
  "input_core_new sh T kind kind_name =
     \<lparr>ic_kind = kind, ic_kind_name = kind_name, ic_entries = [],
      ic_encode_record = make_encode_input_record T, ic_decode_record = make_decode_input_record sh T,
      ic_encode_incremental = make_encode_input_incremental T, ic_apply_wal_entry = make_apply_input_wal_entry sh T\<rparr>"

definition input_save_records_erased :: "'u InputCore \<Rightarrow> bytes list PicanteResult" where
  "input_save_records_erased core =
     mapM (\<lambda>(dyn_key, entry). ic_encode_record core dyn_key (eie_value entry) (eie_changed_at entry)) (ic_entries core)"

fun input_load_records_erased :: "bytes list \<Rightarrow> 'u InputCore \<Rightarrow> unit PicanteResult \<times> 'u InputCore" where
  "input_load_records_erased [] core = (Inr (), core)"
| "input_load_records_erased (bs # rest) core =
     (case ic_decode_record core (ic_kind core) bs of
        Inl e \<Rightarrow> (Inl e, core)
      | Inr (dyn_key, entry) \<Rightarrow>
          input_load_records_erased rest (core\<lparr>ic_entries := tinsert dyn_key entry (ic_entries core)\<rparr>))"

definition input_save_incremental_erased ::
  "u64 \<Rightarrow> 'u InputCore \<Rightarrow> (u64 \<times> bytes \<times> bytes option) list PicanteResult" where
  "input_save_incremental_erased since_revision core =
     mapM (\<lambda>(dyn_key, entry).
             rbind (ic_encode_incremental core dyn_key (eie_value entry)) (\<lambda>(kbytes, vbytes).
             Inr (rev_u64 (eie_changed_at entry), kbytes, vbytes)))
       (filter (\<lambda>(_, entry). since_revision < rev_u64 (eie_changed_at entry)) (ic_entries core))"

definition input_apply_wal_erased ::
  "u64 \<Rightarrow> bytes \<Rightarrow> bytes option \<Rightarrow> 'u InputCore \<Rightarrow> unit PicanteResult \<times> 'u InputCore" where
  "input_apply_wal_erased revision kbytes vbytes core =
     (case ic_apply_wal_entry core (ic_kind core) kbytes vbytes of
        Inl e \<Rightarrow> (Inl e, core)
      | Inr (dyn_key, entry) \<Rightarrow>
          (Inr (), core\<lparr>ic_entries := tinsert dyn_key (entry\<lparr>eie_changed_at := Revision revision\<rparr>) (ic_entries core)\<rparr>))"

definition erased_entry :: "('u, 'v) rust_type \<Rightarrow> 'v InputEntry \<Rightarrow> 'u ErasedInputEntry" where
  "erased_entry ty e = \<lparr>eie_value = map_option (erase ty) (ie_value e), eie_changed_at = ie_changed_at e\<rparr>"

lemma erased_entry_changed: "eie_changed_at (erased_entry ty e) = ie_changed_at e"
  by (simp add: erased_entry_def)

definition erased_input :: "hasher \<Rightarrow> ('k, 'v, 'u) input_types \<Rightarrow> 'v Input \<Rightarrow> 'u InputCore" where
  "erased_input sh T s =
     (input_core_new sh T (inp_kind s) (inp_kind_name s))
       \<lparr>ic_entries := map (\<lambda>(q, e). (q, erased_entry (it_value T) e)) (inp_entries s)\<rparr>"

lemma erased_input_fields [simp]:
  "ic_kind (erased_input sh T s) = inp_kind s" "ic_kind_name (erased_input sh T s) = inp_kind_name s"
  "ic_entries (erased_input sh T s) = map (\<lambda>(q, e). (q, erased_entry (it_value T) e)) (inp_entries s)"
  "ic_encode_record (erased_input sh T s) = make_encode_input_record T"
  "ic_decode_record (erased_input sh T s) = make_decode_input_record sh T"
  "ic_encode_incremental (erased_input sh T s) = make_encode_input_incremental T"
  "ic_apply_wal_entry (erased_input sh T s) = make_apply_input_wal_entry sh T"
  by (simp_all add: erased_input_def input_core_new_def)

lemma erased_input_tinsert:
  "(erased_input sh T s)\<lparr>ic_entries := tinsert q (erased_entry (it_value T) e) (ic_entries (erased_input sh T s))\<rparr>
     = erased_input sh T (s\<lparr>inp_entries := tinsert q e (inp_entries s)\<rparr>)"
  unfolding erased_input_fields tinsert_map by (simp add: erased_input_def)

lemma erased_encode_input:
  assumes "rust_type_ok (it_value T)"
  shows "make_encode_input_record T q (eie_value (erased_entry (it_value T) e)) (eie_changed_at (erased_entry (it_value T) e))
      = encode_input_record (it_codecs T) q (ie_value e) (ie_changed_at e)"
    and "make_encode_input_incremental T q (eie_value (erased_entry (it_value T) e))
      = encode_input_incremental (it_codecs T) q (ie_value e)"
  using assms
  by (simp_all add: erased_entry_def make_encode_input_record_def encode_input_record_def make_encode_input_incremental_def
      encode_input_incremental_def split: sum.split option.split)

lemma erased_decode_input:
  "make_decode_input_record sh T kind bs =
     rbind (decode_input_record sh (it_codecs T) kind bs) (\<lambda>(q, e). Inr (q, erased_entry (it_value T) e))"
  "make_apply_input_wal_entry sh T kind kbytes vbytes =
     rbind (apply_input_wal_entry sh (it_codecs T) kind kbytes vbytes) (\<lambda>(q, e). Inr (q, erased_entry (it_value T) e))"
  by (simp_all add: erased_entry_def make_decode_input_record_def decode_input_record_def make_apply_input_wal_entry_def
      apply_input_wal_entry_def split: sum.split option.split)

lemma erased_input_load:
  "input_load_records_erased bss (erased_input sh T s) = map_prod id (erased_input sh T) (input_load_records sh (it_codecs T) bss s)"
proof (induction bss arbitrary: s)
  case (Cons bs bss)
  show ?case
  proof (cases "decode_input_record sh (it_codecs T) (inp_kind s) bs")
    case (Inr x)
    then show ?thesis
      using Cons by (cases x) (simp add: erased_decode_input erased_input_tinsert del: erased_input_fields(3))
  qed (simp add: erased_decode_input)
qed simp

lemma erased_input_wal:
  "input_apply_wal_erased revision kbytes vbytes (erased_input sh T s) =
     map_prod id (erased_input sh T) (input_apply_wal_entry sh (it_codecs T) revision kbytes vbytes s)"
proof (cases "apply_input_wal_entry sh (it_codecs T) (inp_kind s) kbytes vbytes")
  case (Inr x)
  obtain q e where x: "x = (q, e)" by (cases x)
  have "(erased_entry (it_value T) e)\<lparr>eie_changed_at := Revision revision\<rparr> = erased_entry (it_value T) (e\<lparr>ie_changed_at := Revision revision\<rparr>)"
    by (simp add: erased_entry_def)
  with Inr x show ?thesis
    by (simp add: input_apply_wal_erased_def input_apply_wal_entry_def erased_decode_input erased_input_tinsert
        del: erased_input_fields(3))
qed (simp add: input_apply_wal_erased_def input_apply_wal_entry_def erased_decode_input)

lemma erased_input_save:
  assumes "rust_type_ok (it_value T)"
  shows "input_save_records_erased (erased_input sh T s) = input_save_records (it_codecs T) s"
    and "input_save_incremental_erased since (erased_input sh T s) = input_save_incremental_records (it_codecs T) since s"
proof -
  let ?e = "\<lambda>(q :: DynKey, e). (q, erased_entry (it_value T) e)"
  have "(\<lambda>(q, e). make_encode_input_record T q (eie_value e) (eie_changed_at e)) (?e x)
      = (\<lambda>(q, e). encode_input_record (it_codecs T) q (ie_value e) (ie_changed_at e)) x" for x
    by (cases x) (simp add: erased_encode_input [OF assms])
  then show "input_save_records_erased (erased_input sh T s) = input_save_records (it_codecs T) s"
    unfolding input_save_records_erased_def input_save_records_def erased_input_fields mapM_map by simp
  have keep: "filter (\<lambda>(_, e). since < rev_u64 (eie_changed_at e)) (map ?e xs)
      = map ?e (filter (\<lambda>(_, e). since < rev_u64 (ie_changed_at e)) xs)" for xs
    by (induction xs) (auto simp: erased_entry_def)
  have step: "(\<lambda>(q, e). rbind (make_encode_input_incremental T q (eie_value e)) (\<lambda>(kbytes, vbytes).
         Inr (rev_u64 (eie_changed_at e), kbytes, vbytes))) (?e x)
      = (\<lambda>(q, e). case encode_input_incremental (it_codecs T) q (ie_value e) of
               Inl e \<Rightarrow> Inl e
             | Inr (kbytes, vbytes) \<Rightarrow> Inr (rev_u64 (ie_changed_at e), kbytes, vbytes)) x" for x
    by (cases x) (simp add: erased_encode_input [OF assms] erased_entry_changed split: sum.split)
  show "input_save_incremental_erased since (erased_input sh T s) = input_save_incremental_records (it_codecs T) since s"
    unfolding input_save_incremental_erased_def input_save_incremental_records_def erased_input_fields keep mapM_map step ..
qed

text \<open>
  C11. Type erasure is invisible: a core made by the generic constructor for a type, whose entries or cells are erased
  values of it, saves, loads, logs and replays exactly as the typed model does. The results are equal,
  errors included, the states stay erased values of the type, and none of the \<open>[BUG] type mismatch\<close> errors occurs.
\<close>

theorem erasure_refines_typed_model:
  assumes "types_ok T" and "rust_type_ok (it_value I)"
  shows "save_records_erased (erased_core sh T s) = derived_save_records (dt_dbg T) (typed_codecs T) s
     \<and> save_incremental_records_erased since (erased_core sh T s)
         = derived_save_incremental_records (dt_dbg T) (typed_codecs T) since s
     \<and> load_records_erased bss (erased_core sh T s) = map_prod id (erased_core sh T) (derived_load_records sh (typed_codecs T) bss s)
     \<and> apply_wal_entry_erased rv k v (erased_core sh T s)
         = map_prod id (erased_core sh T) (derived_apply_wal_entry sh (typed_codecs T) rv k v s)
     \<and> input_save_records_erased (erased_input sh I i) = input_save_records (it_codecs I) i
     \<and> input_save_incremental_erased since (erased_input sh I i) = input_save_incremental_records (it_codecs I) since i
     \<and> input_load_records_erased bss (erased_input sh I i) = map_prod id (erased_input sh I) (input_load_records sh (it_codecs I) bss i)
     \<and> input_apply_wal_erased rv k v (erased_input sh I i)
         = map_prod id (erased_input sh I) (input_apply_wal_entry sh (it_codecs I) rv k v i)"
  using erased_save [OF assms(1)] erased_incremental [OF assms(1)] erased_load [OF assms(1)] erased_wal [OF assms(1)]
    erased_input_save [OF assms(2)] erased_input_load erased_input_wal
  by (intro conjI) blast+

subsection \<open>Sample types\<close>

definition byte_type :: "(nat, u8) rust_type" where
  "byte_type = \<lparr>ty_id = 7, ty_name = ''u8'', ty_in = unat, ty_out = of_nat\<rparr>"

text \<open>A library whose partial and heap values are the bytes it has checked.\<close>

definition heap_of :: "'r codec \<Rightarrow> 'r \<Rightarrow> (bytes, bytes, 'r) heap_codec" where
  "heap_of c d = \<lparr>hc_peek_to_vec = enc c, hc_alloc = Inr [],
     hc_from_slice = (\<lambda>bs _. case dec c bs of Inl e \<Rightarrow> Inl e | Inr _ \<Rightarrow> Inr bs), hc_build = Inr,
     hc_materialize = (\<lambda>bs. case dec c bs of Inl _ \<Rightarrow> Inr d | Inr r \<Rightarrow> Inr r)\<rparr>"

lemma codec_of_heap_of: "codec_of (heap_of c d) = c"
proof -
  have "heap_dec (heap_of c d) bs = dec c bs" for bs
    by (simp add: heap_dec_def heap_of_def split: sum.split)
  then have "heap_dec (heap_of c d) = dec c" by (rule ext)
  then show ?thesis by (simp add: codec_of_def heap_of_def)
qed

lemma materializes_heap_of: "materializes (heap_of c d)"
  by (simp add: materializes_def heap_of_def split: sum.split)

definition byte_types :: "(u8, u8, bytes, bytes, nat) derived_types" where
  "byte_types = \<lparr>dt_value = byte_type, dt_key_codec = byte_codec, dt_key = heap_of byte_codec 0,
     dt_record = heap_of (drecord_codec demo_derived_codecs) (to_derived_record 1 demo_ready),
     dt_dbg = (\<lambda>_. []), dt_dbg_type = (\<lambda>_. [])\<rparr>"

theorem erasure_refines_typed_model_witness:
  "save_records_erased (erased_core (\<lambda>_. 0) byte_types demo_derived) = Inr [[1]]
   \<and> input_save_records_erased (erased_input (\<lambda>_. 0) \<lparr>it_value = byte_type, it_codecs = byte_codecs\<rparr> demo_input)
       = input_save_records byte_codecs demo_input"
proof -
  have ty: "rust_type_ok byte_type" by (simp add: rust_type_ok_def byte_type_def)
  have ok: "types_ok byte_types"
    using ty by (simp add: types_ok_def byte_types_def materializes_heap_of codec_of_heap_of)
  have codecs: "typed_codecs byte_types = demo_derived_codecs"
    by (simp add: typed_codecs_def byte_types_def codec_of_heap_of demo_derived_codecs_def)
  have it: "rust_type_ok (it_value \<lparr>it_value = byte_type, it_codecs = byte_codecs\<rparr>)" using ty by simp
  have "derived_save_records dbg demo_derived_codecs demo_derived = Inr [[1]]" for dbg
    by (simp add: derived_save_records_def ready_cells_def demo_derived_def encode_derived_record_def
        demo_derived_codecs_def demo_key_def decode_facet_def byte_codec_def)
  with erasure_refines_typed_model [OF ok it, where sh = "\<lambda>_. 0" and s = demo_derived and i = demo_input] codecs
  show ?thesis by simp
qed

end
