(* ===== verification/TypeSafety.thy ===== *)
theory TypeSafety
  imports Erasure Snapshots
begin

text \<open>
  The access state machine of \<open>ingredient/derived.rs\<close> handles \<open>Arc<dyn Any>\<close> values of many types: those of the
  cells, of the shared cache and of the in-flight registry, which all databases of the process use. \<open>get\<close> casts what it
  is given to the type of the ingredient and answers a \<open>[BUG]\<close> error if that fails; an input read silently takes
  a value of another type for a missing one.

  The invariant: every stored value has the type of the kind it is stored under. It is stated for any property \<open>T\<close> of
  values by kind, kept by every step of an access, and then used for the type ids.
\<close>

subsection \<open>Typed states\<close>

text \<open>\<open>Ks\<close> gives the kind an entry of the registry was made for.\<close>

definition typed_reg :: "(QueryKindId \<Rightarrow> 'v \<Rightarrow> bool) \<Rightarrow> QueryKindId list \<Rightarrow> 'v registry \<Rightarrow> bool" where
  "typed_reg T Ks reg \<longleftrightarrow> length Ks = length (reg_entries reg)
     \<and> (\<forall>k e. tget (reg_map reg) k = Some e \<longrightarrow> e < length Ks \<and> Ks ! e = if_kind k)
     \<and> (\<forall>e < length Ks. \<forall>v ds ca. ife_state (reg_entries reg ! e) = IfDone v ds ca \<longrightarrow> T (Ks ! e) v)"

definition typed_cache :: "(QueryKindId \<Rightarrow> 'v \<Rightarrow> bool) \<Rightarrow> 'v shared_cache \<Rightarrow> bool" where
  "typed_cache T c \<longleftrightarrow> (\<forall>k r. tget (sc_map c) k = Some r \<longrightarrow> T (sk_kind k) (sr_value r))"

definition typed_cells :: "(QueryKindId \<Rightarrow> 'v \<Rightarrow> bool) \<Rightarrow> 'v world \<Rightarrow> bool" where
  "typed_cells T w \<longleftrightarrow> (\<forall>q v va ca ds. get_cell q w = Some (Ready v va ca ds) \<longrightarrow> T (dk_kind q) v)"

definition typed_inputs :: "(QueryKindId \<Rightarrow> 'v \<Rightarrow> bool) \<Rightarrow> 'v world \<Rightarrow> bool" where
  "typed_inputs T w \<longleftrightarrow> (\<forall>q v. input_value w q = Some v \<longrightarrow> T (dk_kind q) v)"

definition typed :: "(QueryKindId \<Rightarrow> 'v \<Rightarrow> bool) \<Rightarrow> QueryKindId list \<Rightarrow> 'v world \<Rightarrow> bool" where
  "typed T Ks w \<longleftrightarrow> typed_cells T w \<and> typed_inputs T w \<and> typed_cache T (w_cache w) \<and> typed_reg T Ks (w_inflight w)"

lemma typed_cong:
  "(\<And>q. get_cell q w' = get_cell q w) \<Longrightarrow> (\<And>k. input_at w' k = input_at w k) \<Longrightarrow> w_cache w' = w_cache w
   \<Longrightarrow> w_inflight w' = w_inflight w \<Longrightarrow> typed T Ks w' \<longleftrightarrow> typed T Ks w"
  by (simp add: typed_def typed_cells_def typed_inputs_def input_value_def)

lemma typed_on [simp]:
  "typed T Ks (on_rt f w) \<longleftrightarrow> typed T Ks w" "typed T Ks (on_task g w) \<longleftrightarrow> typed T Ks w"
  by (rule typed_cong; simp)+

lemma typed_if: "typed T Ks w \<Longrightarrow> typed T Ks w' \<Longrightarrow> typed T Ks (if b then w else w')"
  by simp

lemma get_set_cell_cases:
  "get_cell q' (set_cell q st w) = Some x \<Longrightarrow> (q' = q \<and> x = st) \<or> get_cell q' w = Some x"
  by (auto simp: get_cell_def set_cell_def ingredient_def split: option.splits ingredient.splits if_splits)

lemma typed_set_cell:
  assumes "typed T Ks w" and "\<And>v va ca ds. st = Ready v va ca ds \<Longrightarrow> T (dk_kind q) v"
  shows "typed T Ks (set_cell q st w)"
  using assms unfolding typed_def typed_cells_def typed_inputs_def input_value_def by (auto dest!: get_set_cell_cases)

lemma typed_put_record:
  assumes "typed T Ks w" and "T (dk_kind q) (rr_value r)"
  shows "typed T Ks (put_record q r w)"
proof -
  have "T (sk_kind k) (sr_value x)" if k: "tget (sc_map (w_cache (put_record q r w))) k = Some x" for k x
  proof (cases "k = slot (w_rt w) q")
    case True
    then show ?thesis using k put_record_lookup(1) [of q r w] assms(2) by (auto simp: slot_def)
  next
    case False
    then show ?thesis using k put_record_lookup(2) [OF False, of r] assms(1) by (auto simp: typed_def typed_cache_def)
  qed
  with assms(1) show ?thesis by (simp add: typed_def typed_cells_def typed_inputs_def typed_cache_def input_value_def)
qed

lemma typed_inflight: "typed T Ks w \<Longrightarrow> typed_reg T Ks' r \<Longrightarrow> typed T Ks' (w\<lparr>w_inflight := r\<rparr>)"
  by (simp add: typed_def typed_cells_def typed_inputs_def input_value_def)

lemma typed_shared: "typed T Ks w \<Longrightarrow> shared_cache_get sid k key (w_cache w) = Some rec \<Longrightarrow> T k (sr_value rec)"
  by (fastforce simp: typed_def typed_cache_def shared_cache_get_def)

lemma typed_cell_state: "typed T Ks w \<Longrightarrow> cell_state q w = Ready v va ca ds \<Longrightarrow> T (dk_kind q) v"
  by (auto simp: typed_def typed_cells_def cell_state_def split: option.splits)

subsection \<open>The registry\<close>

text \<open>A guard of the kind it was made for.\<close>

definition guard_of :: "QueryKindId list \<Rightarrow> QueryKindId \<Rightarrow> guard \<Rightarrow> bool" where
  "guard_of Ks k g \<longleftrightarrow> g_entry g < length Ks \<and> Ks ! g_entry g = k"

lemma guard_of_append: "guard_of Ks k g \<Longrightarrow> guard_of (Ks @ Ks') k g"
  by (simp add: guard_of_def nth_append)

lemma typed_set_state:
  assumes "typed_reg T Ks r" and "\<And>v ds ca. st = IfDone v ds ca \<Longrightarrow> T (Ks ! e) v"
  shows "typed_reg T Ks (set_state e st r)"
proof -
  have "T (Ks ! i) v" if "i < length Ks" "ife_state (reg_entries (set_state e st r) ! i) = IfDone v ds ca" for i v ds ca
    using that assms by (cases "i = e") (auto simp: typed_reg_def set_state_def nth_list_update)
  with assms(1) show ?thesis unfolding typed_reg_def by (auto simp: set_state_def)
qed

lemma typed_notify_entry: "typed_reg T Ks r \<Longrightarrow> typed_reg T Ks (notify_entry e r)"
proof -
  assume r: "typed_reg T Ks r"
  have "T (Ks ! i) v" if "i < length Ks" "ife_state (reg_entries (notify_entry e r) ! i) = IfDone v ds ca" for i v ds ca
    using that r by (cases "i = e") (auto simp: typed_reg_def notify_entry_def nth_list_update)
  with r show ?thesis unfolding typed_reg_def by (auto simp: notify_entry_def)
qed

lemma typed_unregister: "typed_reg T Ks r \<Longrightarrow> typed_reg T Ks (unregister k r)"
  unfolding typed_reg_def unregister_def by (auto split: if_splits)

lemma typed_guard_complete:
  "typed_reg T Ks r \<Longrightarrow> T (Ks ! g_entry g) v \<Longrightarrow> typed_reg T Ks (guard_complete g v ds ca r)"
  unfolding guard_complete_def guard_drop_def entry_complete_def
  by (auto intro!: typed_unregister typed_notify_entry typed_set_state)

lemma typed_guard_fail: "typed_reg T Ks r \<Longrightarrow> typed_reg T Ks (guard_fail g e r)"
  unfolding guard_fail_def guard_drop_def entry_fail_def
  by (auto intro!: typed_unregister typed_notify_entry typed_set_state)

lemma typed_try_lead:
  assumes "typed_reg T Ks r" and "try_lead key r = (res, r')"
  shows "case res of
      Leader g \<Rightarrow> typed_reg T (Ks @ [if_kind key]) r' \<and> guard_of (Ks @ [if_kind key]) (if_kind key) g
    | Follower e \<Rightarrow> r' = r \<and> e < length Ks \<and> Ks ! e = if_kind key"
proof (cases "tget (reg_map r) key")
  case None
  have len: "length Ks = length (reg_entries r)" using assms(1) by (simp add: typed_reg_def)
  have "typed_reg T (Ks @ [if_kind key])
      (r\<lparr>reg_entries := reg_entries r @ [entry_new], reg_map := tinsert key (length (reg_entries r)) (reg_map r)\<rparr>)"
    using assms(1) unfolding typed_reg_def
    by (auto simp: nth_append entry_new_def less_Suc_eq split: if_splits)
  then show ?thesis
    using None assms(2) by (auto simp: try_lead_def Let_def guard_of_def len [symmetric])
next
  case (Some e)
  then show ?thesis using assms by (auto simp: try_lead_def typed_reg_def)
qed

subsection \<open>Typed programs\<close>

text \<open>A query function that returns a value of its type whenever it reads values of theirs.\<close>

primrec typed_prog :: "(QueryKindId \<Rightarrow> 'v \<Rightarrow> bool) \<Rightarrow> QueryKindId \<Rightarrow> 'v prog \<Rightarrow> bool" where
  "typed_prog T k (Ret v) = T k v"
| "typed_prog T k (Throw e) = True"
| "typed_prog T k (PanicP m) = True"
| "typed_prog T k (ReadInput q f) = (\<forall>x. (\<forall>v. x = Some v \<longrightarrow> T (dk_kind q) v) \<longrightarrow> typed_prog T k (f x))"
| "typed_prog T k (Query q f) = (\<forall>x. (\<forall>v. x = Inr v \<longrightarrow> T (dk_kind q) v) \<longrightarrow> typed_prog T k (f x))"

definition typed_system :: "(QueryKindId \<Rightarrow> 'v \<Rightarrow> bool) \<Rightarrow> 'v system \<Rightarrow> bool" where
  "typed_system T sys \<longleftrightarrow> (\<forall>q. typed_prog T (dk_kind q) (compute_of sys q))"

text \<open>A run that ends in a typed world, with entries added to the registry only, and a result that satisfies \<open>Q\<close>.\<close>

definition typed_run :: "(QueryKindId \<Rightarrow> 'v \<Rightarrow> bool) \<Rightarrow> QueryKindId list \<Rightarrow> ('a \<Rightarrow> bool) \<Rightarrow> ('a, 'v) run \<Rightarrow> bool" where
  "typed_run T Ks Q m \<longleftrightarrow> (\<exists>Ks'. typed T (Ks @ Ks') (snd m)) \<and> (\<forall>a. fst m = Finished a \<longrightarrow> Q a)"

lemma typed_run_finished: "typed T Ks w \<Longrightarrow> Q a \<Longrightarrow> typed_run T Ks Q (Finished a, w)"
  unfolding typed_run_def by (auto intro!: exI [of _ "[]"])

lemma typed_run_other: "typed T Ks w \<Longrightarrow> typed_run T Ks Q (Blocked, w)" "typed T Ks w \<Longrightarrow> typed_run T Ks Q (OutOfFuel, w)"
  unfolding typed_run_def by (auto intro!: exI [of _ "[]"])

lemma typed_run_longer: "typed_run T (Ks @ Ks') Q m \<Longrightarrow> typed_run T Ks Q m"
  unfolding typed_run_def by auto

lemma typed_then_run:
  assumes m: "typed_run T Ks Q m"
    and k: "\<And>a w Ks'. Q a \<Longrightarrow> typed T (Ks @ Ks') w \<Longrightarrow> typed_run T (Ks @ Ks') R (k a w)"
  shows "typed_run T Ks R (then_run m k)"
proof -
  obtain out w where mw: "m = (out, w)" by fastforce
  obtain Ks' where w: "typed T (Ks @ Ks') w" using m mw by (auto simp: typed_run_def)
  show ?thesis
  proof (cases out)
    case (Finished a)
    then have "Q a" using m mw by (simp add: typed_run_def)
    from typed_run_longer [OF k [OF this w]] show ?thesis using mw Finished by simp
  qed (use mw w in \<open>auto simp: typed_run_def\<close>)
qed

subsection \<open>Typed accesses\<close>

text \<open>The result of an access: a value of the type, and a value if one was wanted.\<close>

definition typed_result :: "(QueryKindId \<Rightarrow> 'v \<Rightarrow> bool) \<Rightarrow> QueryKindId \<Rightarrow> bool \<Rightarrow> 'v AccessResult PicanteResult \<Rightarrow> bool" where
  "typed_result T k want res \<longleftrightarrow>
     (\<forall>r. res = Inr r \<longrightarrow> (if want then \<exists>v. ar_value r = Some v \<and> T k v else ar_value r = None))"

lemma typed_result_simps [simp]:
  "typed_result T k want (Inl e)"
  "typed_result T k want (Inr \<lparr>ar_value = (if want then Some v else None), ar_changed_at = ca\<rparr>) \<longleftrightarrow> (want \<longrightarrow> T k v)"
  by (auto simp: typed_result_def)

definition typed_accessor :: "(QueryKindId \<Rightarrow> 'v \<Rightarrow> bool) \<Rightarrow> 'v accessor \<Rightarrow> bool" where
  "typed_accessor T acc \<longleftrightarrow>
     (\<forall>Ks q want w. typed T Ks w \<longrightarrow> typed_run T Ks (typed_result T (dk_kind q) want) (acc q want w))"

lemma typed_accessorD:
  "typed_accessor T acc \<Longrightarrow> typed T Ks w \<Longrightarrow> typed_run T Ks (typed_result T (dk_kind q) want) (acc q want w)"
  by (simp add: typed_accessor_def)

lemma typed_scoped:
  assumes "typed_accessor T acc"
  shows "typed_accessor T (scoped acc)"
  unfolding typed_accessor_def
proof (intro allI impI)
  fix Ks q want and w :: "'a world"
  assume w: "typed T Ks w"
  show "typed_run T Ks (typed_result T (dk_kind q) want) (scoped acc q want w)"
  proof (cases "active_stack (w_task w)")
    case None
    have "typed_run T Ks (typed_result T (dk_kind q) want) (acc q want (on_task (\<lambda>t. t\<lparr>active_stack := Some []\<rparr>) w))"
      using w by (intro typed_accessorD [OF assms]) simp
    then show ?thesis using None by (auto simp: scoped_def typed_run_def split: prod.split)
  qed (use typed_accessorD [OF assms w] in \<open>simp add: scoped_def\<close>)
qed

lemma typed_get_erased:
  assumes "typed_accessor T acc" and "typed T Ks w"
  shows "typed_run T Ks (\<lambda>res. \<forall>v. res = Inr v \<longrightarrow> T (dk_kind q) v) (get_erased acc q w)"
  unfolding get_erased_def
  by (rule typed_then_run [OF typed_accessorD [OF typed_scoped [OF assms(1)] assms(2)]])
    (auto intro!: typed_run_finished simp: typed_result_def split: sum.split)

lemma typed_touch_erased:
  assumes "typed_accessor T acc" and "typed T Ks w"
  shows "typed_run T Ks (\<lambda>_. True) (touch_erased acc q w)"
  unfolding touch_erased_def
  by (rule typed_then_run [OF typed_accessorD [OF typed_scoped [OF assms(1)] assms(2)]]) (auto intro!: typed_run_finished)

lemma typed_read_input:
  assumes "typed T Ks w" and "read_input q w = (x, w1)"
  shows "typed T Ks w1 \<and> (\<forall>v. x = Some v \<longrightarrow> T (dk_kind q) v)"
proof -
  have "x = input_value w q"
    using assms(2) by (auto simp: read_input_def Let_def input_value_def input_at_def split: option.splits ingredient.splits)
  moreover have "typed T Ks w1" using assms by (auto simp: read_input_def Let_def split: if_splits)
  ultimately show ?thesis
    using assms(1) by (simp add: typed_def typed_inputs_def)
qed

lemma typed_run_prog:
  assumes acc: "typed_accessor T acc"
  shows "typed_prog T k p \<Longrightarrow> typed T Ks w
     \<Longrightarrow> typed_run T Ks (\<lambda>c. \<forall>v. c = Returned (Inr v) \<longrightarrow> T k v) (run_prog acc p w)"
proof (induction p arbitrary: Ks w)
  case (ReadInput q f)
  obtain x w1 where r: "read_input q w = (x, w1)" by fastforce
  from typed_read_input [OF ReadInput.prems(2) r] ReadInput.prems(1) r ReadInput.IH [OF rangeI]
  show ?case by simp
next
  case (Query q f)
  show ?case
    unfolding run_prog.simps
    by (rule typed_then_run [OF typed_get_erased [OF acc Query.prems(2)]]) (use Query.IH [OF rangeI] Query.prems(1) in simp)
qed (auto intro: typed_run_finished)

lemma typed_revalidate_deps:
  assumes acc: "typed_accessor T acc"
  shows "typed T Ks w \<Longrightarrow> typed_run T Ks (\<lambda>_. True) (revalidate_deps acc ds ca w)"
proof (induction ds arbitrary: Ks w)
  case (Cons d ds)
  have touch: "typed_run T Ks (\<lambda>_. True) (touch acc i key w)" for i key
    using Cons.prems by (auto simp: touch_def intro: typed_run_finished typed_touch_erased [OF acc] split: ingredient.split)
  show ?case
  proof (cases "ingredient (w_ingredients w) (dep_kind d)")
    case (Some i)
    have "typed_run T Ks (\<lambda>_. True) (then_run (touch acc i (dep_key d) w) (\<lambda>res w1.
            case res of
              Inl e \<Rightarrow> (Finished (Inl e), w1)
            | Inr changed_at \<Rightarrow>
                if ca < changed_at then (Finished (Inr False), w1)
                else revalidate_deps acc ds ca w1))"
      by (rule typed_then_run [OF touch]) (use Cons.IH in \<open>auto intro: typed_run_finished split: sum.split\<close>)
    then show ?thesis using Some by simp
  qed (use Cons.prems in \<open>simp add: typed_run_finished\<close>)
qed (simp add: typed_run_finished)

lemma typed_try_revalidate:
  assumes "typed_accessor T acc" and "typed T Ks w"
  shows "typed_run T Ks (\<lambda>_. True) (try_revalidate acc q rv ds ca w)"
proof -
  obtain h t where f: "frame_new q rv (w_task w) = (h, t)" by fastforce
  have "typed_run T Ks (\<lambda>_. True) (revalidate_deps acc ds ca (on_task (\<lambda>_. push_frame h t) w))"
    using assms(2) by (intro typed_revalidate_deps [OF assms(1)]) simp
  from typed_then_run [OF this, where R = "\<lambda>_. True" and k = "\<lambda>res w1. (Finished res, on_task pop_frame w1)"]
  show ?thesis unfolding try_revalidate_def f by (simp add: typed_run_finished)
qed

lemma typed_return_if_current:
  assumes "typed T Ks w" and "Q a" and "\<And>Ks w. typed T Ks w \<Longrightarrow> typed_run T Ks Q (again w)"
  shows "typed_run T Ks Q (return_if_current again rv a w)"
  using assms by (simp add: return_if_current_def typed_run_finished)


lemma typed_adopt_record:
  assumes "typed T Ks w" and "T (dk_kind q) (sr_value rec)"
  shows "typed T Ks (adopt_record q rv rec w)"
  using assms unfolding adopt_record_def Let_def
  by (auto intro!: typed_put_record typed_set_cell simp: new_ready_def)

lemma typed_finalize_ok:
  assumes "typed T Ks w" and "T (dk_kind q) out" and "guard_of Ks (dk_kind q) g"
  shows "typed T Ks (finalize_ok eq q rv prev g ds out w)"
proof -
  let ?ca = "finalize_changed_at eq prev rv out"
  let ?r = "\<lparr>rr_value = out, rr_verified_at = rv, rr_changed_at = ?ca, rr_deps = ds\<rparr>"
  let ?w1 = "on_rt (update_query_deps q ds) w"
  let ?w2 = "if ?ca = rv then on_rt (notify_query_changed rv q) ?w1 else ?w1"
  have "typed T Ks ?w2" using assms(1) by simp
  then have w3: "typed T Ks (put_record q ?r (set_cell q (new_ready ?r) ?w2))"
    using assms(2) by (intro typed_put_record typed_set_cell) (auto simp: new_ready_def)
  moreover from w3 have "typed_reg T Ks (w_inflight (put_record q ?r (set_cell q (new_ready ?r) ?w2)))"
    by (simp add: typed_def)
  ultimately show ?thesis
    using assms(2,3) unfolding finalize_ok_def Let_def guard_of_def by (intro typed_inflight typed_guard_complete) auto
qed

lemma typed_finalize_err:
  assumes "typed T Ks w"
  shows "typed T Ks (finalize_err q rv g e w)"
proof -
  have w1: "typed T Ks (set_cell q (Poisoned e rv) w)" using assms by (rule typed_set_cell) simp
  then have "typed_reg T Ks (w_inflight (set_cell q (Poisoned e rv) w))" by (simp add: typed_def)
  then show ?thesis unfolding finalize_err_def Let_def by (intro typed_inflight [OF w1] typed_guard_fail)
qed

text \<open>A continuation that goes round the loop again.\<close>

definition typed_again ::
  "(QueryKindId \<Rightarrow> 'v \<Rightarrow> bool) \<Rightarrow> DynKey \<Rightarrow> bool \<Rightarrow> ('v world \<Rightarrow> ('v AccessResult PicanteResult, 'v) run) \<Rightarrow> bool" where
  "typed_again T q want again \<longleftrightarrow>
     (\<forall>Ks w. typed T Ks w \<longrightarrow> typed_run T Ks (typed_result T (dk_kind q) want) (again w))"

lemma typed_againD:
  "typed_again T q want again \<Longrightarrow> typed T Ks w \<Longrightarrow> typed_run T Ks (typed_result T (dk_kind q) want) (again w)"
  by (simp add: typed_again_def)

lemma typed_if_current:
  assumes "typed_again T q want again" and "typed T Ks w" and "typed_result T (dk_kind q) want a"
  shows "typed_run T Ks (typed_result T (dk_kind q) want) (return_if_current again rv a w)"
  by (rule typed_return_if_current [OF assms(2,3) typed_againD [OF assms(1)]])

lemma typed_lead_phase:
  assumes acc: "typed_accessor T acc" and again: "typed_again T q want again" and sys: "typed_system T sys"
    and w: "typed T Ks w" and g: "guard_of Ks (dk_kind q) g"
  shows "typed_run T Ks (typed_result T (dk_kind q) want) (lead_phase sys acc again q want rv prev g w)"
proof -
  obtain h t where f: "frame_new q rv (w_task w) = (h, t)" by fastforce
  have prog: "typed_prog T (dk_kind q) (compute_of sys q)" using sys by (simp add: typed_system_def)
  have "typed T Ks (on_task (\<lambda>_. push_frame h t) w)" using w by simp
  note run = typed_run_prog [OF acc prog this]
  show ?thesis
    unfolding lead_phase_def f Let_def prod.case
    by (rule typed_then_run [OF run])
      (auto split: prod.split caught.split sum.split split del: if_split
        intro!: typed_if_current [OF again] typed_finalize_ok typed_finalize_err guard_of_append g)
qed

lemma typed_follow_phase:
  assumes again: "typed_again T q want again" and w: "typed T Ks w" and e: "e < length Ks" "Ks ! e = dk_kind q"
  shows "typed_run T Ks (typed_result T (dk_kind q) want) (follow_phase again q want rv e w)"
proof -
  have w1: "typed T Ks (set_cell q Vacant w)" using w by (rule typed_set_cell) simp
  have v: "T (dk_kind q) v" if "ife_state (reg_entries (w_inflight w) ! e) = IfDone v ds ca" for v ds ca
    using w that e by (auto simp: typed_def typed_reg_def)
  show ?thesis
    unfolding follow_phase_def Let_def
    using v w1
    by (auto split: InFlightState.split split del: if_split simp: new_ready_def
        intro!: typed_if typed_if_current [OF again] typed_againD [OF again] typed_run_other typed_put_record typed_set_cell)
qed

lemma typed_inflight_phase:
  assumes acc: "typed_accessor T acc" and again: "typed_again T q want again" and sys: "typed_system T sys"
    and w: "typed T Ks w"
  shows "typed_run T Ks (typed_result T (dk_kind q) want) (inflight_phase sys acc again q want rv prev w)"
proof -
  let ?key = "\<lparr>if_runtime_id = cache_scope_id (w_rt w), if_revision = rv, if_kind = dk_kind q, if_key = dk_key q\<rparr>"
  obtain lead reg where tl: "try_lead ?key (w_inflight w) = (lead, reg)" by fastforce
  have reg: "typed_reg T Ks (w_inflight w)" using w by (simp add: typed_def)
  note t = typed_try_lead [OF reg tl]
  show ?thesis
  proof (cases lead)
    case (Leader g)
    with t have r: "typed_reg T (Ks @ [dk_kind q]) reg" "guard_of (Ks @ [dk_kind q]) (dk_kind q) g" by simp_all
    have "typed_run T Ks (typed_result T (dk_kind q) want)
        (lead_phase sys acc again q want rv prev g (w\<lparr>w_inflight := reg\<rparr>))"
      by (rule typed_run_longer [OF typed_lead_phase [OF acc again sys typed_inflight [OF w r(1)] r(2)]])
    then show ?thesis by (simp add: inflight_phase_def tl Leader)
  next
    case (Follower e)
    with t have r: "reg = w_inflight w" "e < length Ks" "Ks ! e = dk_kind q" by simp_all
    show ?thesis using typed_follow_phase [OF again w r(2,3)] by (simp add: inflight_phase_def tl Follower r(1))
  qed
qed

lemma typed_compute_phase:
  assumes acc: "typed_accessor T acc" and again: "typed_again T q want again" and sys: "typed_system T sys"
    and w: "typed T Ks w"
  shows "typed_run T Ks (typed_result T (dk_kind q) want) (compute_phase sys acc again q want rv w)"
proof (cases "start_running rv (cell_state q w)")
  case None
  then show ?thesis using typed_againD [OF again w] by (simp add: compute_phase_def)
next
  case (Some prev)
  let ?w = "set_cell q (Running rv) w"
  have w1: "typed T Ks ?w" using w by (rule typed_set_cell) simp
  show ?thesis
  proof (cases "shared_cache_get (cache_scope_id (w_rt ?w)) (dk_kind q) (dk_key q) (w_cache ?w)")
    case None
    then show ?thesis using Some typed_inflight_phase [OF acc again sys w1] by (simp add: compute_phase_def Let_def)
  next
    case (Some rec)
    have v: "T (dk_kind q) (sr_value rec)" by (rule typed_shared [OF w1 Some])
    let ?m = "if sr_verified_at rec = rv then (Finished (Inr True), ?w)
        else try_revalidate acc q rv (sr_deps rec) (sr_changed_at rec) ?w"
    have "typed_run T Ks (\<lambda>_. True) ?m" using typed_try_revalidate [OF acc w1] w1 by (simp add: typed_run_finished)
    then have "typed_run T Ks (typed_result T (dk_kind q) want) (then_run ?m (\<lambda>res w2. case res of
          Inl e \<Rightarrow> (Finished (Inl e), w2)
        | Inr False \<Rightarrow> inflight_phase sys acc again q want rv prev w2
        | Inr True \<Rightarrow>
            return_if_current again rv
              (Inr \<lparr>ar_value = (if want then Some (sr_value rec) else None), ar_changed_at = sr_changed_at rec\<rparr>)
              (adopt_record q rv rec w2)))"
      by (rule typed_then_run)
        (auto split: sum.split bool.split split del: if_split
          intro!: typed_run_finished typed_inflight_phase [OF acc again sys] typed_if_current [OF again] typed_adopt_record v)
    then show ?thesis using Some \<open>start_running rv (cell_state q w) = Some prev\<close> by (simp add: compute_phase_def Let_def)
  qed
qed

lemma typed_revalidated:
  assumes again: "typed_again T q want again" and w: "typed T Ks w"
  shows "typed_run T Ks (typed_result T (dk_kind q) want) (revalidated again q want rv w)"
proof (cases "cell_state q w")
  case (Ready v va ca ds)
  have "T (dk_kind q) v" by (rule typed_cell_state [OF w Ready])
  then show ?thesis
    unfolding revalidated_def Ready by (auto intro!: typed_if_current [OF again] typed_set_cell [OF w] split del: if_split)
qed (use typed_againD [OF again w] in \<open>simp_all add: revalidated_def\<close>)

lemma typed_access_round:
  assumes acc: "typed_accessor T acc" and again: "typed_again T q want again" and sys: "typed_system T sys"
    and w: "typed T Ks w"
  shows "typed_run T Ks (typed_result T (dk_kind q) want) (access_round sys acc again q want w)"
proof (cases "observe want (world_rev w) (cell_state q w)")
  case (ObsReady x ca)
  then obtain v va ds where c: "cell_state q w = Ready v va ca ds" "x = (if want then Some v else None)"
    by (auto simp: observe_def split: ErasedState.splits if_splits)
  from typed_cell_state [OF w c(1)] c(2)
  have "typed_result T (dk_kind q) want (Inr \<lparr>ar_value = x, ar_changed_at = ca\<rparr>)" by simp
  from typed_if_current [OF again w this] show ?thesis using ObsReady by (simp add: access_round_def Let_def)
next
  case (ObsError e)
  then show ?thesis using typed_if_current [OF again w, of "Inl e"] by (simp add: access_round_def Let_def)
next
  case (ObsRunning r)
  then show ?thesis using w by (simp add: access_round_def Let_def typed_run_other)
next
  case (ObsStaleReady ds ca)
  show ?thesis
    unfolding access_round_def Let_def ObsStaleReady ErasedObserved.case
    by (rule typed_then_run [OF typed_try_revalidate [OF acc w]])
      (auto split: sum.split bool.split split del: if_split
        intro!: typed_run_finished typed_revalidated [OF again] typed_compute_phase [OF acc again sys])
next
  case ObsStaleOther
  then show ?thesis using typed_compute_phase [OF acc again sys w] by (simp add: access_round_def Let_def)
qed

lemma typed_access_enter:
  assumes "typed_accessor T loop"
  shows "typed_accessor T (access_enter loop)"
  unfolding typed_accessor_def
proof (intro allI impI)
  fix Ks q want and w :: "'a world"
  assume w: "typed T Ks w"
  then have "typed T Ks (record_access q want w)" by (simp add: record_access_def)
  then have "typed T Ks (ensure_cell q (record_access q want w))"
    by (auto simp: ensure_cell_def intro: typed_set_cell split: option.split)
  from typed_accessorD [OF assms this] w
  show "typed_run T Ks (typed_result T (dk_kind q) want) (access_enter loop q want w)"
    by (auto simp: access_enter_def typed_run_finished split: option.split)
qed

lemma typed_access_loop:
  assumes "typed_system T sys"
  shows "typed_accessor T (access_loop n sys)"
proof (induction n)
  case 0
  then show ?case by (simp add: typed_accessor_def typed_run_other)
next
  case (Suc n)
  then have "typed_again T q want (access_loop n sys q want)" for q want
    by (simp add: typed_again_def typed_accessor_def)
  then show ?case
    using typed_access_round [OF typed_access_enter [OF Suc] _ assms] by (simp add: typed_accessor_def)
qed

lemma typed_access: "typed_system T sys \<Longrightarrow> typed_accessor T (access n sys)"
  unfolding access_def by (rule typed_access_enter [OF typed_access_loop])


subsection \<open>Typed runs\<close>

lemma typed_write:
  assumes w: "typed T Ks w"
    and f: "\<And>s q v. held (db_input (snd (f \<lparr>db_input = s, db_runtime = w_rt w, db_counter = w_counter w\<rparr>))) q = Some v
       \<Longrightarrow> held s q = Some v \<or> T kind v"
  shows "typed T Ks (snd (on_input kind f w))"
proof (cases "ingredient (w_ingredients w) kind")
  case (Some i)
  show ?thesis
  proof (cases i)
    case (InputI s)
    obtain rv d where fd: "f \<lparr>db_input = s, db_runtime = w_rt w, db_counter = w_counter w\<rparr> = (rv, d)" by fastforce
    let ?w = "w\<lparr>w_ingredients := tinsert kind (InputI (db_input d)) (w_ingredients w), w_rt := db_runtime d,
                w_counter := db_counter d\<rparr>"
    have cells: "get_cell q ?w = get_cell q w" for q using Some InputI by (simp add: get_cell_def ingredient_def)
    have at: "input_at ?w k = (if k = kind then Some (db_input d) else input_at w k)" for k
      by (simp add: input_at_def ingredient_def)
    have "input_at w kind = Some s" using Some InputI by (simp add: input_at_def)
    then have "T (dk_kind q) v" if "input_value ?w q = Some v" for q v
      using that f [of s q v] fd w by (auto simp: input_value_def at typed_def typed_inputs_def split: if_splits)
    then have "typed T Ks ?w" using w unfolding typed_def typed_cells_def typed_inputs_def by (simp add: cells)
    then show ?thesis by (simp add: on_input_def Some InputI fd)
  qed (use w Some in \<open>simp add: on_input_def\<close>)
qed (use w in \<open>simp add: on_input_def\<close>)

lemma write_begin_input [simp]: "db_input (snd (write_begin d)) = db_input d"
  by (simp add: write_begin_def Let_def case_prod_beta)

lemma write_finish_held:
  "held (db_input (write_finish q x rv d)) q' = (if q' = q then x else held (db_input d) q')"
  by (simp add: write_finish_def Let_def held_def)

text \<open>A typed \<open>set\<close> only takes values of the type of its ingredient.\<close>

fun typed_op :: "(QueryKindId \<Rightarrow> 'v \<Rightarrow> bool) \<Rightarrow> 'v db_op \<Rightarrow> bool" where
  "typed_op T (OpSet kind key v) = T kind v"
| "typed_op T _ = True"

lemma typed_db_run:
  assumes "typed_system T sys" and "typed T Ks w" and "typed_op T op"
  shows "\<exists>Ks'. typed T (Ks @ Ks') (db_run sh n sys op w)"
proof (cases op)
  case (OpSet kind key v)
  have "typed T Ks (db_set sh sys kind key v w)"
    unfolding db_set_def
    by (rule typed_write [OF assms(2)])
      (use assms(3) OpSet in \<open>auto simp: input_set_def Let_def case_prod_beta write_finish_held
        split: sum.splits option.splits if_splits\<close>)
  then show ?thesis using OpSet by (auto intro: exI [of _ "[]"])
next
  case (OpRemove kind key)
  have "typed T Ks (db_remove sh kind key w)"
    unfolding db_remove_def
    by (rule typed_write [OF assms(2)])
      (auto simp: input_remove_def Let_def case_prod_beta write_finish_held split: sum.splits option.splits if_splits)
  then show ?thesis using OpRemove by (auto intro: exI [of _ "[]"])
next
  case (OpGet q)
  then show ?thesis
    using typed_get_erased [OF typed_access [OF assms(1)] assms(2)] by (simp add: db_get_def typed_run_def)
next
  case (OpTouch q)
  then show ?thesis
    using typed_touch_erased [OF typed_access [OF assms(1)] assms(2)] by (simp add: db_touch_def typed_run_def)
qed

lemma typed_db_runs:
  assumes "typed_system T sys"
  shows "typed T Ks w \<Longrightarrow> \<forall>op \<in> set ops. typed_op T op \<Longrightarrow> \<exists>Ks'. typed T (Ks @ Ks') (fold (db_run sh n sys) ops w)"
proof (induction ops arbitrary: Ks w)
  case (Cons op ops)
  obtain Ks1 where "typed T (Ks @ Ks1) (db_run sh n sys op w)"
    using typed_db_run [OF assms Cons.prems(1), of op sh n] Cons.prems(2) by auto
  from Cons.IH [OF this] Cons.prems(2) show ?case by auto
qed (auto intro: exI [of _ "[]"])

lemma typed_from_database:
  assumes "db_shape sh w" and "typed T Ks w"
  shows "typed T Ks (from_database sh w)"
proof -
  have "T (dk_kind q) v" if c: "get_cell q (from_database sh w) = Some (Ready v va ca ds)" for q v va ca ds
  proof -
    obtain st r where "get_cell q w = Some st" "ready_record st = Some r" "rr_value r = v"
      using c unfolding snapshot_get_cell [OF assms(1)] by (auto simp: new_ready_def bind_eq_Some_conv)
    then show ?thesis using assms(2) by (cases st) (auto simp: typed_def typed_cells_def)
  qed
  then show ?thesis
    using assms(2) by (simp add: typed_def typed_cells_def typed_inputs_def snapshot_input_value [OF assms(1)])
qed

subsection \<open>Reads with a cast\<close>

text \<open>The types of the values by kind.\<close>

definition has_type :: "(QueryKindId \<Rightarrow> nat) \<Rightarrow> QueryKindId \<Rightarrow> 'u ArcAny \<Rightarrow> bool" where
  "has_type ids k a \<longleftrightarrow> aa_type_id a = ids k"

definition get_mismatch :: "('u, 'v) rust_type \<Rightarrow> (nat \<Rightarrow> string) \<Rightarrow> string \<Rightarrow> 'u ArcAny \<Rightarrow> PicanteError" where
  "get_mismatch ty dbg kind_name a =
     Panic (''[BUG] type mismatch in get() for ingredient '' @ kind_name @ '': expected '' @ ty_name ty @ '', got TypeId ''
            @ dbg (aa_type_id a))"

text \<open>\<open>DerivedIngredient::get\<close>.\<close>

definition derived_get ::
  "hasher \<Rightarrow> nat \<Rightarrow> 'u ArcAny system \<Rightarrow> 'k codec \<Rightarrow> ('u, 'v) rust_type \<Rightarrow> (nat \<Rightarrow> string) \<Rightarrow> QueryKindId \<Rightarrow> string
   \<Rightarrow> 'k \<Rightarrow> 'u ArcAny world \<Rightarrow> ('v PicanteResult, 'u ArcAny) run" where
  "derived_get sh n sys kc ty dbg kind kind_name key w =
     (case encode_facet sh kc key of
        Inl e \<Rightarrow> (Finished (Inl e), w)
      | Inr k \<Rightarrow>
          then_run (db_get n sys \<lparr>dk_kind = kind, dk_key = k\<rparr> w) (\<lambda>res w1.
            (Finished (rbind res (\<lambda>arc_any.
               case downcast ty arc_any of
                 None \<Rightarrow> Inl (get_mismatch ty dbg kind_name arc_any)
               | Some v \<Rightarrow> Inr v)), w1)))"

text \<open>\<open>InputIngredient::get\<close> on erased entries: what cannot be cast reads as missing.\<close>

definition erased_input_get ::
  "hasher \<Rightarrow> 'k codec \<Rightarrow> ('u, 'v) rust_type \<Rightarrow> QueryKindId \<Rightarrow> 'k \<Rightarrow> 'u ArcAny world
   \<Rightarrow> 'v option PicanteResult \<times> 'u ArcAny world" where
  "erased_input_get sh kc ty kind key w =
     (case encode_facet sh kc key of
        Inl e \<Rightarrow> (Inl e, w)
      | Inr k \<Rightarrow>
          (let (x, w1) = read_input \<lparr>dk_kind = kind, dk_key = k\<rparr> w
           in (Inr (Option.bind x (downcast ty)), w1)))"

text \<open>The same reads if no cast could fail.\<close>

definition sure_get ::
  "hasher \<Rightarrow> nat \<Rightarrow> 'u ArcAny system \<Rightarrow> 'k codec \<Rightarrow> ('u, 'v) rust_type \<Rightarrow> QueryKindId
   \<Rightarrow> 'k \<Rightarrow> 'u ArcAny world \<Rightarrow> ('v PicanteResult, 'u ArcAny) run" where
  "sure_get sh n sys kc ty kind key w =
     (case encode_facet sh kc key of
        Inl e \<Rightarrow> (Finished (Inl e), w)
      | Inr k \<Rightarrow>
          then_run (db_get n sys \<lparr>dk_kind = kind, dk_key = k\<rparr> w) (\<lambda>res w1.
            (Finished (map_sum id (\<lambda>a. ty_out ty (aa_value a)) res), w1)))"

definition sure_input_get ::
  "hasher \<Rightarrow> 'k codec \<Rightarrow> ('u, 'v) rust_type \<Rightarrow> QueryKindId \<Rightarrow> 'k \<Rightarrow> 'u ArcAny world
   \<Rightarrow> 'v option PicanteResult \<times> 'u ArcAny world" where
  "sure_input_get sh kc ty kind key w =
     (case encode_facet sh kc key of
        Inl e \<Rightarrow> (Inl e, w)
      | Inr k \<Rightarrow>
          (let (x, w1) = read_input \<lparr>dk_kind = kind, dk_key = k\<rparr> w
           in (Inr (map_option (\<lambda>a. ty_out ty (aa_value a)) x), w1)))"

lemma typed_derived_get:
  assumes "typed_system (has_type ids) sys" and "typed (has_type ids) Ks w" and "ty_id ty = ids kind"
  shows "derived_get sh n sys kc ty dbg kind name key w = sure_get sh n sys kc ty kind key w"
proof (cases "encode_facet sh kc key")
  case (Inr k)
  let ?q = "\<lparr>dk_kind = kind, dk_key = k\<rparr>"
  obtain out w1 where run: "db_get n sys ?q w = (out, w1)" by fastforce
  have "typed_run (has_type ids) Ks (\<lambda>res. \<forall>v. res = Inr v \<longrightarrow> has_type ids (dk_kind ?q) v) (db_get n sys ?q w)"
    unfolding db_get_def by (rule typed_get_erased [OF typed_access [OF assms(1)] assms(2)])
  then have "downcast ty v = Some (ty_out ty (aa_value v))" if "out = Finished (Inr v)" for v
    using that run assms(3) by (simp add: typed_run_def has_type_def downcast_def)
  note cast = this
  show ?thesis
  proof (cases out)
    case (Finished x)
    with Inr run cast show ?thesis by (cases x) (simp_all add: derived_get_def sure_get_def)
  qed (use Inr run in \<open>simp_all add: derived_get_def sure_get_def\<close>)
qed (simp add: derived_get_def sure_get_def)

lemma typed_erased_input_get:
  assumes "typed (has_type ids) Ks w" and "ty_id ty = ids kind"
  shows "erased_input_get sh kc ty kind key w = sure_input_get sh kc ty kind key w"
proof (cases "encode_facet sh kc key")
  case (Inr k)
  obtain x w1 where r: "read_input \<lparr>dk_kind = kind, dk_key = k\<rparr> w = (x, w1)" by fastforce
  from typed_read_input [OF assms(1) r] assms(2)
  have "Option.bind x (downcast ty) = map_option (\<lambda>a. ty_out ty (aa_value a)) x"
    by (cases x) (simp_all add: has_type_def downcast_def)
  then show ?thesis using Inr r by (simp add: erased_input_get_def sure_input_get_def)
qed (simp add: erased_input_get_def sure_input_get_def)

lemma typed_wanted:
  assumes "typed_system T sys" and "typed T Ks w" and "access n sys q True w = (Finished (Inr r), w1)"
  shows "ar_value r \<noteq> None"
  using typed_accessorD [OF typed_access [OF assms(1)] assms(2), of q True n] assms(3)
  by (auto simp: typed_run_def typed_result_def)

text \<open>
  C12. No cast of a read fails. Take a database whose values have the types of their kinds, in cells, inputs, the
  cache and the registry of the process, and queries that make values of their type whenever they read values of
  theirs. Whatever runs, on the database or then on a snapshot of it, and whatever fails or panics on the way:
  \<open>get\<close> of a derived ingredient never answers its \<open>[BUG]\<close> errors (no value, or one of a wrong type), and an input
  never reads as missing because of its type.
\<close>

theorem casts_never_fail:
  assumes "typed_system (has_type ids) sys" and "typed (has_type ids) Ks w" and "db_shape sh w"
    and "\<forall>op \<in> set (ops @ ops'). typed_op (has_type ids) op"
    and "w1 = fold (db_run sh n sys) ops w"
    and "w2 = w1 \<or> w2 = fold (db_run sh n sys) ops' (from_database sh w1)"
    and "ty_id ty = ids kind"
  shows "derived_get sh m sys kc ty dbg kind name key w2 = sure_get sh m sys kc ty kind key w2
     \<and> erased_input_get sh kc ty kind key w2 = sure_input_get sh kc ty kind key w2
     \<and> (\<forall>q r w3. access m sys q True w2 = (Finished (Inr r), w3) \<longrightarrow> ar_value r \<noteq> None)"
proof -
  have ops: "\<forall>op \<in> set ops. typed_op (has_type ids) op" "\<forall>op \<in> set ops'. typed_op (has_type ids) op"
    using assms(4) by simp_all
  from typed_db_runs [OF assms(1,2) ops(1), of sh n] obtain Ks1 where w1: "typed (has_type ids) Ks1 w1"
    unfolding assms(5) by blast
  have "db_shape sh w1" unfolding assms(5) by (rule db_shape_runs [OF assms(3)])
  from typed_db_runs [OF assms(1) typed_from_database [OF this w1] ops(2), of sh n]
  obtain Ks2 where "typed (has_type ids) Ks2 (fold (db_run sh n sys) ops' (from_database sh w1))" by blast
  with w1 assms(6) obtain Ks3 where w2: "typed (has_type ids) Ks3 w2" by metis
  show ?thesis
    by (intro conjI allI impI typed_derived_get [OF assms(1) w2 assms(7)] typed_erased_input_get [OF w2 assms(7)]
        typed_wanted [OF assms(1) w2])
qed

text \<open>An input of bytes and a query of booleans.\<close>

definition bool_type :: "(nat, bool) rust_type" where
  "bool_type = \<lparr>ty_id = 8, ty_name = ''bool'', ty_in = of_bool, ty_out = (\<lambda>n. n = 1)\<rparr>"

definition zero_system :: "nat ArcAny system" where
  "zero_system = \<lparr>sys_compute = (\<lambda>kd key. if kd = QueryKindId 1 then PanicP (StrPayload ''no query'')
       else ReadInput \<lparr>dk_kind = QueryKindId 1, dk_key = key\<rparr> (\<lambda>x. case x of
         None \<Rightarrow> PanicP (StrPayload ''missing'')
       | Some a \<Rightarrow> (case downcast byte_type a of None \<Rightarrow> PanicP (StrPayload ''type'') | Some v \<Rightarrow> Ret (erase bool_type (v = 0))))),
     sys_eq = (\<lambda>_ a b. a = b)\<rparr>"

definition zero_world :: "nat ArcAny world" where
  "zero_world = \<lparr>w_rt = fst (runtime_new 7),
     w_ingredients = register (DerivedI (derived_new (QueryKindId 4) ''again''))
       (register (DerivedI (derived_new (QueryKindId 3) ''is_zero''))
         (register (InputI (input_new (QueryKindId 1) ''number'')) [])),
     w_cache = shared_cache_init None, w_inflight = registry0, w_task = task0, w_counter = 8\<rparr>"

theorem casts_never_fail_witness:
  "let w = fold (db_run (\<lambda>_. 0) 2 zero_system)
         [OpSet (QueryKindId 1) [1] (erase byte_type 0), OpGet \<lparr>dk_kind = QueryKindId 3, dk_key = from_bytes (\<lambda>_. 0) [1]\<rparr>] zero_world
   in derived_get (\<lambda>_. 0) 2 zero_system raw_codec bool_type (\<lambda>_. []) (QueryKindId 3) ''is_zero'' [1] w
        = sure_get (\<lambda>_. 0) 2 zero_system raw_codec bool_type (QueryKindId 3) [1] w"
proof -
  let ?ids = "\<lambda>k. if k = QueryKindId 1 then 7 else 8"
  have sys: "typed_system (has_type ?ids) zero_system"
    by (auto simp: typed_system_def zero_system_def compute_of_def has_type_def erase_def bool_type_def split: option.split)
  have w: "typed (has_type ?ids) [] zero_world"
    by (simp add: typed_def typed_cells_def typed_inputs_def input_value_def input_at_def get_cell_def zero_world_def held_def
        typed_cache_def typed_reg_def registry0_def shared_cache_init_def register_def ingredient_kind_def ingredient_def
        derived_new_def input_new_def)
  have shape: "db_shape (\<lambda>_. 0) zero_world"
    by (auto simp: db_shape_def zero_world_def runtime_new_def new_unique_def register_def ingredient_kind_def
        derived_new_def input_new_def ingredient_wf_def input_wf_def split: if_splits)
  have ops: "\<forall>op \<in> set ([OpSet (QueryKindId 1) [1] (erase byte_type 0), OpGet \<lparr>dk_kind = QueryKindId 3, dk_key = from_bytes (\<lambda>_. 0) [1]\<rparr>] @ []).
      typed_op (has_type ?ids) op"
    by (simp add: has_type_def erase_def byte_type_def)
  show ?thesis
    unfolding Let_def
    by (rule casts_never_fail [OF sys w shape ops refl disjI1 [OF refl], THEN conjunct1]) (simp add: bool_type_def)
qed

end
