(* ===== verification/TraitObjects.thy ===== *)
theory TraitObjects
  imports Erasure Persist
begin

text \<open>
  The erased cores as trait objects: the \<open>impl PersistableIngredient\<close> blocks of \<open>ingredient/derived.rs\<close> and
  \<open>ingredient/input.rs\<close> as tables of methods over their state. They do what the cases of \<open>Persist\<close> do on the typed
  models, and they keep the contract of a persistable ingredient.
\<close>

subsection \<open>Method tables\<close>

text \<open>\<open>PersistableIngredient\<close>, with the state of the object as an argument.\<close>

record 's vtable =
  vt_kind :: "'s \<Rightarrow> QueryKindId"
  vt_kind_name :: "'s \<Rightarrow> string"
  vt_section_type :: "'s \<Rightarrow> SectionType"
  vt_clear :: "'s \<Rightarrow> 's"
  vt_save_records :: "'s \<Rightarrow> bytes list PicanteResult"
  vt_load_records :: "bytes list \<Rightarrow> 's \<Rightarrow> unit PicanteResult \<times> 's"
  vt_restore_runtime_state :: "'s \<Rightarrow> Runtime \<Rightarrow> Runtime"
  vt_save_incremental_records :: "u64 \<Rightarrow> 's \<Rightarrow> (u64 \<times> bytes \<times> bytes option) list PicanteResult"
  vt_apply_wal_entry :: "u64 \<Rightarrow> bytes \<Rightarrow> bytes option \<Rightarrow> 's \<Rightarrow> unit PicanteResult \<times> 's"

text \<open>The default method: nothing to restore.\<close>

definition default_restore :: "'s \<Rightarrow> Runtime \<Rightarrow> Runtime" where
  "default_restore s rt = rt"

definition restore_runtime_state_inner :: "'u DerivedCore \<Rightarrow> Runtime \<Rightarrow> Runtime" where
  "restore_runtime_state_inner core rt =
     fold (\<lambda>(dyn_key, r). update_query_deps dyn_key (rr_deps r)) (ready_list (dc_cells core)) rt"

definition derived_vtable :: "'u DerivedCore vtable" where
  "derived_vtable =
     \<lparr>vt_kind = dc_kind, vt_kind_name = dc_kind_name, vt_section_type = (\<lambda>_. DerivedSection),
      vt_clear = (\<lambda>core. core\<lparr>dc_cells := []\<rparr>),
      vt_save_records = save_records_erased, vt_load_records = load_records_erased,
      vt_restore_runtime_state = restore_runtime_state_inner,
      vt_save_incremental_records = save_incremental_records_erased, vt_apply_wal_entry = apply_wal_entry_erased\<rparr>"

definition input_vtable :: "'u InputCore vtable" where
  "input_vtable =
     \<lparr>vt_kind = ic_kind, vt_kind_name = ic_kind_name, vt_section_type = (\<lambda>_. InputSection),
      vt_clear = (\<lambda>core. core\<lparr>ic_entries := []\<rparr>),
      vt_save_records = input_save_records_erased, vt_load_records = input_load_records_erased,
      vt_restore_runtime_state = default_restore,
      vt_save_incremental_records = input_save_incremental_erased, vt_apply_wal_entry = input_apply_wal_erased\<rparr>"

lemma vtable_fields [simp]:
  "vt_kind derived_vtable = dc_kind" "vt_kind_name derived_vtable = dc_kind_name"
  "vt_section_type derived_vtable = (\<lambda>_. DerivedSection)" "vt_clear derived_vtable = (\<lambda>core. core\<lparr>dc_cells := []\<rparr>)"
  "vt_save_records derived_vtable = save_records_erased" "vt_load_records derived_vtable = load_records_erased"
  "vt_restore_runtime_state derived_vtable = restore_runtime_state_inner"
  "vt_save_incremental_records derived_vtable = save_incremental_records_erased"
  "vt_apply_wal_entry derived_vtable = apply_wal_entry_erased"
  "vt_kind input_vtable = ic_kind" "vt_kind_name input_vtable = ic_kind_name"
  "vt_section_type input_vtable = (\<lambda>_. InputSection)" "vt_clear input_vtable = (\<lambda>core. core\<lparr>ic_entries := []\<rparr>)"
  "vt_save_records input_vtable = input_save_records_erased" "vt_load_records input_vtable = input_load_records_erased"
  "vt_restore_runtime_state input_vtable = default_restore"
  "vt_save_incremental_records input_vtable = input_save_incremental_erased"
  "vt_apply_wal_entry input_vtable = input_apply_wal_erased"
  by (simp_all add: derived_vtable_def input_vtable_def)

subsection \<open>The tables implement the typed cases\<close>

text \<open>A table works on representations \<open>rep s\<close> as the methods of \<open>Persist\<close> work on the objects \<open>obj s\<close>.\<close>

definition implements ::
  "(PicanteError \<Rightarrow> string) \<Rightarrow> hasher \<Rightarrow> 'c vtable \<Rightarrow> ('s \<Rightarrow> 'c) \<Rightarrow> ('s \<Rightarrow> ('k, 'v) ingredient_obj) \<Rightarrow> bool" where
  "implements dbg sh vt rep obj \<longleftrightarrow> (\<forall>s.
     vt_kind vt (rep s) = pi_kind (obj s) \<and> vt_kind_name vt (rep s) = pi_kind_name (obj s)
     \<and> vt_section_type vt (rep s) = pi_section_type (obj s)
     \<and> vt_save_records vt (rep s) = pi_save_records dbg (obj s)
     \<and> (\<forall>rt. vt_restore_runtime_state vt (rep s) rt = pi_restore_runtime_state (obj s) rt)
     \<and> (\<forall>since. vt_save_incremental_records vt since (rep s) = pi_save_incremental_records dbg since (obj s))
     \<and> (\<exists>s'. vt_clear vt (rep s) = rep s' \<and> pi_clear (obj s) = obj s')
     \<and> (\<forall>bss. \<exists>r s'. vt_load_records vt bss (rep s) = (r, rep s') \<and> pi_load_records sh bss (obj s) = (r, obj s'))
     \<and> (\<forall>rv k v. \<exists>r s'. vt_apply_wal_entry vt rv k v (rep s) = (r, rep s')
          \<and> pi_apply_wal_entry sh rv k v (obj s) = (r, obj s')))"

lemma erased_clear: "(erased_core sh T s)\<lparr>dc_cells := []\<rparr> = erased_core sh T (derived_clear s)"
  by (simp add: erased_core_def derived_clear_def)

lemma erased_input_clear: "(erased_input sh T s)\<lparr>ic_entries := []\<rparr> = erased_input sh T (input_clear s)"
  by (simp add: erased_input_def input_clear_def)

lemma fold_deps_map:
  "fold (\<lambda>(q, r). update_query_deps q (rr_deps r)) (map (\<lambda>(q, r). (q, \<lparr>rr_value = f (rr_value r),
        rr_verified_at = rr_verified_at r, rr_changed_at = rr_changed_at r, rr_deps = rr_deps r\<rparr>)) xs) rt
      = fold (\<lambda>(q, r). update_query_deps q (rr_deps r)) xs rt"
  by (induction xs arbitrary: rt) auto

lemma erased_restore: "restore_runtime_state_inner (erased_core sh T s) rt = restore_runtime_state s rt"
  by (simp add: restore_runtime_state_inner_def restore_runtime_state_def ready_cells_def ready_list_map fold_deps_map)

lemma derived_implements:
  assumes "types_ok T"
  shows "implements (dt_dbg T) sh derived_vtable (erased_core sh T) (DerivedObj (typed_codecs T))"
  unfolding implements_def
  using erased_save [OF assms, where sh = sh] erased_incremental [OF assms, where sh = sh]
    erased_load [OF assms, where sh = sh] erased_wal [OF assms, where sh = sh] erased_restore [where sh = sh and T = T]
  by (auto simp: erased_clear case_prod_beta map_prod_def simp del: erased_core_fields(3))

lemma input_implements:
  assumes "rust_type_ok (it_value T)"
  shows "implements dbg sh input_vtable (erased_input sh T) (InputObj (it_codecs T))"
  unfolding implements_def
  using erased_input_save [OF assms, where sh = sh] erased_input_load [where sh = sh and T = T]
    erased_input_wal [where sh = sh and T = T]
  by (auto simp: erased_input_clear default_restore_def case_prod_beta map_prod_def simp del: erased_input_fields(3))

subsection \<open>The contract\<close>

definition core_ready :: "'u DerivedCore \<Rightarrow> DynKey \<Rightarrow> 'u ArcAny ReadyRecord option" where
  "core_ready core q = Option.bind (tget (dc_cells core) q) ready_record"

lemma tget_map_cells:
  "tget (map (\<lambda>(q, st). (q, map_ErasedState f st)) es) q = map_option (map_ErasedState f) (tget es q)"
  by (induction es) auto

lemma core_ready_erased:
  "core_ready (erased_core sh T s) q =
     map_option (\<lambda>r. \<lparr>rr_value = erase (dt_value T) (rr_value r), rr_verified_at = rr_verified_at r,
       rr_changed_at = rr_changed_at r, rr_deps = rr_deps r\<rparr>) (ready_at s q)"
  by (cases "tget (de_cells s) q") (simp_all add: core_ready_def ready_at_def ready_record_map tget_map_cells)

definition core_good :: "hasher \<Rightarrow> ('k, 'v, 'p, 'h, 'u) derived_types \<Rightarrow> 'u DerivedCore \<Rightarrow> bool" where
  "core_good sh T core \<longleftrightarrow> types_ok T \<and> (\<exists>s. core = erased_core sh T s \<and> derived_good sh (typed_codecs T) s)"

definition core_compat :: "hasher \<Rightarrow> ('k, 'v, 'p, 'h, 'u) derived_types \<Rightarrow> 'u DerivedCore \<Rightarrow> 'u DerivedCore \<Rightarrow> bool" where
  "core_compat sh T c d \<longleftrightarrow> types_ok T \<and> dc_kind c = dc_kind d
     \<and> (\<exists>s t. c = erased_core sh T s \<and> d = erased_core sh T t)"

interpretation erased_store:
  persistable "core_good sh T" core_ready "core_compat sh T" "vt_save_records derived_vtable"
    "\<lambda>rs core. vt_load_records derived_vtable rs (vt_clear derived_vtable core)"
  for sh and T :: "('k, 'v, 'p, 'h, 'u) derived_types"
proof (unfold_locales, goal_cases)
  case (1 c d rs)
  then obtain s t where T: "types_ok T" and c: "c = erased_core sh T s" and d: "d = erased_core sh T t"
    and good: "derived_good sh (typed_codecs T) s"
    by (auto simp: core_good_def core_compat_def)
  have "de_kind s = de_kind t" using 1(2) by (simp add: core_compat_def c d)
  moreover have "derived_save_records (dt_dbg T) (typed_codecs T) s = Inr rs"
    using 1(3) by (simp add: c erased_save [OF T])
  ultimately have "fst (derived_load_records sh (typed_codecs T) rs (derived_clear t)) = Inr ()"
    and "ready_at (snd (derived_load_records sh (typed_codecs T) rs (derived_clear t))) = ready_at s"
    and "derived_good sh (typed_codecs T) (snd (derived_load_records sh (typed_codecs T) rs (derived_clear t)))"
    using derived_store.load_save [OF good] by blast+
  then show ?case
    by (auto simp: c d erased_clear erased_load [OF T] core_ready_erased core_good_def T simp del: erased_core_fields(3))
next
  case (2 c d rs)
  then obtain s t where T: "types_ok T" and c: "c = erased_core sh T s" and d: "d = erased_core sh T t"
    by (auto simp: core_compat_def)
  have "de_kind s = de_kind t" using 2 by (simp add: core_compat_def c d)
  then have "de_kind s = de_kind (snd (derived_load_records sh (typed_codecs T) rs (derived_clear t)))"
    using derived_store.compat_load [of s t] by blast
  then show ?case
    using T by (auto simp: core_compat_def c d erased_clear erased_load [OF T] simp del: erased_core_fields(3))
next
  case (3 c d)
  then show ?case by (auto simp: core_compat_def)
qed

end
