(* ===== verification/Cells.thy ===== *)
theory Cells
  imports Access
begin

text \<open>
  The loop of \<open>access_scoped_erased\<close> (\<open>ingredient/derived.rs\<close>) as the program of many tasks at once. \<open>Access\<close> runs
  one task; here any number of tasks of any number of databases of one family (a database and its snapshots) ask for
  one query at the same time. They share the cell of their database with its \<open>Notify\<close>, the process-wide cache
  and the in-flight registry. A step runs from one point at which others may interfere to the next. Evaluating the query
  and revalidating its dependencies end with any result.

  A task may be cancelled: its future is dropped at a point where it waits. The theorems: without cancellation
  the tasks never deadlock; with it, or with an error in the adoption path, a cell can be left behind that
  blocks its query for ever.
\<close>

subsection \<open>State\<close>

text \<open>
  The cell of one database, with the revision of its runtime and the scope it shares results in. A \<open>Notify\<close> is the number
  of its \<open>notify_waiters\<close> calls.
\<close>

record 'v db_cell =
  kc_state :: "'v ErasedState"
  kc_epoch :: nat
  kc_rev :: Revision
  kc_scope :: RuntimeId

text \<open>What is published once the cell is written: a value or an error, and the guard of a leader.\<close>

datatype 'v publication =
    PutRecord 'v "Dep list" Revision "guard option"
  | PutError PicanteError "guard option"

datatype 'v cell_pc =
    Outside
  | Top
  | Revised Revision
  | Observing Revision nat
  | Asleep nat
  | Checking Revision
  | Verified Revision
  | Starting Revision
  | Started Revision "('v \<times> Revision) option"
  | Revalidating Revision "('v \<times> Revision) option" "'v SharedCacheRecord"
  | Adopting Revision "'v SharedCacheRecord"
  | Entering Revision "('v \<times> Revision) option"
  | Vacating Revision nat
  | Following Revision nat
  | FollowArmed Revision nat nat
  | FollowAsleep Revision nat nat
  | Copying Revision "PicanteError + 'v \<times> Dep list \<times> Revision"
  | Leading Revision "('v \<times> Revision) option" guard
  | Computed Revision "('v \<times> Revision) option" guard "'v PicanteResult" "Dep list"
  | Notifying Revision "'v publication"
  | Finishing Revision "'v publication"
  | Leaving Revision "('v \<times> Revision) PicanteResult"
  | Got "('v \<times> Revision) PicanteResult"

type_synonym 'v task_view = "'v db_cell \<times> 'v registry \<times> 'v shared_cache \<times> 'v cell_pc"

definition published :: "'v publication \<Rightarrow> ('v \<times> Revision) PicanteResult" where
  "published p = (case p of PutRecord v ds ca g \<Rightarrow> Inr (v, ca) | PutError e g \<Rightarrow> Inl e)"

definition settle_guard :: "'v publication \<Rightarrow> 'v registry \<Rightarrow> 'v registry" where
  "settle_guard p r =
     (case p of
        PutRecord v ds ca (Some g) \<Rightarrow> guard_complete g v ds ca r
      | PutError e (Some g) \<Rightarrow> guard_fail g e r
      | _ \<Rightarrow> r)"

definition cache_publication :: "RuntimeId \<Rightarrow> DynKey \<Rightarrow> Revision \<Rightarrow> 'v publication \<Rightarrow> 'v shared_cache \<Rightarrow> 'v shared_cache" where
  "cache_publication scope q rv p c =
     (case p of
        PutRecord v ds ca g \<Rightarrow>
          shared_cache_put scope (dk_kind q) (dk_key q)
            \<lparr>sr_value = v, sr_deps = ds, sr_changed_at = ca, sr_verified_at = rv, sr_insert_id = 0\<rparr> c
      | PutError e g \<Rightarrow> c)"

subsection \<open>Steps of a task\<close>

inductive access_step :: "('v \<Rightarrow> 'v \<Rightarrow> bool) \<Rightarrow> DynKey \<Rightarrow> 'v task_view \<Rightarrow> 'v task_view \<Rightarrow> bool"
  for eq :: "'v \<Rightarrow> 'v \<Rightarrow> bool" and q :: DynKey where
  read_rev: "access_step eq q (c, r, m, Top) (c, r, m, Revised (kc_rev c))"
| arm: "access_step eq q (c, r, m, Revised rv) (c, r, m, Observing rv (kc_epoch c))"
| hit: "observe True rv (kc_state c) = ObsReady (Some v) ca \<Longrightarrow>
     access_step eq q (c, r, m, Observing rv ep) (c, r, m, Leaving rv (Inr (v, ca)))"
| poisoned: "observe True rv (kc_state c) = ObsError e \<Longrightarrow>
     access_step eq q (c, r, m, Observing rv ep) (c, r, m, Leaving rv (Inl e))"
| running: "observe True rv (kc_state c) = ObsRunning s \<Longrightarrow>
     access_step eq q (c, r, m, Observing rv ep) (c, r, m, Asleep ep)"
| stale_ready: "observe True rv (kc_state c) = ObsStaleReady ds ca \<Longrightarrow>
     access_step eq q (c, r, m, Observing rv ep) (c, r, m, Checking rv)"
| stale_other: "observe True rv (kc_state c) = ObsStaleOther \<Longrightarrow>
     access_step eq q (c, r, m, Observing rv ep) (c, r, m, Starting rv)"
| wake: "ep < kc_epoch c \<Longrightarrow> access_step eq q (c, r, m, Asleep ep) (c, r, m, Top)"
| check_error: "access_step eq q (c, r, m, Checking rv) (c, r, m, Got (Inl e))"
| check_false: "access_step eq q (c, r, m, Checking rv) (c, r, m, Starting rv)"
| check_true: "access_step eq q (c, r, m, Checking rv) (c, r, m, Verified rv)"
| verify: "kc_state c = Ready v va ca ds \<Longrightarrow>
     access_step eq q (c, r, m, Verified rv) (c\<lparr>kc_state := Ready v rv ca ds\<rparr>, r, m, Leaving rv (Inr (v, ca)))"
| verify_raced: "(\<And>v va ca ds. kc_state c \<noteq> Ready v va ca ds) \<Longrightarrow>
     access_step eq q (c, r, m, Verified rv) (c, r, m, Top)"
| start: "start_running rv (kc_state c) = Some prev \<Longrightarrow>
     access_step eq q (c, r, m, Starting rv) (c\<lparr>kc_state := Running rv\<rparr>, r, m, Started rv prev)"
| start_raced: "start_running rv (kc_state c) = None \<Longrightarrow>
     access_step eq q (c, r, m, Starting rv) (c, r, m, Top)"
| cache_miss: "shared_cache_get (kc_scope c) (dk_kind q) (dk_key q) m = None \<Longrightarrow>
     access_step eq q (c, r, m, Started rv prev) (c, r, m, Entering rv prev)"
| cache_fresh: "shared_cache_get (kc_scope c) (dk_kind q) (dk_key q) m = Some rec \<Longrightarrow> sr_verified_at rec = rv \<Longrightarrow>
     access_step eq q (c, r, m, Started rv prev) (c, r, m, Adopting rv rec)"
| cache_stale: "shared_cache_get (kc_scope c) (dk_kind q) (dk_key q) m = Some rec \<Longrightarrow> sr_verified_at rec \<noteq> rv \<Longrightarrow>
     access_step eq q (c, r, m, Started rv prev) (c, r, m, Revalidating rv prev rec)"
| revalidate_true: "access_step eq q (c, r, m, Revalidating rv prev rec) (c, r, m, Adopting rv rec)"
| revalidate_false: "access_step eq q (c, r, m, Revalidating rv prev rec) (c, r, m, Entering rv prev)"
| adopt: "access_step eq q (c, r, m, Adopting rv rec)
     (c\<lparr>kc_state := Ready (sr_value rec) rv (sr_changed_at rec) (sr_deps rec)\<rparr>, r, m,
      Notifying rv (PutRecord (sr_value rec) (sr_deps rec) (sr_changed_at rec) None))"
| lead: "try_lead \<lparr>if_runtime_id = kc_scope c, if_revision = rv, if_kind = dk_kind q, if_key = dk_key q\<rparr> r = (Leader g, r') \<Longrightarrow>
     access_step eq q (c, r, m, Entering rv prev) (c, r', m, Leading rv prev g)"
| follow: "try_lead \<lparr>if_runtime_id = kc_scope c, if_revision = rv, if_kind = dk_kind q, if_key = dk_key q\<rparr> r = (Follower e, r') \<Longrightarrow>
     access_step eq q (c, r, m, Entering rv prev) (c, r', m, Vacating rv e)"
| vacate: "access_step eq q (c, r, m, Vacating rv e) (c\<lparr>kc_state := Vacant\<rparr>, r, m, Following rv e)"
| follow_arm: "access_step eq q (c, r, m, Following rv e) (c, r, m, FollowArmed rv e (ife_epoch (reg_entries r ! e)))"
| follow_running: "ife_state (reg_entries r ! e) = IfRunning \<Longrightarrow>
     access_step eq q (c, r, m, FollowArmed rv e ep) (c, r, m, FollowAsleep rv e ep)"
| follow_done: "ife_state (reg_entries r ! e) = IfDone v ds ca \<Longrightarrow>
     access_step eq q (c, r, m, FollowArmed rv e ep) (c, r, m, Copying rv (Inr (v, ds, ca)))"
| follow_failed: "ife_state (reg_entries r ! e) = IfFailed err \<Longrightarrow>
     access_step eq q (c, r, m, FollowArmed rv e ep) (c, r, m, Copying rv (Inl err))"
| follow_cancelled: "ife_state (reg_entries r ! e) = IfCancelled \<Longrightarrow>
     access_step eq q (c, r, m, FollowArmed rv e ep) (c, r, m, Top)"
| follow_wake: "ep < ife_epoch (reg_entries r ! e) \<Longrightarrow>
     access_step eq q (c, r, m, FollowAsleep rv e ep) (c, r, m, Following rv e)"
| copy_value: "access_step eq q (c, r, m, Copying rv (Inr (v, ds, ca)))
     (c\<lparr>kc_state := Ready v rv ca ds\<rparr>, r, m, Notifying rv (PutRecord v ds ca None))"
| copy_error: "access_step eq q (c, r, m, Copying rv (Inl e))
     (c\<lparr>kc_state := Poisoned e rv\<rparr>, r, m, Notifying rv (PutError e None))"
| compute: "access_step eq q (c, r, m, Leading rv prev g) (c, r, m, Computed rv prev g res ds)"
| write_value: "ca = finalize_changed_at eq prev rv out \<Longrightarrow>
     access_step eq q (c, r, m, Computed rv prev g (Inr out) ds)
       (c\<lparr>kc_state := Ready out rv ca ds\<rparr>, r, m, Notifying rv (PutRecord out ds ca (Some g)))"
| write_error: "access_step eq q (c, r, m, Computed rv prev g (Inl e) ds)
     (c\<lparr>kc_state := Poisoned e rv\<rparr>, r, m, Notifying rv (PutError e (Some g)))"
| notify: "access_step eq q (c, r, m, Notifying rv p) (c\<lparr>kc_epoch := Suc (kc_epoch c)\<rparr>, r, m, Finishing rv p)"
| finish: "access_step eq q (c, r, m, Finishing rv p)
     (c, settle_guard p r, cache_publication (kc_scope c) q rv p m, Leaving rv (published p))"
| leave: "kc_rev c = rv \<Longrightarrow> access_step eq q (c, r, m, Leaving rv res) (c, r, m, Got res)"
| leave_stale: "kc_rev c \<noteq> rv \<Longrightarrow> access_step eq q (c, r, m, Leaving rv res) (c, r, m, Top)"

inductive_cases access_stepE: "access_step eq q (c, r, m, pc) (c', r', m', pc')"

subsection \<open>All tasks\<close>

record 'v key_state =
  ks_cells :: "nat \<Rightarrow> 'v db_cell"
  ks_reg :: "'v registry"
  ks_cache :: "'v shared_cache"
  ks_pcs :: "nat \<Rightarrow> 'v cell_pc"

definition idle_pc :: "'v cell_pc \<Rightarrow> bool" where
  "idle_pc pc \<longleftrightarrow> (case pc of Outside \<Rightarrow> True | Got _ \<Rightarrow> True | _ \<Rightarrow> False)"

text \<open>
  \<open>home i\<close> is the database task \<open>i\<close> works on. Between the steps of the tasks, other code writes inputs (the revision and, in a
  snapshot, the scope change) and puts other records into the cache.
\<close>

inductive key_step :: "('v \<Rightarrow> 'v \<Rightarrow> bool) \<Rightarrow> DynKey \<Rightarrow> (nat \<Rightarrow> nat) \<Rightarrow> 'v key_state \<Rightarrow> 'v key_state \<Rightarrow> bool"
  for eq :: "'v \<Rightarrow> 'v \<Rightarrow> bool" and q :: DynKey and home :: "nat \<Rightarrow> nat" where
  call: "idle_pc (ks_pcs s i) \<Longrightarrow> key_step eq q home s (s\<lparr>ks_pcs := (ks_pcs s)(i := Top)\<rparr>)"
| task: "access_step eq q (ks_cells s (home i), ks_reg s, ks_cache s, ks_pcs s i) (c, r, m, pc) \<Longrightarrow>
     key_step eq q home s (s\<lparr>ks_cells := (ks_cells s)(home i := c), ks_reg := r, ks_cache := m, ks_pcs := (ks_pcs s)(i := pc)\<rparr>)"
| write_input: "key_step eq q home s (s\<lparr>ks_cells := (ks_cells s)(d := (ks_cells s d)\<lparr>kc_rev := rv, kc_scope := sc\<rparr>)\<rparr>)"
| other_put: "key_step eq q home s (s\<lparr>ks_cache := m\<rparr>)"

text \<open>
  A future can be dropped where it waits: for a notification, for a lock, for dependencies, for the query. A leader's
  guard is dropped with it.
\<close>

definition waits :: "'v cell_pc \<Rightarrow> bool" where
  "waits pc \<longleftrightarrow> (case pc of
     Observing _ _ \<Rightarrow> True | Asleep _ \<Rightarrow> True | Checking _ \<Rightarrow> True | Verified _ \<Rightarrow> True | Starting _ \<Rightarrow> True
   | Revalidating _ _ _ \<Rightarrow> True | Adopting _ _ \<Rightarrow> True | Vacating _ _ \<Rightarrow> True | FollowAsleep _ _ _ \<Rightarrow> True
   | Copying _ _ \<Rightarrow> True | Leading _ _ _ \<Rightarrow> True | Computed _ _ _ _ _ \<Rightarrow> True | _ \<Rightarrow> False)"

definition drop_held :: "'v cell_pc \<Rightarrow> 'v registry \<Rightarrow> 'v registry" where
  "drop_held pc r = (case pc of Leading _ _ g \<Rightarrow> guard_drop g r | Computed _ _ g _ _ \<Rightarrow> guard_drop g r | _ \<Rightarrow> r)"

inductive abandon_step :: "'v key_state \<Rightarrow> 'v key_state \<Rightarrow> bool" where
  cancel: "waits (ks_pcs s i) \<Longrightarrow>
     abandon_step s (s\<lparr>ks_reg := drop_held (ks_pcs s i) (ks_reg s), ks_pcs := (ks_pcs s)(i := Outside)\<rparr>)"
| adopt_error: "ks_pcs s i = Revalidating rv prev rec \<Longrightarrow>
     abandon_step s (s\<lparr>ks_pcs := (ks_pcs s)(i := Got (Inl e))\<rparr>)"

text \<open>Before anyone asked: vacant cells, no task inside, no entry in flight; the cache may hold anything.\<close>

definition quiet :: "'v key_state \<Rightarrow> bool" where
  "quiet s \<longleftrightarrow> (\<forall>d. kc_state (ks_cells s d) = Vacant) \<and> (\<forall>i. ks_pcs s i = Outside) \<and> ks_reg s = registry0"


subsection \<open>Who will wake the waiters\<close>

text \<open>A task between marking the cell as running and writing or vacating it.\<close>

definition owns :: "'v cell_pc \<Rightarrow> bool" where
  "owns pc \<longleftrightarrow> (case pc of
     Started _ _ \<Rightarrow> True | Revalidating _ _ _ \<Rightarrow> True | Adopting _ _ \<Rightarrow> True | Entering _ _ \<Rightarrow> True
   | Vacating _ _ \<Rightarrow> True | Leading _ _ _ \<Rightarrow> True | Computed _ _ _ _ _ \<Rightarrow> True | _ \<Rightarrow> False)"

text \<open>A task that will mark a vacant cell as running, or write it.\<close>

definition seeks :: "'v cell_pc \<Rightarrow> bool" where
  "seeks pc \<longleftrightarrow> (case pc of
     Top \<Rightarrow> True | Revised _ \<Rightarrow> True | Observing _ _ \<Rightarrow> True | Starting _ \<Rightarrow> True | Following _ _ \<Rightarrow> True
   | FollowArmed _ _ _ \<Rightarrow> True | FollowAsleep _ _ _ \<Rightarrow> True | Copying _ _ \<Rightarrow> True | _ \<Rightarrow> False)"

definition wakes :: "'v db_cell \<Rightarrow> 'v cell_pc \<Rightarrow> bool" where
  "wakes c pc \<longleftrightarrow> owns pc \<or> (\<exists>rv p. pc = Notifying rv p) \<or> (kc_state c = Vacant \<and> seeks pc)"

lemmas pc_sorts = owns_def seeks_def wakes_def idle_pc_def

definition cell_ok :: "(nat \<Rightarrow> nat) \<Rightarrow> 'v key_state \<Rightarrow> nat \<Rightarrow> bool" where
  "cell_ok home s d \<longleftrightarrow>
     (\<forall>rv. kc_state (ks_cells s d) = Running rv \<longrightarrow> (\<exists>j. home j = d \<and> owns (ks_pcs s j)))
     \<and> (\<forall>i rv ep. home i = d \<longrightarrow> ks_pcs s i = Observing rv ep \<or> ks_pcs s i = Asleep ep \<longrightarrow> ep \<le> kc_epoch (ks_cells s d))
     \<and> (\<forall>i. home i = d \<longrightarrow> ks_pcs s i = Asleep (kc_epoch (ks_cells s d)) \<longrightarrow>
          (\<exists>j. home j = d \<and> wakes (ks_cells s d) (ks_pcs s j)))"

text \<open>What one step of a task does to its cell.\<close>

lemma step_running:
  "access_step eq q (c, r, m, pc) (c', r', m', pc') \<Longrightarrow> kc_state c' = Running rv
   \<Longrightarrow> owns pc' \<or> kc_state c = Running rv \<and> \<not> owns pc"
  by (erule access_stepE) (auto simp: owns_def)

lemma step_wakes:
  "access_step eq q (c, r, m, pc) (c', r', m', pc') \<Longrightarrow> wakes c pc \<Longrightarrow> wakes c' pc' \<or> kc_epoch c < kc_epoch c'"
  by (erule access_stepE) (auto simp: pc_sorts observe_def start_running_def split: if_splits)

lemma step_fills:
  "access_step eq q (c, r, m, pc) (c', r', m', pc') \<Longrightarrow> kc_state c = Vacant \<Longrightarrow> kc_state c' \<noteq> Vacant \<Longrightarrow> wakes c' pc'"
  by (erule access_stepE) (auto simp: pc_sorts)

lemma step_epoch: "access_step eq q (c, r, m, pc) (c', r', m', pc') \<Longrightarrow> kc_epoch c \<le> kc_epoch c'"
  by (erule access_stepE) auto

lemma step_sleeps:
  "access_step eq q (c, r, m, pc) (c', r', m', Asleep ep) \<Longrightarrow> c' = c \<and> (\<exists>rv. pc = Observing rv ep) \<and> (\<exists>s. kc_state c = Running s)"
  by (erule access_stepE) (auto simp: observe_def split: ErasedState.splits if_splits)

lemma step_arms: "access_step eq q (c, r, m, pc) (c', r', m', Observing rv ep) \<Longrightarrow> c' = c \<and> ep = kc_epoch c"
  by (erule access_stepE) auto


lemma cell_okI:
  assumes "\<And>rv. kc_state (ks_cells s d) = Running rv \<Longrightarrow> \<exists>j. home j = d \<and> owns (ks_pcs s j)"
    and "\<And>i rv ep. home i = d \<Longrightarrow> ks_pcs s i = Observing rv ep \<or> ks_pcs s i = Asleep ep \<Longrightarrow> ep \<le> kc_epoch (ks_cells s d)"
    and "\<And>i. home i = d \<Longrightarrow> ks_pcs s i = Asleep (kc_epoch (ks_cells s d)) \<Longrightarrow>
          \<exists>j. home j = d \<and> wakes (ks_cells s d) (ks_pcs s j)"
  shows "cell_ok home s d"
  using assms unfolding cell_ok_def by blast

lemma cell_okD:
  assumes "cell_ok home s d"
  shows "kc_state (ks_cells s d) = Running rv \<Longrightarrow> \<exists>j. home j = d \<and> owns (ks_pcs s j)"
    and "home i = d \<Longrightarrow> ks_pcs s i = Observing rv ep \<Longrightarrow> ep \<le> kc_epoch (ks_cells s d)"
    and "home i = d \<Longrightarrow> ks_pcs s i = Asleep ep \<Longrightarrow> ep \<le> kc_epoch (ks_cells s d)"
    and "home i = d \<Longrightarrow> ks_pcs s i = Asleep (kc_epoch (ks_cells s d)) \<Longrightarrow>
          \<exists>j. home j = d \<and> wakes (ks_cells s d) (ks_pcs s j)"
  using assms unfolding cell_ok_def by blast+

lemma cell_ok_task:
  assumes ok: "cell_ok home s (home i)"
    and step: "access_step eq q (ks_cells s (home i), ks_reg s, ks_cache s, ks_pcs s i) (c', r', m', pc')"
    and s': "ks_cells s' (home i) = c'" "ks_pcs s' = (ks_pcs s)(i := pc')"
  shows "cell_ok home s' (home i)"
proof (rule cell_okI, unfold s')
  fix rv assume run: "kc_state c' = Running rv"
  from step_running [OF step run] show "\<exists>j. home j = home i \<and> owns (((ks_pcs s)(i := pc')) j)"
  proof
    assume "owns pc'"
    then show ?thesis by (intro exI [of _ i]) simp
  next
    assume r: "kc_state (ks_cells s (home i)) = Running rv \<and> \<not> owns (ks_pcs s i)"
    from cell_okD(1) [OF ok] r obtain j where "home j = home i" "owns (ks_pcs s j)" by blast
    with r show ?thesis by (intro exI [of _ j]) auto
  qed
next
  fix k rv ep assume k: "home k = home i" "((ks_pcs s)(i := pc')) k = Observing rv ep \<or> ((ks_pcs s)(i := pc')) k = Asleep ep"
  show "ep \<le> kc_epoch c'"
  proof (cases "k = i")
    case True
    with k step_arms [of eq q "ks_cells s (home i)" "ks_reg s" "ks_cache s" "ks_pcs s i" c' r' m' rv ep]
      step_sleeps [of eq q "ks_cells s (home i)" "ks_reg s" "ks_cache s" "ks_pcs s i" c' r' m' ep] step
      cell_okD(2) [OF ok refl]
    show ?thesis by auto
  next
    case False
    with k cell_okD(2,3) [OF ok k(1)] have "ep \<le> kc_epoch (ks_cells s (home i))" by auto
    with step_epoch [OF step] show ?thesis by simp
  qed
next
  fix k assume k: "home k = home i" "((ks_pcs s)(i := pc')) k = Asleep (kc_epoch c')"
  let ?c = "ks_cells s (home i)"
  have "\<exists>j. home j = home i \<and> (j = i \<and> wakes c' pc' \<or> j \<noteq> i \<and> wakes c' (ks_pcs s j))"
  proof (cases "k = i")
    case True
    then have "access_step eq q (?c, ks_reg s, ks_cache s, ks_pcs s i) (c', r', m', Asleep (kc_epoch c'))" using step k(2) by simp
    from step_sleeps [OF this] obtain rv t where "c' = ?c" "ks_pcs s i = Observing rv (kc_epoch c')" "kc_state ?c = Running t"
      by blast
    with cell_okD(1) [OF ok] obtain j where "home j = home i" "owns (ks_pcs s j)" "ks_pcs s i = Observing rv (kc_epoch c')" by blast
    then show ?thesis by (intro exI [of _ j]) (auto simp: pc_sorts)
  next
    case False
    with k have sleep: "ks_pcs s k = Asleep (kc_epoch c')" by simp
    with cell_okD(3) [OF ok k(1)] step_epoch [OF step] have e: "kc_epoch c' = kc_epoch ?c" by fastforce
    from cell_okD(4) [OF ok k(1)] sleep obtain j where j: "home j = home i" "wakes ?c (ks_pcs s j)" by (auto simp: e)
    show ?thesis
    proof (cases "j = i")
      case True
      then show ?thesis using step_wakes [OF step] j e by auto
    next
      case ji: False
      show ?thesis
      proof (cases "wakes c' (ks_pcs s j)")
        case True
        then show ?thesis using ji j by blast
      next
        case False
        then have "kc_state ?c = Vacant" "kc_state c' \<noteq> Vacant" using j(2) by (auto simp: wakes_def)
        then show ?thesis using step_fills [OF step] by blast
      qed
    qed
  qed
  then show "\<exists>j. home j = home i \<and> wakes c' (((ks_pcs s)(i := pc')) j)" by auto
qed

lemma cell_ok_frame:
  assumes "cell_ok home s d" and "kc_state (ks_cells s' d) = kc_state (ks_cells s d)"
    and "kc_epoch (ks_cells s' d) = kc_epoch (ks_cells s d)" and "\<And>i. home i = d \<Longrightarrow> ks_pcs s' i = ks_pcs s i"
  shows "cell_ok home s' d"
proof -
  have w: "wakes (ks_cells s' d) pc \<longleftrightarrow> wakes (ks_cells s d) pc" for pc using assms(2) by (simp add: wakes_def)
  show ?thesis
    using assms(1) unfolding cell_ok_def assms(2,3) w using assms(4) by metis
qed

lemma cell_ok_call:
  assumes "cell_ok home s d" and "idle_pc (ks_pcs s i)"
  shows "cell_ok home (s\<lparr>ks_pcs := (ks_pcs s)(i := Top)\<rparr>) d"
proof (rule cell_okI)
  fix rv assume "kc_state (ks_cells (s\<lparr>ks_pcs := (ks_pcs s)(i := Top)\<rparr>) d) = Running rv"
  then obtain j where "home j = d" "owns (ks_pcs s j)" using cell_okD(1) [OF assms(1)] by auto
  moreover from this assms(2) have "j \<noteq> i" by (auto simp: pc_sorts split: cell_pc.splits)
  ultimately show "\<exists>j. home j = d \<and> owns (ks_pcs (s\<lparr>ks_pcs := (ks_pcs s)(i := Top)\<rparr>) j)" by auto
next
  fix k rv ep
  assume "home k = d" "ks_pcs (s\<lparr>ks_pcs := (ks_pcs s)(i := Top)\<rparr>) k = Observing rv ep
    \<or> ks_pcs (s\<lparr>ks_pcs := (ks_pcs s)(i := Top)\<rparr>) k = Asleep ep"
  then show "ep \<le> kc_epoch (ks_cells (s\<lparr>ks_pcs := (ks_pcs s)(i := Top)\<rparr>) d)"
    using cell_okD(2,3) [OF assms(1)] by (auto split: if_splits)
next
  fix k assume k: "home k = d" "ks_pcs (s\<lparr>ks_pcs := (ks_pcs s)(i := Top)\<rparr>) k
      = Asleep (kc_epoch (ks_cells (s\<lparr>ks_pcs := (ks_pcs s)(i := Top)\<rparr>) d))"
  then obtain j where "home j = d" "wakes (ks_cells s d) (ks_pcs s j)"
    using cell_okD(4) [OF assms(1), of k] by (auto split: if_splits)
  moreover from this assms(2) have "j \<noteq> i" by (auto simp: pc_sorts split: cell_pc.splits)
  ultimately show "\<exists>j. home j = d \<and> wakes (ks_cells (s\<lparr>ks_pcs := (ks_pcs s)(i := Top)\<rparr>) d)
      (ks_pcs (s\<lparr>ks_pcs := (ks_pcs s)(i := Top)\<rparr>) j)"
    by auto
qed

lemma cell_ok_step: "key_step eq q home s s' \<Longrightarrow> cell_ok home s d \<Longrightarrow> cell_ok home s' d"
proof (induction rule: key_step.induct)
  case (call s i)
  then show ?case by (simp add: cell_ok_call)
next
  case (task s i c r m pc)
  show ?case
  proof (cases "home i = d")
    case True
    show ?thesis
      using cell_ok_task [where home = home and s = s and i = i, OF _ task.hyps] task.prems unfolding True [symmetric] by simp
  next
    case False
    then show ?thesis by (intro cell_ok_frame [OF task.prems]) auto
  qed
next
  case (write_input s d' rv sc)
  then show ?case by (auto intro: cell_ok_frame)
next
  case (other_put s m)
  then show ?case by (auto intro: cell_ok_frame)
qed


subsection \<open>The registry\<close>

definition guard_at :: "'v cell_pc \<Rightarrow> guard option" where
  "guard_at pc = (case pc of
     Leading _ _ g \<Rightarrow> Some g | Computed _ _ g _ _ \<Rightarrow> Some g
   | Notifying _ (PutRecord _ _ _ g) \<Rightarrow> g | Notifying _ (PutError _ g) \<Rightarrow> g
   | Finishing _ (PutRecord _ _ _ g) \<Rightarrow> g | Finishing _ (PutError _ g) \<Rightarrow> g | _ \<Rightarrow> None)"

fun follow_ok :: "'v registry \<Rightarrow> 'v cell_pc \<Rightarrow> bool" where
  "follow_ok r (Vacating rv e) = (e < length (reg_entries r))"
| "follow_ok r (Following rv e) = (e < length (reg_entries r))"
| "follow_ok r (FollowArmed rv e ep) = (e < length (reg_entries r) \<and> ep \<le> ife_epoch (reg_entries r ! e))"
| "follow_ok r (FollowAsleep rv e ep) = (e < length (reg_entries r) \<and> ep = 0)"
| "follow_ok r _ = True"

definition entry_ok :: "(nat \<Rightarrow> 'v cell_pc) \<Rightarrow> nat \<Rightarrow> 'v InFlightEntry \<Rightarrow> bool" where
  "entry_ok pcs e x \<longleftrightarrow>
     (if ife_state x = IfRunning then ife_epoch x = 0 \<and> (\<exists>j g. guard_at (pcs j) = Some g \<and> g_entry g = e)
      else 0 < ife_epoch x)"

definition flight_ok :: "'v key_state \<Rightarrow> bool" where
  "flight_ok s \<longleftrightarrow>
     (\<forall>k e. tget (reg_map (ks_reg s)) k = Some e \<longrightarrow> e < length (reg_entries (ks_reg s)))
     \<and> (\<forall>e < length (reg_entries (ks_reg s)). entry_ok (ks_pcs s) e (reg_entries (ks_reg s) ! e))
     \<and> (\<forall>i. follow_ok (ks_reg s) (ks_pcs s i))
     \<and> (\<forall>i g. guard_at (ks_pcs s i) = Some g \<longrightarrow> g_entry g < length (reg_entries (ks_reg s)))"

text \<open>Entries only get more settled.\<close>

definition reg_grows :: "'v registry \<Rightarrow> 'v registry \<Rightarrow> bool" where
  "reg_grows r r' \<longleftrightarrow> length (reg_entries r) \<le> length (reg_entries r')
     \<and> (\<forall>e < length (reg_entries r). ife_epoch (reg_entries r ! e) \<le> ife_epoch (reg_entries r' ! e))"

lemma reg_grows_refl [simp]: "reg_grows r r"
  by (simp add: reg_grows_def)

lemma follow_ok_grows: "reg_grows r r' \<Longrightarrow> follow_ok r pc \<Longrightarrow> follow_ok r' pc"
  by (cases "(r, pc)" rule: follow_ok.cases) (auto simp: reg_grows_def intro: order_trans)

lemma settled_entry: "x\<lparr>ife_state := st, ife_epoch := n\<rparr> = \<lparr>ife_state = st, ife_epoch = n\<rparr>"
  by (cases x) simp

lemma settle_entries:
  assumes "p = PutRecord v ds ca (Some g) \<or> p = PutError e (Some g)"
  shows "\<exists>st. st \<noteq> IfRunning \<and> reg_map (settle_guard p r) = tremove (g_key g) (reg_map r)
     \<and> reg_entries (settle_guard p r) = (reg_entries r)[g_entry g := \<lparr>ife_state = st, ife_epoch = Suc (ife_epoch (reg_entries r ! g_entry g))\<rparr>]"
proof (cases "g_entry g < length (reg_entries r)")
  case True
  then show ?thesis
    using assms
    by (auto simp: settle_guard_def guard_complete_def guard_fail_def guard_drop_def unregister_def entry_complete_def
        entry_fail_def notify_entry_def set_state_def settled_entry)
next
  case False
  then show ?thesis
    using assms
    by (auto simp: settle_guard_def guard_complete_def guard_fail_def guard_drop_def unregister_def entry_complete_def
        entry_fail_def notify_entry_def set_state_def list_update_beyond intro!: exI [of _ IfCancelled])
qed

text \<open>The three ways in which a step acts on the registry.\<close>

lemma step_registry:
  assumes "access_step eq q (c, r, m, pc) (c', r', m', pc')"
  shows "(r' = r \<and> guard_at pc' = guard_at pc)
     \<or> (\<exists>g k. guard_at pc = None \<and> guard_at pc' = Some g \<and> g_entry g = length (reg_entries r)
          \<and> r' = r\<lparr>reg_entries := reg_entries r @ [entry_new], reg_map := tinsert k (length (reg_entries r)) (reg_map r)\<rparr>)
     \<or> (\<exists>g st. guard_at pc = Some g \<and> guard_at pc' = None \<and> st \<noteq> IfRunning
          \<and> reg_map r' = tremove (g_key g) (reg_map r)
          \<and> reg_entries r' = (reg_entries r)[g_entry g := \<lparr>ife_state = st, ife_epoch = Suc (ife_epoch (reg_entries r ! g_entry g))\<rparr>])"
  using assms
proof (cases rule: access_step.cases)
  case lead
  then show ?thesis by (auto simp: try_lead_def Let_def guard_at_def split: option.splits)
next
  case follow
  then show ?thesis by (auto simp: try_lead_def Let_def guard_at_def split: option.splits)
next
  case (finish rv p)
  show ?thesis
  proof (cases "guard_at pc")
    case None
    then have "settle_guard p r = r" using finish by (auto simp: guard_at_def settle_guard_def split: publication.splits)
    then show ?thesis using None finish by (simp add: guard_at_def)
  next
    case (Some g)
    then obtain v ds ca e where "p = PutRecord v ds ca (Some g) \<or> p = PutError e (Some g)"
      using finish by (cases p) (auto simp: guard_at_def)
    from settle_entries [OF this, of r] Some finish show ?thesis by (auto simp: guard_at_def)
  qed
qed (auto simp: guard_at_def)

lemma step_follow:
  assumes "access_step eq q (c, r, m, pc) (c', r', m', pc')" and "follow_ok r pc"
    and "\<And>k e. tget (reg_map r) k = Some e \<Longrightarrow> e < length (reg_entries r)"
    and "\<And>e. e < length (reg_entries r) \<Longrightarrow> ife_state (reg_entries r ! e) = IfRunning \<Longrightarrow> ife_epoch (reg_entries r ! e) = 0"
  shows "follow_ok r' pc'"
  using assms
  by (cases rule: access_stepE) (auto simp: try_lead_def Let_def split: option.splits)


lemma flight_okI:
  assumes "\<And>k e. tget (reg_map (ks_reg s)) k = Some e \<Longrightarrow> e < length (reg_entries (ks_reg s))"
    and "\<And>e. e < length (reg_entries (ks_reg s)) \<Longrightarrow> entry_ok (ks_pcs s) e (reg_entries (ks_reg s) ! e)"
    and "\<And>i. follow_ok (ks_reg s) (ks_pcs s i)"
    and "\<And>i g. guard_at (ks_pcs s i) = Some g \<Longrightarrow> g_entry g < length (reg_entries (ks_reg s))"
  shows "flight_ok s"
  using assms unfolding flight_ok_def by blast

lemma flight_okD:
  assumes "flight_ok s"
  shows "tget (reg_map (ks_reg s)) k = Some e \<Longrightarrow> e < length (reg_entries (ks_reg s))"
    and "e < length (reg_entries (ks_reg s)) \<Longrightarrow> entry_ok (ks_pcs s) e (reg_entries (ks_reg s) ! e)"
    and "follow_ok (ks_reg s) (ks_pcs s i)"
    and "guard_at (ks_pcs s i) = Some g \<Longrightarrow> g_entry g < length (reg_entries (ks_reg s))"
  using assms unfolding flight_ok_def by blast+

lemma entry_ok_cong:
  "entry_ok pcs e x \<Longrightarrow> (\<And>j g. guard_at (pcs j) = Some g \<Longrightarrow> g_entry g = e \<Longrightarrow> \<exists>k h. guard_at (pcs' k) = Some h \<and> g_entry h = e)
   \<Longrightarrow> entry_ok pcs' e x"
  unfolding entry_ok_def by (auto split: if_splits)

lemma flight_ok_pcs:
  assumes "flight_ok s" and "guard_at pc = guard_at (ks_pcs s i)" and "follow_ok (ks_reg s) pc"
    and s': "ks_reg s' = ks_reg s" "ks_pcs s' = (ks_pcs s)(i := pc)"
  shows "flight_ok s'"
proof (rule flight_okI, unfold s')
  have same: "guard_at (((ks_pcs s)(i := pc)) k) = guard_at (ks_pcs s k)" for k using assms(2) by simp
  fix e assume "e < length (reg_entries (ks_reg s))"
  from flight_okD(2) [OF assms(1) this] show "entry_ok ((ks_pcs s)(i := pc)) e (reg_entries (ks_reg s) ! e)"
    by (rule entry_ok_cong) (use same in metis)
next
  fix k show "follow_ok (ks_reg s) (((ks_pcs s)(i := pc)) k)" using flight_okD(3) [OF assms(1)] assms(3) by simp
next
  fix k g assume "guard_at (((ks_pcs s)(i := pc)) k) = Some g"
  then have "guard_at (ks_pcs s k) = Some g" using assms(2) by (auto split: if_splits)
  then show "g_entry g < length (reg_entries (ks_reg s))" by (rule flight_okD(4) [OF assms(1)])
qed (use flight_okD(1) [OF assms(1)] in blast)

lemma flight_ok_task:
  assumes ok: "flight_ok s"
    and step: "access_step eq q (c, ks_reg s, m, ks_pcs s i) (c', r', m', pc')"
    and s': "ks_reg s' = r'" "ks_pcs s' = (ks_pcs s)(i := pc')"
  shows "flight_ok s'"
proof -
  let ?r = "ks_reg s"
  have quiet_entries: "ife_epoch (reg_entries ?r ! e) = 0"
    if "e < length (reg_entries ?r)" "ife_state (reg_entries ?r ! e) = IfRunning" for e
    using flight_okD(2) [OF ok that(1)] that(2) by (simp add: entry_ok_def)
  have follow: "follow_ok r' pc'"
    by (rule step_follow [OF step flight_okD(3) [OF ok]]) (use flight_okD(1) [OF ok] quiet_entries in blast)+
  have others: "follow_ok r' (((ks_pcs s)(i := pc')) k)" if "reg_grows ?r r'" for k
    using follow follow_ok_grows [OF that flight_okD(3) [OF ok]] by simp
  from step_registry [OF step] consider
      (same) "r' = ?r" "guard_at pc' = guard_at (ks_pcs s i)"
    | (lead) g k where "guard_at (ks_pcs s i) = None" "guard_at pc' = Some g" "g_entry g = length (reg_entries ?r)"
        "r' = ?r\<lparr>reg_entries := reg_entries ?r @ [entry_new], reg_map := tinsert k (length (reg_entries ?r)) (reg_map ?r)\<rparr>"
    | (settle) g st where "guard_at (ks_pcs s i) = Some g" "guard_at pc' = None" "st \<noteq> IfRunning"
        "reg_map r' = tremove (g_key g) (reg_map ?r)"
        "reg_entries r' = (reg_entries ?r)[g_entry g := \<lparr>ife_state = st, ife_epoch = Suc (ife_epoch (reg_entries ?r ! g_entry g))\<rparr>]"
    by blast
  then show ?thesis
  proof cases
    case same
    then show ?thesis using follow by (intro flight_ok_pcs [OF ok, of pc' i]) (simp_all add: s')
  next
    case lead
    have grows: "reg_grows ?r r'" by (simp add: reg_grows_def lead(4) nth_append)
    show ?thesis
    proof (rule flight_okI, unfold s')
      fix k' e assume "tget (reg_map r') k' = Some e"
      then show "e < length (reg_entries r')"
        using flight_okD(1) [OF ok, of k' e] by (auto simp: lead(4) split: if_splits)
    next
      fix e assume e: "e < length (reg_entries r')"
      show "entry_ok ((ks_pcs s)(i := pc')) e (reg_entries r' ! e)"
      proof (cases "e = length (reg_entries ?r)")
        case True
        then have "guard_at (((ks_pcs s)(i := pc')) i) = Some g \<and> g_entry g = e" using lead(2,3) by simp
        then show ?thesis using True by (auto simp: entry_ok_def lead(4) entry_new_def)
      next
        case False
        then have "e < length (reg_entries ?r)" "reg_entries r' ! e = reg_entries ?r ! e" using e by (auto simp: lead(4) nth_append)
        with flight_okD(2) [OF ok, of e] have "entry_ok (ks_pcs s) e (reg_entries r' ! e)" by simp
        then show ?thesis
        proof (rule entry_ok_cong)
          fix j h assume "guard_at (ks_pcs s j) = Some h" "g_entry h = e"
          moreover from this lead(1) have "j \<noteq> i" by auto
          ultimately show "\<exists>k h. guard_at (((ks_pcs s)(i := pc')) k) = Some h \<and> g_entry h = e" by (intro exI [of _ j]) auto
        qed
      qed
    next
      fix k h assume "guard_at (((ks_pcs s)(i := pc')) k) = Some h"
      then show "g_entry h < length (reg_entries r')"
        using flight_okD(4) [OF ok, of k h] lead(2,3) by (auto simp: lead(4) split: if_splits)
    qed (rule others [OF grows])
  next
    case settle
    have "ife_epoch (reg_entries ?r ! e) \<le> ife_epoch (reg_entries r' ! e)" if "e < length (reg_entries ?r)" for e
      using that unfolding settle(5) by (cases "e = g_entry g") simp_all
    then have grows: "reg_grows ?r r'" by (simp add: reg_grows_def settle(5))
    show ?thesis
    proof (rule flight_okI, unfold s')
      fix k' e assume "tget (reg_map r') k' = Some e"
      then show "e < length (reg_entries r')"
        using flight_okD(1) [OF ok, of k' e] by (auto simp: settle(4,5) split: if_splits)
    next
      fix e assume e: "e < length (reg_entries r')"
      show "entry_ok ((ks_pcs s)(i := pc')) e (reg_entries r' ! e)"
      proof (cases "e = g_entry g")
        case True
        then show ?thesis using e settle(3) by (simp add: entry_ok_def settle(5))
      next
        case False
        then have "e < length (reg_entries ?r)" "reg_entries r' ! e = reg_entries ?r ! e" using e by (auto simp: settle(5))
        with flight_okD(2) [OF ok, of e] have "entry_ok (ks_pcs s) e (reg_entries r' ! e)" by simp
        then show ?thesis
        proof (rule entry_ok_cong)
          fix j h assume "guard_at (ks_pcs s j) = Some h" "g_entry h = e"
          moreover from this settle(1) False have "j \<noteq> i" by auto
          ultimately show "\<exists>k h. guard_at (((ks_pcs s)(i := pc')) k) = Some h \<and> g_entry h = e" by (intro exI [of _ j]) auto
        qed
      qed
    next
      fix k h assume "guard_at (((ks_pcs s)(i := pc')) k) = Some h"
      then show "g_entry h < length (reg_entries r')"
        using flight_okD(4) [OF ok, of k h] settle(2) by (auto simp: settle(5) split: if_splits)
    qed (rule others [OF grows])
  qed
qed

lemma flight_ok_step: "key_step eq q home s s' \<Longrightarrow> flight_ok s \<Longrightarrow> flight_ok s'"
proof (induction rule: key_step.induct)
  case (call s i)
  have "guard_at (ks_pcs s i) = None"
    using call.hyps by (cases "ks_pcs s i") (simp_all add: idle_pc_def guard_at_def)
  then have "guard_at Top = guard_at (ks_pcs s i)" by (simp add: guard_at_def)
  then show ?case by (rule flight_ok_pcs [OF call.prems]) simp_all
next
  case (task s i c r m pc)
  from flight_ok_task [OF task.prems task.hyps] show ?case by simp
qed (simp_all add: flight_ok_def)

subsection \<open>No deadlock\<close>

lemma quiet_ok: "quiet s \<Longrightarrow> cell_ok home s d \<and> flight_ok s"
  by (simp add: quiet_def cell_ok_def flight_ok_def registry0_def guard_at_def)

lemma reachable_ok:
  assumes "(key_step eq q home)\<^sup>*\<^sup>* s0 s" and "quiet s0"
  shows "cell_ok home s d \<and> flight_ok s"
  using assms
proof (induction rule: rtranclp_induct)
  case (step s s')
  then show ?case using cell_ok_step flight_ok_step by blast
qed (simp add: quiet_ok)

text \<open>A task that does not sleep has a next step.\<close>

definition sleeps :: "'v cell_pc \<Rightarrow> bool" where
  "sleeps pc \<longleftrightarrow> (\<exists>ep. pc = Asleep ep) \<or> (\<exists>rv e ep. pc = FollowAsleep rv e ep)"

definition can_step :: "('v \<Rightarrow> 'v \<Rightarrow> bool) \<Rightarrow> DynKey \<Rightarrow> (nat \<Rightarrow> nat) \<Rightarrow> 'v key_state \<Rightarrow> nat \<Rightarrow> bool" where
  "can_step eq q home s i \<longleftrightarrow> (\<exists>x. access_step eq q (ks_cells s (home i), ks_reg s, ks_cache s, ks_pcs s i) x)"

lemma awake_steps:
  assumes "\<not> idle_pc pc" and "\<not> sleeps pc"
  shows "\<exists>x. access_step eq q (c, r, m, pc) x"
proof (cases pc)
  case (Observing rv ep)
  show ?thesis
  proof (cases "observe True rv (kc_state c)")
    case (ObsReady x ca)
    then obtain v where "x = Some v" by (auto simp: observe_def split: ErasedState.splits if_splits)
    then show ?thesis using Observing ObsReady by (blast intro: hit)
  qed (use Observing in \<open>blast intro: poisoned running stale_ready stale_other\<close>)+
next
  case (Verified rv)
  then show ?thesis using verify verify_raced by (metis (no_types))
next
  case (Starting rv)
  then show ?thesis by (cases "start_running rv (kc_state c)") (blast intro: start start_raced)+
next
  case (Started rv prev)
  show ?thesis
  proof (cases "shared_cache_get (kc_scope c) (dk_kind q) (dk_key q) m")
    case None
    then show ?thesis using Started by (blast intro: cache_miss)
  next
    case (Some rec)
    then show ?thesis using Started by (cases "sr_verified_at rec = rv") (blast intro: cache_fresh cache_stale)+
  qed
next
  case (Entering rv prev)
  let ?k = "\<lparr>if_runtime_id = kc_scope c, if_revision = rv, if_kind = dk_kind q, if_key = dk_key q\<rparr>"
  obtain lead r' where "try_lead ?k r = (lead, r')" by fastforce
  then show ?thesis using Entering by (cases lead) (blast intro: access_step.lead access_step.follow)+
next
  case (FollowArmed rv e ep)
  then show ?thesis
    by (cases "ife_state (reg_entries r ! e)") (blast intro: follow_running follow_done follow_failed follow_cancelled)+
next
  case (Copying rv x)
  show ?thesis
  proof (cases x)
    case (Inr y)
    then show ?thesis using Copying by (cases y) (blast intro: copy_value)
  qed (use Copying in \<open>blast intro: copy_error\<close>)
next
  case (Computed rv prev g res ds)
  then show ?thesis by (cases res) (blast intro: write_error write_value)+
next
  case (Leaving rv res)
  then show ?thesis by (cases "kc_rev c = rv") (blast intro: leave leave_stale)+
qed ((use assms in \<open>simp add: idle_pc_def sleeps_def; fail\<close>)
    | blast intro: read_rev arm check_true revalidate_true adopt vacate follow_arm compute notify finish)+

lemma awake_can_step: "\<not> idle_pc (ks_pcs s i) \<Longrightarrow> \<not> sleeps (ks_pcs s i) \<Longrightarrow> can_step eq q home s i"
  unfolding can_step_def by (rule awake_steps)


lemma follower_can_go:
  assumes ok: "flight_ok s" and i: "ks_pcs s i = FollowAsleep rv e ep"
  shows "\<exists>j. \<not> idle_pc (ks_pcs s j) \<and> can_step eq q home s j"
proof -
  have e: "e < length (reg_entries (ks_reg s))" "ep = 0" using flight_okD(3) [OF ok, of i] i by simp_all
  note entry = flight_okD(2) [OF ok e(1)]
  show ?thesis
  proof (cases "ife_state (reg_entries (ks_reg s) ! e) = IfRunning")
    case True
    with entry obtain j g where g: "guard_at (ks_pcs s j) = Some g" by (auto simp: entry_ok_def)
    then have "\<not> idle_pc (ks_pcs s j)" "\<not> sleeps (ks_pcs s j)"
      by (cases "ks_pcs s j"; simp add: guard_at_def idle_pc_def sleeps_def)+
    then show ?thesis using awake_can_step by blast
  next
    case False
    then have "ep < ife_epoch (reg_entries (ks_reg s) ! e)" using entry e(2) by (simp add: entry_ok_def)
    then have "can_step eq q home s i" unfolding can_step_def i by (blast intro: follow_wake)
    then show ?thesis using i by (intro exI [of _ i]) (simp add: idle_pc_def)
  qed
qed

lemma waiter_can_go:
  assumes cell: "cell_ok home s (home i)" and ok: "flight_ok s" and i: "ks_pcs s i = Asleep ep"
  shows "\<exists>j. \<not> idle_pc (ks_pcs s j) \<and> can_step eq q home s j"
proof (cases "ep < kc_epoch (ks_cells s (home i))")
  case True
  then have "can_step eq q home s i" unfolding can_step_def i by (blast intro: wake)
  then show ?thesis using i by (intro exI [of _ i]) (simp add: idle_pc_def)
next
  case False
  with cell_okD(3) [OF cell refl i] have "ks_pcs s i = Asleep (kc_epoch (ks_cells s (home i)))" using i by simp
  from cell_okD(4) [OF cell refl this] obtain j where j: "wakes (ks_cells s (home i)) (ks_pcs s j)" by blast
  show ?thesis
  proof (cases "sleeps (ks_pcs s j)")
    case True
    with j obtain rv e ep' where "ks_pcs s j = FollowAsleep rv e ep'" by (auto simp: sleeps_def pc_sorts)
    from follower_can_go [OF ok this] show ?thesis .
  next
    case False
    moreover have "\<not> idle_pc (ks_pcs s j)" using j by (cases "ks_pcs s j") (simp_all add: pc_sorts)
    ultimately show ?thesis using awake_can_step by blast
  qed
qed

text \<open>
  C14. Tasks that ask for one query at once never deadlock. Any number of tasks, on a database and its snapshots, any schedule,
  any results of the query and of the revalidations, with writes in between: as long as nobody is cancelled and no
  adoption fails, whenever a task is inside the access, some task inside it can go on. In particular no notification is lost
  between a look at the cell and the wait, although a follower makes its cell vacant without a notification.
\<close>

theorem accesses_never_deadlock:
  assumes "quiet s0" and "(key_step eq q home)\<^sup>*\<^sup>* s0 s" and "\<not> idle_pc (ks_pcs s i)"
  shows "\<exists>j s'. \<not> idle_pc (ks_pcs s j) \<and> can_step eq q home s j \<and> key_step eq q home s s'
     \<and> (\<forall>k. k \<noteq> j \<longrightarrow> ks_pcs s' k = ks_pcs s k)"
proof -
  have ok: "cell_ok home s (home i)" "flight_ok s" using reachable_ok [OF assms(2,1)] by blast+
  obtain j where j: "\<not> idle_pc (ks_pcs s j)" "can_step eq q home s j"
  proof (cases "sleeps (ks_pcs s i)")
    case True
    then show ?thesis
      using waiter_can_go [OF ok, where eq = eq and q = q] follower_can_go [OF ok(2), where eq = eq and q = q and home = home] that
      unfolding sleeps_def by metis
  next
    case False
    then show ?thesis using awake_can_step [OF assms(3)] assms(3) that by blast
  qed
  then obtain c r m pc where "access_step eq q (ks_cells s (home j), ks_reg s, ks_cache s, ks_pcs s j) (c, r, m, pc)"
    unfolding can_step_def by (metis prod_cases4)
  from key_step.task [where home = home, OF this] show ?thesis using j by (intro exI conjI) auto
qed

subsection \<open>A cancelled access\<close>

text \<open>The cell is marked as running, and nobody is there to write it.\<close>

fun shut_out :: "nat \<Rightarrow> 'v cell_pc \<Rightarrow> bool" where
  "shut_out n Outside = True"
| "shut_out n Top = True"
| "shut_out n (Revised rv) = True"
| "shut_out n (Observing rv ep) = (ep = n)"
| "shut_out n (Asleep ep) = (ep = n)"
| "shut_out n _ = False"

definition orphaned :: "(nat \<Rightarrow> nat) \<Rightarrow> nat \<Rightarrow> 'v key_state \<Rightarrow> bool" where
  "orphaned home d s \<longleftrightarrow> (\<exists>rv. kc_state (ks_cells s d) = Running rv)
     \<and> (\<forall>i. home i = d \<longrightarrow> shut_out (kc_epoch (ks_cells s d)) (ks_pcs s i))"

lemma shut_out_step:
  "access_step eq q (c, r, m, pc) (c', r', m', pc') \<Longrightarrow> kc_state c = Running rv \<Longrightarrow> shut_out (kc_epoch c) pc
   \<Longrightarrow> c' = c \<and> shut_out (kc_epoch c) pc'"
  by (erule access_stepE) (auto simp: observe_def)

lemma orphaned_key_step: "key_step eq q home s s' \<Longrightarrow> orphaned home d s \<Longrightarrow> orphaned home d s'"
proof (induction rule: key_step.induct)
  case (task s i c r m pc)
  show ?case
  proof (cases "home i = d")
    case True
    from task.prems obtain rv where "kc_state (ks_cells s d) = Running rv" "shut_out (kc_epoch (ks_cells s d)) (ks_pcs s i)"
      using True by (auto simp: orphaned_def)
    with shut_out_step [OF task.hyps] True
    have "c = ks_cells s d" "shut_out (kc_epoch (ks_cells s d)) pc" by auto
    then show ?thesis using task.prems True by (auto simp: orphaned_def)
  qed (use task.prems in \<open>auto simp: orphaned_def\<close>)
qed (auto simp: orphaned_def)

lemma orphaned_abandon_step: "abandon_step s s' \<Longrightarrow> orphaned home d s \<Longrightarrow> orphaned home d s'"
proof (induction rule: abandon_step.induct)
  case (adopt_error s i rv prev rec e)
  then have "home i \<noteq> d" by (auto simp: orphaned_def)
  with adopt_error show ?case by (auto simp: orphaned_def)
qed (auto simp: orphaned_def)

definition any_step :: "('v \<Rightarrow> 'v \<Rightarrow> bool) \<Rightarrow> DynKey \<Rightarrow> (nat \<Rightarrow> nat) \<Rightarrow> 'v key_state \<Rightarrow> 'v key_state \<Rightarrow> bool" where
  "any_step eq q home s s' \<longleftrightarrow> key_step eq q home s s' \<or> abandon_step s s'"

lemma orphaned_for_ever: "(any_step eq q home)\<^sup>*\<^sup>* s s' \<Longrightarrow> orphaned home d s \<Longrightarrow> orphaned home d s'"
  by (induction rule: rtranclp_induct) (auto simp: any_step_def intro: orphaned_key_step orphaned_abandon_step)

text \<open>The steps of one task on its own.\<close>

definition solo :: "(nat \<Rightarrow> nat) \<Rightarrow> 'v key_state \<Rightarrow> nat \<Rightarrow> 'v task_view \<Rightarrow> 'v key_state" where
  "solo home s i v = (case v of (c, r, m, pc) \<Rightarrow>
     s\<lparr>ks_cells := (ks_cells s)(home i := c), ks_reg := r, ks_cache := m, ks_pcs := (ks_pcs s)(i := pc)\<rparr>)"

lemma solo_step: "access_step eq q v v' \<Longrightarrow> key_step eq q home (solo home s i v) (solo home s i v')"
proof -
  assume step: "access_step eq q v v'"
  obtain c r m pc c' r' m' pc' where v: "v = (c, r, m, pc)" "v' = (c', r', m', pc')" by (metis prod_cases4)
  have "key_step eq q home (solo home s i v) ((solo home s i v)\<lparr>ks_cells := (ks_cells (solo home s i v))(home i := c'),
      ks_reg := r', ks_cache := m', ks_pcs := (ks_pcs (solo home s i v))(i := pc')\<rparr>)"
    by (rule key_step.task) (use step in \<open>simp add: solo_def v\<close>)
  then show ?thesis by (simp add: solo_def v)
qed

lemma solo_steps: "(access_step eq q)\<^sup>*\<^sup>* v v' \<Longrightarrow> (key_step eq q home)\<^sup>*\<^sup>* (solo home s i v) (solo home s i v')"
  by (induction rule: rtranclp_induct) (auto intro: rtranclp.rtrancl_into_rtrancl solo_step)

text \<open>From a vacant cell to the computation, for a query nobody has computed.\<close>

lemma run_to_compute:
  fixes c :: "'v db_cell"
  assumes "kc_state c = Vacant" and "shared_cache_get (kc_scope c) (dk_kind q) (dk_key q) m = None"
  shows "\<exists>g r. (access_step eq q)\<^sup>*\<^sup>* (c, registry0, m, Top) (c\<lparr>kc_state := Running (kc_rev c)\<rparr>, r, m, Leading (kc_rev c) None g)"
proof -
  let ?c = "c\<lparr>kc_state := Running (kc_rev c)\<rparr>"
  let ?k = "\<lparr>if_runtime_id = kc_scope c, if_revision = kc_rev c, if_kind = dk_kind q, if_key = dk_key q\<rparr>"
  obtain g and r :: "'v registry" where lead: "try_lead ?k registry0 = (Leader g, r)"
    by (simp add: try_lead_def registry0_def)
  have 0: "access_step eq q (c, registry0, m, Top) (c, registry0, m, Revised (kc_rev c))" by (rule read_rev)
  have 1: "access_step eq q (c, registry0, m, Revised (kc_rev c)) (c, registry0, m, Observing (kc_rev c) (kc_epoch c))"
    by (rule arm)
  have 2: "access_step eq q (c, registry0, m, Observing (kc_rev c) (kc_epoch c)) (c, registry0, m, Starting (kc_rev c))"
    by (rule stale_other) (simp add: assms observe_def)
  have 3: "access_step eq q (c, registry0, m, Starting (kc_rev c)) (?c, registry0, m, Started (kc_rev c) None)"
    by (rule start) (simp add: assms start_running_def)
  have 4: "access_step eq q (?c, registry0, m, Started (kc_rev c) None) (?c, registry0, m, Entering (kc_rev c) None)"
    by (rule cache_miss) (simp add: assms)
  have 5: "access_step eq q (?c, registry0, m, Entering (kc_rev c) None) (?c, r, m, Leading (kc_rev c) None g)"
    by (rule access_step.lead) (simp add: lead)
  show ?thesis using 0 1 2 3 4 5 by (meson rtranclp.rtrancl_into_rtrancl rtranclp.rtrancl_refl)
qed


text \<open>
  C19. A cancelled access blocks its query. On databases where the query is nowhere being computed and every cell of it is vacant, with an
  empty registry and no record for it in the shared cache, someone asks for it; while the function runs the
  future is dropped. The guard tells the followers in other databases, but the cell of this database stays marked as
  running: after any further accesses of any task, cancellations, input writes and puts of the shared cache, it still is, and no task
  has got an answer for this query from this database. (Loading a cache and replaying a log replace the cell; they are
  not among these steps. \<open>r[derived.cancel-progress]\<close> of the specification: cancellation must not permanently
  block progress.)
\<close>

theorem cancelled_access_blocks_for_ever:
  assumes "quiet s0"
    and "shared_cache_get (kc_scope (ks_cells s0 (home i))) (dk_kind q) (dk_key q) (ks_cache s0) = None"
  shows "\<exists>s1 s2. (key_step eq q home)\<^sup>*\<^sup>* s0 s1 \<and> (\<exists>rv prev g. ks_pcs s1 i = Leading rv prev g)
     \<and> abandon_step s1 s2 \<and> (\<forall>j. ks_pcs s2 j = Outside)
     \<and> (\<forall>s3. (any_step eq q home)\<^sup>*\<^sup>* s2 s3 \<longrightarrow> (\<exists>rv. kc_state (ks_cells s3 (home i)) = Running rv)
          \<and> (\<forall>j res. home j = home i \<longrightarrow> ks_pcs s3 j \<noteq> Got res))"
proof -
  let ?c = "ks_cells s0 (home i)" and ?m = "ks_cache s0"
  have s0: "kc_state ?c = Vacant" "ks_reg s0 = registry0" "\<And>j. ks_pcs s0 j = Outside" using assms(1) by (simp_all add: quiet_def)
  obtain g r where run: "(access_step eq q)\<^sup>*\<^sup>* (?c, registry0, ?m, Top) (?c\<lparr>kc_state := Running (kc_rev ?c)\<rparr>, r, ?m, Leading (kc_rev ?c) None g)"
    using run_to_compute [OF s0(1) assms(2)] by blast
  let ?s1 = "solo home s0 i (?c\<lparr>kc_state := Running (kc_rev ?c)\<rparr>, r, ?m, Leading (kc_rev ?c) None g)"
  let ?s2 = "?s1\<lparr>ks_reg := drop_held (ks_pcs ?s1 i) (ks_reg ?s1), ks_pcs := (ks_pcs ?s1)(i := Outside)\<rparr>"
  have "key_step eq q home s0 (s0\<lparr>ks_pcs := (ks_pcs s0)(i := Top)\<rparr>)" by (rule key_step.call) (simp add: s0 idle_pc_def)
  moreover have "s0\<lparr>ks_pcs := (ks_pcs s0)(i := Top)\<rparr> = solo home s0 i (?c, registry0, ?m, Top)"
    by (cases s0) (use s0(2) in \<open>simp add: solo_def\<close>)
  ultimately have 1: "(key_step eq q home)\<^sup>*\<^sup>* s0 ?s1"
    using solo_steps [OF run, where home = home and s = s0 and i = i] by (metis converse_rtranclp_into_rtranclp)
  have 2: "ks_pcs ?s1 i = Leading (kc_rev ?c) None g" by (simp add: solo_def)
  have 3: "abandon_step ?s1 ?s2" by (rule abandon_step.cancel) (simp add: solo_def waits_def)
  have 4: "ks_pcs ?s2 j = Outside" for j by (simp add: solo_def s0)
  have "orphaned home (home i) ?s2" by (simp add: orphaned_def solo_def s0)
  then have 5: "orphaned home (home i) s3" if "(any_step eq q home)\<^sup>*\<^sup>* ?s2 s3" for s3
    using orphaned_for_ever [OF that] by blast
  have 6: "(\<exists>rv. kc_state (ks_cells s3 (home i)) = Running rv) \<and> (\<forall>j res. home j = home i \<longrightarrow> ks_pcs s3 j \<noteq> Got res)"
    if "(any_step eq q home)\<^sup>*\<^sup>* ?s2 s3" for s3
    using 5 [OF that] by (fastforce simp: orphaned_def)
  show ?thesis using 1 2 3 4 6 by blast
qed


subsection \<open>Sample states\<close>

definition demo_keys :: "u8 key_state" where
  "demo_keys = \<lparr>ks_cells = (\<lambda>_. \<lparr>kc_state = Vacant, kc_epoch = 0, kc_rev = Revision 1, kc_scope = RuntimeId 7\<rparr>),
     ks_reg = registry0, ks_cache = shared_cache_init None, ks_pcs = (\<lambda>_. Outside)\<rparr>"

lemma quiet_demo_keys: "quiet demo_keys"
  by (simp add: quiet_def demo_keys_def)

theorem accesses_never_deadlock_witness:
  "\<exists>j s'. can_step (=) (demo_key 1 1) (\<lambda>i. i) (demo_keys\<lparr>ks_pcs := (\<lambda>_. Outside)(3 := Top)\<rparr>) j
     \<and> key_step (=) (demo_key 1 1) (\<lambda>i. i) (demo_keys\<lparr>ks_pcs := (\<lambda>_. Outside)(3 := Top)\<rparr>) s'"
proof -
  let ?s = "demo_keys\<lparr>ks_pcs := (\<lambda>_. Outside)(3 := Top)\<rparr>"
  have "key_step (=) (demo_key 1 1) (\<lambda>i. i) demo_keys (demo_keys\<lparr>ks_pcs := (ks_pcs demo_keys)(3 := Top)\<rparr>)"
    by (rule key_step.call) (simp add: demo_keys_def idle_pc_def)
  then have "(key_step (=) (demo_key 1 1) (\<lambda>i. i))\<^sup>*\<^sup>* demo_keys ?s" by (simp add: demo_keys_def)
  from accesses_never_deadlock [OF quiet_demo_keys this, of 3] show ?thesis by (auto simp: idle_pc_def)
qed

theorem cancelled_access_blocks_for_ever_witness:
  "\<exists>s. (any_step (=) (demo_key 1 1) (\<lambda>i. i))\<^sup>*\<^sup>* demo_keys s \<and> (\<forall>j. ks_pcs s j = Outside)
     \<and> (\<exists>rv. kc_state (ks_cells s 0) = Running rv)"
proof -
  have "shared_cache_get (kc_scope (ks_cells demo_keys 0)) (dk_kind (demo_key 1 1)) (dk_key (demo_key 1 1)) (ks_cache demo_keys) = None"
    by (simp add: demo_keys_def shared_cache_get_def shared_cache_init_def)
  from cancelled_access_blocks_for_ever [OF quiet_demo_keys, where home = "\<lambda>i. i" and i = 0, OF this, where eq = "(=)"]
  obtain s1 s2 where s: "(key_step (=) (demo_key 1 1) (\<lambda>i. i))\<^sup>*\<^sup>* demo_keys s1" "abandon_step s1 s2" "\<forall>j. ks_pcs s2 j = Outside"
    "\<exists>rv. kc_state (ks_cells s2 0) = Running rv"
    by blast
  have "(any_step (=) (demo_key 1 1) (\<lambda>i. i))\<^sup>*\<^sup>* demo_keys s1"
    using s(1) by (rule rtranclp_mono [THEN predicate2D, rotated]) (auto simp: any_step_def)
  then have "(any_step (=) (demo_key 1 1) (\<lambda>i. i))\<^sup>*\<^sup>* demo_keys s2"
    by (rule rtranclp.rtrancl_into_rtrancl) (simp add: any_step_def s(2))
  with s(3,4) show ?thesis by blast
qed

end
