(* ===== verification/Spec2Isabelle.thy ===== *)
theory Spec2Isabelle
  imports Findings Recovery Debug FacetEq DbApi Termination Liveness TypeSafety TraitObjects Cells
begin

text \<open>
  A model of picante, an incremental query runtime in Rust (crates \<open>picante\<close> and \<open>picante-macros\<close>).

  \<^bold>\<open>The program.\<close> A database has ingredients of three kinds. Inputs are key-value tables that the application
  writes; every effective write takes a new revision from the runtime and walks the dependency graph to
  announce what it invalidates. Interned ingredients give values stable ids. Derived ingredients
  memoise query functions: an access checks for cycles on the stack of its task, returns a memo verified
  at the current revision, else revalidates the dependencies of an old memo, adopts a record of the
  process-wide cache, follows another task that computes the same key, or runs the function under a frame
  that records what it reads. A snapshot is a second database with copied inputs and memos that shares the
  interned tables and the cache. The whole state can be saved to a cache file, and changes since then to
  a write-ahead log that is replayed on top of it. Macros generate the database struct, its ingredients
  and the client interface.

  \<^bold>\<open>The theories and the code they model\<close> (under \<open>src/crates/picante/src\<close> unless a crate is named):

  \<^item> \<open>Prelude\<close>: machine words, association tables for the hash maps, codecs, number printing.
    \<open>Interfaces\<close>: the contracts between components as locales (a revision counter, a dependency graph, a
    persistable ingredient), interpreted in \<open>RuntimeProps\<close>, \<open>Inputs\<close>, \<open>Interned\<close> and \<open>Derived\<close>.
  \<^item> \<open>Keys\<close> (\<open>revision.rs\<close>, \<open>key.rs\<close>), \<open>Errors\<close> (\<open>error.rs\<close>), \<open>Frames\<close> (\<open>frame.rs\<close>).
  \<^item> \<open>Runtimes\<close> (\<open>runtime.rs\<close>) and \<open>RuntimeProps\<close>: revisions, events, dependency graph, invalidation,
    cache scopes; the reverse edges are the converse of the forward edges and the walk is exact.
  \<^item> \<open>Inputs\<close> (\<open>ingredient/input.rs\<close>), \<open>Interned\<close> (\<open>ingredient/interned.rs\<close>), \<open>Derived\<close> (the records, cells and
    persistence of \<open>ingredient/derived.rs\<close>). \<open>Erasure\<close>: the type-erased cores below both, and that they refine
    them; \<open>TypeSafety\<close>: that no cast of a read fails;
    \<open>TraitObjects\<close>: the method tables of the erased cores.
  \<^item> \<open>Inflight\<close> (\<open>inflight.rs\<close>): the cache, bounded as long as puts do not overlap, and the
    leader and follower registry as a step relation over any number of threads. \<open>Liveness\<close>: in a fair run every request ends.
  \<^item> \<open>Access\<close> (\<open>ingredient/derived.rs\<close>: \<open>access_scoped_erased\<close>, \<open>try_revalidate\<close>, \<open>get\<close>, \<open>touch\<close>; \<open>db.rs\<close>): the
    state machine of an access. \<open>AccessCorrect\<close> and \<open>Consistency\<close> prove that, for acyclic queries that do not
    fail, it returns what evaluation from scratch returns; \<open>WorldInv\<close> what it leaves alone whatever the queries
    do; \<open>Termination\<close> that it ends or waits; \<open>Settled\<close> the reads whose course the cells already decide;
    \<open>Cells\<close> the same loop as steps of many tasks, with cancellation: when they deadlock and when not;
    \<open>Snapshots\<close> (\<open>from_database\<close>, \<open>picante-macros/src/db.rs\<close>) the same for snapshots.
  \<^item> \<open>Files\<close>: the file system and \<open>BufWriter\<close>, with a schedule of failures. \<open>Wal\<close> (\<open>wal.rs\<close>), \<open>Persist\<close>
    (\<open>persist.rs\<close>), \<open>PersistProps\<close> and \<open>LogReplay\<close>: atomic and bounded saves, the round trip of a database, crash
    safety and replay of the log. \<open>Recovery\<close>: snapshot and log together; inputs come back as they were, interned
    ids do not.
  \<^item> \<open>Debug\<close> (\<open>debug.rs\<close>), \<open>FacetEq\<close> (\<open>facet_eq.rs\<close>).
  \<^item> \<open>MacroTokens\<close>, \<open>MacroGrammar\<close> (\<open>picante-macros/src\<close>: \<open>util.rs\<close>, \<open>struct_item.rs\<close>): tokens, the declarations of
    the grammar and what is made of them. \<open>MacroExpand\<close> (\<open>input.rs\<close>, \<open>interned.rs\<close>, \<open>tracked.rs\<close>): what the item macros
    accept, the plan of what they generate, and the key of a query. \<open>MacroItems\<close>: how the generated methods
    behave. \<open>MacroDb\<close> (\<open>db.rs\<close>): the database macro. \<open>DbApi\<close>: the methods of a generated database, and that it
    comes back after a crash.
  \<^item> \<open>Findings\<close>: where the program does not do what it means to: a torn write, a handled error that comes back
    and a cell left running, each on any database; and runs of small ones.

  \<^bold>\<open>State.\<close> A record of the code is a record here, with the fields' names and a prefix; \<open>Arc\<close> and locks vanish where
  one thread runs, handles into shared objects (frames, in-flight entries, files) are indices into a store.
  Atomic integers are words and wrap. Hash maps are association lists: every state has some order, the
  theorems hold for all. Type-erased values (\<open>ArcAny\<close>) are a type
  parameter, outside \<open>Erasure\<close> and \<open>TypeSafety\<close>.

  \<^bold>\<open>Parameters.\<close> The serialisation library (\<open>codec\<close>, assumed lawful: decoding inverts encoding), the hash of a
  key's bytes, the reflection library, the case conversions and the parser library of the macros, and the
  query functions, which are strategy trees: return, fail, panic, or read and continue.

  \<^bold>\<open>Fuel.\<close> \<open>access_loop\<close> takes fuel because the loop of the code retries and nests. One unit per round or nested
  access is spent. \<open>from_scratch_consistency\<close> shows that for queries ordered by a rank, the rank of
  the query plus one is enough; \<open>runs_finish_or_wait\<close> that for any queries, cyclic and failing ones too, one unit for
  each reachable query is, and that more fuel gives the same run. Running out of fuel, and waiting for another
  task that is not there, are outcomes of their own, never results.

  \<^bold>\<open>Bounds.\<close> Revisions are 64-bit; the theorems on whole runs assume fewer than \<open>2 ^ 64\<close> writes. Interned ids are
  32-bit, and the theorems say what happens up to and at the limit. The path search is limited to 1000 edges,
  log entries to 100,000,000 bytes, as in the code.

  \<^bold>\<open>Not modelled.\<close> Tracing, timing and waiting times. \<open>Access\<close> runs one task, which sees the registry and the
  cache between its own steps, and reads a write of another task only in the half-written states of \<open>Findings\<close>;
  \<open>Cells\<close> runs many tasks, but on one query, whose function and dependencies end with any result. The registry
  of a running database holds inputs and derived ingredients; interned ones, whose \<open>touch\<close> always answers
  revision 0, are modelled on their own. The text of the generated code beyond its names, types and the bodies of
  its methods; trait-bound assertions;
  \<open>lib.rs\<close> and \<open>ingredient/mod.rs\<close>, which only re-export.
\<close>

end
